(* ===== verification/TM_Prelude.thy ===== *)
theory TM_Prelude
  imports Main "HOL-Library.Word"
begin

text \<open>
  Shared material of the development: the machine types of the code
  (\<open>uint8_t\<close> \dots \<open>uint64_t\<close>, pointers as 64-bit addresses), the
  named collections the component proofs use, and generic lemmas on words,
  lists and memories seen as functions from addresses to bytes.
\<close>

unbundle bit_operations_syntax

type_synonym u8 = "8 word"
type_synonym u16 = "16 word"
type_synonym u32 = "32 word"
type_synonym u64 = "64 word"

text \<open>A pointer is its 64-bit address; memory maps addresses to bytes.\<close>

type_synonym addr = u64
type_synonym mem = "addr \<Rightarrow> u8"

named_theorems tm_mem \<open>loads and stores of the byte memory\<close>
named_theorems tm_bits \<open>bit-level characterisations\<close>
named_theorems tm_defs \<open>definitions unfolded when a concrete run is evaluated\<close>

section \<open>Arithmetic of addresses\<close>

lemma unat_of_nat_u64: "n < 2 ^ 64 \<Longrightarrow> unat (of_nat n :: u64) = n"
  by (simp add: unat_of_nat take_bit_nat_eq_self)

lemma unat_u64_less: "unat (w :: u64) < 2 ^ 64"
  using unsigned_less [of w, where 'a = nat] by simp

lemma unat_add_of_nat_diff [simp]:
  fixes a :: u64
  assumes "n < 2 ^ 64"
  shows "unat (a + of_nat n - a) = n"
  by (simp only: add_diff_cancel_left' unat_of_nat_u64 [OF assms])

lemma unat_minus_one_u64: "unat (- 1 :: u64) = 2 ^ 64 - 1"
  by (simp add: unsigned_minus_1_eq_mask mask_eq_exp_minus_1)

lemma add_of_nat_eq_iff:
  fixes a :: u64
  assumes "m < 2 ^ 64" and "n < 2 ^ 64"
  shows "a + of_nat m = a + of_nat n \<longleftrightarrow> m = n"
proof
  assume "a + of_nat m = a + of_nat n"
  then have "(of_nat m :: u64) = of_nat n" by simp
  then have "unat (of_nat m :: u64) = unat (of_nat n :: u64)" by simp
  with assms show "m = n" by (simp add: unat_of_nat_u64)
qed simp

lemma unat_diff_Suc:
  fixes a b :: u64
  assumes "b \<noteq> a"
  shows "unat (b - a) = Suc (unat (b - (a + 1)))"
proof -
  have nz: "b - a \<noteq> 0" using assms by simp
  then have "unat (b - a - 1) = unat (b - a) - 1" by (rule unat_minus_one)
  moreover have "0 < unat (b - a)" using nz by (simp only: unat_gt_0 not_False_eq_True)
  moreover have "b - a - 1 = b - (a + 1)" by (simp only: diff_diff_eq)
  ultimately show ?thesis by (simp only: Suc_pred)
qed

lemma unat_diff_in_range:
  fixes a b :: u64
  assumes "b \<le> a" and "a < b + of_nat n"
  shows "unat (a - b) < n"
proof -
  have "unat (b + of_nat n) = (unat b + unat (of_nat n :: u64)) mod 2 ^ 64"
    by (simp add: unat_word_ariths)
  also have "\<dots> \<le> unat b + unat (of_nat n :: u64)" by (rule mod_less_eq_dividend)
  also have "unat (of_nat n :: u64) \<le> n" by (simp add: unat_of_nat take_bit_eq_mod)
  finally have "unat (b + of_nat n) \<le> unat b + n" by simp
  then show ?thesis using assms by (simp add: word_less_nat_alt word_le_nat_alt unat_sub)
qed

section \<open>Bits of words\<close>

lemma bit_mask_word [tm_bits]:
  "bit (mask n :: 'a::len word) k \<longleftrightarrow> k < n \<and> k < LENGTH('a)"
  by (auto simp: bit_mask_iff)

lemma word_bit_size [tm_bits]: "bit (w :: 'a::len word) k \<Longrightarrow> k < LENGTH('a)"
  by (rule bit_imp_le_length)

lemma bit_ucast_u8 [tm_bits]: "bit (ucast (w :: u64) :: u8) k \<longleftrightarrow> k < 8 \<and> bit w k"
  by (simp add: bit_simps)

lemma bit_ucast_u64 [tm_bits]: "bit (ucast (w :: u8) :: u64) k \<longleftrightarrow> bit w k"
  by (auto simp: bit_simps dest: bit_imp_le_length)

lemma u64_eqI:
  fixes v w :: u64
  assumes "\<And>k. k < 64 \<Longrightarrow> bit v k = bit w k"
  shows "v = w"
  by (rule bit_word_eqI) (use assms in simp)

lemma u64_bit_less: "bit (w :: u64) k \<Longrightarrow> k < 64"
  using bit_imp_le_length [of w k] by simp

lemma u64_eq_iff: "(v :: u64) = w \<longleftrightarrow> (\<forall>k < 64. bit v k = bit w k)"
  by (auto intro: u64_eqI)

lemma u8_eqI:
  fixes v w :: u8
  assumes "\<And>k. k < 8 \<Longrightarrow> bit v k = bit w k"
  shows "v = w"
  by (rule bit_word_eqI) (use assms in simp)

lemma word_lock_bit: "(w :: 'a::len word) AND 1 = 0 \<longleftrightarrow> even w"
  by (simp add: even_iff_mod_2_eq_zero and_one_eq)

section \<open>Lists\<close>

text \<open>The first hit of a partial function along a list.\<close>

fun first_some :: "('a \<Rightarrow> 'b option) \<Rightarrow> 'a list \<Rightarrow> 'b option" where
  "first_some f [] = None"
| "first_some f (x # xs) = (case f x of None \<Rightarrow> first_some f xs | Some y \<Rightarrow> Some y)"

lemma first_some_None: "first_some f xs = None \<longleftrightarrow> (\<forall>x\<in>set xs. f x = None)"
  by (induction xs) (auto split: option.splits)

lemma first_some_SomeD: "first_some f xs = Some y \<Longrightarrow> \<exists>x\<in>set xs. f x = Some y"
  by (induction xs) (auto split: option.splits)

lemma find_rev_last:
  assumes "P x"
  shows "find P (rev (xs @ [x])) = Some x"
  using assms by simp

lemma find_SomeD: "find P xs = Some x \<Longrightarrow> x \<in> set xs \<and> P x"
  by (induction xs) (auto split: if_splits)

lemma find_None_all: "find P xs = None \<longleftrightarrow> (\<forall>x\<in>set xs. \<not> P x)"
  by (auto simp: find_None_iff)

lemma option_eqI: "(\<And>v. x = Some v \<longleftrightarrow> y = Some v) \<Longrightarrow> x = y"
  by (cases x; cases y) auto

end
