(* ===== verification/TM_Common.thy ===== *)
theory TM_Common
  imports TM_Prelude
begin

text \<open>
  The typed values of \<open>backends/tm_impl/common/tm_common.hpp\<close>: the
  \<open>ValueType\<close> tags, the union \<open>any_type_t\<close>, the loads and stores of typed
  values and the byte offset of an address in its 8-byte word.
  The union is its eight bytes, read as its widest member \<open>u8\<close> on the
  little-endian targets of the project (x86-64, AArch64): the member
  \<open>u1\<close>/\<open>u2\<close>/\<open>u4\<close> is the low byte(s), and \<open>memcpy\<close> into a narrower
  member leaves the other bytes as they were.
\<close>

datatype ValueType = UINT8 | UINT16 | UINT32 | UINT64 | FLOAT | DOUBLE | POINTER

fun type_size :: "ValueType \<Rightarrow> nat" where
  "type_size UINT8 = 1"
| "type_size UINT16 = 2"
| "type_size UINT32 = 4"
| "type_size FLOAT = 4"
| "type_size UINT64 = 8"
| "type_size DOUBLE = 8"
| "type_size POINTER = 8"

text \<open>The union, and its members.\<close>

type_synonym any_type_t = u64

definition any_u1 :: "any_type_t \<Rightarrow> u8" where "any_u1 t = ucast t"
definition any_u2 :: "any_type_t \<Rightarrow> u16" where "any_u2 t = ucast t"
definition any_u4 :: "any_type_t \<Rightarrow> u32" where "any_u4 t = ucast t"
definition any_u8 :: "any_type_t \<Rightarrow> u64" where "any_u8 t = t"

text \<open>\<open>BYTE_MASK(n)\<close>, with its case for \<open>n >= 8\<close>.\<close>

definition BYTE_MASK :: "nat \<Rightarrow> u64" where
  "BYTE_MASK n = (if n \<ge> 8 then NOT 0 else push_bit (n * 8) 1 - 1)"

text \<open>\<open>memcpy\<close> of \<open>n\<close> bytes between memory and the low bytes of a union.\<close>

fun load_bytes :: "mem \<Rightarrow> addr \<Rightarrow> nat \<Rightarrow> u64" where
  "load_bytes m a 0 = 0"
| "load_bytes m a (Suc n) = ucast (m a) OR push_bit 8 (load_bytes m (a + 1) n)"

fun store_bytes :: "mem \<Rightarrow> addr \<Rightarrow> u64 \<Rightarrow> nat \<Rightarrow> mem" where
  "store_bytes m a v 0 = m"
| "store_bytes m a v (Suc n) = store_bytes (m(a := ucast v)) (a + 1) (drop_bit 8 v) n"

text \<open>
  \<open>MAP_ANY(T, AT, M, AM)\<close>: \<open>sizeof(AT)\<close> for each instance; \<open>setp\<close> copies that
  many bytes into the union, \<open>store\<close> copies them out, \<open>get\<close> reads the member.
\<close>

fun any_sizeof :: "ValueType \<Rightarrow> nat" where
  "any_sizeof UINT8 = 1"
| "any_sizeof UINT16 = 2"
| "any_sizeof UINT32 = 4"
| "any_sizeof UINT64 = 8"
| "any_sizeof FLOAT = 4"
| "any_sizeof DOUBLE = 8"
| "any_sizeof POINTER = 8"

definition any_setp :: "ValueType \<Rightarrow> any_type_t \<Rightarrow> mem \<Rightarrow> addr \<Rightarrow> any_type_t" where
  "any_setp T t m a =
     (t AND NOT (BYTE_MASK (any_sizeof T))) OR load_bytes m a (any_sizeof T)"

definition any_store :: "ValueType \<Rightarrow> any_type_t \<Rightarrow> mem \<Rightarrow> addr \<Rightarrow> mem" where
  "any_store T t m a = store_bytes m a t (any_sizeof T)"

definition return_any_type :: "ValueType \<Rightarrow> any_type_t \<Rightarrow> u64" where
  "return_any_type T t = t AND BYTE_MASK (any_sizeof T)"

definition fill_any_type :: "any_type_t \<Rightarrow> mem \<Rightarrow> addr \<Rightarrow> ValueType \<Rightarrow> any_type_t" where
  "fill_any_type t m a sz = any_setp sz t m a"

definition read_value_from_addr :: "mem \<Rightarrow> addr \<Rightarrow> ValueType \<Rightarrow> any_type_t" where
  "read_value_from_addr m a sz = fill_any_type 0 m a sz"

definition write_value_to_addr :: "mem \<Rightarrow> addr \<Rightarrow> any_type_t \<Rightarrow> ValueType \<Rightarrow> mem" where
  "write_value_to_addr m a val sz = any_store sz val m a"

definition any_to_u64 :: "any_type_t \<Rightarrow> ValueType \<Rightarrow> u64" where
  "any_to_u64 val sz = any_u8 val"

definition u64_to_any :: "u64 \<Rightarrow> ValueType \<Rightarrow> any_type_t" where
  "u64_to_any val sz = val"

text \<open>The byte offset of an address inside its aligned word.\<close>

definition OFFSET_MASK :: u64 where "OFFSET_MASK = 7"

record ByteOffset =
  base_addr :: u64
  offset :: u64

definition mk_ByteOffset :: "u64 \<Rightarrow> ByteOffset" where
  "mk_ByteOffset a = \<lparr>base_addr = a AND NOT OFFSET_MASK, offset = a AND OFFSET_MASK\<rparr>"

definition same_location :: "ByteOffset \<Rightarrow> ByteOffset \<Rightarrow> bool" where
  "same_location a b \<longleftrightarrow> base_addr a = base_addr b \<and> offset a = offset b"

section \<open>Bytes in memory\<close>

lemma type_size_cases: "type_size T = 1 \<or> type_size T = 2 \<or> type_size T = 4 \<or> type_size T = 8"
  by (cases T) auto

lemma type_size_pos [simp]: "0 < type_size T"
  by (cases T) auto

lemma type_size_le [simp]: "type_size T \<le> 8"
  by (cases T) auto

lemma any_sizeof_eq [simp]: "any_sizeof T = type_size T"
  by (cases T) auto

lemma BYTE_MASK_mask: "BYTE_MASK n = mask (n * 8)"
proof (cases "n \<ge> 8")
  case True
  then have "(mask (n * 8) :: u64) = NOT 0"
    by (intro u64_eqI) (simp add: bit_mask_iff bit_not_iff)
  with True show ?thesis by (simp add: BYTE_MASK_def)
next
  case False
  then show ?thesis by (simp add: BYTE_MASK_def mask_eq_decr_exp push_bit_eq_mult)
qed

lemma bit_BYTE_MASK [tm_bits]: "bit (BYTE_MASK n) k \<longleftrightarrow> k < n * 8 \<and> k < 64"
  by (auto simp: BYTE_MASK_mask bit_mask_iff)

lemma bit_load_bytes [tm_bits]:
  "bit (load_bytes m a n) k \<longleftrightarrow> k < 64 \<and> k < 8 * n \<and> bit (m (a + of_nat (k div 8))) (k mod 8)"
proof (induction n arbitrary: a k)
  case 0
  show ?case by simp
next
  case (Suc n)
  show ?case
  proof (cases "k < 8")
    case True
    then show ?thesis
      by (simp add: bit_or_iff bit_push_bit_iff bit_ucast_u64)
  next
    case False
    then obtain j where k: "k = j + 8" by (metis add.commute le_Suc_ex not_less)
    have "\<not> bit (m a) (j + 8)" by (auto dest: bit_imp_le_length)
    moreover have "(j + 8) div 8 = Suc (j div 8)" by simp
    then have "a + of_nat ((j + 8) div 8) = a + 1 + of_nat (j div 8)" by simp
    ultimately show ?thesis
      by (auto simp: k bit_or_iff bit_push_bit_iff bit_ucast_u64 Suc.IH algebra_simps)
  qed
qed

lemma store_bytes_apply:
  assumes "n \<le> 8"
  shows "store_bytes m a v n b =
    (if unat (b - a) < n then ucast (drop_bit (8 * unat (b - a)) v) else m b)"
  using assms
proof (induction n arbitrary: m a v)
  case 0
  show ?case by simp
next
  case (Suc n)
  show ?case
  proof (cases "b = a")
    case True
    have "a - (a + 1) = (- 1 :: u64)" by simp
    then have "unat (a - (a + 1)) = 2 ^ 64 - 1" by (simp only: unat_minus_one_u64)
    with Suc.prems have "\<not> unat (a - (a + 1)) < n" by simp
    with True Suc show ?thesis by simp
  next
    case False
    with Suc.prems show ?thesis
      by (simp add: Suc.IH unat_diff_Suc [OF False] drop_bit_drop_bit add.commute)
  qed
qed

lemma load_store_same [tm_mem]:
  assumes "n \<le> 8"
  shows "load_bytes (store_bytes m a v n) a n = v AND mask (8 * n)"
proof (rule u64_eqI)
  fix k :: nat
  assume k: "k < 64"
  have d: "k div 8 < 2 ^ 64" using k by simp
  show "bit (load_bytes (store_bytes m a v n) a n) k = bit (v AND mask (8 * n)) k"
    using k assms
    by (auto simp: bit_load_bytes store_bytes_apply unat_of_nat_u64 bit_ucast_u8 bit_drop_bit_eq
        bit_and_iff bit_mask_iff)
qed

lemma load_bytes_cong:
  assumes "\<And>i. i < n \<Longrightarrow> m (a + of_nat i) = m' (a + of_nat i)"
  shows "load_bytes m a n = load_bytes m' a n"
  by (rule u64_eqI) (use assms in \<open>auto simp: bit_load_bytes\<close>)

text \<open>Two byte ranges without a common address.\<close>

definition disjoint_range :: "addr \<Rightarrow> nat \<Rightarrow> addr \<Rightarrow> nat \<Rightarrow> bool" where
  "disjoint_range a n b k \<longleftrightarrow> (\<forall>i < n. \<forall>j < k. a + of_nat i \<noteq> b + of_nat j)"

lemma load_store_disjoint [tm_mem]:
  assumes "n \<le> 8" and "disjoint_range a n b k"
  shows "load_bytes (store_bytes m a v n) b k = load_bytes m b k"
proof (rule load_bytes_cong)
  fix j assume j: "j < k"
  have "\<not> unat (b + of_nat j - a) < n"
  proof
    assume l: "unat (b + of_nat j - a) < n"
    have "a + of_nat (unat (b + of_nat j - a)) = b + of_nat j" by simp
    with l j assms(2) show False unfolding disjoint_range_def by blast
  qed
  with assms(1) show "store_bytes m a v n (b + of_nat j) = m (b + of_nat j)"
    by (simp add: store_bytes_apply)
qed

section \<open>Typed values\<close>

lemma read_value_eq: "read_value_from_addr m a sz = load_bytes m a (type_size sz)"
  by (simp add: read_value_from_addr_def fill_any_type_def any_setp_def)

lemma write_value_eq: "write_value_to_addr m a v sz = store_bytes m a v (type_size sz)"
  by (simp add: write_value_to_addr_def any_store_def)

lemma return_any_eq: "return_any_type sz v = v AND mask (8 * type_size sz)"
  by (simp add: return_any_type_def BYTE_MASK_mask mult.commute)

end
