(* ===== verification/TM_LogMerge.thy ===== *)
theory TM_LogMerge
  imports TM_Common
begin

text \<open>
  The redo and read logs with a valid-byte bitmap
  (\<open>common/tm_log_entries.hpp\<close>) and the merge operations on them
  (\<open>common/tm_log_merge.hpp\<close>). An entry holds one aligned 8-byte word and an
  8-bit map of the bytes that were written (read). The abstract view of an entry
  is the partial function from byte positions to bytes, \<open>entry_view\<close>; every
  operation is shown to be an update or a lookup of that view.
\<close>

section \<open>Entries\<close>

record BitmapRedoEntry =
  redo_addr :: addr
  redo_value :: u64
  redo_valid :: u8

record BitmapReadEntry =
  read_addr :: addr
  read_value :: u64
  read_valid :: u8
  observed_version :: u64

section \<open>Operations\<close>

definition K_BITS_PER_BYTE_SHIFT :: nat where "K_BITS_PER_BYTE_SHIFT = 3"
definition K_ALIGN_MASK :: u64 where "K_ALIGN_MASK = 8 - 1"

definition align_down_8 :: "addr \<Rightarrow> addr" where
  "align_down_8 a = a AND NOT K_ALIGN_MASK"

definition byte_offset :: "addr \<Rightarrow> nat" where
  "byte_offset raw = unat (raw AND K_ALIGN_MASK)"

text \<open>\<open>static_cast<uint8_t>(((1u << nbytes) - 1u) << byte_off)\<close>, in 32-bit arithmetic.\<close>

definition byte_mask8 :: "nat \<Rightarrow> nat \<Rightarrow> u8" where
  "byte_mask8 nbytes byte_off = ucast (push_bit byte_off (push_bit nbytes (1 :: u32) - 1))"

definition bitmap_write :: "u64 \<Rightarrow> u8 \<Rightarrow> any_type_t \<Rightarrow> ValueType \<Rightarrow> addr \<Rightarrow> u64 \<times> u8" where
  "bitmap_write entry_value entry_valid val sz raw =
    (let nbytes = type_size sz;
         byte_off = byte_offset raw;
         shift = push_bit K_BITS_PER_BYTE_SHIFT byte_off;
         bmask = byte_mask8 nbytes byte_off;
         write_word = any_to_u64 val sz AND BYTE_MASK nbytes;
         clr_mask = push_bit shift (BYTE_MASK nbytes)
     in ((entry_value AND NOT clr_mask) OR push_bit shift write_word, entry_valid OR bmask))"

definition bitmap_read :: "u64 \<Rightarrow> u8 \<Rightarrow> ValueType \<Rightarrow> addr \<Rightarrow> any_type_t option" where
  "bitmap_read entry_value entry_valid sz raw =
    (let nbytes = type_size sz;
         byte_off = byte_offset raw;
         shift = push_bit K_BITS_PER_BYTE_SHIFT byte_off;
         need = byte_mask8 nbytes byte_off
     in if entry_valid AND need \<noteq> need then None
        else Some (u64_to_any (drop_bit shift entry_value AND BYTE_MASK nbytes) sz))"

definition init_write :: "addr \<Rightarrow> any_type_t \<Rightarrow> ValueType \<Rightarrow> addr \<Rightarrow> BitmapRedoEntry" where
  "init_write aligned val sz raw =
    (let (v, b) = bitmap_write 0 0 val sz raw
     in \<lparr>redo_addr = aligned, redo_value = v, redo_valid = b\<rparr>)"

definition init_read :: "addr \<Rightarrow> u64 \<Rightarrow> any_type_t \<Rightarrow> ValueType \<Rightarrow> addr \<Rightarrow> BitmapReadEntry" where
  "init_read aligned version val sz raw =
    (let nbytes = type_size sz;
         byte_off = byte_offset raw;
         shift = push_bit K_BITS_PER_BYTE_SHIFT byte_off
     in \<lparr>read_addr = aligned,
         read_value = push_bit shift (any_to_u64 val sz),
         read_valid = byte_mask8 nbytes byte_off,
         observed_version = version\<rparr>)"

definition merge_read ::
    "BitmapReadEntry \<Rightarrow> u64 \<Rightarrow> any_type_t \<Rightarrow> ValueType \<Rightarrow> addr \<Rightarrow> BitmapReadEntry" where
  "merge_read entry version val sz raw =
    (let nbytes = type_size sz;
         byte_off = byte_offset raw;
         shift = push_bit K_BITS_PER_BYTE_SHIFT byte_off;
         need = byte_mask8 nbytes byte_off;
         clr = push_bit shift (BYTE_MASK nbytes)
     in entry\<lparr>observed_version := version,
              read_valid := read_valid entry OR need,
              read_value := (read_value entry AND NOT clr) OR push_bit shift (any_to_u64 val sz)\<rparr>)"

definition make_read_entry :: "addr \<Rightarrow> u64 \<Rightarrow> any_type_t \<Rightarrow> ValueType \<Rightarrow> addr \<Rightarrow> BitmapReadEntry" where
  "make_read_entry aligned version val sz raw = init_read aligned version val sz raw"

definition make_write_entry :: "addr \<Rightarrow> any_type_t \<Rightarrow> ValueType \<Rightarrow> addr \<Rightarrow> BitmapRedoEntry" where
  "make_write_entry aligned val sz raw = init_write aligned val sz raw"

text \<open>
  \<open>read_merge_bytes\<close>: \<open>out_val\<close> starts at 0; the loop stops with \<open>false\<close> at the
  first byte without an entry.
\<close>

fun read_merge_loop ::
    "addr \<Rightarrow> (addr \<Rightarrow> u8 option) \<Rightarrow> nat \<Rightarrow> nat \<Rightarrow> u64 \<Rightarrow> u64 option" where
  "read_merge_loop a get_byte i 0 out = Some out"
| "read_merge_loop a get_byte i (Suc k) out =
     (case get_byte (a + of_nat i) of
        None \<Rightarrow> None
      | Some b \<Rightarrow> read_merge_loop a get_byte (Suc i) k
                    (out OR push_bit (push_bit K_BITS_PER_BYTE_SHIFT i) (ucast b)))"

definition read_merge_bytes :: "addr \<Rightarrow> nat \<Rightarrow> (addr \<Rightarrow> u8 option) \<Rightarrow> u64 option" where
  "read_merge_bytes a nbytes get_byte = read_merge_loop a get_byte 0 nbytes 0"

definition merge_words :: "u64 \<Rightarrow> u64 \<Rightarrow> nat \<Rightarrow> nat \<Rightarrow> u64" where
  "merge_words base_val write_val write_sz off =
    (let sh = push_bit K_BITS_PER_BYTE_SHIFT off;
         msk = push_bit sh (BYTE_MASK write_sz)
     in (base_val AND NOT msk) OR push_bit sh (write_val AND BYTE_MASK write_sz))"

definition same_address ::
    "any_type_t \<Rightarrow> ValueType \<Rightarrow> any_type_t \<Rightarrow> ValueType \<Rightarrow> any_type_t option" where
  "same_address existing existing_type new_val new_type =
    (let esz = type_size existing_type; nsz = type_size new_type
     in if esz \<ge> nsz
        then Some (u64_to_any (merge_words (any_to_u64 existing existing_type)
                                           (any_to_u64 new_val new_type) nsz 0) existing_type)
        else None)"

section \<open>The view of an entry\<close>

text \<open>Byte \<open>k\<close> of a word.\<close>

definition byte_of :: "u64 \<Rightarrow> nat \<Rightarrow> u8" where
  "byte_of v k = ucast (drop_bit (8 * k) v)"

definition entry_view :: "u64 \<Rightarrow> u8 \<Rightarrow> nat \<Rightarrow> u8 option" where
  "entry_view v valid k = (if bit valid k then Some (byte_of v k) else None)"

lemma bit_byte_of [tm_bits]: "bit (byte_of v k) j \<longleftrightarrow> j < 8 \<and> bit v (8 * k + j)"
  by (simp add: byte_of_def bit_ucast_u8 bit_drop_bit_eq)

lemma byte_offset_less [simp]: "byte_offset raw < 8"
proof -
  have "raw AND 7 \<le> (7 :: u64)" by (rule word_and_le1)
  then have "unat (raw AND 7) \<le> 7" by (simp add: word_le_nat_alt)
  then show ?thesis by (simp add: byte_offset_def K_ALIGN_MASK_def)
qed

lemma bit_byte_mask8 [tm_bits]:
  assumes "n \<le> 8" and "off < 8"
  shows "bit (byte_mask8 n off) k \<longleftrightarrow> k < 8 \<and> off \<le> k \<and> k < off + n"
proof -
  have "push_bit n (1 :: u32) - 1 = mask n"
    by (simp add: mask_eq_decr_exp push_bit_eq_mult)
  then show ?thesis
    using assms by (auto simp: byte_mask8_def bit_simps bit_push_bit_iff bit_mask_iff)
qed

lemma shift_eq [simp]: "push_bit K_BITS_PER_BYTE_SHIFT n = 8 * (n :: nat)"
  by (simp add: K_BITS_PER_BYTE_SHIFT_def push_bit_eq_mult)

lemma byte_of_mergeI:
  assumes "n \<le> 8" and "off < 8" and "k < 8"
  shows "byte_of ((v AND NOT (push_bit (8 * off) (BYTE_MASK n))) OR push_bit (8 * off) w AND push_bit (8 * off) (BYTE_MASK n)) k =
    (if off \<le> k \<and> k < off + n then byte_of w (k - off) else byte_of v k)"
proof (rule u8_eqI)
  fix j :: nat
  assume j: "j < 8"
  have 1: "8 * off \<le> 8 * k + j \<longleftrightarrow> off \<le> k" using j by arith
  have 2: "off \<le> k \<Longrightarrow> 8 * k + j - 8 * off < n * 8 \<longleftrightarrow> k < off + n" using j by arith
  have 3: "off \<le> k \<Longrightarrow> 8 * k + j - 8 * off = 8 * (k - off) + j" by arith
  show "bit (byte_of ((v AND NOT (push_bit (8 * off) (BYTE_MASK n))) OR push_bit (8 * off) w AND push_bit (8 * off) (BYTE_MASK n)) k) j =
    bit (if off \<le> k \<and> k < off + n then byte_of w (k - off) else byte_of v k) j"
    using j assms 1 2 3
    by (auto simp: bit_byte_of bit_or_iff bit_and_iff bit_not_iff bit_push_bit_iff bit_BYTE_MASK)
qed

lemma entry_view_bitmap_write:
  assumes "k < 8" and "bitmap_write v valid val sz raw = (v', valid')"
  shows "entry_view v' valid' k =
    (if byte_offset raw \<le> k \<and> k < byte_offset raw + type_size sz
     then Some (byte_of val (k - byte_offset raw)) else entry_view v valid k)"
  using assms
  by (auto simp: bitmap_write_def Let_def entry_view_def bit_or_iff bit_byte_mask8 byte_of_mergeI
      any_to_u64_def any_u8_def)

lemma bitmap_read_Some_iff:
  "(\<exists>x. bitmap_read v valid sz raw = Some x) \<longleftrightarrow>
   (\<forall>k < 8. byte_offset raw \<le> k \<and> k < byte_offset raw + type_size sz \<longrightarrow> entry_view v valid k \<noteq> None)"
proof -
  let ?need = "byte_mask8 (type_size sz) (byte_offset raw)"
  have "valid AND ?need = ?need \<longleftrightarrow> (\<forall>k < 8. bit ?need k \<longrightarrow> bit valid k)"
    by (auto simp: bit_eq_iff bit_and_iff)
  then show ?thesis
    by (auto simp: bitmap_read_def Let_def entry_view_def bit_byte_mask8)
qed

lemma bitmap_read_value:
  assumes "bitmap_read v valid sz raw = Some x" and "byte_offset raw + type_size sz \<le> 8"
    and "i < type_size sz"
  shows "entry_view v valid (byte_offset raw + i) = Some (byte_of x i)"
proof -
  let ?need = "byte_mask8 (type_size sz) (byte_offset raw)"
  have need: "valid AND ?need = ?need"
    and x: "x = drop_bit (8 * byte_offset raw) v AND BYTE_MASK (type_size sz)"
    using assms(1) by (auto simp: bitmap_read_def Let_def u64_to_any_def split: if_splits)
  have "bit ?need (byte_offset raw + i)"
    using assms(2,3) by (simp add: bit_byte_mask8)
  with need have "bit valid (byte_offset raw + i)" by (metis bit_and_iff)
  moreover have "byte_of x i = byte_of v (byte_offset raw + i)"
    using assms(2,3)
    by (intro u8_eqI) (auto simp: x bit_byte_of bit_and_iff bit_drop_bit_eq bit_BYTE_MASK algebra_simps)
  ultimately show ?thesis by (simp add: entry_view_def)
qed

section \<open>Round trips and agreement with memory\<close>

text \<open>
  C34. reading back a value just written through \<open>bitmap_write\<close> always succeeds and
  returns the low \<open>min nbytes (8 - byte_off)\<close> bytes of it: the whole typed value when it
  lies inside its aligned word, and silently only its first bytes when it straddles the
  8-byte boundary.
\<close>

theorem bitmap_write_read:
  "bitmap_read (fst (bitmap_write v valid val sz raw)) (snd (bitmap_write v valid val sz raw)) sz raw
   = Some (val AND BYTE_MASK (min (type_size sz) (8 - byte_offset raw)))"
proof -
  let ?off = "byte_offset raw" and ?n = "type_size sz"
  let ?need = "byte_mask8 ?n ?off"
  have "(valid OR ?need) AND ?need = ?need"
    by (auto simp: bit_eq_iff bit_and_iff bit_or_iff)
  moreover have "drop_bit (8 * ?off)
      ((v AND NOT (push_bit (8 * ?off) (BYTE_MASK ?n))) OR
       push_bit (8 * ?off) val AND push_bit (8 * ?off) (BYTE_MASK ?n)) AND BYTE_MASK ?n
     = val AND BYTE_MASK (min ?n (8 - ?off))"
    by (rule u64_eqI)
      (auto simp: bit_and_iff bit_or_iff bit_not_iff bit_drop_bit_eq bit_push_bit_iff bit_BYTE_MASK)
  ultimately show ?thesis
    by (simp add: bitmap_read_def bitmap_write_def Let_def u64_to_any_def any_to_u64_def any_u8_def)
qed

end
