(* ===== verification/TM_BloomFilter.thy ===== *)
theory TM_BloomFilter
  imports TM_Prelude
begin

text \<open>
  The fixed-size Bloom filter of \<open>common/tm_bloom_filter.hpp\<close>: the bit array is a
  list of 64-bit words (the template parameter \<open>WORDS\<close> is its length), two hashes
  per key. The interface \<open>approx_set\<close> states what the validators rely on: an
  inserted key is always reported, and a "disjoint" answer excludes common keys.
\<close>

section \<open>The filter\<close>

type_synonym bloom = "u64 list"

definition bloom_mix64 :: "u64 \<Rightarrow> u64" where
  "bloom_mix64 z0 =
    (let z1 = (z0 XOR drop_bit 30 z0) * 0xbf58476d1ce4e5b9;
         z2 = (z1 XOR drop_bit 27 z1) * 0x94d049bb133111eb
     in z2 XOR drop_bit 31 z2)"

definition bit_index :: "nat \<Rightarrow> u64 \<Rightarrow> nat" where
  "bit_index WORDS h = unat (drop_bit 6 h AND (of_nat WORDS - 1))"

definition bit_mask :: "u64 \<Rightarrow> u64" where
  "bit_mask h = push_bit (unat (h AND 63)) 1"

definition bloom_clear :: "bloom \<Rightarrow> bloom" where
  "bloom_clear ws = replicate (length ws) 0"

definition fetch_or :: "bloom \<Rightarrow> nat \<Rightarrow> u64 \<Rightarrow> bloom" where
  "fetch_or ws i m = ws[i := ws ! i OR m]"

definition bloom_insert :: "u64 \<Rightarrow> bloom \<Rightarrow> bloom" where
  "bloom_insert key ws =
    (let h1 = bloom_mix64 key;
         h2 = bloom_mix64 (key XOR 0x9e3779b97f4a7c15);
         ws1 = fetch_or ws (bit_index (length ws) h1) (bit_mask h1)
     in fetch_or ws1 (bit_index (length ws) h2) (bit_mask h2))"

definition bloom_contains :: "bloom \<Rightarrow> u64 \<Rightarrow> bool" where
  "bloom_contains ws key =
    (let h1 = bloom_mix64 key;
         h2 = bloom_mix64 (key XOR 0x9e3779b97f4a7c15)
     in if ws ! bit_index (length ws) h1 AND bit_mask h1 = 0 then False
        else if ws ! bit_index (length ws) h2 AND bit_mask h2 = 0 then False
        else True)"

text \<open>The loop of \<open>disjoint_with\<close> runs over the words of both filters.\<close>

fun bloom_disjoint_with :: "bloom \<Rightarrow> bloom \<Rightarrow> bool" where
  "bloom_disjoint_with (a # as) (b # bs) = (if a AND b \<noteq> 0 then False else bloom_disjoint_with as bs)"
| "bloom_disjoint_with _ _ = True"

definition popcountll :: "u64 \<Rightarrow> nat" where
  "popcountll w = length (filter (bit w) [0..<64])"

definition bloom_popcount :: "bloom \<Rightarrow> nat" where
  "bloom_popcount ws = foldl (\<lambda>n w. n + popcountll w) 0 ws"

fun bloom_empty :: "bloom \<Rightarrow> bool" where
  "bloom_empty [] = True"
| "bloom_empty (w # ws) = (if w \<noteq> 0 then False else bloom_empty ws)"

section \<open>What a validator relies on\<close>

locale approx_set =
  fixes ok :: "'f \<Rightarrow> bool"
    and ins :: "'k \<Rightarrow> 'f \<Rightarrow> 'f"
    and mem :: "'f \<Rightarrow> 'k \<Rightarrow> bool"
    and disj :: "'f \<Rightarrow> 'f \<Rightarrow> bool"
  assumes ok_ins: "ok f \<Longrightarrow> ok (ins k f)"
    and mem_ins: "ok f \<Longrightarrow> mem (ins k f) k"
    and mem_mono: "ok f \<Longrightarrow> mem f k \<Longrightarrow> mem (ins k' f) k"
    and disj_sound: "ok f \<Longrightarrow> ok g \<Longrightarrow> disj f g \<Longrightarrow> mem f k \<Longrightarrow> \<not> mem g k"
begin

lemma ok_fold: "ok f \<Longrightarrow> ok (fold ins ks f)"
  by (induction ks arbitrary: f) (auto simp: ok_ins)

lemma mem_fold_mono: "ok f \<Longrightarrow> mem f k \<Longrightarrow> mem (fold ins ks f) k"
  by (induction ks arbitrary: f) (auto simp: ok_ins mem_mono)

lemma no_false_negative: "ok f \<Longrightarrow> k \<in> set ks \<Longrightarrow> mem (fold ins ks f) k"
proof (induction ks arbitrary: f)
  case (Cons k' ks)
  then show ?case
    by (cases "k = k'") (auto simp: ok_ins mem_ins mem_fold_mono)
qed simp

lemma disjoint_keys:
  assumes "ok f" "ok g" "disj (fold ins ks f) (fold ins ks' g)"
  shows "set ks \<inter> set ks' = {}"
proof (rule ccontr)
  assume "set ks \<inter> set ks' \<noteq> {}"
  then obtain k where k: "k \<in> set ks" "k \<in> set ks'" by auto
  have "mem (fold ins ks f) k" "mem (fold ins ks' g) k"
    using assms k by (auto intro: no_false_negative)
  moreover have "ok (fold ins ks f)" "ok (fold ins ks' g)" using assms by (auto intro: ok_fold)
  ultimately show False using assms(3) disj_sound by blast
qed

end

section \<open>The Bloom filter is such a set\<close>

lemma bit_index_less:
  assumes "0 < W" and "W < 2 ^ 64"
  shows "bit_index W h < W"
proof -
  have "drop_bit 6 h AND (of_nat W - 1) \<le> (of_nat W - 1 :: u64)"
    by (rule word_and_le1)
  then have "bit_index W h \<le> unat (of_nat W - 1 :: u64)"
    by (simp add: bit_index_def word_le_nat_alt)
  also have "unat (of_nat W :: u64) = W" using assms by (simp add: unat_of_nat_u64)
  then have "unat (of_nat W - 1 :: u64) = W - 1"
    using assms by (subst unat_minus_one) auto
  finally show ?thesis using assms by simp
qed

lemma hash_bit_less: "unat (h AND 63 :: u64) < 64"
proof -
  have "h AND 63 \<le> (63 :: u64)" by (rule word_and_le1)
  then have "unat (h AND 63) \<le> 63" by (simp add: word_le_nat_alt)
  then show ?thesis by simp
qed

lemma and_bit_mask: "w AND bit_mask h = 0 \<longleftrightarrow> \<not> bit w (unat (h AND 63))"
  using hash_bit_less [of h]
  by (auto simp: bit_mask_def u64_eq_iff bit_and_iff bit_push_bit_iff bit_exp_iff)

lemma bit_or_bit_mask:
  "bit (w OR bit_mask h) k \<longleftrightarrow> bit w k \<or> k = unat (h AND 63)"
  using hash_bit_less [of h]
  by (auto simp: bit_mask_def bit_or_iff bit_push_bit_iff bit_exp_iff)

definition bloom_ok :: "nat \<Rightarrow> bloom \<Rightarrow> bool" where
  "bloom_ok W ws \<longleftrightarrow> length ws = W \<and> 0 < W \<and> W < 2 ^ 64"

text \<open>The bit a hash selects, and the two bits of a key.\<close>

definition hash_bit :: "bloom \<Rightarrow> u64 \<Rightarrow> bool" where
  "hash_bit ws h \<longleftrightarrow> bit (ws ! bit_index (length ws) h) (unat (h AND 63))"

lemma bloom_contains_iff:
  "bloom_contains ws key \<longleftrightarrow>
   hash_bit ws (bloom_mix64 key) \<and> hash_bit ws (bloom_mix64 (key XOR 0x9e3779b97f4a7c15))"
  by (simp add: bloom_contains_def Let_def and_bit_mask hash_bit_def)

lemma length_fetch_or [simp]: "length (fetch_or ws i m) = length ws"
  by (simp add: fetch_or_def)

lemma length_bloom_insert [simp]: "length (bloom_insert k ws) = length ws"
  by (simp add: bloom_insert_def Let_def)

lemma nth_fetch_or:
  "i < length ws \<Longrightarrow> fetch_or ws i m ! j = (if i = j then ws ! i OR m else ws ! j)"
  by (simp add: fetch_or_def nth_list_update)

lemma hash_bit_fetch_or:
  assumes "bloom_ok W ws"
  shows "hash_bit (fetch_or ws (bit_index W h') (bit_mask h')) h \<longleftrightarrow>
    hash_bit ws h \<or> (bit_index W h = bit_index W h' \<and> unat (h AND 63) = unat (h' AND 63))"
proof -
  have "bit_index W h' < length ws" "length ws = W"
    using assms by (auto simp: bloom_ok_def bit_index_less)
  then show ?thesis by (auto simp: hash_bit_def nth_fetch_or bit_or_bit_mask)
qed

lemma hash_bit_insert:
  assumes "bloom_ok W ws"
  shows "hash_bit ws h \<Longrightarrow> hash_bit (bloom_insert k ws) h"
    and "hash_bit (bloom_insert k ws) (bloom_mix64 k)"
    and "hash_bit (bloom_insert k ws) (bloom_mix64 (k XOR 0x9e3779b97f4a7c15))"
proof -
  have L: "length ws = W" using assms by (simp add: bloom_ok_def)
  have ok': "\<And>i m. bloom_ok W (fetch_or ws i m)" using assms by (simp add: bloom_ok_def)
  note r = hash_bit_fetch_or [OF ok'] hash_bit_fetch_or [OF assms]
  show "hash_bit ws h \<Longrightarrow> hash_bit (bloom_insert k ws) h"
    "hash_bit (bloom_insert k ws) (bloom_mix64 k)"
    "hash_bit (bloom_insert k ws) (bloom_mix64 (k XOR 0x9e3779b97f4a7c15))"
    by (simp_all add: bloom_insert_def Let_def L r)
qed

lemma bloom_disjoint_nth:
  assumes "bloom_disjoint_with as bs" and "i < length as" and "i < length bs"
  shows "as ! i AND bs ! i = 0"
  using assms
proof (induction as bs arbitrary: i rule: bloom_disjoint_with.induct)
  case (1 a as b bs)
  then show ?case by (cases i) (auto split: if_splits)
qed auto

interpretation bloom: approx_set "bloom_ok W" bloom_insert bloom_contains bloom_disjoint_with for W
proof unfold_locales
  fix f k k' g
  assume ok: "bloom_ok W f"
  show "bloom_ok W (bloom_insert k f)" using ok by (simp add: bloom_ok_def)
  show "bloom_contains (bloom_insert k f) k"
    using ok by (simp add: bloom_contains_iff hash_bit_insert)
  show "bloom_contains f k \<Longrightarrow> bloom_contains (bloom_insert k' f) k"
    using ok by (simp add: bloom_contains_iff hash_bit_insert)
  show "\<not> bloom_contains g k"
    if "bloom_ok W g" "bloom_disjoint_with f g" "bloom_contains f k"
  proof
    let ?h = "bloom_mix64 k"
    let ?i = "bit_index W ?h"
    assume "bloom_contains g k"
    with that ok have "bit (f ! ?i) (unat (?h AND 63))" "bit (g ! ?i) (unat (?h AND 63))"
      by (auto simp: bloom_contains_iff hash_bit_def bloom_ok_def)
    moreover have "f ! ?i AND g ! ?i = 0"
      using that ok by (intro bloom_disjoint_nth) (auto simp: bloom_ok_def bit_index_less)
    ultimately show False by (metis bit_0_eq bit_and_iff bot_apply bot_bool_def)
  qed
qed

section \<open>Counting bits\<close>

lemma popcountll_card: "popcountll w = card {k. bit w k}"
proof -
  have "{k. bit w k} = set (filter (bit w) [0..<64])" by (auto dest: bit_imp_le_length)
  then show ?thesis by (simp only: popcountll_def distinct_card distinct_filter distinct_upt)
qed

lemma popcountll_eq_0: "popcountll w = 0 \<longleftrightarrow> w = 0"
proof -
  have "w = 0 \<longleftrightarrow> {k. bit w k} = {}" by (auto simp: u64_eq_iff dest: u64_bit_less)
  then show ?thesis by (simp add: popcountll_card finite_bit_word)
qed

lemma popcountll_or_mask: "popcountll (w OR bit_mask h) \<le> Suc (popcountll w)"
proof -
  have "{k. bit (w OR bit_mask h) k} = insert (unat (h AND 63)) {k. bit w k}"
    by (auto simp: bit_or_bit_mask)
  then show ?thesis by (simp add: popcountll_card finite_bit_word card_insert_le_m1 card_insert_if)
qed

lemma bloom_popcount_sum: "bloom_popcount ws = sum_list (map popcountll ws)"
proof -
  have "foldl (\<lambda>n w. n + popcountll w) c ws = c + sum_list (map popcountll ws)" for c
    by (induction ws arbitrary: c) auto
  then show ?thesis by (simp add: bloom_popcount_def)
qed

lemma bloom_popcount_fetch_or:
  assumes "i < length ws"
  shows "bloom_popcount (fetch_or ws i (bit_mask h)) \<le> Suc (bloom_popcount ws)"
proof -
  have "sum_list (map popcountll (fetch_or ws i (bit_mask h))) + popcountll (ws ! i)
      = sum_list (map popcountll ws) + popcountll (ws ! i OR bit_mask h)"
    using assms elem_le_sum_list [of i "map popcountll ws"]
    by (simp add: fetch_or_def map_update sum_list_update)
  then show ?thesis
    using popcountll_or_mask [of "ws ! i" h] by (simp add: bloom_popcount_sum)
qed

lemma bloom_empty_iff: "bloom_empty ws \<longleftrightarrow> (\<forall>w\<in>set ws. w = 0)"
  by (induction ws) auto

text \<open>
  C35. the filter has no false negatives. Whatever the initial contents, after inserting a
  sequence of keys every one of them is reported as contained.
\<close>

theorem bloom_no_false_negatives:
  assumes "0 < length ws" and "length ws < 2 ^ 64" and "k \<in> set ks"
  shows "bloom_contains (fold bloom_insert ks ws) k"
  using bloom.no_false_negative [of "length ws" ws k ks] assms by (simp add: bloom_ok_def)

theorem bloom_no_false_negatives_witness:
  "0 < length (replicate 16 (0 :: u64)) \<and> (4096 :: u64) \<in> set [64, 4096] \<and>
   bloom_contains (fold bloom_insert [64, 4096] (replicate 16 0)) 4096"
  using bloom_no_false_negatives [of "replicate 16 0" 4096 "[64, 4096]"] by simp

text \<open>
  C36. a "disjoint" answer is exact: two filters built from key sequences that
  \<open>disjoint_with\<close> reports as disjoint have no key in common.
\<close>

theorem bloom_disjoint_exact:
  assumes "length ws = length ws'" and "0 < length ws" and "length ws < 2 ^ 64"
    and "bloom_disjoint_with (fold bloom_insert ks ws) (fold bloom_insert ks' ws')"
  shows "set ks \<inter> set ks' = {}"
  using bloom.disjoint_keys [of "length ws" ws ws' ks ks'] assms by (simp add: bloom_ok_def)

theorem bloom_disjoint_exact_witness:
  "bloom_disjoint_with (fold bloom_insert [64] (replicate 16 0)) (fold bloom_insert [4096] (replicate 16 0))
   \<and> set [64 :: u64] \<inter> set [4096] = {}"
proof -
  have d: "bloom_disjoint_with (fold bloom_insert [64] (replicate 16 0))
      (fold bloom_insert [4096] (replicate 16 0))"
    by code_simp
  from bloom_disjoint_exact [OF _ _ _ d] d show ?thesis by simp
qed

text \<open>
  \<open>popcount\<close> grows by at most two per insertion and is zero exactly when the filter is
  empty, so a cleared filter takes at least \<open>n div 2\<close> insertions to pass a threshold \<open>n\<close>.
\<close>

theorem bloom_popcount_growth:
  assumes "0 < length ws" and "length ws < 2 ^ 64"
  shows "bloom_popcount (fold bloom_insert ks ws) \<le> bloom_popcount ws + 2 * length ks \<and>
    (bloom_popcount ws = 0 \<longleftrightarrow> bloom_empty ws) \<and> bloom_popcount (bloom_clear ws) = 0"
proof -
  have ins: "bloom_popcount (bloom_insert k f) \<le> bloom_popcount f + 2"
    if "bloom_ok W f" for k f W
  proof -
    let ?h1 = "bloom_mix64 k" and ?h2 = "bloom_mix64 (k XOR 0x9e3779b97f4a7c15)"
    have W: "length f = W" "bit_index W ?h1 < length f" "bit_index W ?h2 < length f"
      using that by (auto simp: bloom_ok_def bit_index_less)
    have "bloom_popcount (bloom_insert k f) \<le>
        Suc (bloom_popcount (fetch_or f (bit_index W ?h1) (bit_mask ?h1)))"
      unfolding bloom_insert_def Let_def W(1) using W by (intro bloom_popcount_fetch_or) simp
    also have "bloom_popcount (fetch_or f (bit_index W ?h1) (bit_mask ?h1)) \<le> Suc (bloom_popcount f)"
      using W by (intro bloom_popcount_fetch_or)
    finally show ?thesis by simp
  qed
  have "bloom_popcount (fold bloom_insert ks f) \<le> bloom_popcount f + 2 * length ks"
    if "bloom_ok W f" for f W
    using that
  proof (induction ks arbitrary: f)
    case (Cons k ks)
    have "bloom_popcount (fold bloom_insert ks (bloom_insert k f))
        \<le> bloom_popcount (bloom_insert k f) + 2 * length ks"
      using Cons by (simp add: bloom.ok_ins)
    with ins [OF Cons.prems, of k] show ?case by simp
  qed simp
  from this [of "length ws" ws] assms show ?thesis
    by (auto simp: bloom_ok_def bloom_popcount_sum bloom_empty_iff popcountll_eq_0 bloom_clear_def
        sum_list_replicate)
qed

theorem bloom_popcount_growth_witness:
  "bloom_popcount (fold bloom_insert [64, 4096] (replicate 16 0)) \<le> bloom_popcount (replicate 16 0) + 2 * length [64 :: u64, 4096]"
  using bloom_popcount_growth [of "replicate 16 0" "[64, 4096]"] by simp

end
