(* ===== verification/TM_Interfaces.thy ===== *)
theory TM_Interfaces
  imports TM_Prelude
begin

text \<open>
  The contracts between components: what a client relies on in a set and in a map
  whose calls may fail to return, with the consequences for sequences of calls.
  The containers of \<open>common/\<close> are shown to satisfy them.
\<close>

section \<open>Interfaces of containers\<close>

text \<open>
  A run of fallible calls, \<open>None\<close> once a call does not return.
\<close>

primrec run_calls :: "('s \<Rightarrow> 'c \<Rightarrow> 's option) \<Rightarrow> 's \<Rightarrow> 'c list \<Rightarrow> 's option" where
  "run_calls step s [] = Some s"
| "run_calls step s (c # cs) = (case step s c of None \<Rightarrow> None | Some s' \<Rightarrow> run_calls step s' cs)"

lemma run_calls_inv:
  assumes "\<And>s c. P s \<Longrightarrow> \<exists>s'. step s c = Some s' \<and> P s'" and "P s"
  shows "\<exists>s'. run_calls step s cs = Some s' \<and> P s'"
  using assms(2)
proof (induction cs arbitrary: s)
  case (Cons c cs)
  then obtain s' where "step s c = Some s'" "P s'" using assms(1) by blast
  with Cons.IH show ?case by simp
qed simp

lemma run_calls_append:
  "run_calls step s (cs @ ds) = (case run_calls step s cs of None \<Rightarrow> None | Some s' \<Rightarrow> run_calls step s' ds)"
  by (induction cs arbitrary: s) (auto split: option.splits)

text \<open>What the code relies on in a set: insertion adds exactly the value, membership is exact.\<close>

locale set_store =
  fixes empty :: 's and insrt :: "'s \<Rightarrow> 'a \<Rightarrow> (bool \<times> 's) option" and mem :: "'s \<Rightarrow> 'a \<Rightarrow> bool option"
    and invar :: "'s \<Rightarrow> bool" and elems :: "'s \<Rightarrow> 'a set"
  assumes empty_ok: "invar empty" "elems empty = {}"
    and insert_ok: "invar s \<Longrightarrow> \<exists>s'. insrt s x = Some (x \<notin> elems s, s') \<and> invar s' \<and> elems s' = insert x (elems s)"
    and mem_ok: "invar s \<Longrightarrow> mem s x = Some (x \<in> elems s)"
begin

lemma inserts_from:
  "invar s \<Longrightarrow> \<exists>s'. run_calls (\<lambda>s x. map_option snd (insrt s x)) s xs = Some s' \<and> invar s' \<and>
    elems s' = elems s \<union> set xs"
proof (induction xs arbitrary: s)
  case (Cons x xs)
  then obtain s' where s': "insrt s x = Some (x \<notin> elems s, s')" "invar s'" "elems s' = insert x (elems s)"
    using insert_ok by blast
  then show ?case using Cons.IH [OF s'(2)] by auto
qed simp

lemma inserts_mem:
  "\<exists>s. run_calls (\<lambda>s x. map_option snd (insrt s x)) empty xs = Some s \<and> invar s \<and> elems s = set xs \<and>
    (\<forall>v. mem s v = Some (v \<in> set xs))"
  using inserts_from [OF empty_ok(1), of xs] by (auto simp: empty_ok(2) mem_ok)

end

text \<open>What the code relies on in a map: a lookup sees the last update of its key.\<close>

locale map_store =
  fixes empty :: 's and update :: "'s \<Rightarrow> 'k \<Rightarrow> 'v \<Rightarrow> 's option" and lookup :: "'s \<Rightarrow> 'k \<Rightarrow> 'v option option"
    and invar :: "'s \<Rightarrow> bool" and abs :: "'s \<Rightarrow> 'k \<rightharpoonup> 'v"
  assumes empty_ok: "invar empty" "abs empty = Map.empty"
    and update_ok: "invar s \<Longrightarrow> \<exists>s'. update s k v = Some s' \<and> invar s' \<and> abs s' = (abs s)(k \<mapsto> v)"
    and lookup_ok: "invar s \<Longrightarrow> lookup s k = Some (abs s k)"
begin

lemma updates_from:
  "invar s \<Longrightarrow> \<exists>s'. run_calls (\<lambda>s (k, v). update s k v) s kvs = Some s' \<and> invar s' \<and>
    abs s' = abs s ++ map_of (rev kvs)"
proof (induction kvs arbitrary: s)
  case (Cons kv kvs)
  obtain k v where kv: "kv = (k, v)" by (cases kv)
  obtain s' where s': "update s k v = Some s'" "invar s'" "abs s' = (abs s)(k \<mapsto> v)"
    using update_ok [OF Cons.prems] by blast
  obtain t where t: "run_calls (\<lambda>s (k, v). update s k v) s' kvs = Some t" "invar t"
      "abs t = abs s' ++ map_of (rev kvs)"
    using Cons.IH [OF s'(2)] by blast
  have "abs t = abs s ++ map_of (rev (kv # kvs))"
    by (rule ext) (simp add: t(3) s'(3) kv map_add_def split: option.splits)
  then show ?case using t s'(1) kv by simp
qed simp

lemma updates_lookup:
  "\<exists>s. run_calls (\<lambda>s (k, v). update s k v) empty kvs = Some s \<and> invar s \<and>
    (\<forall>k. lookup s k = Some (map_of (rev kvs) k))"
  using updates_from [OF empty_ok(1), of kvs] by (auto simp: empty_ok(2) lookup_ok)

end

end
