(* ===== verification/TM_HashTable.thy ===== *)
theory TM_HashTable
  imports TM_Interfaces "HOL-Library.Multiset"
begin

text \<open>
  The open-addressing containers \<open>TMSafeHashSet\<close>
  (\<open>common/tm_hash_set.hpp\<close>) and \<open>TMSafeMap\<close>
  (\<open>common/tm_safe_map.hpp\<close>). Both classes have the same table of slots with
  linear probing and backward-shift deletion; the set stores values, the map
  pairs. The table operations are written once over entries \<open>'e\<close> with a key
  projection \<open>key\<close> (the identity for the set, \<open>fst\<close> for the map) and the hash
  function of the template parameter. A slot is \<open>None\<close> when its \<open>occupied\<close>
  flag is false (its value is then never read).
  A probe loop runs forever on a table without a free slot: the loops carry fuel
  \<open>Suc m_cap\<close>, after which every slot has been visited, and return \<open>None\<close>
  without it; the theorems show that they return on every table the operations build.
\<close>

section \<open>The table\<close>

record 'e table =
  m_data :: "'e option list"
  m_cap :: nat
  m_size :: nat

definition table_init :: "'e table" where
  "table_init = \<lparr>m_data = [], m_cap = 0, m_size = 0\<rparr>"

text \<open>\<open>hash_idx\<close> and the step of a probe; \<open>m_cap\<close> is a power of two.\<close>

definition hash_idx :: "('k \<Rightarrow> nat) \<Rightarrow> nat \<Rightarrow> 'k \<Rightarrow> nat" where
  "hash_idx hash cap v = hash v AND (cap - 1)"

fun find_loop :: "('e \<Rightarrow> 'k) \<Rightarrow> 'e option list \<Rightarrow> nat \<Rightarrow> 'k \<Rightarrow> nat \<Rightarrow> nat \<Rightarrow> nat option" where
  "find_loop key d cap v i 0 = None"
| "find_loop key d cap v i (Suc fuel) =
     (case d ! i of
        None \<Rightarrow> Some cap
      | Some x \<Rightarrow> if key x = v then Some i
                  else find_loop key d cap v ((i + 1) AND (cap - 1)) fuel)"

definition find_occupied :: "('e \<Rightarrow> 'k) \<Rightarrow> ('k \<Rightarrow> nat) \<Rightarrow> 'e table \<Rightarrow> 'k \<Rightarrow> nat option" where
  "find_occupied key hash s v =
    (if m_cap s = 0 then Some 0
     else find_loop key (m_data s) (m_cap s) v (hash_idx hash (m_cap s) v) (Suc (m_cap s)))"

fun empty_loop :: "'e option list \<Rightarrow> nat \<Rightarrow> nat \<Rightarrow> nat \<Rightarrow> nat option" where
  "empty_loop d cap i 0 = None"
| "empty_loop d cap i (Suc fuel) =
     (case d ! i of
        None \<Rightarrow> Some i
      | Some _ \<Rightarrow> empty_loop d cap ((i + 1) AND (cap - 1)) fuel)"

text \<open>The copy loop of \<open>grow\<close>: every occupied slot is re-inserted into the new array.\<close>

fun rehash_loop ::
    "('e \<Rightarrow> 'k) \<Rightarrow> ('k \<Rightarrow> nat) \<Rightarrow> nat \<Rightarrow> 'e option list \<Rightarrow> 'e option list \<Rightarrow> 'e option list option" where
  "rehash_loop key hash nc [] nd = Some nd"
| "rehash_loop key hash nc (None # d) nd = rehash_loop key hash nc d nd"
| "rehash_loop key hash nc (Some x # d) nd =
     (case empty_loop nd nc (hash_idx hash nc (key x)) (Suc nc) of
        None \<Rightarrow> None
      | Some j \<Rightarrow> rehash_loop key hash nc d (nd[j := Some x]))"

definition grow :: "('e \<Rightarrow> 'k) \<Rightarrow> ('k \<Rightarrow> nat) \<Rightarrow> 'e table \<Rightarrow> 'e table option" where
  "grow key hash s =
    (let nc = (if m_cap s \<noteq> 0 then m_cap s * 2 else 16)
     in case rehash_loop key hash nc (m_data s) (replicate nc None) of
          None \<Rightarrow> None
        | Some nd \<Rightarrow> Some (s\<lparr>m_data := nd, m_cap := nc\<rparr>))"

text \<open>\<open>static_cast<size_t>(m_cap * MAX_LOAD)\<close> with \<open>MAX_LOAD = 0.75\<close>, exact in a double.\<close>

definition load_limit :: "nat \<Rightarrow> nat" where
  "load_limit cap = cap * 3 div 4"

definition find_empty :: "('e \<Rightarrow> 'k) \<Rightarrow> ('k \<Rightarrow> nat) \<Rightarrow> 'e table \<Rightarrow> 'k \<Rightarrow> ('e table \<times> nat) option" where
  "find_empty key hash s v =
    (case (if m_size s \<ge> load_limit (m_cap s) then grow key hash s else Some s) of
       None \<Rightarrow> None
     | Some s' \<Rightarrow>
         (case empty_loop (m_data s') (m_cap s') (hash_idx hash (m_cap s') v) (Suc (m_cap s')) of
            None \<Rightarrow> None
          | Some i \<Rightarrow> Some (s', i)))"

definition table_contains :: "('e \<Rightarrow> 'k) \<Rightarrow> ('k \<Rightarrow> nat) \<Rightarrow> 'e table \<Rightarrow> 'k \<Rightarrow> bool option" where
  "table_contains key hash s v =
    (case find_occupied key hash s v of None \<Rightarrow> None | Some i \<Rightarrow> Some (i < m_cap s))"

text \<open>Insertion of an entry whose key is not in the table; \<open>false\<close> leaves the table as it is.\<close>

definition table_insert :: "('e \<Rightarrow> 'k) \<Rightarrow> ('k \<Rightarrow> nat) \<Rightarrow> 'e table \<Rightarrow> 'e \<Rightarrow> (bool \<times> 'e table) option" where
  "table_insert key hash s x =
    (case find_occupied key hash s (key x) of
       None \<Rightarrow> None
     | Some i \<Rightarrow>
         if i < m_cap s then Some (False, s)
         else (case find_empty key hash s (key x) of
                 None \<Rightarrow> None
               | Some (s', j) \<Rightarrow>
                   Some (True, s'\<lparr>m_data := (m_data s')[j := Some x], m_size := m_size s' + 1\<rparr>)))"

text \<open>The backward-shift loop of \<open>do_erase\<close>, with its test \<open>must_slide\<close>.\<close>

definition must_slide :: "nat \<Rightarrow> nat \<Rightarrow> nat \<Rightarrow> bool" where
  "must_slide h hole nxt =
    (if h \<le> nxt then hole \<ge> h \<and> hole \<le> nxt else hole \<ge> h \<or> hole \<le> nxt)"

fun erase_loop :: "('e \<Rightarrow> 'k) \<Rightarrow> ('k \<Rightarrow> nat) \<Rightarrow> nat \<Rightarrow> 'e option list \<Rightarrow> nat \<Rightarrow> nat \<Rightarrow> 'e option list option" where
  "erase_loop key hash cap d hole 0 = None"
| "erase_loop key hash cap d hole (Suc fuel) =
     (let nxt = (hole + 1) AND (cap - 1)
      in case d ! nxt of
           None \<Rightarrow> Some d
         | Some x \<Rightarrow>
             (let h = hash_idx hash cap (key x)
              in if \<not> must_slide h hole nxt then Some d
                 else erase_loop key hash cap (d[hole := d ! nxt, nxt := None]) nxt fuel))"

definition do_erase :: "('e \<Rightarrow> 'k) \<Rightarrow> ('k \<Rightarrow> nat) \<Rightarrow> 'e table \<Rightarrow> nat \<Rightarrow> 'e table option" where
  "do_erase key hash s i =
    (case erase_loop key hash (m_cap s) ((m_data s)[i := None]) i (Suc (m_cap s)) of
       None \<Rightarrow> None
     | Some d \<Rightarrow> Some (s\<lparr>m_data := d, m_size := m_size s - 1\<rparr>))"

definition table_erase :: "('e \<Rightarrow> 'k) \<Rightarrow> ('k \<Rightarrow> nat) \<Rightarrow> 'e table \<Rightarrow> 'k \<Rightarrow> (bool \<times> 'e table) option" where
  "table_erase key hash s v =
    (case find_occupied key hash s v of
       None \<Rightarrow> None
     | Some i \<Rightarrow>
         if i \<ge> m_cap s then Some (False, s)
         else (case do_erase key hash s i of None \<Rightarrow> None | Some s' \<Rightarrow> Some (True, s')))"

definition table_clear :: "'e table \<Rightarrow> 'e table" where
  "table_clear s = s\<lparr>m_data := map (\<lambda>_. None) (m_data s), m_size := 0\<rparr>"

text \<open>Iteration (\<open>begin\<close> \dots \<open>end\<close>) visits the occupied slots in order.\<close>

definition table_entries :: "'e table \<Rightarrow> 'e list" where
  "table_entries s = List.map_filter (\<lambda>x. x) (m_data s)"

section \<open>The two containers\<close>

definition hset_contains :: "('a \<Rightarrow> nat) \<Rightarrow> 'a table \<Rightarrow> 'a \<Rightarrow> bool option" where
  "hset_contains hash s v = table_contains (\<lambda>x. x) hash s v"

definition hset_insert :: "('a \<Rightarrow> nat) \<Rightarrow> 'a table \<Rightarrow> 'a \<Rightarrow> (bool \<times> 'a table) option" where
  "hset_insert hash s v = table_insert (\<lambda>x. x) hash s v"

definition hset_erase :: "('a \<Rightarrow> nat) \<Rightarrow> 'a table \<Rightarrow> 'a \<Rightarrow> (bool \<times> 'a table) option" where
  "hset_erase hash s v = table_erase (\<lambda>x. x) hash s v"

definition hset_clear :: "'a table \<Rightarrow> 'a table" where
  "hset_clear s = table_clear s"

text \<open>\<open>TMSafeMap\<close> repeats the private operations over pairs, with the key in \<open>kv.first\<close>.\<close>

definition hmap_find_occupied :: "('k \<Rightarrow> nat) \<Rightarrow> ('k \<times> 'v) table \<Rightarrow> 'k \<Rightarrow> nat option" where
  "hmap_find_occupied hash s k = find_occupied fst hash s k"

definition hmap_find_empty :: "('k \<Rightarrow> nat) \<Rightarrow> ('k \<times> 'v) table \<Rightarrow> 'k \<Rightarrow> (('k \<times> 'v) table \<times> nat) option" where
  "hmap_find_empty hash s k = find_empty fst hash s k"

definition hmap_find :: "('k \<Rightarrow> nat) \<Rightarrow> ('k \<times> 'v) table \<Rightarrow> 'k \<Rightarrow> ('k \<times> 'v) option option" where
  "hmap_find hash s k =
    (case hmap_find_occupied hash s k of
       None \<Rightarrow> None
     | Some i \<Rightarrow> Some (if i < m_cap s then m_data s ! i else None))"

text \<open>\<open>m[k] = v\<close>: \<open>operator[]\<close> finds or creates the entry (with \<open>V{}\<close>), the caller assigns to it.\<close>

definition hmap_assign :: "('k \<Rightarrow> nat) \<Rightarrow> ('k \<times> 'v) table \<Rightarrow> 'k \<Rightarrow> 'v \<Rightarrow> ('k \<times> 'v) table option" where
  "hmap_assign hash s k v =
    (case hmap_find_occupied hash s k of
       None \<Rightarrow> None
     | Some i \<Rightarrow>
         if i < m_cap s then Some (s\<lparr>m_data := (m_data s)[i := Some (k, v)]\<rparr>)
         else (case hmap_find_empty hash s k of
                 None \<Rightarrow> None
               | Some (s', j) \<Rightarrow>
                   Some (s'\<lparr>m_data := (m_data s')[j := Some (k, v)], m_size := m_size s' + 1\<rparr>)))"

definition hmap_do_erase :: "('k \<Rightarrow> nat) \<Rightarrow> ('k \<times> 'v) table \<Rightarrow> nat \<Rightarrow> ('k \<times> 'v) table option" where
  "hmap_do_erase hash s i = do_erase fst hash s i"

definition hmap_erase :: "('k \<Rightarrow> nat) \<Rightarrow> ('k \<times> 'v) table \<Rightarrow> 'k \<Rightarrow> (nat \<times> ('k \<times> 'v) table) option" where
  "hmap_erase hash s k =
    (case hmap_find_occupied hash s k of
       None \<Rightarrow> None
     | Some i \<Rightarrow>
         if i \<ge> m_cap s then Some (0, s)
         else (case hmap_do_erase hash s i of None \<Rightarrow> None | Some s' \<Rightarrow> Some (1, s')))"

definition hmap_clear :: "('k \<times> 'v) table \<Rightarrow> ('k \<times> 'v) table" where
  "hmap_clear s = table_clear s"

fun hmap_copy_loop :: "('k \<Rightarrow> nat) \<Rightarrow> ('k \<times> 'v) option list \<Rightarrow> ('k \<times> 'v) table \<Rightarrow> ('k \<times> 'v) table option" where
  "hmap_copy_loop hash [] s = Some s"
| "hmap_copy_loop hash (None # d) s = hmap_copy_loop hash d s"
| "hmap_copy_loop hash (Some (k, v) # d) s =
     (case hmap_assign hash s k v of
        None \<Rightarrow> None
      | Some s' \<Rightarrow> hmap_copy_loop hash d s')"

definition hmap_copy :: "('k \<Rightarrow> nat) \<Rightarrow> ('k \<times> 'v) table \<Rightarrow> ('k \<times> 'v) table option" where
  "hmap_copy hash other = hmap_copy_loop hash (m_data other) table_init"

definition hmap_copy_assign ::
    "('k \<Rightarrow> nat) \<Rightarrow> ('k \<times> 'v) table \<Rightarrow> ('k \<times> 'v) table \<Rightarrow> ('k \<times> 'v) table option" where
  "hmap_copy_assign hash s other = hmap_copy_loop hash (m_data other) (hmap_clear s)"

text \<open>The copy constructor and the assignment insert the occupied slots of the other table in order.\<close>

fun copy_loop :: "('e \<Rightarrow> 'k) \<Rightarrow> ('k \<Rightarrow> nat) \<Rightarrow> 'e option list \<Rightarrow> 'e table \<Rightarrow> 'e table option" where
  "copy_loop key hash [] s = Some s"
| "copy_loop key hash (None # d) s = copy_loop key hash d s"
| "copy_loop key hash (Some x # d) s =
     (case table_insert key hash s x of
        None \<Rightarrow> None
      | Some (_, s') \<Rightarrow> copy_loop key hash d s')"

definition hset_copy :: "('a \<Rightarrow> nat) \<Rightarrow> 'a table \<Rightarrow> 'a table option" where
  "hset_copy hash other = copy_loop (\<lambda>x. x) hash (m_data other) table_init"

definition hset_copy_assign :: "('a \<Rightarrow> nat) \<Rightarrow> 'a table \<Rightarrow> 'a table \<Rightarrow> 'a table option" where
  "hset_copy_assign hash s other = copy_loop (\<lambda>x. x) hash (m_data other) (hset_clear s)"

section \<open>Probe sequences\<close>

definition pow2 :: "nat \<Rightarrow> bool" where
  "pow2 n \<longleftrightarrow> (\<exists>k. n = 2 ^ k)"

lemma pow2_pos: "pow2 n \<Longrightarrow> 0 < n"
  by (auto simp: pow2_def)

lemma pow2_16: "pow2 16"
  unfolding pow2_def by (rule exI [of _ 4]) simp

lemma pow2_double: "pow2 n \<Longrightarrow> pow2 (n * 2)"
  unfolding pow2_def by (metis power_Suc2)

lemma and_pred_mod:
  assumes "pow2 cap"
  shows "n AND (cap - Suc 0) = n mod cap"
proof -
  obtain k where k: "cap = 2 ^ k" using assms by (auto simp: pow2_def)
  have "n AND mask k = n mod 2 ^ k" by (simp add: take_bit_eq_mask [symmetric] take_bit_eq_mod)
  then show ?thesis by (simp add: k mask_eq_exp_minus_1)
qed

text \<open>The slot a probe for \<open>v\<close> visits after \<open>n\<close> steps.\<close>

definition probe :: "('k \<Rightarrow> nat) \<Rightarrow> nat \<Rightarrow> 'k \<Rightarrow> nat \<Rightarrow> nat" where
  "probe hash cap v n = (hash v mod cap + n) mod cap"

lemma probe_less: "0 < cap \<Longrightarrow> probe hash cap v n < cap"
  by (simp add: probe_def)

lemma probe_0: "pow2 cap \<Longrightarrow> hash_idx hash cap v = probe hash cap v 0"
  by (simp add: hash_idx_def and_pred_mod probe_def)

lemma probe_Suc: "pow2 cap \<Longrightarrow> Suc (probe hash cap v n) AND (cap - Suc 0) = probe hash cap v (Suc n)"
  by (simp only: and_pred_mod probe_def mod_Suc_eq add_Suc_right)

text \<open>The step at which a probe reaches a slot.\<close>

definition probe_dist :: "('k \<Rightarrow> nat) \<Rightarrow> nat \<Rightarrow> 'k \<Rightarrow> nat \<Rightarrow> nat" where
  "probe_dist hash cap v j = (j + cap - hash v mod cap) mod cap"

lemma probe_probe_dist:
  assumes "j < cap"
  shows "probe hash cap v (probe_dist hash cap v j) = j" and "probe_dist hash cap v j < cap"
proof -
  have h: "hash v mod cap < cap" using assms by simp
  have "(hash v mod cap + (j + cap - hash v mod cap) mod cap) mod cap
      = (hash v mod cap + (j + cap - hash v mod cap)) mod cap" by (rule mod_add_right_eq)
  also have "hash v mod cap + (j + cap - hash v mod cap) = j + cap" using h by simp
  finally show "probe hash cap v (probe_dist hash cap v j) = j"
    using assms by (simp add: probe_def probe_dist_def)
  show "probe_dist hash cap v j < cap" using assms by (simp add: probe_dist_def)
qed

lemma mod_dist:
  fixes h n cap :: nat
  assumes "h < cap" and "n < cap"
  shows "((h + n) mod cap + cap - h) mod cap = n"
proof (cases "h + n < cap")
  case True
  then show ?thesis using assms by simp
next
  case False
  then have "(h + n) mod cap = (h + n - cap) mod cap" by (simp add: le_mod_geq)
  also have "\<dots> = h + n - cap" using assms by simp
  finally show ?thesis using assms False by simp
qed

lemma mod_inj:
  fixes h m n cap :: nat
  assumes "h < cap" "m < cap" "n < cap" "(h + m) mod cap = (h + n) mod cap"
  shows "m = n"
  using assms by (metis mod_dist)

lemma probe_dist_probe: "n < cap \<Longrightarrow> probe_dist hash cap v (probe hash cap v n) = n"
  unfolding probe_def probe_dist_def by (rule mod_dist) auto

section \<open>Table invariant\<close>

definition stored :: "'e option list \<Rightarrow> 'e set" where
  "stored d = {x. Some x \<in> set d}"

definition tab_ok :: "('e \<Rightarrow> 'k) \<Rightarrow> ('k \<Rightarrow> nat) \<Rightarrow> nat \<Rightarrow> 'e option list \<Rightarrow> bool" where
  "tab_ok key hash cap d \<longleftrightarrow> pow2 cap \<and> length d = cap \<and>
    (\<forall>j < cap. \<forall>x. d ! j = Some x \<longrightarrow>
       (\<forall>n < probe_dist hash cap (key x) j. d ! probe hash cap (key x) n \<noteq> None)) \<and>
    (\<forall>i < cap. \<forall>j < cap. \<forall>x y. d ! i = Some x \<longrightarrow> d ! j = Some y \<longrightarrow> key x = key y \<longrightarrow> i = j)"

lemma tab_okD:
  assumes "tab_ok key hash cap d"
  shows "pow2 cap" and "length d = cap"
    and "j < cap \<Longrightarrow> d ! j = Some x \<Longrightarrow> n < probe_dist hash cap (key x) j \<Longrightarrow>
      d ! probe hash cap (key x) n \<noteq> None"
    and "i < cap \<Longrightarrow> j < cap \<Longrightarrow> d ! i = Some x \<Longrightarrow> d ! j = Some y \<Longrightarrow> key x = key y \<Longrightarrow> i = j"
  using assms unfolding tab_ok_def by blast+

definition has_free :: "'e option list \<Rightarrow> bool" where
  "has_free d \<longleftrightarrow> None \<in> set d"

lemma stored_iff: "x \<in> stored d \<longleftrightarrow> (\<exists>j < length d. d ! j = Some x)"
  by (auto simp: stored_def in_set_conv_nth)

lemma stored_nthI: "d ! j = Some x \<Longrightarrow> j < length d \<Longrightarrow> x \<in> stored d"
  by (auto simp: stored_iff)

lemma find_loop_stop:
  assumes "pow2 cap" and "n \<le> e" and "e - n < fuel"
    and "\<forall>i. n \<le> i \<longrightarrow> i < e \<longrightarrow> (\<exists>x. d ! probe hash cap v i = Some x \<and> key x \<noteq> v)"
    and "d ! probe hash cap v e = None \<or> (\<exists>x. d ! probe hash cap v e = Some x \<and> key x = v)"
  shows "find_loop key d cap v (probe hash cap v n) fuel =
    Some (if d ! probe hash cap v e = None then cap else probe hash cap v e)"
  using assms(2,3,4)
proof (induction fuel arbitrary: n)
  case (Suc fuel)
  show ?case
  proof (cases "n = e")
    case True
    then show ?thesis using assms(5) by auto
  next
    case False
    then obtain x where x: "d ! probe hash cap v n = Some x" "key x \<noteq> v"
      using Suc.prems by (metis le_neq_implies_less order_refl)
    have "find_loop key d cap v (probe hash cap v (Suc n)) fuel =
        Some (if d ! probe hash cap v e = None then cap else probe hash cap v e)"
      using Suc.prems False by (intro Suc.IH) auto
    then show ?thesis using x by (simp add: probe_Suc [OF assms(1)])
  qed
qed simp

lemma empty_loop_stop:
  assumes "pow2 cap" and "n \<le> e" and "e - n < fuel"
    and "\<forall>i. n \<le> i \<longrightarrow> i < e \<longrightarrow> d ! probe hash cap v i \<noteq> None"
    and "d ! probe hash cap v e = None"
  shows "empty_loop d cap (probe hash cap v n) fuel = Some (probe hash cap v e)"
  using assms(2,3,4)
proof (induction fuel arbitrary: n)
  case (Suc fuel)
  show ?case
  proof (cases "n = e")
    case True
    then show ?thesis using assms(5) by simp
  next
    case False
    then obtain x where x: "d ! probe hash cap v n = Some x"
      using Suc.prems by (metis le_neq_implies_less option.exhaust order_refl)
    have "empty_loop d cap (probe hash cap v (Suc n)) fuel = Some (probe hash cap v e)"
      using Suc.prems False by (intro Suc.IH) auto
    then show ?thesis using x by (simp add: probe_Suc [OF assms(1)])
  qed
qed simp

text \<open>A table with a free slot ends every probe.\<close>

lemma free_probe:
  assumes "length d = cap" and "has_free d"
  obtains n where "n < cap" "d ! probe hash cap v n = None"
    "\<forall>i < n. d ! probe hash cap v i \<noteq> None"
proof -
  obtain j where j: "j < cap" "d ! j = None"
    using assms by (auto simp: has_free_def in_set_conv_nth)
  let ?P = "\<lambda>n. d ! probe hash cap v n = None"
  have P: "?P (probe_dist hash cap v j)" using j by (simp add: probe_probe_dist)
  let ?n = "LEAST n. ?P n"
  have "?n \<le> probe_dist hash cap v j" by (rule Least_le) (rule P)
  also have "\<dots> < cap" using j by (simp add: probe_probe_dist)
  finally have "?n < cap" .
  moreover have "?P ?n" using P by (rule LeastI)
  moreover have "\<forall>i < ?n. \<not> ?P i" by (auto dest: not_less_Least)
  ultimately show ?thesis using that by blast
qed

lemma find_loop_found:
  assumes ok: "tab_ok key hash cap d" and j: "j < cap" "d ! j = Some x"
  shows "find_loop key d cap (key x) (hash_idx hash cap (key x)) (Suc cap) = Some j"
proof -
  let ?e = "probe_dist hash cap (key x) j"
  have p2: "pow2 cap" using ok by (rule tab_okD(1))
  have e: "probe hash cap (key x) ?e = j" "?e < cap" using j by (auto simp: probe_probe_dist)
  have occ: "\<exists>y. d ! probe hash cap (key x) i = Some y \<and> key y \<noteq> key x" if i: "i < ?e" for i
  proof -
    obtain y where y: "d ! probe hash cap (key x) i = Some y"
      using tab_okD(3) [OF ok j i] by blast
    have "key y \<noteq> key x"
    proof
      assume "key y = key x"
      then have "probe hash cap (key x) i = j"
        using tab_okD(4) [OF ok _ j(1) y j(2)] p2 by (simp add: probe_less pow2_pos)
      moreover have "i < cap" using i e by simp
      ultimately have "i = ?e" by (metis probe_dist_probe)
      with i show False by simp
    qed
    with y show ?thesis by blast
  qed
  have "find_loop key d cap (key x) (probe hash cap (key x) 0) (Suc cap) =
      Some (if d ! probe hash cap (key x) ?e = None then cap else probe hash cap (key x) ?e)"
    using e j occ by (intro find_loop_stop [OF p2]) simp_all
  then show ?thesis using e j by (simp add: probe_0 [OF p2])
qed

lemma find_loop_missing:
  assumes ok: "tab_ok key hash cap d" and fr: "has_free d" and v: "v \<notin> key ` stored d"
  shows "find_loop key d cap v (hash_idx hash cap v) (Suc cap) = Some cap"
proof -
  have p2: "pow2 cap" and len: "length d = cap" using tab_okD(1,2) [OF ok] by simp_all
  obtain n where n: "n < cap" "d ! probe hash cap v n = None"
      "\<forall>i < n. d ! probe hash cap v i \<noteq> None"
    by (rule free_probe [OF len fr])
  have occ: "\<exists>x. d ! probe hash cap v i = Some x \<and> key x \<noteq> v" if i: "i < n" for i
  proof -
    obtain x where x: "d ! probe hash cap v i = Some x" using n(3) i by blast
    then have "x \<in> stored d"
      by (rule stored_nthI) (simp add: len p2 probe_less pow2_pos)
    with x v show ?thesis by auto
  qed
  have "find_loop key d cap v (probe hash cap v 0) (Suc cap) =
      Some (if d ! probe hash cap v n = None then cap else probe hash cap v n)"
    using n(1,2) occ by (intro find_loop_stop [OF p2]) simp_all
  then show ?thesis using n by (simp add: probe_0 [OF p2])
qed


section \<open>Insertion\<close>

text \<open>Storing an entry in the first free slot of its probe sequence keeps the invariant.\<close>

lemma stored_upd:
  assumes "j < length d" and "d ! j = None"
  shows "stored (d[j := Some x]) = insert x (stored d)"
proof -
  have sp: "d = take j d @ None # drop (Suc j) d"
    using assms by (metis id_take_nth_drop)
  have "stored (a @ None # b) = stored (a @ b)" for a b :: "'a option list"
    by (auto simp: stored_def)
  then have "stored d = stored (take j d @ drop (Suc j) d)" using sp by metis
  moreover have "d[j := Some x] = take j d @ Some x # drop (Suc j) d"
    using assms by (simp add: upd_conv_take_nth_drop)
  ultimately show ?thesis by (auto simp: stored_def)
qed

lemma tab_ok_place:
  assumes ok: "tab_ok key hash cap d" and e: "e < cap" "d ! probe hash cap (key x) e = None"
    and occ: "\<forall>i < e. d ! probe hash cap (key x) i \<noteq> None" and new: "key x \<notin> key ` stored d"
  shows "tab_ok key hash cap (d[probe hash cap (key x) e := Some x])"
proof -
  let ?j = "probe hash cap (key x) e"
  note p2 = tab_okD(1) [OF ok] and len = tab_okD(2) [OF ok]
  have j: "?j < cap" using p2 by (simp add: probe_less pow2_pos)
  have lt: "probe hash cap v n < cap" for v n using p2 by (simp add: probe_less pow2_pos)
  have nth: "d[?j := Some x] ! i = (if i = ?j then Some x else d ! i)" if "i < cap" for i
    using that len by (simp add: nth_list_update)
  have keep: "d[?j := Some x] ! i \<noteq> None" if "i < cap" "d ! i \<noteq> None" for i
    using that nth by simp
  have chain: "d[?j := Some x] ! probe hash cap (key y) n \<noteq> None"
    if "i < cap" "d[?j := Some x] ! i = Some y" "n < probe_dist hash cap (key y) i" for i y n
  proof (cases "i = ?j")
    case True
    with that nth have "y = x" by simp
    moreover have "probe_dist hash cap (key x) ?j = e" using e by (simp add: probe_dist_probe)
    ultimately have "d ! probe hash cap (key x) n \<noteq> None" using occ True that(3) by simp
    then show ?thesis using keep lt \<open>y = x\<close> by simp
  next
    case False
    with that nth have "d ! i = Some y" by simp
    with ok that have "d ! probe hash cap (key y) n \<noteq> None" by (intro tab_okD(3) [OF ok])
    then show ?thesis using keep lt by simp
  qed
  have old: "key y \<noteq> key x" if "i < cap" "d ! i = Some y" for i y
  proof -
    have "y \<in> stored d" using that len by (auto simp: stored_iff)
    with new show ?thesis by (metis imageI)
  qed
  have inj: "i = i'" if "i < cap" "i' < cap" "d[?j := Some x] ! i = Some y"
    "d[?j := Some x] ! i' = Some z" "key y = key z" for i i' y z
    using that nth old tab_okD(4) [OF ok that(1,2)] by (metis option.inject)
  show ?thesis
    unfolding tab_ok_def using p2 len chain inj by simp
qed

text \<open>
  \<open>empty_loop\<close> finds such a slot whenever one is free.
\<close>

lemma empty_loop_place:
  assumes ok: "tab_ok key hash cap d" and fr: "has_free d" and new: "key x \<notin> key ` stored d"
  obtains j where "empty_loop d cap (hash_idx hash cap (key x)) (Suc cap) = Some j"
    "j < cap" "d ! j = None" "tab_ok key hash cap (d[j := Some x])"
proof -
  note p2 = tab_okD(1) [OF ok] and len = tab_okD(2) [OF ok]
  obtain n where n: "n < cap" "d ! probe hash cap (key x) n = None"
      "\<forall>i < n. d ! probe hash cap (key x) i \<noteq> None"
    by (rule free_probe [OF len fr])
  have "empty_loop d cap (probe hash cap (key x) 0) (Suc cap) = Some (probe hash cap (key x) n)"
    using n by (intro empty_loop_stop [OF p2]) simp_all
  moreover have "tab_ok key hash cap (d[probe hash cap (key x) n := Some x])"
    using n new by (intro tab_ok_place [OF ok])
  ultimately show ?thesis
    using that n p2 by (simp add: probe_0 probe_less pow2_pos)
qed

section \<open>Free slots\<close>

definition n_occ :: "'e option list \<Rightarrow> nat" where
  "n_occ d = length (filter (\<lambda>x. x \<noteq> None) d)"

lemma n_occ_free: "n_occ d < length d \<Longrightarrow> has_free d"
  unfolding n_occ_def has_free_def by (metis (mono_tags) filter_id_conv less_irrefl)

lemma n_occ_Cons [simp]: "n_occ (None # d) = n_occ d" "n_occ (Some x # d) = Suc (n_occ d)"
  by (simp_all add: n_occ_def)

lemma n_occ_replicate: "n_occ (replicate n None) = 0"
  by (induction n) (simp_all add: n_occ_def)

lemma n_occ_append: "n_occ (a @ b) = n_occ a + n_occ b"
  by (simp add: n_occ_def)

lemma n_occ_upd:
  assumes "j < length d" and "d ! j = None"
  shows "n_occ (d[j := Some x]) = Suc (n_occ d)"
proof -
  have "d = take j d @ None # drop (Suc j) d"
    using assms by (metis id_take_nth_drop)
  then have "n_occ d = n_occ (take j d) + n_occ (drop (Suc j) d)"
    by (metis n_occ_append n_occ_Cons(1))
  moreover have "d[j := Some x] = take j d @ Some x # drop (Suc j) d"
    using assms by (simp add: upd_conv_take_nth_drop)
  ultimately show ?thesis by (simp add: n_occ_append)
qed

lemma n_occ_le: "n_occ d \<le> length d"
  by (simp add: n_occ_def)

lemma tab_ok_empty:
  assumes "pow2 cap"
  shows "tab_ok key hash cap (replicate cap None)" and "stored (replicate cap None) = {}"
    and "n_occ (replicate cap None) = 0"
  using assms by (auto simp: tab_ok_def stored_def n_occ_def)

lemma stored_Cons: "stored (None # d) = stored d" "stored (Some x # d) = insert x (stored d)"
  by (auto simp: stored_def)

lemma stored_entries: "stored d = set (List.map_filter (\<lambda>x. x) d)"
  by (induction d) (auto simp: stored_def List.map_filter_simps split: option.splits)

text \<open>Re-inserting the entries of a table with distinct keys keeps exactly those entries.\<close>

lemma rehash_ok:
  assumes "tab_ok key hash nc nd" and "n_occ d + n_occ nd < nc"
    and "distinct (map key (List.map_filter (\<lambda>x. x) d))" and "key ` stored d \<inter> key ` stored nd = {}"
  shows "\<exists>nd'. rehash_loop key hash nc d nd = Some nd' \<and> tab_ok key hash nc nd' \<and>
    stored nd' = stored d \<union> stored nd \<and> n_occ nd' = n_occ d + n_occ nd"
  using assms
proof (induction d arbitrary: nd)
  case Nil
  then show ?case by (simp add: stored_def n_occ_def)
next
  case (Cons sl d)
  show ?case
  proof (cases sl)
    case None
    then show ?thesis
      using Cons.IH [OF Cons.prems(1)] Cons.prems(2-4) by (simp add: stored_Cons List.map_filter_simps)
  next
    case (Some x)
    have len: "length nd = nc" using Cons.prems(1) by (rule tab_okD(2))
    have fr: "has_free nd" using Cons.prems(2) Some len by (intro n_occ_free) simp
    have new: "key x \<notin> key ` stored nd" using Cons.prems(4) Some by (simp add: stored_Cons)
    obtain j where j: "empty_loop nd nc (hash_idx hash nc (key x)) (Suc nc) = Some j" "j < nc"
        "nd ! j = None" "tab_ok key hash nc (nd[j := Some x])"
      by (rule empty_loop_place [OF Cons.prems(1) fr new])
    have st: "stored (nd[j := Some x]) = insert x (stored nd)"
      and no: "n_occ (nd[j := Some x]) = Suc (n_occ nd)"
      using j len by (simp_all add: stored_upd n_occ_upd)
    have kx: "key x \<notin> key ` stored d"
    proof -
      have "stored d = set (List.map_filter (\<lambda>x. x) d)"
        by (rule stored_entries)
      with Cons.prems(3) Some show ?thesis by (simp add: List.map_filter_simps)
    qed
    have "n_occ d + n_occ (nd[j := Some x]) < nc" using Cons.prems(2) Some no by simp
    moreover have "distinct (map key (List.map_filter (\<lambda>x. x) d))"
      using Cons.prems(3) Some by (simp add: List.map_filter_simps)
    moreover have "key ` stored d \<inter> key ` stored (nd[j := Some x]) = {}"
      using Cons.prems(4) Some kx by (simp add: stored_Cons st)
    ultimately show ?thesis
      using Cons.IH [OF j(4)] j(1) Some st no by (auto simp: stored_Cons)
  qed
qed


lemma tab_ok_distinct:
  assumes "\<And>i j x y. i < length d \<Longrightarrow> j < length d \<Longrightarrow> d ! i = Some x \<Longrightarrow> d ! j = Some y \<Longrightarrow>
    key x = key y \<Longrightarrow> i = j"
  shows "distinct (map key (List.map_filter (\<lambda>x. x) d))"
  using assms
proof (induction d)
  case (Cons sl d)
  have tl: "distinct (map key (List.map_filter (\<lambda>x. x) d))"
  proof (rule Cons.IH)
    fix i j x y
    assume "i < length d" "j < length d" "d ! i = Some x" "d ! j = Some y" "key x = key y"
    then show "i = j" using Cons.prems [of "Suc i" "Suc j" x y] by simp
  qed
  show ?case
  proof (cases sl)
    case None
    then show ?thesis using tl by (simp add: List.map_filter_simps)
  next
    case (Some x)
    have "key x \<notin> key ` stored d"
    proof
      assume "key x \<in> key ` stored d"
      then obtain y where y: "y \<in> stored d" "key x = key y" by blast
      then obtain j where j: "j < length d" "d ! j = Some y" by (auto simp: stored_iff)
      then show False using Cons.prems [of 0 "Suc j" x y] Some y(2) by simp
    qed
    then show ?thesis using tl Some by (simp add: List.map_filter_simps stored_entries)
  qed
qed (simp add: List.map_filter_simps)

section \<open>The operations on tables\<close>

text \<open>
  \<open>table_sized\<close> is what every operation keeps, \<open>table_ok\<close> what every operation but
  erasure keeps.
\<close>

definition table_sized :: "'e table \<Rightarrow> bool" where
  "table_sized s \<longleftrightarrow> length (m_data s) = m_cap s \<and> m_size s = n_occ (m_data s) \<and>
    m_size s \<le> load_limit (m_cap s) \<and> (m_cap s = 0 \<or> pow2 (m_cap s) \<and> 16 \<le> m_cap s)"

definition table_ok :: "('e \<Rightarrow> 'k) \<Rightarrow> ('k \<Rightarrow> nat) \<Rightarrow> 'e table \<Rightarrow> bool" where
  "table_ok key hash s \<longleftrightarrow> table_sized s \<and> (m_cap s = 0 \<or> tab_ok key hash (m_cap s) (m_data s))"

definition table_elems :: "'e table \<Rightarrow> 'e set" where
  "table_elems s = stored (m_data s)"

lemma load_limit_less: "0 < cap \<Longrightarrow> load_limit cap < cap"
  by (simp add: load_limit_def)

lemma table_sized_free: "table_sized s \<Longrightarrow> m_cap s \<noteq> 0 \<Longrightarrow> has_free (m_data s)"
  using load_limit_less [of "m_cap s"] by (intro n_occ_free) (auto simp: table_sized_def)

lemma table_ok_init: "table_ok key hash table_init" "table_elems table_init = {}"
  by (simp_all add: table_ok_def table_sized_def table_init_def n_occ_def load_limit_def
      table_elems_def stored_def)

lemma table_ok_zero: "table_sized s \<Longrightarrow> m_cap s = 0 \<Longrightarrow> m_data s = [] \<and> m_size s = 0"
  by (simp add: table_sized_def n_occ_def)

lemma find_occupied_found:
  assumes "table_ok key hash s" and "x \<in> table_elems s"
  shows "\<exists>i < m_cap s. find_occupied key hash s (key x) = Some i \<and> m_data s ! i = Some x"
proof -
  obtain j where j: "j < length (m_data s)" "m_data s ! j = Some x"
    using assms(2) by (auto simp: table_elems_def stored_iff)
  have len: "length (m_data s) = m_cap s" using assms(1) by (simp add: table_ok_def table_sized_def)
  then have "m_cap s \<noteq> 0" using j by auto
  then have ok: "tab_ok key hash (m_cap s) (m_data s)" using assms(1) by (simp add: table_ok_def)
  have j': "j < m_cap s" using j(1) len by simp
  show ?thesis
    using find_loop_found [OF ok j' j(2)] \<open>m_cap s \<noteq> 0\<close> j' j(2) by (simp add: find_occupied_def)
qed

lemma find_occupied_missing:
  assumes "table_ok key hash s" and "v \<notin> key ` table_elems s"
  shows "find_occupied key hash s v = Some (m_cap s)"
proof (cases "m_cap s = 0")
  case False
  then have ok: "tab_ok key hash (m_cap s) (m_data s)" and "table_sized s"
    using assms(1) by (simp_all add: table_ok_def)
  then show ?thesis
    using find_loop_missing [OF ok table_sized_free] False assms(2)
    by (simp add: find_occupied_def table_elems_def del: find_loop.simps)
qed (simp add: find_occupied_def)

lemma table_contains_ok:
  assumes "table_ok key hash s"
  shows "table_contains key hash s v = Some (v \<in> key ` table_elems s)"
proof (cases "v \<in> key ` table_elems s")
  case True
  then obtain x where "x \<in> table_elems s" "v = key x" by blast
  then show ?thesis
    using find_occupied_found [OF assms] True by (fastforce simp: table_contains_def)
next
  case False
  then show ?thesis
    using find_occupied_missing [OF assms] by (simp add: table_contains_def)
qed

text \<open>The capacity \<open>grow\<close> allocates holds the entries and one more.\<close>

definition grown :: "nat \<Rightarrow> nat" where
  "grown cap = (if cap \<noteq> 0 then cap * 2 else 16)"

lemma grown_sized:
  assumes "table_sized s"
  shows "pow2 (grown (m_cap s))" and "16 \<le> grown (m_cap s)" and "m_size s < load_limit (grown (m_cap s))"
    and "n_occ (m_data s) + n_occ (replicate (grown (m_cap s)) None) < grown (m_cap s)"
proof -
  show "pow2 (grown (m_cap s))" "16 \<le> grown (m_cap s)"
    using assms by (auto simp: grown_def table_sized_def pow2_16 pow2_double)
  show "m_size s < load_limit (grown (m_cap s))"
    using assms by (auto simp: grown_def table_sized_def load_limit_def)
  then show "n_occ (m_data s) + n_occ (replicate (grown (m_cap s)) None) < grown (m_cap s)"
    using load_limit_less [of "grown (m_cap s)"] assms
    by (auto simp: n_occ_replicate table_sized_def grown_def)
qed

lemma table_ok_distinct:
  assumes "table_ok key hash s"
  shows "distinct (map key (List.map_filter (\<lambda>x. x) (m_data s)))"
proof (cases "m_cap s = 0")
  case True
  then show ?thesis using assms by (simp add: table_ok_def table_sized_def List.map_filter_simps)
next
  case False
  then have ok: "tab_ok key hash (m_cap s) (m_data s)" using assms by (simp add: table_ok_def)
  show ?thesis
    by (rule tab_ok_distinct) (metis tab_okD(2,4) [OF ok])
qed

lemma grow_ok:
  assumes "table_ok key hash s"
  shows "\<exists>s'. grow key hash s = Some s' \<and> table_ok key hash s' \<and> table_elems s' = table_elems s \<and>
    m_size s' = m_size s \<and> m_size s' < load_limit (m_cap s') \<and> m_cap s' \<noteq> 0"
proof -
  have sz: "table_sized s" using assms by (simp add: table_ok_def)
  note G = grown_sized [OF sz]
  obtain nd where nd: "rehash_loop key hash (grown (m_cap s)) (m_data s) (replicate (grown (m_cap s)) None) = Some nd"
      "tab_ok key hash (grown (m_cap s)) nd" "stored nd = stored (m_data s)" "n_occ nd = n_occ (m_data s)"
    using rehash_ok [OF tab_ok_empty(1) [OF G(1)] G(4) table_ok_distinct [OF assms]]
    by (auto simp: tab_ok_empty(2) [OF G(1)] n_occ_replicate)
  have "grow key hash s = Some (s\<lparr>m_data := nd, m_cap := grown (m_cap s)\<rparr>)"
    using nd(1) by (simp add: grow_def grown_def Let_def)
  then show ?thesis
    using nd(2-4) G sz tab_okD(2) [OF nd(2)] by (simp add: table_ok_def table_sized_def table_elems_def)
qed

lemma find_empty_ok:
  assumes "table_ok key hash s" and "key x \<notin> key ` table_elems s"
  shows "\<exists>s' j. find_empty key hash s (key x) = Some (s', j) \<and>
    (let t = s'\<lparr>m_data := (m_data s')[j := Some x], m_size := m_size s' + 1\<rparr>
     in table_ok key hash t \<and> table_elems t = insert x (table_elems s))"
proof -
  obtain s' where s': "(if m_size s \<ge> load_limit (m_cap s) then grow key hash s else Some s) = Some s'"
      "table_ok key hash s'" "table_elems s' = table_elems s"
      "m_size s' < load_limit (m_cap s')" "m_cap s' \<noteq> 0"
    using grow_ok [OF assms(1)] assms(1) by (cases "m_size s \<ge> load_limit (m_cap s)") (auto simp: load_limit_def)
  have sz: "table_sized s'" and ok: "tab_ok key hash (m_cap s') (m_data s')"
    using s' by (simp_all add: table_ok_def)
  have new: "key x \<notin> key ` stored (m_data s')" using assms(2) s'(3) by (simp add: table_elems_def)
  obtain j where j: "empty_loop (m_data s') (m_cap s') (hash_idx hash (m_cap s') (key x)) (Suc (m_cap s')) = Some j"
      "j < m_cap s'" "m_data s' ! j = None" "tab_ok key hash (m_cap s') ((m_data s')[j := Some x])"
    by (rule empty_loop_place [OF ok table_sized_free [OF sz s'(5)] new])
  have "find_empty key hash s (key x) = Some (s', j)"
    using s'(1) j(1) by (simp add: find_empty_def del: empty_loop.simps)
  moreover have "stored ((m_data s')[j := Some x]) = insert x (table_elems s)"
    "n_occ ((m_data s')[j := Some x]) = Suc (n_occ (m_data s'))"
    using j s'(3) tab_okD(2) [OF ok] by (simp_all add: stored_upd n_occ_upd table_elems_def)
  ultimately show ?thesis
    using sz s'(4) j by (simp add: table_ok_def table_sized_def table_elems_def)
qed

lemma table_insert_ok:
  assumes "table_ok key hash s"
  shows "\<exists>s'. table_insert key hash s x = Some (key x \<notin> key ` table_elems s, s') \<and> table_ok key hash s' \<and>
    table_elems s' = (if key x \<in> key ` table_elems s then table_elems s else insert x (table_elems s))"
proof (cases "key x \<in> key ` table_elems s")
  case True
  then obtain y where y: "y \<in> table_elems s" "key x = key y" by blast
  then show ?thesis
    using find_occupied_found [OF assms y(1)] True assms by (auto simp: table_insert_def)
next
  case False
  then show ?thesis
    using find_occupied_missing [OF assms False] find_empty_ok [OF assms False]
    by (auto simp: table_insert_def Let_def)
qed

section \<open>Assignment to an entry that is present\<close>

lemma upd_same_key:
  assumes ok: "tab_ok key hash cap d" and j: "j < cap" "d ! j = Some x" and k: "key y = key x"
  shows "tab_ok key hash cap (d[j := Some y])" and "n_occ (d[j := Some y]) = n_occ d"
    and "stored (d[j := Some y]) = insert y {z \<in> stored d. key z \<noteq> key y}"
proof -
  note p2 = tab_okD(1) [OF ok] and len = tab_okD(2) [OF ok]
  have lt: "probe hash cap v n < cap" for v n using p2 by (simp add: probe_less pow2_pos)
  have nth: "d[j := Some y] ! i = (if i = j then Some y else d ! i)" if "i < cap" for i
    using that len j(1) by (simp add: nth_list_update)
  have old: "\<exists>z'. d ! i = Some z' \<and> key z' = key z" if "i < cap" "d[j := Some y] ! i = Some z" for i z
    using that nth [OF that(1)] j k by (cases "i = j") auto
  have occ: "d[j := Some y] ! i \<noteq> None" if "i < cap" "d ! i \<noteq> None" for i
    using that nth [OF that(1)] by simp
  show "tab_ok key hash cap (d[j := Some y])"
    unfolding tab_ok_def
  proof (intro conjI allI impI)
    fix i z n
    assume "i < cap" "d[j := Some y] ! i = Some z" "n < probe_dist hash cap (key z) i"
    then show "d[j := Some y] ! probe hash cap (key z) n \<noteq> None"
      using old [of i z] tab_okD(3) [OF ok, of i] occ [OF lt] by metis
  next
    fix i i' z w
    assume "i < cap" "i' < cap" "d[j := Some y] ! i = Some z" "d[j := Some y] ! i' = Some w" "key z = key w"
    then show "i = i'" using old [of i z] old [of i' w] tab_okD(4) [OF ok] by metis
  qed (use p2 len in simp_all)
  have sp: "d = take j d @ Some x # drop (Suc j) d"
    using j len by (metis id_take_nth_drop)
  have up: "d[j := Some y] = take j d @ Some y # drop (Suc j) d"
    using j len by (simp add: upd_conv_take_nth_drop)
  have "n_occ d = n_occ (take j d) + Suc (n_occ (drop (Suc j) d))"
    by (metis sp n_occ_append n_occ_Cons(2))
  then show "n_occ (d[j := Some y]) = n_occ d" by (simp add: up n_occ_append)
  have "z \<in> stored (d[j := Some y]) \<longleftrightarrow> z = y \<or> (z \<in> stored d \<and> key z \<noteq> key y)" for z
  proof -
    have "z \<in> stored d \<and> key z \<noteq> key y \<longleftrightarrow> (\<exists>i < cap. i \<noteq> j \<and> d ! i = Some z)"
      using tab_okD(4) [OF ok] j k len unfolding stored_iff by (metis option.inject)
    moreover have "z \<in> stored (d[j := Some y]) \<longleftrightarrow> z = y \<or> (\<exists>i < cap. i \<noteq> j \<and> d ! i = Some z)"
      using nth j(1) len unfolding stored_iff by (metis length_list_update option.inject)
    ultimately show ?thesis by blast
  qed
  then show "stored (d[j := Some y]) = insert y {z \<in> stored d. key z \<noteq> key y}" by blast
qed

lemma hmap_assign_ok:
  assumes "table_ok fst hash s"
  shows "\<exists>s'. hmap_assign hash s k v = Some s' \<and> table_ok fst hash s' \<and>
    table_elems s' = insert (k, v) {e \<in> table_elems s. fst e \<noteq> k}"
proof (cases "k \<in> fst ` table_elems s")
  case True
  then obtain e where e: "e \<in> table_elems s" "k = fst e" by blast
  obtain i where i: "i < m_cap s" "find_occupied fst hash s k = Some i" "m_data s ! i = Some e"
    using find_occupied_found [OF assms e(1)] e(2) by blast
  have ok: "tab_ok fst hash (m_cap s) (m_data s)" using assms i(1) by (auto simp: table_ok_def)
  note U = upd_same_key [OF ok i(1,3), of "(k, v)"]
  show ?thesis
    using U e(2) i assms by (simp add: hmap_assign_def hmap_find_occupied_def table_ok_def table_sized_def table_elems_def)
next
  case False
  then have "{e \<in> table_elems s. fst e \<noteq> k} = table_elems s" by force
  then show ?thesis
    using find_occupied_missing [OF assms False] find_empty_ok [OF assms, of "(k, v)"] False
    by (auto simp: hmap_assign_def hmap_find_occupied_def hmap_find_empty_def Let_def)
qed

lemma table_elems_key_unique:
  assumes "table_ok key hash s" and "x \<in> table_elems s" and "y \<in> table_elems s" and "key x = key y"
  shows "x = y"
  using find_occupied_found [OF assms(1,2)] find_occupied_found [OF assms(1,3)] assms(4) by auto

text \<open>The finite map a table stands for.\<close>

definition hmap_abs :: "('k \<times> 'v) table \<Rightarrow> 'k \<rightharpoonup> 'v" where
  "hmap_abs s = map_of (table_entries s)"

lemma table_elems_entries: "table_elems s = set (table_entries s)"
  by (simp add: table_elems_def table_entries_def stored_entries)

lemma hmap_abs_iff:
  assumes "table_ok fst hash s"
  shows "hmap_abs s k = Some v \<longleftrightarrow> (k, v) \<in> table_elems s"
proof
  assume "(k, v) \<in> table_elems s"
  then obtain w where w: "hmap_abs s k = Some w" "(k, w) \<in> table_elems s"
    unfolding hmap_abs_def table_elems_entries
    by (metis map_of_SomeD not_Some_eq map_of_eq_None_iff fst_conv image_eqI)
  then show "hmap_abs s k = Some v"
    using table_elems_key_unique [OF assms w(2) \<open>(k, v) \<in> table_elems s\<close>] by simp
qed (auto simp: hmap_abs_def table_elems_entries dest: map_of_SomeD)

lemma hmap_find_ok:
  assumes "table_ok fst hash s"
  shows "hmap_find hash s k = Some (map_option (Pair k) (hmap_abs s k))"
proof (cases "hmap_abs s k")
  case (Some v)
  then have "(k, v) \<in> table_elems s" using hmap_abs_iff [OF assms] by blast
  from find_occupied_found [OF assms this] Some show ?thesis by (auto simp: hmap_find_def hmap_find_occupied_def)
next
  case None
  then have "k \<notin> fst ` table_elems s" using hmap_abs_iff [OF assms] by force
  then show ?thesis
    using find_occupied_missing [OF assms] None by (simp add: hmap_find_def hmap_find_occupied_def)
qed

lemma hmap_assign_abs:
  assumes "table_ok fst hash s"
  shows "\<exists>s'. hmap_assign hash s k v = Some s' \<and> table_ok fst hash s' \<and> hmap_abs s' = (hmap_abs s)(k \<mapsto> v)"
proof -
  obtain s' where s': "hmap_assign hash s k v = Some s'" "table_ok fst hash s'"
      "table_elems s' = insert (k, v) {e \<in> table_elems s. fst e \<noteq> k}"
    using hmap_assign_ok [OF assms] by blast
  have "hmap_abs s' j = ((hmap_abs s)(k \<mapsto> v)) j" for j
    by (rule option_eqI) (auto simp: hmap_abs_iff [OF s'(2)] hmap_abs_iff [OF assms] s'(3))
  with s' show ?thesis by blast
qed

section \<open>Every operation returns\<close>

lemma find_loop_returns:
  assumes "pow2 cap" and "length d = cap" and "has_free d"
  shows "\<exists>i \<le> cap. find_loop key d cap v (hash_idx hash cap v) (Suc cap) = Some i \<and>
    (i < cap \<longrightarrow> (\<exists>x. d ! i = Some x \<and> key x = v))"
proof -
  let ?P = "\<lambda>n. d ! probe hash cap v n = None \<or> (\<exists>x. d ! probe hash cap v n = Some x \<and> key x = v)"
  obtain n where n: "n < cap" "d ! probe hash cap v n = None" "\<forall>i < n. d ! probe hash cap v i \<noteq> None"
    by (rule free_probe [OF assms(2,3)])
  let ?e = "LEAST n. ?P n"
  have "?P n" using n(2) by simp
  then have e: "?e \<le> n" "?P ?e" by (rule Least_le, rule LeastI)
  have "\<forall>i. 0 \<le> i \<longrightarrow> i < ?e \<longrightarrow> (\<exists>x. d ! probe hash cap v i = Some x \<and> key x \<noteq> v)"
    using not_less_Least [of _ ?P] by (metis (mono_tags, lifting) option.exhaust)
  then have "find_loop key d cap v (probe hash cap v 0) (Suc cap) =
      Some (if d ! probe hash cap v ?e = None then cap else probe hash cap v ?e)"
    using e n(1) by (intro find_loop_stop [OF assms(1)]) simp_all
  moreover have "probe hash cap v ?e < cap" using assms(1) by (simp add: probe_less pow2_pos)
  ultimately show ?thesis using e(2) by (auto simp: probe_0 [OF assms(1)])
qed

lemma empty_loop_returns:
  assumes "pow2 cap" and "length d = cap" and "has_free d"
  shows "\<exists>j < cap. empty_loop d cap (hash_idx hash cap v) (Suc cap) = Some j \<and> d ! j = None"
proof -
  obtain n where n: "n < cap" "d ! probe hash cap v n = None" "\<forall>i < n. d ! probe hash cap v i \<noteq> None"
    by (rule free_probe [OF assms(2,3)])
  then have "empty_loop d cap (probe hash cap v 0) (Suc cap) = Some (probe hash cap v n)"
    by (intro empty_loop_stop [OF assms(1)]) simp_all
  then show ?thesis
    using n(2) assms(1) by (simp add: probe_0 probe_less pow2_pos del: empty_loop.simps)
qed

lemma rehash_returns:
  assumes "pow2 nc" and "length nd = nc" and "n_occ d + n_occ nd < nc"
  shows "\<exists>nd'. rehash_loop key hash nc d nd = Some nd' \<and> length nd' = nc \<and>
    n_occ nd' = n_occ d + n_occ nd"
  using assms
proof (induction key hash nc d nd rule: rehash_loop.induct)
  case (3 key hash nc x d nd)
  have "has_free nd" using "3.prems" by (intro n_occ_free) simp
  then obtain j where j: "j < nc" "empty_loop nd nc (hash_idx hash nc (key x)) (Suc nc) = Some j" "nd ! j = None"
    using empty_loop_returns [OF "3.prems"(1,2), of hash "key x"] by blast
  have up: "n_occ (nd[j := Some x]) = Suc (n_occ nd)"
    using j "3.prems"(2) by (intro n_occ_upd) simp_all
  have "\<exists>nd'. rehash_loop key hash nc d (nd[j := Some x]) = Some nd' \<and> length nd' = nc \<and>
      n_occ nd' = n_occ d + n_occ (nd[j := Some x])"
    by (rule "3.IH" [OF j(2)]) (use "3.prems" up in simp_all)
  then show ?case
    unfolding rehash_loop.simps j(2) option.case up n_occ_Cons by simp
next
  case (1 key hash nc nd)
  then show ?case by (simp add: n_occ_def)
next
  case (2 key hash nc d nd)
  then show ?case by simp
qed


lemma n_occ_mset: "n_occ d = size (filter_mset (\<lambda>x. x \<noteq> None) (mset d))"
  unfolding n_occ_def by (metis mset_filter size_mset)

lemma stored_mset: "stored d = {x. Some x \<in># mset d}"
  by (simp add: stored_def)

text \<open>The shift of \<open>do_erase\<close> only permutes the slots, and stops at the next free slot at the latest.\<close>

lemma erase_loop_returns:
  assumes "pow2 cap" and "length d = cap" and "hole < cap" and "d ! hole = None"
    and "0 < m" and "m < cap" and "m \<le> fuel" and "d ! ((hole + m) mod cap) = None"
  shows "\<exists>d'. erase_loop key hash cap d hole fuel = Some d' \<and> mset d' = mset d"
  using assms(2-)
proof (induction fuel arbitrary: d hole m)
  case (Suc fuel)
  let ?nxt = "Suc hole mod cap"
  have nx: "(hole + 1) AND (cap - 1) = ?nxt" using and_pred_mod [OF assms(1), of "Suc hole"] by simp
  have lt: "?nxt < cap" using Suc.prems(2) by simp
  show ?case
  proof (cases "d ! ?nxt")
    case None
    then show ?thesis by (simp only: erase_loop.simps Let_def nx) simp
  next
    case (Some x)
    have m1: "m \<noteq> 1" using Some Suc.prems(7) by auto
    have ne: "?nxt \<noteq> hole"
      using Some Suc.prems(3) by auto
    let ?d = "d[hole := d ! ?nxt, ?nxt := None]"
    have ms: "mset ?d = mset d"
      using mset_swap [of hole d ?nxt] Suc.prems(1,2,3) lt ne
      by (simp add: list_update_swap)
    have pos: "(?nxt + (m - 1)) mod cap = (hole + m) mod cap"
    proof -
      have "Suc hole + (m - 1) = hole + m" using Suc.prems(4) by simp
      then show ?thesis by (simp only: mod_add_left_eq)
    qed
    have "1 < cap" using Suc.prems(4,5) by simp
    have far: "(hole + m) mod cap \<noteq> (hole + 0) mod cap" "(hole + m) mod cap \<noteq> (hole + 1) mod cap"
      using mod_inj [of hole cap m] Suc.prems(2,4,5) m1 \<open>1 < cap\<close> by blast+
    have "\<exists>d'. erase_loop key hash cap ?d ?nxt fuel = Some d' \<and> mset d' = mset ?d"
    proof (rule Suc.IH [of _ _ "m - 1"])
      show "?d ! ((?nxt + (m - 1)) mod cap) = None"
        unfolding pos using far Suc.prems(2,7) by simp
    qed (use Suc.prems m1 lt in simp_all)
    then obtain d' where "erase_loop key hash cap ?d ?nxt fuel = Some d'" "mset d' = mset d"
      using ms by metis
    then show ?thesis unfolding erase_loop.simps Let_def nx Some option.case by auto
  qed
qed simp


lemma free_other:
  assumes "pow2 cap" and "length d = cap" and "n_occ d < cap" and "i < cap" and "d ! i \<noteq> None"
  obtains m where "0 < m" "m < cap" "d ! ((i + m) mod cap) = None"
proof -
  have "has_free d" using assms(2,3) by (intro n_occ_free) simp
  then obtain j where j: "j < cap" "d ! j = None"
    using assms(2) by (auto simp: has_free_def in_set_conv_nth)
  let ?m = "probe_dist (\<lambda>_. i) cap () j"
  have m: "(i + ?m) mod cap = j" "?m < cap"
    using probe_probe_dist [OF j(1), of "\<lambda>_. i" "()"] assms(4) by (simp_all add: probe_def)
  have "0 < ?m"
  proof (rule ccontr)
    assume "\<not> 0 < ?m"
    then have "j = i" using m(1) assms(4) by simp
    with j assms(5) show False by simp
  qed
  with m j(2) that show ?thesis by simp
qed

lemma find_occupied_returns:
  assumes "table_sized s"
  shows "\<exists>i \<le> m_cap s. find_occupied key hash s v = Some i \<and>
    (i < m_cap s \<longrightarrow> (\<exists>x. m_data s ! i = Some x \<and> key x = v))"
proof (cases "m_cap s = 0")
  case False
  then have "pow2 (m_cap s)" "length (m_data s) = m_cap s" "has_free (m_data s)"
    using assms table_sized_free [OF assms] by (simp_all add: table_sized_def)
  from find_loop_returns [OF this, of key v hash] False show ?thesis
    by (simp add: find_occupied_def del: find_loop.simps)
qed (simp add: find_occupied_def)

lemma find_empty_returns:
  assumes "table_sized s"
  shows "\<exists>s' j. find_empty key hash s v = Some (s', j) \<and>
    table_sized (s'\<lparr>m_data := (m_data s')[j := Some x], m_size := m_size s' + 1\<rparr>)"
proof -
  note G = grown_sized [OF assms]
  have "\<exists>s'. grow key hash s = Some s' \<and> table_sized s' \<and> m_size s' < load_limit (m_cap s')"
  proof -
    obtain nd where nd: "rehash_loop key hash (grown (m_cap s)) (m_data s) (replicate (grown (m_cap s)) None) = Some nd"
        "length nd = grown (m_cap s)" "n_occ nd = n_occ (m_data s)"
      using rehash_returns [OF G(1) _ G(4)] by (auto simp: n_occ_replicate)
    have "grow key hash s = Some (s\<lparr>m_data := nd, m_cap := grown (m_cap s)\<rparr>)"
      using nd(1) by (simp add: grow_def grown_def Let_def)
    then show ?thesis using nd(2,3) G assms by (simp add: table_sized_def)
  qed
  then obtain s' where s': "(if m_size s \<ge> load_limit (m_cap s) then grow key hash s else Some s) = Some s'"
      "table_sized s'" "m_size s' < load_limit (m_cap s')"
    using assms by (cases "m_size s \<ge> load_limit (m_cap s)") auto
  have "m_cap s' \<noteq> 0" using s'(3) by (auto simp: load_limit_def)
  then have "pow2 (m_cap s')" "length (m_data s') = m_cap s'" "has_free (m_data s')"
    using s'(2) table_sized_free [OF s'(2)] by (simp_all add: table_sized_def)
  from empty_loop_returns [OF this, of hash v] obtain j where
      j: "j < m_cap s'" "empty_loop (m_data s') (m_cap s') (hash_idx hash (m_cap s') v) (Suc (m_cap s')) = Some j"
        "m_data s' ! j = None"
    by blast
  have "find_empty key hash s v = Some (s', j)"
    using s'(1) j(2) by (simp add: find_empty_def del: empty_loop.simps)
  then show ?thesis
    using s' j by (simp add: table_sized_def n_occ_upd)
qed

lemma table_insert_returns:
  assumes "table_sized s"
  shows "\<exists>b s'. table_insert key hash s x = Some (b, s') \<and> table_sized s'"
proof -
  obtain i where "find_occupied key hash s (key x) = Some i"
    using find_occupied_returns [OF assms, of key hash "key x"] by blast
  moreover obtain s' j where "find_empty key hash s (key x) = Some (s', j)"
      "table_sized (s'\<lparr>m_data := (m_data s')[j := Some x], m_size := m_size s' + 1\<rparr>)"
    using find_empty_returns [OF assms, of key hash "key x" x] by blast
  ultimately show ?thesis using assms by (auto simp: table_insert_def)
qed

lemma do_erase_returns:
  assumes "table_sized s" and i: "i < m_cap s" "m_data s ! i = Some x"
  shows "\<exists>s'. do_erase key hash s i = Some s' \<and> table_sized s' \<and>
    mset (m_data s') = mset ((m_data s)[i := None])"
proof -
  have sz: "length (m_data s) = m_cap s" "pow2 (m_cap s)" "n_occ (m_data s) < m_cap s"
    using assms(1) i(1) load_limit_less [of "m_cap s"] by (auto simp: table_sized_def)
  obtain m where m: "0 < m" "m < m_cap s" "m_data s ! ((i + m) mod m_cap s) = None"
    using free_other [OF sz(2,1,3) i(1)] i(2) by blast
  let ?d = "(m_data s)[i := None]"
  have "\<exists>d'. erase_loop key hash (m_cap s) ?d i (Suc (m_cap s)) = Some d' \<and> mset d' = mset ?d"
    using sz i(1) m by (intro erase_loop_returns [of _ _ _ m]) (simp_all add: nth_list_update)
  then obtain d' where d': "erase_loop key hash (m_cap s) ?d i (Suc (m_cap s)) = Some d'" "mset d' = mset ?d"
    by blast
  have "m_data s = ?d[i := Some x]" using i(2) by (metis list_update_id list_update_overwrite)
  then have "n_occ (m_data s) = Suc (n_occ ?d)"
    using n_occ_upd [of i ?d x] i(1) sz(1) by simp
  moreover have "n_occ d' = n_occ ?d" by (simp only: n_occ_mset d'(2))
  moreover have "length d' = m_cap s" using d'(2) sz(1) by (metis length_list_update size_mset)
  ultimately show ?thesis
    using d' assms(1) by (simp add: do_erase_def table_sized_def del: erase_loop.simps)
qed


section \<open>The containers implement their interfaces\<close>

interpretation hset: set_store table_init "hset_insert hash" "hset_contains hash"
  "table_ok (\<lambda>x. x) hash" table_elems
proof (unfold_locales, goal_cases)
  case (3 s x)
  then show ?case
    using table_insert_ok [OF 3, of x] by (auto simp: hset_insert_def insert_absorb)
next
  case (4 s x)
  then show ?case by (simp add: hset_contains_def table_contains_ok)
qed (simp_all add: table_ok_init)

interpretation hmap: map_store table_init "hmap_assign hash"
  "\<lambda>s k. map_option (map_option snd) (hmap_find hash s k)" "table_ok fst hash" hmap_abs
proof (unfold_locales, goal_cases)
  case (3 s k v)
  then show ?case by (rule hmap_assign_abs)
next
  case (4 s k)
  then show ?case by (simp add: hmap_find_ok option.map_comp comp_def option.map_ident)
qed (simp_all add: table_ok_init, simp add: hmap_abs_def table_entries_def table_init_def List.map_filter_simps)

lemma table_size_card:
  assumes "table_ok key hash s"
  shows "m_size s = card (table_elems s)"
proof -
  have "distinct (table_entries s)"
    using table_ok_distinct [OF assms] by (simp add: table_entries_def distinct_map)
  then have "card (table_elems s) = length (table_entries s)"
    by (simp add: table_elems_entries distinct_card)
  moreover have "length (List.map_filter (\<lambda>x. x) d) = n_occ d" for d :: "'a option list"
    by (induction d) (auto simp: n_occ_def List.map_filter_simps split: option.splits)
  ultimately show ?thesis using assms by (simp add: table_entries_def table_ok_def table_sized_def)
qed

text \<open>
  C37. A \<open>TMSafeHashSet\<close> that a sequence of insertions built holds exactly the inserted
  values, whatever the hash function, the collisions and the growth steps: every insertion
  returns, \<open>contains\<close> is exact, and \<open>size()\<close> is the number of distinct values.
\<close>

theorem hset_inserts_contains:
  "\<exists>s. run_calls (\<lambda>s x. map_option snd (hset_insert hash s x)) table_init xs = Some s \<and>
    (\<forall>v. hset_contains hash s v = Some (v \<in> set xs)) \<and> m_size s = card (set xs)"
  using hset.inserts_mem [of hash xs] table_size_card by fastforce

text \<open>
  C38. A \<open>TMSafeMap\<close> that a sequence of assignments \<open>m[k] = v\<close> built maps every key to the
  value of its last assignment, and \<open>find\<close> returns \<open>end()\<close> for the other keys.
\<close>

theorem hmap_assigns_find:
  "\<exists>s. run_calls (\<lambda>s (k, v). hmap_assign hash s k v) table_init kvs = Some s \<and>
    (\<forall>k. hmap_find hash s k = Some (map_option (Pair k) (map_of (rev kvs) k)))"
proof -
  obtain s where s: "run_calls (\<lambda>s (k, v). hmap_assign hash s k v) table_init kvs = Some s"
      "table_ok fst hash s" "hmap_abs s = map_of (rev kvs)"
    using hmap.updates_from [OF hmap.empty_ok(1), of hash kvs] by (auto simp: hmap.empty_ok(2))
  then show ?thesis by (simp add: hmap_find_ok)
qed

lemma copy_loop_assigns:
  "hmap_copy_loop hash d s = run_calls (\<lambda>s (k, v). hmap_assign hash s k v) s (List.map_filter (\<lambda>x. x) d)"
  by (induction hash d s rule: hmap_copy_loop.induct)
    (auto simp: List.map_filter_simps split: option.splits)

lemma table_clear_ok:
  assumes "table_ok key hash s"
  shows "table_ok key hash (table_clear s)" and "table_elems (table_clear s) = {}"
proof -
  have len: "length (m_data s) = m_cap s" using assms by (simp add: table_ok_def table_sized_def)
  then have cl: "m_data (table_clear s) = replicate (m_cap s) None"
    by (simp add: table_clear_def map_replicate_const)
  then show "table_elems (table_clear s) = {}" by (auto simp: table_elems_def stored_def)
  show "table_ok key hash (table_clear s)"
    using assms tab_ok_empty(1) [of "m_cap s" key hash] cl
    by (auto simp: table_ok_def table_sized_def table_clear_def n_occ_replicate)
qed

lemma hmap_copy_loop_ok:
  assumes "table_ok fst hash s" and "table_ok fst hash t" and "table_elems t = {}"
  shows "\<exists>c. hmap_copy_loop hash (m_data s) t = Some c \<and> (\<forall>k. hmap_find hash c k = hmap_find hash s k)"
proof -
  have "hmap_abs t = Map.empty"
    using hmap_abs_iff [OF assms(2)] assms(3) by (metis empty_iff not_Some_eq ext)
  then obtain c where c: "hmap_copy_loop hash (m_data s) t = Some c" "table_ok fst hash c"
      "hmap_abs c = map_of (rev (table_entries s))"
    using hmap.updates_from [OF assms(2), of "table_entries s"]
    by (auto simp: copy_loop_assigns table_entries_def)
  have "distinct (map fst (table_entries s))"
    using table_ok_distinct [OF assms(1)] by (simp add: table_entries_def)
  then have "map_of (rev (table_entries s)) = map_of (table_entries s)"
    by (intro map_of_inject_set [THEN iffD2]) (simp_all add: rev_map [symmetric])
  then show ?thesis
    using c assms(1) by (auto simp: hmap_find_ok hmap_abs_def)
qed

text \<open>
  Copying a \<open>TMSafeMap\<close> that assignments built (by the copy constructor, or by assignment
  over another such map) gives a map with the same contents, whatever the two capacities.
\<close>

theorem hmap_copy_same:
  "\<exists>s t c c'. run_calls (\<lambda>s (k, v). hmap_assign hash s k v) table_init kvs = Some s \<and>
    run_calls (\<lambda>s (k, v). hmap_assign hash s k v) table_init kvs' = Some t \<and>
    hmap_copy hash s = Some c \<and> hmap_copy_assign hash t s = Some c' \<and>
    (\<forall>k. hmap_find hash c k = hmap_find hash s k \<and> hmap_find hash c' k = hmap_find hash s k)"
proof -
  obtain s where s: "run_calls (\<lambda>s (k, v). hmap_assign hash s k v) table_init kvs = Some s" "table_ok fst hash s"
    using hmap.updates_lookup [of hash kvs] by blast
  obtain t where t: "run_calls (\<lambda>s (k, v). hmap_assign hash s k v) table_init kvs' = Some t" "table_ok fst hash t"
    using hmap.updates_lookup [of hash kvs'] by blast
  obtain c where "hmap_copy hash s = Some c" "\<forall>k. hmap_find hash c k = hmap_find hash s k"
    using hmap_copy_loop_ok [OF s(2) table_ok_init] by (auto simp: hmap_copy_def)
  moreover obtain c' where "hmap_copy_assign hash t s = Some c'" "\<forall>k. hmap_find hash c' k = hmap_find hash s k"
    using hmap_copy_loop_ok [OF s(2) table_clear_ok [OF t(2)]] by (auto simp: hmap_copy_assign_def hmap_clear_def)
  ultimately show ?thesis using s t by blast
qed

lemma table_erase_returns:
  assumes "table_sized s"
  shows "\<exists>b s'. table_erase key hash s v = Some (b, s') \<and> table_sized s'"
proof -
  obtain i where i: "i \<le> m_cap s" "find_occupied key hash s v = Some i"
      "i < m_cap s \<longrightarrow> (\<exists>x. m_data s ! i = Some x \<and> key x = v)"
    using find_occupied_returns [OF assms, of key hash v] by blast
  show ?thesis
  proof (cases "i < m_cap s")
    case True
    then obtain x where "m_data s ! i = Some x" using i(3) by blast
    from do_erase_returns [OF assms True this, of key hash] show ?thesis
      using i(2) True by (auto simp: table_erase_def)
  next
    case False
    then show ?thesis using i assms by (auto simp: table_erase_def)
  qed
qed

lemma table_clear_sized: "table_sized s \<Longrightarrow> table_sized (table_clear s)"
  by (simp add: table_sized_def table_clear_def n_occ_def)


text \<open>The calls a client makes; \<open>hset_call\<close> is their effect on the table.\<close>

datatype 'a hset_op = HInsert 'a | HErase 'a | HClear

fun hset_call :: "('a \<Rightarrow> nat) \<Rightarrow> 'a table \<Rightarrow> 'a hset_op \<Rightarrow> 'a table option" where
  "hset_call hash s (HInsert x) = map_option snd (hset_insert hash s x)"
| "hset_call hash s (HErase x) = map_option snd (hset_erase hash s x)"
| "hset_call hash s HClear = Some (hset_clear s)"

lemma hset_call_returns: "table_sized s \<Longrightarrow> \<exists>s'. hset_call hash s c = Some s' \<and> table_sized s'"
  using table_insert_returns [of s "\<lambda>x. x" hash] table_erase_returns [of s "\<lambda>x. x" hash]
  by (cases c) (force simp: hset_insert_def hset_erase_def hset_clear_def table_clear_sized)+

text \<open>
  C39. No probe loop of \<open>TMSafeHashSet\<close> runs forever: after every sequence of insertions,
  erasures and \<open>clear\<close> calls, each of them returned, the load stays within \<open>MAX_LOAD\<close>
  (so a free slot exists), \<open>m_size\<close> counts the occupied slots, and the next \<open>contains\<close> returns.
\<close>

theorem hset_calls_return:
  "\<exists>s. run_calls (hset_call hash) table_init cs = Some s \<and> m_size s = n_occ (m_data s) \<and>
    m_size s \<le> load_limit (m_cap s) \<and> (\<exists>b. hset_contains hash s v = Some b)"
proof -
  have "table_sized (table_init :: 'a table)" using table_ok_init(1) by (auto simp: table_ok_def)
  then obtain s where s: "run_calls (hset_call hash) table_init cs = Some s" "table_sized s"
    using run_calls_inv [of table_sized "hset_call hash"] hset_call_returns by blast
  then show ?thesis
    using find_occupied_returns [OF s(2), of "\<lambda>x. x" hash v]
    by (auto simp: hset_contains_def table_contains_def table_sized_def)
qed

lemma stored_clear:
  assumes ok: "tab_ok key hash cap d" and i: "i < cap" "d ! i = Some x"
  shows "stored (d[i := None]) = {y \<in> stored d. key y \<noteq> key x}"
proof -
  note len = tab_okD(2) [OF ok]
  have "y \<in> stored (d[i := None]) \<longleftrightarrow> y \<in> stored d \<and> key y \<noteq> key x" for y
  proof -
    have "y \<in> stored (d[i := None]) \<longleftrightarrow> (\<exists>j < cap. j \<noteq> i \<and> d ! j = Some y)"
      using len i(1) by (auto simp: stored_iff nth_list_update)
    also have "\<dots> \<longleftrightarrow> y \<in> stored d \<and> key y \<noteq> key x"
      using tab_okD(4) [OF ok] i len unfolding stored_iff by (metis option.inject)
    finally show ?thesis .
  qed
  then show ?thesis by blast
qed

lemma table_erase_ok:
  assumes "table_ok key hash s"
  shows "\<exists>s'. table_erase key hash s v = Some (v \<in> key ` table_elems s, s') \<and> table_sized s' \<and>
    table_elems s' = {y \<in> table_elems s. key y \<noteq> v}"
proof (cases "v \<in> key ` table_elems s")
  case True
  then obtain x where x: "x \<in> table_elems s" "v = key x" by blast
  obtain i where i: "i < m_cap s" "find_occupied key hash s v = Some i" "m_data s ! i = Some x"
    using find_occupied_found [OF assms x(1)] x(2) by blast
  have sz: "table_sized s" and ok: "tab_ok key hash (m_cap s) (m_data s)"
    using assms i(1) by (auto simp: table_ok_def)
  obtain s' where s': "do_erase key hash s i = Some s'" "table_sized s'"
      "mset (m_data s') = mset ((m_data s)[i := None])"
    using do_erase_returns [OF sz i(1,3), of key hash] by blast
  have "table_elems s' = stored ((m_data s)[i := None])"
    by (simp only: table_elems_def stored_mset s'(3))
  then show ?thesis
    using s'(1,2) i x stored_clear [OF ok i(1,3)] True
    by (auto simp: table_erase_def table_elems_def)
next
  case False
  then have "{y \<in> table_elems s. key y \<noteq> v} = table_elems s" by blast
  then show ?thesis
    using find_occupied_missing [OF assms False] assms False by (auto simp: table_erase_def table_ok_def)
qed

lemma contains_sound:
  assumes "table_sized s" and "v \<notin> key ` table_elems s"
  shows "table_contains key hash s v = Some False"
proof -
  obtain i where i: "i \<le> m_cap s" "find_occupied key hash s v = Some i"
      "i < m_cap s \<longrightarrow> (\<exists>x. m_data s ! i = Some x \<and> key x = v)"
    using find_occupied_returns [OF assms(1), of key hash v] by blast
  have "\<not> i < m_cap s"
  proof
    assume "i < m_cap s"
    then obtain x where "m_data s ! i = Some x" "key x = v" using i(3) by blast
    then have "x \<in> table_elems s"
      using assms(1) \<open>i < m_cap s\<close> unfolding table_elems_def by (intro stored_nthI) (simp_all add: table_sized_def)
    with assms(2) \<open>key x = v\<close> show False by blast
  qed
  then show ?thesis using i(2) by (simp add: table_contains_def)
qed

text \<open>
  \<open>erase(v)\<close> on a \<open>TMSafeHashSet\<close> built by insertions returns whether \<open>v\<close> was there and
  leaves exactly the other values in the slots: \<open>v\<close> is no longer found, iteration visits the
  others.
\<close>

theorem hset_erase_removes:
  "\<exists>s s'. run_calls (\<lambda>s x. map_option snd (hset_insert hash s x)) table_init xs = Some s \<and>
    hset_erase hash s v = Some (v \<in> set xs, s') \<and> set (table_entries s') = set xs - {v} \<and>
    hset_contains hash s' v = Some False"
proof -
  obtain s where s: "run_calls (\<lambda>s x. map_option snd (hset_insert hash s x)) table_init xs = Some s"
      "table_ok (\<lambda>x. x) hash s" "table_elems s = set xs"
    using hset.inserts_mem [of hash xs] by blast
  obtain s' where s': "table_erase (\<lambda>x. x) hash s v = Some (v \<in> table_elems s, s')" "table_sized s'"
      "table_elems s' = {y \<in> table_elems s. y \<noteq> v}"
    using table_erase_ok [OF s(2), of v] by auto
  then have "table_contains (\<lambda>x. x) hash s' v = Some False"
    by (intro contains_sound) auto
  moreover have "set (table_entries s') = set xs - {v}"
    using s'(3) s(3) by (auto simp: table_elems_entries)
  ultimately show ?thesis
    using s s' by (auto simp: hset_erase_def hset_contains_def)
qed


end
