(* ===== verification/TM_RedoLog.thy ===== *)
theory TM_RedoLog
  imports TM_Common "HOL-Library.Multiset"
begin

text \<open>
  The contract of a redo log (write set), shared by the write-back backends: what a
  transaction reads and writes through its log is what it would read and write in memory.
  \<open>seq_run\<close> is the sequential meaning of the operations of a transaction, \<open>layout_ok\<close> the
  access discipline of the programs: every cell is accessed at one address with one type
  (8-byte types are interchangeable), and cells do not overlap.
\<close>

section \<open>Sequential meaning of a transaction\<close>

text \<open>What the program did: reads with the value returned, writes.\<close>

datatype op = Rd addr ValueType u64 | Wr addr ValueType u64

fun seq_run :: "op list \<Rightarrow> mem \<Rightarrow> mem option" where
  "seq_run [] m = Some m"
| "seq_run (Rd a sz v # ps) m = (if read_value_from_addr m a sz = v then seq_run ps m else None)"
| "seq_run (Wr a sz v # ps) m = seq_run ps (write_value_to_addr m a v sz)"

lemma seq_run_append: "seq_run (ps @ qs) m = (case seq_run ps m of None \<Rightarrow> None | Some m' \<Rightarrow> seq_run qs m')"
  by (induction ps m rule: seq_run.induct) auto

text \<open>The memories that answer the given reads with the given values.\<close>

definition agrees :: "(addr \<times> ValueType \<times> u64) list \<Rightarrow> mem \<Rightarrow> bool" where
  "agrees rs m \<longleftrightarrow> (\<forall>(a, sz, v) \<in> set rs. read_value_from_addr m a sz = v)"

lemma agrees_simps [simp]:
  "agrees [] m" "agrees ((a, sz, v) # rs) m \<longleftrightarrow> read_value_from_addr m a sz = v \<and> agrees rs m"
  "agrees (xs @ ys) m \<longleftrightarrow> agrees xs m \<and> agrees ys m"
  unfolding agrees_def by (simp_all add: ball_Un)

text \<open>
  The operations \<open>ps\<close> of a transaction with logged reads \<open>rs\<close> and write effect \<open>f\<close>: on every
  memory that agrees with the reads, running them one after the other gives the values the
  program saw and the memory the write-back produces.
\<close>

definition explains :: "(addr \<times> ValueType \<times> u64) list \<Rightarrow> (mem \<Rightarrow> mem) \<Rightarrow> op list \<Rightarrow> bool" where
  "explains rs f ps \<longleftrightarrow> (\<forall>m. agrees rs m \<longrightarrow> seq_run ps m = Some (f m))"

definition layout_ok :: "(addr \<Rightarrow> ValueType \<Rightarrow> bool) \<Rightarrow> bool" where
  "layout_ok L \<longleftrightarrow> (\<forall>a t. L a t \<longrightarrow> 0x100000 \<le> a \<and> drop_bit 47 a = 0) \<and>
    (\<forall>a t b u. L a t \<longrightarrow> L b u \<longrightarrow>
       (if a = b then t = u \<or> type_size t = 8 \<and> type_size u = 8
        else disjoint_range a (type_size t) b (type_size u)))"

lemma layout_okD:
  assumes "layout_ok L" and "L a t"
  shows "0x100000 \<le> a" and "drop_bit 47 a = 0"
    and "L b u \<Longrightarrow> a \<noteq> b \<Longrightarrow> disjoint_range a (type_size t) b (type_size u)"
    and "L a u \<Longrightarrow> t \<noteq> u \<Longrightarrow> type_size t = 8 \<and> type_size u = 8"
    and "L a u \<Longrightarrow> type_size t = type_size u"
proof -
  show "0x100000 \<le> a" "drop_bit 47 a = 0" using assms unfolding layout_ok_def by blast+
  show "L b u \<Longrightarrow> a \<noteq> b \<Longrightarrow> disjoint_range a (type_size t) b (type_size u)"
    using assms unfolding layout_ok_def by meson
  show *: "L a u \<Longrightarrow> t \<noteq> u \<Longrightarrow> type_size t = 8 \<and> type_size u = 8"
    using assms unfolding layout_ok_def by (metis (full_types))
  show "L a u \<Longrightarrow> type_size t = type_size u" using * by (cases "t = u") auto
qed

section \<open>Stores to separate cells\<close>

lemma disjoint_range_sym: "disjoint_range a n b k \<longleftrightarrow> disjoint_range b k a n"
  unfolding disjoint_range_def by metis

lemma disjoint_range_outside:
  assumes "disjoint_range a n b k" and "unat (x - a) < n"
  shows "\<not> unat (x - b) < k"
proof
  assume k: "unat (x - b) < k"
  have "a + of_nat (unat (x - a)) = x" "b + of_nat (unat (x - b)) = x" by simp_all
  with k assms show False unfolding disjoint_range_def by metis
qed

lemma store_commute:
  assumes "n \<le> 8" and "k \<le> 8" and "disjoint_range a n b k"
  shows "store_bytes (store_bytes m a v n) b w k = store_bytes (store_bytes m b w k) a v n"
  by (rule ext) (use assms disjoint_range_outside [OF assms(3)] in \<open>auto simp: store_bytes_apply\<close>)

lemma store_store_same: "n \<le> 8 \<Longrightarrow> store_bytes (store_bytes m a v n) a w n = store_bytes m a w n"
  by (rule ext) (simp add: store_bytes_apply)

lemma read_write_same [tm_mem]:
  "type_size t = type_size u \<Longrightarrow> read_value_from_addr (write_value_to_addr m a v t) a u = return_any_type u v"
  by (simp add: read_value_eq write_value_eq return_any_eq load_store_same)

lemma read_write_disjoint [tm_mem]:
  "disjoint_range a (type_size t) b (type_size u) \<Longrightarrow>
   read_value_from_addr (write_value_to_addr m a v t) b u = read_value_from_addr m b u"
  by (simp add: read_value_eq write_value_eq load_store_disjoint)

lemma write_commute:
  "disjoint_range a (type_size t) b (type_size u) \<Longrightarrow>
   write_value_to_addr (write_value_to_addr m a v t) b w u = write_value_to_addr (write_value_to_addr m b w u) a v t"
  unfolding write_value_eq by (rule store_commute) simp_all

lemma write_write_same:
  "type_size t = type_size u \<Longrightarrow>
   write_value_to_addr (write_value_to_addr m a v t) a w u = write_value_to_addr m a w u"
  by (simp add: write_value_eq store_store_same)

lemma return_any_read [simp]: "return_any_type sz (read_value_from_addr m a sz) = read_value_from_addr m a sz"
  by (rule u64_eqI) (auto simp: return_any_eq read_value_eq bit_and_iff bit_load_bytes bit_mask_iff)

section \<open>Data accesses one byte at a time\<close>

text \<open>The bytes a store of \<open>n\<close> bytes writes, in the order of \<open>memcpy\<close>.\<close>

definition store_list :: "addr \<Rightarrow> u64 \<Rightarrow> nat \<Rightarrow> (addr \<times> u8) list" where
  "store_list a v n = map (\<lambda>i. (a + of_nat i, ucast (drop_bit (8 * i) v))) [0..<n]"

definition apply_bytes :: "(addr \<times> u8) list \<Rightarrow> mem \<Rightarrow> mem" where
  "apply_bytes bs m = foldl (\<lambda>m (a, b). m(a := b)) m bs"

text \<open>One more byte of a load.\<close>

definition add_byte :: "mem \<Rightarrow> addr \<Rightarrow> nat \<Rightarrow> any_type_t \<Rightarrow> any_type_t" where
  "add_byte m a i v = v OR push_bit (8 * i) (ucast (m (a + of_nat i)))"

lemma load_bytes_Suc:
  assumes "i < 8"
  shows "load_bytes m a (Suc i) = add_byte m a i (load_bytes m a i)"
proof (rule u64_eqI)
  fix k :: nat
  assume k: "k < 64"
  show "bit (load_bytes m a (Suc i)) k = bit (add_byte m a i (load_bytes m a i)) k"
  proof (cases "8 * i \<le> k")
    case True
    then obtain j where j: "k = 8 * i + j" using le_Suc_ex by blast
    show ?thesis
    proof (cases "j < 8")
      case True
      then have "k div 8 = i" "k mod 8 = j" using j by auto
      then show ?thesis
        using True j k by (auto simp: add_byte_def bit_load_bytes bit_or_iff bit_push_bit_iff bit_ucast_u64 simp del: load_bytes.simps)
    next
      case False
      then have "\<not> bit (m (a + of_nat i)) j" by (auto dest: bit_imp_le_length)
      then show ?thesis
        using False j
        by (auto simp: add_byte_def bit_load_bytes bit_or_iff bit_push_bit_iff bit_ucast_u64 simp del: load_bytes.simps)
    qed
  next
    case False
    then show ?thesis
      using k by (auto simp: add_byte_def bit_load_bytes bit_or_iff bit_push_bit_iff simp del: load_bytes.simps)
  qed
qed

lemma apply_bytes_simps [simp]:
  "apply_bytes [] m = m" "apply_bytes ((a, b) # bs) m = apply_bytes bs (m(a := b))"
  "apply_bytes (xs @ ys) m = apply_bytes ys (apply_bytes xs m)"
  by (simp_all add: apply_bytes_def)

lemma store_bytes_upt:
  "store_bytes m a v n = apply_bytes (store_list a v n) m"
  unfolding store_list_def
proof (induction n arbitrary: m a v)
  case (Suc n)
  have "map (\<lambda>i. (a + of_nat i, ucast (drop_bit (8 * i) v) :: u8)) [0..<Suc n] =
      (a, ucast v) # map (\<lambda>i. (a + 1 + of_nat i, ucast (drop_bit (8 * i) (drop_bit 8 v)))) [0..<n]"
    by (simp add: map_upt_Suc drop_bit_drop_bit add.commute add.left_commute del: upt_Suc)
  then show ?case by (simp only: apply_bytes_simps store_bytes.simps Suc.IH)
qed simp

lemma return_any_twice [simp]: "return_any_type t (return_any_type t v) = return_any_type t v"
  by (simp add: return_any_eq)

lemma write_value_return: "write_value_to_addr m a (return_any_type t v) t = write_value_to_addr m a v t"
proof (rule ext)
  fix b
  show "write_value_to_addr m a (return_any_type t v) t b = write_value_to_addr m a v t b"
  proof (cases "unat (b - a) < type_size t")
    case True
    have "ucast (drop_bit (8 * unat (b - a)) (return_any_type t v)) = (ucast (drop_bit (8 * unat (b - a)) v) :: u8)"
      by (rule u8_eqI) (use True in \<open>auto simp: return_any_eq bit_ucast_u8 bit_drop_bit_eq bit_and_iff bit_mask_iff dest: u64_bit_less\<close>)
    then show ?thesis using True by (simp add: write_value_eq store_bytes_apply)
  next
    case False
    then show ?thesis by (simp add: write_value_eq store_bytes_apply)
  qed
qed

section \<open>Logs with one entry per cell\<close>

type_synonym cell = "addr \<times> ValueType \<times> any_type_t"

definition apply_cells :: "cell list \<Rightarrow> mem \<Rightarrow> mem" where
  "apply_cells cs m = foldl (\<lambda>m (a, t, v). write_value_to_addr m a v t) m cs"

lemma apply_cells_simps [simp]:
  "apply_cells [] m = m" "apply_cells ((a, t, v) # cs) m = apply_cells cs (write_value_to_addr m a v t)"
  "apply_cells (xs @ ys) m = apply_cells ys (apply_cells xs m)"
  by (simp_all add: apply_cells_def)

definition cells_ok :: "(addr \<Rightarrow> ValueType \<Rightarrow> bool) \<Rightarrow> cell list \<Rightarrow> bool" where
  "cells_ok L cs \<longleftrightarrow> (\<forall>(a, t, v) \<in> set cs. L a t) \<and> distinct (map fst cs)"

lemma cells_ok_Cons: "cells_ok L ((a, t, v) # cs) \<longleftrightarrow> L a t \<and> a \<notin> fst ` set cs \<and> cells_ok L cs"
  by (auto simp: cells_ok_def)

lemma apply_cells_other:
  assumes "layout_ok L" "cells_ok L cs" "L a sz" "a \<notin> fst ` set cs"
  shows "read_value_from_addr (apply_cells cs m) a sz = read_value_from_addr m a sz"
  using assms(2,4)
proof (induction cs arbitrary: m)
  case (Cons c cs)
  obtain b t v where c: "c = (b, t, v)" by (cases c) auto
  have "disjoint_range b (type_size t) a (type_size sz)"
    using layout_okD(3) [OF assms(1) _ assms(3), of b t] Cons.prems c by (auto simp: cells_ok_Cons)
  then show ?case using Cons c by (simp add: cells_ok_Cons read_write_disjoint)
qed simp

lemma apply_cells_hit:
  assumes "layout_ok L" "cells_ok L cs" "L a sz" "(a, t, v) \<in> set cs"
  shows "read_value_from_addr (apply_cells cs m) a sz = return_any_type sz v"
  using assms(2,4)
proof (induction cs arbitrary: m)
  case (Cons c cs)
  obtain b u w where c: "c = (b, u, w)" by (cases c) auto
  show ?case
  proof (cases "b = a")
    case True
    then have eq: "(a, t, v) = c" using Cons.prems c by (force simp: cells_ok_Cons)
    then have "type_size t = type_size sz"
      using layout_okD(5) [OF assms(1), of a t sz] assms(3) Cons.prems c by (auto simp: cells_ok_Cons)
    then show ?thesis
      using eq c Cons.prems apply_cells_other [OF assms(1) _ assms(3)]
      by (auto simp: cells_ok_Cons read_write_same)
  next
    case False
    then show ?thesis using Cons c by (simp add: cells_ok_Cons)
  qed
qed simp

lemma apply_cells_update:
  assumes "layout_ok L" "cells_ok L (xs @ (a, t, v) # ys)" "L a sz"
  shows "apply_cells (xs @ (a, sz, w) # ys) m = write_value_to_addr (apply_cells (xs @ (a, t, v) # ys) m) a w sz"
  using assms(2)
proof (induction ys rule: rev_induct)
  case Nil
  have "type_size t = type_size sz" using layout_okD(5) [OF assms(1) _ assms(3)] Nil by (auto simp: cells_ok_def)
  then show ?case by (simp add: write_write_same)
next
  case (snoc y ys)
  obtain b u x where y: "y = (b, u, x)" by (cases y) auto
  have ok: "cells_ok L (xs @ (a, t, v) # ys)" and b: "b \<noteq> a" "L b u"
    using snoc.prems y by (auto simp: cells_ok_def)
  have "disjoint_range a (type_size sz) b (type_size u)"
    using layout_okD(3) [OF assms(1,3) b(2)] b(1) by auto
  from write_commute [OF this] snoc.IH [OF ok] y show ?case by simp
qed

lemma apply_cells_commute:
  assumes "layout_ok L" "cells_ok L ((a, t, v) # cs)"
  shows "apply_cells cs (write_value_to_addr m a v t) = write_value_to_addr (apply_cells cs m) a v t"
  using assms(2)
proof (induction cs arbitrary: m)
  case (Cons c cs)
  obtain b u w where c: "c = (b, u, w)" by (cases c) auto
  have "disjoint_range a (type_size t) b (type_size u)"
    using layout_okD(3) [OF assms(1)] Cons.prems c by (auto simp: cells_ok_Cons)
  then have "write_value_to_addr (write_value_to_addr m a v t) b w u = write_value_to_addr (write_value_to_addr m b w u) a v t"
    by (rule write_commute)
  then show ?case using Cons c by (auto simp: cells_ok_Cons)
qed simp

lemma cells_ok_mset: "mset cs = mset ds \<Longrightarrow> cells_ok L cs = cells_ok L ds"
proof -
  assume m: "mset cs = mset ds"
  then have "set cs = set ds" by (metis set_mset_mset)
  moreover have "mset (map fst cs) = mset (map fst ds)" using m by simp
  then have "distinct (map fst cs) = distinct (map fst ds)" by (metis mset_eq_imp_distinct_iff)
  ultimately show ?thesis by (simp only: cells_ok_def)
qed

text \<open>The order in which such a log is written back does not matter.\<close>

lemma apply_cells_perm:
  assumes "layout_ok L" "cells_ok L cs" "mset cs = mset ds"
  shows "apply_cells cs m = apply_cells ds m"
  using assms(2,3)
proof (induction cs arbitrary: ds m)
  case (Cons c cs)
  obtain a t v where c: "c = (a, t, v)" by (cases c) auto
  have "c \<in> set ds" using Cons.prems(2) by (metis list.set_intros(1) set_mset_mset)
  then obtain xs ys where ds: "ds = xs @ c # ys" by (meson split_list)
  have ms: "mset cs = mset (xs @ ys)" using Cons.prems(2) ds by simp
  have ok: "cells_ok L ds" using Cons.prems cells_ok_mset by blast
  have "cells_ok L ((a, t, v) # xs)" using ok ds c by (auto simp: cells_ok_def)
  then have "apply_cells xs (write_value_to_addr m a v t) = write_value_to_addr (apply_cells xs m) a v t"
    by (rule apply_cells_commute [OF assms(1)])
  moreover have "apply_cells cs m' = apply_cells (xs @ ys) m'" for m'
    using Cons.IH [OF _ ms] Cons.prems(1) c by (simp add: cells_ok_Cons)
  ultimately show ?case using ds c by simp
qed simp

section \<open>The interface\<close>

datatype ws_result = Hit any_type_t | Miss | AssertFail

locale redo_log =
  fixes empty :: 'w and lookup :: "'w \<Rightarrow> addr \<Rightarrow> ValueType \<Rightarrow> ws_result"
    and upd :: "'w \<Rightarrow> addr \<Rightarrow> any_type_t \<Rightarrow> ValueType \<Rightarrow> 'w option"
    and effect :: "'w \<Rightarrow> mem \<Rightarrow> mem" and ok :: "addr \<Rightarrow> ValueType \<Rightarrow> bool" and invar :: "'w \<Rightarrow> bool"
  assumes empty_log: "invar empty" "effect empty m = m"
    and lookup_hit: "layout_ok ok \<Longrightarrow> invar w \<Longrightarrow> ok a sz \<Longrightarrow> lookup w a sz = Hit v \<Longrightarrow>
      read_value_from_addr (effect w m) a sz = return_any_type sz v"
    and lookup_miss: "layout_ok ok \<Longrightarrow> invar w \<Longrightarrow> ok a sz \<Longrightarrow> lookup w a sz = Miss \<Longrightarrow>
      read_value_from_addr (effect w m) a sz = read_value_from_addr m a sz"
    and write_invar: "layout_ok ok \<Longrightarrow> invar w \<Longrightarrow> ok a sz \<Longrightarrow> upd w a v sz = Some w' \<Longrightarrow> invar w'"
    and write_effect: "layout_ok ok \<Longrightarrow> invar w \<Longrightarrow> ok a sz \<Longrightarrow> upd w a v sz = Some w' \<Longrightarrow>
      effect w' m = write_value_to_addr (effect w m) a v sz"
begin

lemma explains_empty: "explains [] (effect empty) []"
  by (simp add: explains_def empty_log)

lemma explains_hit:
  assumes "layout_ok ok" "invar w" "ok a sz" "lookup w a sz = Hit v" "explains rs (effect w) ps"
  shows "explains rs (effect w) (ps @ [Rd a sz (return_any_type sz v)])"
  using assms lookup_hit [OF assms(1-4)] by (simp add: explains_def seq_run_append)

lemma explains_miss:
  assumes "layout_ok ok" "invar w" "ok a sz" "lookup w a sz = Miss" "explains rs (effect w) ps"
  shows "explains (rs @ [(a, sz, v)]) (effect w) (ps @ [Rd a sz (return_any_type sz v)])"
  using assms(5) lookup_miss [OF assms(1-4)] by (auto simp: explains_def seq_run_append)

lemma explains_write:
  assumes "layout_ok ok" "invar w" "ok a sz" "upd w a v sz = Some w'" "explains rs (effect w) ps"
  shows "explains rs (effect w') (ps @ [Wr a sz v])"
  using assms(5) write_effect [OF assms(1-4)] by (simp add: explains_def seq_run_append)

end

end
