(* ===== verification/TM_NOrec.thy ===== *)
theory TM_NOrec
  imports TM_RedoLog
begin

text \<open>
  The NOrec backend (\<open>norec/NOrec.hpp\<close>): one global sequence lock, value-based
  validation, redo log. The first part gives the logs and the sequential operations on a
  transaction descriptor, the second the operations of several threads as a state machine
  whose steps are the individual accesses to shared memory: each load or store of
  \<open>global_lock\<close> and each byte of a data access is a step of its own, so a reader can meet a
  half-done write-back. Memory is sequentially consistent. A failed \<open>assert\<close> stops the process.
\<close>

section \<open>Logs\<close>

record ReadLogEntry =
  r_type :: ValueType
  r_addr :: addr
  observed_version :: u64
  observed_val :: any_type_t

record WriteLogEntry =
  w_type :: ValueType
  w_addr :: addr
  new_val :: any_type_t

record Transaction =
  tx_id :: u64
  snapshot :: u64
  active :: bool
  read_only :: bool
  abort_count :: int
  read_set :: "ReadLogEntry list"
  write_set :: "WriteLogEntry list"

definition tx_clear :: "Transaction \<Rightarrow> Transaction" where
  "tx_clear tx = tx\<lparr>read_set := [], write_set := []\<rparr>"

definition tx_reset :: "Transaction \<Rightarrow> Transaction" where
  "tx_reset tx = tx_clear (tx\<lparr>snapshot := 0, active := False, read_only := True, abort_count := 0\<rparr>)"

definition iseq :: "any_type_t \<Rightarrow> any_type_t \<Rightarrow> bool" where
  "iseq val1 val2 \<longleftrightarrow> any_u8 val1 = any_u8 val2"

text \<open>The bound of the \<open>assert\<close>s on pointer values: user space ends at \<open>2^47\<close>.\<close>

definition user_space :: "any_type_t \<Rightarrow> bool" where
  "user_space v \<longleftrightarrow> v < 0x800000000000"

section \<open>The write set\<close>

text \<open>The lambda \<open>entrySize\<close> of the read path.\<close>

fun entrySize :: "ValueType \<Rightarrow> nat" where
  "entrySize UINT8 = 1"
| "entrySize UINT16 = 2"
| "entrySize UINT32 = 4"
| "entrySize FLOAT = 4"
| "entrySize UINT64 = 8"
| "entrySize DOUBLE = 8"
| "entrySize POINTER = 8"

text \<open>
  The interchange cases for an entry at the address read. The narrower member of a fresh
  union is set; its other bytes, which no caller reads, are zero here.
\<close>

definition interchange :: "WriteLogEntry \<Rightarrow> ValueType \<Rightarrow> any_type_t option" where
  "interchange e sz =
    (let es = entrySize (w_type e); rs = entrySize sz; v = new_val e
     in if rs = 8 \<and> es = 8 \<and> sz \<noteq> w_type e then Some v
        else if es = 8 \<and> rs = 4 \<and> (sz = UINT32 \<or> sz = FLOAT) then Some (any_u8 v AND 0xFFFFFFFF)
        else if es = 8 \<and> rs = 2 \<and> sz = UINT16 then Some (any_u8 v AND 0xFFFF)
        else if es = 8 \<and> rs = 1 \<and> sz = UINT8 then Some (any_u8 v AND 0xFF)
        else if es = 4 \<and> rs = 2 \<and> sz = UINT16 then Some (ucast (any_u4 v) AND 0xFFFF)
        else if es = 4 \<and> rs = 1 \<and> sz = UINT8 then Some (ucast (any_u4 v) AND 0xFF)
        else if es = 2 \<and> rs = 1 \<and> sz = UINT8 then Some (ucast (any_u2 v) AND 0xFF)
        else None)"

definition interchange_hit :: "WriteLogEntry list \<Rightarrow> addr \<Rightarrow> ValueType \<Rightarrow> any_type_t option" where
  "interchange_hit ws a sz =
    first_some (\<lambda>e. if w_addr e \<noteq> a then None else interchange e sz) (rev ws)"

text \<open>The byte merge: the loop from byte \<open>i\<close> on, \<open>n\<close> bytes left.\<close>

fun merge_loop :: "WriteLogEntry list \<Rightarrow> addr \<Rightarrow> nat \<Rightarrow> nat \<Rightarrow> u64 \<Rightarrow> u64 option" where
  "merge_loop ws a i 0 merged = Some merged"
| "merge_loop ws a i (Suc n) merged =
     (case find (\<lambda>e. w_addr e = a + of_nat i \<and> w_type e = UINT8) (rev ws) of
        None \<Rightarrow> None
      | Some e \<Rightarrow> merge_loop ws a (Suc i) n (merged OR push_bit (i * 8) (ucast (any_u1 (new_val e)))))"

definition ws_lookup :: "WriteLogEntry list \<Rightarrow> addr \<Rightarrow> ValueType \<Rightarrow> ws_result" where
  "ws_lookup ws a sz =
    (case find (\<lambda>e. w_type e = sz \<and> w_addr e = a) (rev ws) of
       Some e \<Rightarrow> if sz = POINTER \<and> \<not> user_space (new_val e) then AssertFail else Hit (new_val e)
     | None \<Rightarrow>
         (case interchange_hit ws a sz of
            Some v \<Rightarrow> Hit v
          | None \<Rightarrow>
              (case (if sz = UINT64 \<or> sz = POINTER \<or> sz = DOUBLE then merge_loop ws a 0 8 0 else None) of
                 Some v \<Rightarrow> Hit v
               | None \<Rightarrow> Miss)))"

text \<open>The lambda \<open>typeSize\<close> of the write path.\<close>

fun typeSize :: "ValueType \<Rightarrow> nat" where
  "typeSize UINT8 = 1"
| "typeSize UINT16 = 2"
| "typeSize UINT32 = 4"
| "typeSize FLOAT = 4"
| "typeSize UINT64 = 8"
| "typeSize POINTER = 8"
| "typeSize DOUBLE = 8"

text \<open>The scan of \<open>write_word_norec\<close>, over the write set from its end.\<close>

datatype scan_result = NotFound | Updated "WriteLogEntry list" | ScanAssert

fun ws_scan :: "addr \<Rightarrow> any_type_t \<Rightarrow> ValueType \<Rightarrow> WriteLogEntry list \<Rightarrow> scan_result" where
  "ws_scan a val sz [] = NotFound"
| "ws_scan a val sz (e # es) =
     (if w_addr e = a \<and> typeSize (w_type e) = typeSize sz then
        if w_type e = POINTER \<and> typeSize sz = 8 \<and> sz \<noteq> POINTER \<and> \<not> user_space (any_u8 val)
        then ScanAssert
        else Updated (e\<lparr>new_val := val\<rparr> # es)
      else if w_addr e = a \<and> typeSize (w_type e) > typeSize sz then Updated (e # es)
      else (case ws_scan a val sz es of Updated es' \<Rightarrow> Updated (e # es') | r \<Rightarrow> r))"

definition ws_write :: "WriteLogEntry list \<Rightarrow> addr \<Rightarrow> any_type_t \<Rightarrow> ValueType \<Rightarrow> WriteLogEntry list option" where
  "ws_write ws a val sz =
    (if sz = POINTER \<and> \<not> user_space val then None
     else (case ws_scan a val sz (rev ws) of
             ScanAssert \<Rightarrow> None
           | Updated es \<Rightarrow> Some (rev es)
           | NotFound \<Rightarrow> Some (ws @ [\<lparr>w_type = sz, w_addr = a, new_val = val\<rparr>])))"

text \<open>The addresses the two paths leave alone.\<close>

definition bad_read_addr :: "addr \<Rightarrow> bool" where
  "bad_read_addr a \<longleftrightarrow> a = 0 \<or> a < 0x100000"

definition bad_write_addr :: "addr \<Rightarrow> bool" where
  "bad_write_addr a \<longleftrightarrow> a = 0 \<or> a < 0x100000 \<or> drop_bit 47 a \<noteq> 0"

text \<open>\<open>isOnCurrentThreadStack\<close> over the bounds recorded for the calling thread.\<close>

definition isOnCurrentThreadStack :: "addr \<times> addr \<Rightarrow> addr \<Rightarrow> bool" where
  "isOnCurrentThreadStack b a =
    (if fst b = 0 \<or> snd b = 0 then False else fst b \<le> a \<and> a < snd b)"

text \<open>The write-back loop of \<open>commit\<close>.\<close>

definition apply_ws :: "WriteLogEntry list \<Rightarrow> mem \<Rightarrow> mem" where
  "apply_ws ws m = foldl (\<lambda>m w. write_value_to_addr m (w_addr w) (new_val w) (w_type w)) m ws"

text \<open>The same stores one byte at a time, in the order of \<open>memcpy\<close>.\<close>

definition entry_bytes :: "WriteLogEntry \<Rightarrow> (addr \<times> u8) list" where
  "entry_bytes w = store_list (w_addr w) (new_val w) (type_size (w_type w))"

definition ws_bytes :: "WriteLogEntry list \<Rightarrow> (addr \<times> u8) list" where
  "ws_bytes ws = concat (map entry_bytes ws)"

section \<open>The write set as a redo log\<close>

lemma entrySize_eq [simp]: "entrySize t = type_size t"
  by (cases t) simp_all

lemma typeSize_eq [simp]: "typeSize t = type_size t"
  by (cases t) simp_all

lemma apply_ws_simps [simp]:
  "apply_ws [] m = m" "apply_ws (w # ws) m = apply_ws ws (write_value_to_addr m (w_addr w) (new_val w) (w_type w))"
  "apply_ws (xs @ ys) m = apply_ws ys (apply_ws xs m)"
  by (simp_all add: apply_ws_def)

text \<open>One entry per cell.\<close>

definition ws_ok :: "(addr \<Rightarrow> ValueType \<Rightarrow> bool) \<Rightarrow> WriteLogEntry list \<Rightarrow> bool" where
  "ws_ok L ws \<longleftrightarrow> (\<forall>e\<in>set ws. L (w_addr e) (w_type e)) \<and> distinct (map w_addr ws)"

lemma ws_okD:
  assumes "layout_ok L" "ws_ok L ws" "e \<in> set ws" "L a sz"
  shows "w_addr e \<noteq> a \<Longrightarrow> disjoint_range (w_addr e) (type_size (w_type e)) a (type_size sz)"
    and "w_addr e = a \<Longrightarrow> type_size (w_type e) = type_size sz"
    and "w_addr e = a \<Longrightarrow> w_type e \<noteq> sz \<Longrightarrow> type_size (w_type e) = 8 \<and> type_size sz = 8"
proof -
  have "L (w_addr e) (w_type e)" using assms by (simp add: ws_ok_def)
  then show "w_addr e \<noteq> a \<Longrightarrow> disjoint_range (w_addr e) (type_size (w_type e)) a (type_size sz)"
    "w_addr e = a \<Longrightarrow> type_size (w_type e) = type_size sz"
    "w_addr e = a \<Longrightarrow> w_type e \<noteq> sz \<Longrightarrow> type_size (w_type e) = 8 \<and> type_size sz = 8"
    using layout_okD [OF assms(1), of "w_addr e" "w_type e"] assms(4) by blast+
qed

lemma apply_ws_other:
  assumes "layout_ok L" "ws_ok L ws" "L a sz" "a \<notin> w_addr ` set ws"
  shows "read_value_from_addr (apply_ws ws m) a sz = read_value_from_addr m a sz"
  using assms(2,4)
proof (induction ws arbitrary: m)
  case (Cons e ws)
  have "disjoint_range (w_addr e) (type_size (w_type e)) a (type_size sz)"
    using ws_okD(1) [OF assms(1) Cons.prems(1) _ assms(3), of e] Cons.prems(2) by auto
  then show ?case using Cons by (simp add: ws_ok_def read_write_disjoint)
qed simp

lemma apply_ws_hit:
  assumes "layout_ok L" "ws_ok L ws" "L a sz" "e \<in> set ws" "w_addr e = a"
  shows "read_value_from_addr (apply_ws ws m) a sz = return_any_type sz (new_val e)"
  using assms(2,4)
proof (induction ws arbitrary: m)
  case (Cons w ws)
  show ?case
  proof (cases "e = w")
    case True
    then have "a \<notin> w_addr ` set ws" using Cons.prems(1) assms(5) by (auto simp: ws_ok_def)
    moreover have "ws_ok L ws" using Cons.prems(1) by (simp add: ws_ok_def)
    ultimately show ?thesis
      using True assms(5) ws_okD(2) [OF assms(1) Cons.prems(1) _ assms(3), of w]
      by (simp add: apply_ws_other [OF assms(1) _ assms(3)] read_write_same)
  next
    case False
    then show ?thesis using Cons by (simp add: ws_ok_def)
  qed
qed simp

lemma ws_unique:
  "ws_ok L ws \<Longrightarrow> e \<in> set ws \<Longrightarrow> e' \<in> set ws \<Longrightarrow> w_addr e = w_addr e' \<Longrightarrow> e = e'"
  by (auto simp: ws_ok_def distinct_map inj_on_def)

text \<open>Under the layout discipline a lookup decides whether the cell has an entry.\<close>

lemma merge_loop_none:
  assumes "a \<notin> w_addr ` set ws"
  shows "merge_loop ws a 0 8 0 = None"
proof -
  have "find (\<lambda>e. w_addr e = a + of_nat 0 \<and> w_type e = UINT8) (rev ws) = None"
    using assms by (auto simp: find_None_iff)
  then show ?thesis by (simp add: numeral_eq_Suc)
qed

lemma ws_lookup_cell:
  assumes "layout_ok L" "ws_ok L ws" "L a sz"
  shows "ws_lookup ws a sz = Miss \<Longrightarrow> a \<notin> w_addr ` set ws"
    and "ws_lookup ws a sz = Hit v \<Longrightarrow> \<exists>e\<in>set ws. w_addr e = a \<and> new_val e = v"
proof -
  let ?x = "find (\<lambda>e. w_type e = sz \<and> w_addr e = a) (rev ws)"
  have ic: "interchange_hit ws a sz = Some (new_val e)"
    if x: "?x = None" and e: "e \<in> set ws" "w_addr e = a" for e
  proof -
    have ne: "w_type e \<noteq> sz" using x e by (auto simp: find_None_iff)
    then have "interchange e sz = Some (new_val e)"
      using ws_okD(3) [OF assms(1,2) e(1) assms(3) e(2)] by (simp add: interchange_def)
    moreover have "first_some (\<lambda>e. if w_addr e \<noteq> a then None else interchange e sz) (rev ws) \<noteq> None"
      using e calculation by (auto simp: first_some_None)
    moreover have "y = new_val e"
      if y: "first_some (\<lambda>e. if w_addr e \<noteq> a then None else interchange e sz) (rev ws) = Some y" for y
    proof -
      obtain e' where e': "e' \<in> set ws" "w_addr e' = a" "interchange e' sz = Some y"
        using first_some_SomeD [OF y] by (auto split: if_splits)
      then have "e' = e" using ws_unique [OF assms(2)] e by metis
      with e' calculation(1) show ?thesis by simp
    qed
    ultimately show ?thesis unfolding interchange_hit_def by blast
  qed
  show "ws_lookup ws a sz = Miss \<Longrightarrow> a \<notin> w_addr ` set ws"
  proof
    assume "ws_lookup ws a sz = Miss" "a \<in> w_addr ` set ws"
    then show False using ic by (auto simp: ws_lookup_def split: option.splits if_splits)
  qed
  show "ws_lookup ws a sz = Hit v \<Longrightarrow> \<exists>e\<in>set ws. w_addr e = a \<and> new_val e = v"
  proof (cases ?x)
    case (Some e)
    then have "e \<in> set ws \<and> w_addr e = a" by (auto dest: find_SomeD)
    then show "ws_lookup ws a sz = Hit v \<Longrightarrow> ?thesis"
      using Some by (auto simp: ws_lookup_def split: if_splits)
  next
    case None
    assume h: "ws_lookup ws a sz = Hit v"
    show ?thesis
    proof (cases "a \<in> w_addr ` set ws")
      case True
      then show ?thesis using h ic [OF None] None by (auto simp: ws_lookup_def)
    next
      case False
      then have "interchange_hit ws a sz = None" by (auto simp: interchange_hit_def first_some_None)
      then show ?thesis
        using h None merge_loop_none [OF False] by (auto simp: ws_lookup_def split: if_splits)
    qed
  qed
qed

lemma ws_scan_updated:
  assumes "layout_ok L" "ws_ok L (rev es)" "L a sz" "ws_scan a val sz es = Updated es'"
  shows "\<exists>xs e ys. es = xs @ e # ys \<and> w_addr e = a \<and> type_size (w_type e) = type_size sz \<and>
    es' = xs @ e\<lparr>new_val := val\<rparr> # ys"
  using assms(2,4)
proof (induction es arbitrary: es')
  case (Cons e es)
  have sz: "w_addr e = a \<Longrightarrow> type_size (w_type e) = type_size sz"
    using ws_okD(2) [OF assms(1) Cons.prems(1) _ assms(3), of e] by simp
  show ?case
  proof (cases "w_addr e = a")
    case True
    then have "es' = e\<lparr>new_val := val\<rparr> # es"
      using Cons.prems(2) sz by (auto split: if_splits)
    then show ?thesis using True sz by (intro exI [of _ "[]"] exI [of _ e] exI [of _ es]) simp
  next
    case False
    then obtain es'' where u: "ws_scan a val sz es = Updated es''" "es' = e # es''"
      using Cons.prems(2) by (auto split: scan_result.splits)
    have "ws_ok L (rev es)" using Cons.prems(1) by (simp add: ws_ok_def)
    from Cons.IH [OF this u(1)] obtain xs e' ys where "es = xs @ e' # ys" "w_addr e' = a"
        "type_size (w_type e') = type_size sz" "es'' = xs @ e'\<lparr>new_val := val\<rparr> # ys"
      by blast
    then show ?thesis using u(2) by (intro exI [of _ "e # xs"] exI [of _ e'] exI [of _ ys]) simp
  qed
qed simp

lemma ws_scan_notfound:
  "ws_scan a val sz es = NotFound \<Longrightarrow> e \<in> set es \<Longrightarrow> w_addr e = a \<Longrightarrow> type_size (w_type e) \<noteq> type_size sz"
  by (induction es) (auto split: if_splits scan_result.splits)

lemma apply_ws_update:
  assumes "layout_ok L" "ws_ok L (xs @ e # ys)" "L a sz" "w_addr e = a"
  shows "apply_ws (xs @ e\<lparr>new_val := val\<rparr> # ys) m = write_value_to_addr (apply_ws (xs @ e # ys) m) a val sz"
  using assms(2)
proof (induction ys rule: rev_induct)
  case Nil
  have "type_size (w_type e) = type_size sz" using ws_okD(2) [OF assms(1) Nil _ assms(3,4)] by simp
  then show ?case using assms(4) by (simp add: write_value_eq store_store_same)
next
  case (snoc y ys)
  have ok: "ws_ok L (xs @ e # ys)" using snoc.prems by (auto simp: ws_ok_def)
  have "w_addr y \<noteq> a" using snoc.prems assms(4) by (auto simp: ws_ok_def)
  then have "disjoint_range (w_addr y) (type_size (w_type y)) a (type_size sz)"
    using ws_okD(1) [OF assms(1) snoc.prems _ assms(3), of y] by simp
  then have "disjoint_range a (type_size sz) (w_addr y) (type_size (w_type y))"
    by (simp add: disjoint_range_sym)
  from write_commute [OF this] snoc.IH [OF ok] show ?case by simp
qed

lemma ws_write_log:
  assumes "layout_ok L" "ws_ok L ws" "L a sz" "ws_write ws a val sz = Some ws'"
  shows "ws_ok L ws'" and "apply_ws ws' m = write_value_to_addr (apply_ws ws m) a val sz"
proof -
  consider "ws_scan a val sz (rev ws) = NotFound" "ws' = ws @ [\<lparr>w_type = sz, w_addr = a, new_val = val\<rparr>]"
    | es where "ws_scan a val sz (rev ws) = Updated es" "ws' = rev es"
    using assms(4) by (auto simp: ws_write_def split: if_splits scan_result.splits)
  then have "ws_ok L ws' \<and> apply_ws ws' m = write_value_to_addr (apply_ws ws m) a val sz"
  proof cases
    case 1
    have "a \<notin> w_addr ` set ws"
      using ws_scan_notfound [OF 1(1)] ws_okD(2) [OF assms(1,2) _ assms(3)] by auto
    then show ?thesis using 1(2) assms(2,3) by (simp add: ws_ok_def)
  next
    case (2 es)
    obtain xs e ys where s: "rev ws = xs @ e # ys" "w_addr e = a" "es = xs @ e\<lparr>new_val := val\<rparr> # ys"
      using ws_scan_updated [OF assms(1) _ assms(3) 2(1)] assms(2) by auto
    have ws: "ws = rev ys @ e # rev xs" using s(1) by (metis append.assoc append_Cons append_Nil rev.simps(2) rev_append rev_rev_ident)
    have ws': "ws' = rev ys @ e\<lparr>new_val := val\<rparr> # rev xs" using 2(2) s(3) by simp
    have ok: "ws_ok L (rev ys @ e # rev xs)" using assms(2) ws by simp
    then have "ws_ok L ws'" unfolding ws' ws_ok_def by auto
    moreover have "apply_ws ws' m = write_value_to_addr (apply_ws ws m) a val sz"
      unfolding ws' ws by (rule apply_ws_update [OF assms(1) ok assms(3) s(2)])
    ultimately show ?thesis by blast
  qed
  then show "ws_ok L ws'" "apply_ws ws' m = write_value_to_addr (apply_ws ws m) a val sz" by auto
qed

interpretation norec_ws: redo_log "[]" ws_lookup ws_write apply_ws L "ws_ok L" for L
proof (unfold_locales, goal_cases)
  case (3 w a sz v m)
  then show ?case using ws_lookup_cell(2) [OF 3(1-4)] apply_ws_hit [OF 3(1-3)] by metis
next
  case (4 w a sz m)
  then show ?case using ws_lookup_cell(1) [OF 4(1-4)] apply_ws_other [OF 4(1-3)] by metis
next
  case (5 w a sz v w')
  then show ?case by (rule ws_write_log(1))
next
  case (6 w a sz v w' m)
  then show ?case by (rule ws_write_log(2))
qed (simp_all add: ws_ok_def)

section \<open>Where the write set differs from memory\<close>

text \<open>
  C28. A narrow write over an earlier wider write at the same address is lost: the scan of
  \<open>write_word_norec\<close> meets the 8-byte entry, takes it to cover the address and returns without
  storing the byte, so a later read in the transaction and the committed memory both show the old
  byte.
\<close>

theorem norec_narrow_write_lost:
  "case ws_write [] a v UINT64 of None \<Rightarrow> False | Some ws \<Rightarrow>
     ws_write ws a b UINT8 = Some ws \<and> ws_lookup ws a UINT8 = Hit (v AND 0xFF) \<and>
     read_value_from_addr (apply_ws ws m) a UINT8 = return_any_type UINT8 v"
proof -
  have "read_value_from_addr (write_value_to_addr m a v UINT64) a UINT8 = return_any_type UINT8 v"
  proof (rule u64_eqI)
    fix k :: nat
    assume "k < 64"
    then show "bit (read_value_from_addr (write_value_to_addr m a v UINT64) a UINT8) k =
        bit (return_any_type UINT8 v) k"
      by (auto simp: read_value_eq write_value_eq return_any_eq bit_load_bytes store_bytes_apply
          unat_of_nat_u64 bit_ucast_u8 bit_drop_bit_eq bit_and_iff bit_mask_iff
          simp del: load_bytes.simps store_bytes.simps)
  qed
  then show ?thesis
    by (simp add: ws_write_def ws_lookup_def interchange_hit_def interchange_def any_u8_def)
qed

text \<open>
  A \<open>FLOAT\<close> read misses the transaction's own \<open>UINT32\<close> write at the same address (and the
  other way round): the interchange cases treat the 8-byte types as one but not the two
  4-byte types, so the read goes to shared memory.
\<close>

theorem norec_float_read_misses:
  "(case ws_write [] a v UINT32 of None \<Rightarrow> False | Some ws \<Rightarrow> ws_lookup ws a FLOAT = Miss) \<and>
   (case ws_write [] a v FLOAT of None \<Rightarrow> False | Some ws \<Rightarrow> ws_lookup ws a UINT32 = Miss)"
  by (simp add: ws_write_def ws_lookup_def interchange_hit_def interchange_def)

end
