(* ===== verification/TM_NOrec_Steps.thy ===== *)
theory TM_NOrec_Steps
  imports TM_NOrec
begin

text \<open>
  Threads running the NOrec operations. A state holds the shared memory, \<open>global_lock\<close>, the
  counters and, per thread, the descriptor and a program counter. \<open>do_call\<close> starts an
  operation on a thread that is between operations; \<open>norec_run\<close> is the next shared-memory
  access of an operation in progress. The fields \<open>hist\<close>, \<open>log\<close>, \<open>ro_log\<close>, \<open>ops\<close> and
  \<open>born\<close> are ghost: no operation reads them.
\<close>

section \<open>State\<close>

text \<open>Where \<open>validate()\<close> returns to.\<close>

datatype norec_k = KRead addr ValueType | KCommit

datatype norec_pc =
    Idle
  | BeginLoop
  | ReadBefore addr ValueType
  | ReadVal addr ValueType u64 nat any_type_t
  | ReadCheck addr ValueType any_type_t
  | ReRead addr ValueType nat any_type_t
  | ValTime norec_k
  | ValRead norec_k u64 "ReadLogEntry list" nat any_type_t
  | CommitCas
  | WriteBack u64 "(addr \<times> u8) list"

datatype norec_op = CBegin | CRead addr ValueType | CWrite addr any_type_t ValueType | CCommit

record commit_record =
  c_reads :: "ReadLogEntry list"
  c_writes :: "WriteLogEntry list"
  c_ops :: "op list"

record norec_state =
  smem :: mem
  global_lock :: u64
  thr_counter :: u64
  g_tm_abort_count :: u64
  txs :: "nat \<Rightarrow> Transaction"
  stack_bounds :: "nat \<Rightarrow> addr \<times> addr"
  pcs :: "nat \<Rightarrow> norec_pc"
  failed :: bool
  hist :: "mem list"
  log :: "commit_record list"
  ro_log :: "(nat \<times> nat \<times> commit_record) list"
  ops :: "nat \<Rightarrow> op list"
  born :: "nat \<Rightarrow> nat"

definition set_tx :: "nat \<Rightarrow> Transaction \<Rightarrow> norec_state \<Rightarrow> norec_state" where
  "set_tx t tx s = s\<lparr>txs := (txs s)(t := tx)\<rparr>"

definition set_pc :: "nat \<Rightarrow> norec_pc \<Rightarrow> norec_state \<Rightarrow> norec_state" where
  "set_pc t pc s = s\<lparr>pcs := (pcs s)(t := pc)\<rparr>"

definition set_ops :: "nat \<Rightarrow> op list \<Rightarrow> norec_state \<Rightarrow> norec_state" where
  "set_ops t p s = s\<lparr>ops := (ops s)(t := p)\<rparr>"

definition fail :: "norec_state \<Rightarrow> norec_state" where
  "fail s = s\<lparr>failed := True\<rparr>"

section \<open>Initialisation\<close>

definition fresh_tx :: Transaction where
  "fresh_tx = \<lparr>tx_id = 0, snapshot = 0, active = False, read_only = True, abort_count = 0,
     read_set = [], write_set = []\<rparr>"

text \<open>\<open>init()\<close>: the memory \<open>m\<close> is whatever the program set up before.\<close>

definition norec_init :: "mem \<Rightarrow> norec_state" where
  "norec_init m = \<lparr>smem = m, global_lock = 0, thr_counter = 1, g_tm_abort_count = 0,
     txs = (\<lambda>_. fresh_tx), stack_bounds = (\<lambda>_. (0, 0)), pcs = (\<lambda>_. Idle), failed = False,
     hist = [m], log = [], ro_log = [], ops = (\<lambda>_. []), born = (\<lambda>_. 0)\<rparr>"

definition init_thread :: "nat \<Rightarrow> norec_state \<Rightarrow> norec_state" where
  "init_thread t s =
    (let tx = tx_reset ((txs s t)\<lparr>tx_id := thr_counter s\<rparr>)
     in set_ops t [] (set_tx t tx s)\<lparr>thr_counter := thr_counter s + 1\<rparr>)"

section \<open>Steps of the operations\<close>

text \<open>\<open>abort_tx()\<close>: the jump leaves the thread between operations, to retry.\<close>

definition abort_tx :: "nat \<Rightarrow> norec_state \<Rightarrow> norec_state" where
  "abort_tx t s =
    (let tx = txs s t
     in set_pc t Idle (set_ops t [] (set_tx t (tx_clear (tx\<lparr>abort_count := abort_count tx + 1\<rparr>)) s))
          \<lparr>g_tm_abort_count := g_tm_abort_count s + 1\<rparr>)"

text \<open>\<open>begin()\<close>: the loop that waits for an even clock.\<close>

definition begin_step :: "nat \<Rightarrow> norec_state \<Rightarrow> norec_state" where
  "begin_step t s =
    (let tx = (txs s t)\<lparr>snapshot := global_lock s\<rparr>
     in if snapshot tx AND 1 \<noteq> 0 then set_tx t tx s
        else set_pc t Idle (set_ops t []
          (set_tx t (tx\<lparr>active := True, read_only := True, abort_count := 0, read_set := [], write_set := []\<rparr>)
            (s\<lparr>born := (born s)(t := length (hist s) - 1)\<rparr>))))"

text \<open>\<open>read_word_norec\<close>, from the double-checked read on.\<close>

fun read_step :: "nat \<Rightarrow> norec_pc \<Rightarrow> norec_state \<Rightarrow> norec_state" where
  "read_step t (ReadBefore a sz) s =
    (let clock_before = global_lock s
     in if clock_before AND 1 \<noteq> 0 then s else set_pc t (ReadVal a sz clock_before 0 0) s)"
| "read_step t (ReadVal a sz clock_before i v) s =
    (if i < type_size sz then set_pc t (ReadVal a sz clock_before (Suc i) (add_byte (smem s) a i v)) s
     else if global_lock s \<noteq> clock_before then set_pc t (ReadBefore a sz) s
     else if sz = POINTER \<and> \<not> user_space v then fail s
     else set_pc t (ReadCheck a sz v) s)"
| "read_step t (ReadCheck a sz v) s =
    (let tx = txs s t
     in if snapshot tx \<noteq> global_lock s then set_pc t (ValTime (KRead a sz)) s
        else set_pc t Idle (set_ops t (ops s t @ [Rd a sz (return_any_type sz v)])
          (set_tx t (tx\<lparr>read_set := read_set tx @
             [\<lparr>r_type = sz, r_addr = a, observed_version = snapshot tx, observed_val = v\<rparr>]\<rparr>) s)))"
| "read_step t (ReRead a sz i v) s =
    (if i < type_size sz then set_pc t (ReRead a sz (Suc i) (add_byte (smem s) a i v)) s
     else if sz = POINTER \<and> \<not> user_space v then fail s
     else if length (read_set (txs s t)) > 1000000 then abort_tx t s
     else set_pc t (ReadCheck a sz v) s)"
| "read_step t _ s = s"

text \<open>\<open>validate()\<close> and its return.\<close>

definition validated :: "nat \<Rightarrow> norec_k \<Rightarrow> u64 \<Rightarrow> norec_state \<Rightarrow> norec_state" where
  "validated t k time s =
    set_pc t (case k of KRead a sz \<Rightarrow> ReRead a sz 0 0 | KCommit \<Rightarrow> CommitCas)
      (set_tx t ((txs s t)\<lparr>snapshot := time\<rparr>) s)"

fun validate_step :: "nat \<Rightarrow> norec_pc \<Rightarrow> norec_state \<Rightarrow> norec_state" where
  "validate_step t (ValTime k) s =
    (let time = global_lock s
     in if time AND 1 \<noteq> 0 then s
        else if read_set (txs s t) = [] then validated t k time s
        else set_pc t (ValRead k time (read_set (txs s t)) 0 0) s)"
| "validate_step t (ValRead k time [] i v) s =
    (if time = global_lock s then validated t k time s else set_pc t (ValTime k) s)"
| "validate_step t (ValRead k time (r # rs) i v) s =
    (if i < type_size (r_type r) then set_pc t (ValRead k time (r # rs) (Suc i) (add_byte (smem s) (r_addr r) i v)) s
     else if \<not> iseq v (observed_val r) then abort_tx t s
     else set_pc t (ValRead k time rs 0 0) s)"
| "validate_step t _ s = s"

text \<open>
  \<open>commit()\<close> after the read-only case: the compare-and-swap, the write-back and the release.
  A successful swap enters the commit in the ghost history.
\<close>

fun commit_step :: "nat \<Rightarrow> norec_pc \<Rightarrow> norec_state \<Rightarrow> norec_state" where
  "commit_step t CommitCas s =
    (let tx = txs s t; expect = snapshot tx
     in if global_lock s = expect
        then set_pc t (WriteBack expect (ws_bytes (write_set tx)))
          (s\<lparr>global_lock := expect + 1, hist := hist s @ [apply_ws (write_set tx) (smem s)],
             log := log s @ [\<lparr>c_reads = read_set tx, c_writes = write_set tx, c_ops = ops s t\<rparr>]\<rparr>)
        else set_pc t (ValTime KCommit) s)"
| "commit_step t (WriteBack expect ((a, b) # bs)) s =
    set_pc t (WriteBack expect bs) (s\<lparr>smem := (smem s)(a := b)\<rparr>)"
| "commit_step t (WriteBack expect []) s =
    set_pc t Idle (set_ops t [] (set_tx t (tx_reset (txs s t)) (s\<lparr>global_lock := expect + 2\<rparr>)))"
| "commit_step t _ s = s"

definition norec_run :: "nat \<Rightarrow> norec_state \<Rightarrow> norec_state" where
  "norec_run t s =
    (case pcs s t of
       Idle \<Rightarrow> s
     | BeginLoop \<Rightarrow> begin_step t s
     | ValTime k \<Rightarrow> validate_step t (pcs s t) s
     | ValRead k time rs i v \<Rightarrow> validate_step t (pcs s t) s
     | CommitCas \<Rightarrow> commit_step t (pcs s t) s
     | WriteBack expect bs \<Rightarrow> commit_step t (pcs s t) s
     | _ \<Rightarrow> read_step t (pcs s t) s)"

section \<open>Calls\<close>

text \<open>The local part of \<open>read_word_norec\<close>: the write set, then the address guards.\<close>

definition read_call :: "nat \<Rightarrow> addr \<Rightarrow> ValueType \<Rightarrow> norec_state \<Rightarrow> norec_state" where
  "read_call t a sz s =
    (if \<not> active (txs s t) then fail s
     else (case ws_lookup (write_set (txs s t)) a sz of
             AssertFail \<Rightarrow> fail s
           | Hit v \<Rightarrow> set_ops t (ops s t @ [Rd a sz (return_any_type sz v)]) s
           | Miss \<Rightarrow>
               if bad_read_addr a \<or> isOnCurrentThreadStack (stack_bounds s t) a
               then set_ops t (ops s t @ [Rd a sz 0]) s
               else set_pc t (ReadBefore a sz) s))"

definition write_word_norec :: "nat \<Rightarrow> addr \<Rightarrow> any_type_t \<Rightarrow> ValueType \<Rightarrow> norec_state \<Rightarrow> norec_state" where
  "write_word_norec t a val sz s =
    (let tx = txs s t
     in if \<not> active tx then fail s
        else if bad_write_addr a then set_ops t (ops s t @ [Wr a sz val]) s
        else if isOnCurrentThreadStack (stack_bounds s t) a
        then set_ops t (ops s t @ [Wr a sz val])
          (set_tx t (tx\<lparr>read_only := False\<rparr>) (s\<lparr>smem := write_value_to_addr (smem s) a val sz\<rparr>))
        else (case ws_write (write_set tx) a val sz of
                None \<Rightarrow> fail s
              | Some ws \<Rightarrow>
                  set_ops t (ops s t @ [Wr a sz val])
                    (set_tx t (tx\<lparr>read_only := False, write_set := ws\<rparr>) s)))"

definition commit_call :: "nat \<Rightarrow> norec_state \<Rightarrow> norec_state" where
  "commit_call t s =
    (let tx = txs s t
     in if \<not> active tx then fail s
        else if read_only tx
        then set_ops t [] (set_tx t (tx_reset tx)
          (s\<lparr>ro_log := ro_log s @ [(born s t, unat (snapshot tx) div 2,
               \<lparr>c_reads = read_set tx, c_writes = write_set tx, c_ops = ops s t\<rparr>)]\<rparr>))
        else if snapshot tx AND 1 \<noteq> 0 then fail s
        else set_pc t CommitCas s)"

fun do_call :: "nat \<Rightarrow> norec_op \<Rightarrow> norec_state \<Rightarrow> norec_state" where
  "do_call t CBegin s = set_pc t BeginLoop s"
| "do_call t (CRead a sz) s = read_call t a sz s"
| "do_call t (CWrite a val sz) s = write_word_norec t a val sz s"
| "do_call t CCommit s = commit_call t s"

text \<open>
  A scheduler event: thread \<open>t\<close> starts a call, makes its next access, or is initialised. The
  predicate \<open>L\<close> restricts the accesses the program makes.
\<close>

datatype norec_event = Call nat norec_op | Run nat | InitThread nat

fun call_ok :: "(addr \<Rightarrow> ValueType \<Rightarrow> bool) \<Rightarrow> norec_op \<Rightarrow> bool" where
  "call_ok L (CRead a sz) \<longleftrightarrow> L a sz"
| "call_ok L (CWrite a val sz) \<longleftrightarrow> L a sz"
| "call_ok L _ \<longleftrightarrow> True"

fun norec_step :: "(addr \<Rightarrow> ValueType \<Rightarrow> bool) \<Rightarrow> norec_state \<Rightarrow> norec_event \<Rightarrow> norec_state option" where
  "norec_step L s (Call t c) =
    (if \<not> failed s \<and> pcs s t = Idle \<and> call_ok L c then Some (do_call t c s) else None)"
| "norec_step L s (Run t) = (if \<not> failed s \<and> pcs s t \<noteq> Idle then Some (norec_run t s) else None)"
| "norec_step L s (InitThread t) =
    (if \<not> failed s \<and> pcs s t = Idle then Some (init_thread t s) else None)"

inductive norec_reach :: "(addr \<Rightarrow> ValueType \<Rightarrow> bool) \<Rightarrow> mem \<Rightarrow> norec_state \<Rightarrow> bool" for L m where
  reach_init: "norec_reach L m (norec_init m)"
| reach_step: "norec_reach L m s \<Longrightarrow> norec_step L s ev = Some s' \<Longrightarrow> norec_reach L m s'"

end
