(* ===== verification/TM_NOrec_Safety.thy ===== *)
theory TM_NOrec_Safety
  imports TM_NOrec_Steps
begin

text \<open>
  Correctness of the NOrec state machine: the sequence lock, the history of committed
  memories and the read sets fit together at every reachable state, and therefore committed
  transactions are serializable and live ones see a consistent memory.
\<close>

section \<open>Write-back one byte at a time\<close>

lemma apply_ws_bytes: "apply_bytes (ws_bytes ws) m = apply_ws ws m"
  by (induction ws arbitrary: m)
    (simp_all add: ws_bytes_def entry_bytes_def store_bytes_upt write_value_eq)

section \<open>Invariant\<close>

text \<open>A memory in which every logged read still has its observed value.\<close>

definition matches :: "ReadLogEntry list \<Rightarrow> mem \<Rightarrow> bool" where
  "matches rs m \<longleftrightarrow> (\<forall>r\<in>set rs. iseq (read_value_from_addr m (r_addr r) (r_type r)) (observed_val r))"

lemma matches_simps [simp]:
  "matches [] m" "matches (r # rs) m \<longleftrightarrow>
     iseq (read_value_from_addr m (r_addr r) (r_type r)) (observed_val r) \<and> matches rs m"
  "matches (xs @ ys) m \<longleftrightarrow> matches xs m \<and> matches ys m"
  by (auto simp: matches_def)

text \<open>The version of an even clock value, an index of the history.\<close>

definition version :: "u64 \<Rightarrow> nat" where
  "version c = unat c div 2"

fun pc_inv :: "u64 \<Rightarrow> mem \<Rightarrow> Transaction \<Rightarrow> norec_pc \<Rightarrow> bool" where
  "pc_inv c m tx (ReadVal a sz b i v) \<longleftrightarrow> even b \<and> b \<le> c \<and> i \<le> type_size sz \<and> (c = b \<longrightarrow> v = load_bytes m a i)"
| "pc_inv c m tx (ReadCheck a sz v) \<longleftrightarrow> (c = snapshot tx \<longrightarrow> v = load_bytes m a (type_size sz))"
| "pc_inv c m tx (ReRead a sz i v) \<longleftrightarrow> i \<le> type_size sz \<and> (c = snapshot tx \<longrightarrow> v = load_bytes m a i)"
| "pc_inv c m tx (ValRead k time rs i v) \<longleftrightarrow> even time \<and> snapshot tx \<le> time \<and> time \<le> c \<and>
     (\<exists>ds. read_set tx = ds @ rs \<and> (c = time \<longrightarrow> matches ds m)) \<and>
     (\<forall>r rs'. rs = r # rs' \<longrightarrow> i \<le> type_size (r_type r) \<and> (c = time \<longrightarrow> v = load_bytes m (r_addr r) i))"
| "pc_inv c m tx (WriteBack e bs) \<longleftrightarrow> e = snapshot tx \<and> c = e + 1"
| "pc_inv c m tx _ \<longleftrightarrow> True"

definition snap_inv :: "u64 \<Rightarrow> mem list \<Rightarrow> nat \<Rightarrow> Transaction \<Rightarrow> bool" where
  "snap_inv c h b tx \<longleftrightarrow> even (snapshot tx) \<and> snapshot tx \<le> c \<and>
    matches (read_set tx) (h ! version (snapshot tx)) \<and> (active tx \<longrightarrow> b \<le> version (snapshot tx))"

definition tinv :: "u64 \<Rightarrow> mem \<Rightarrow> mem list \<Rightarrow> nat \<Rightarrow> Transaction \<Rightarrow> norec_pc \<Rightarrow> bool" where
  "tinv c m h b tx pc \<longleftrightarrow> (pc \<noteq> BeginLoop \<longrightarrow> snap_inv c h b tx) \<and> (read_only tx \<longrightarrow> write_set tx = []) \<and>
    pc_inv c m tx pc"

fun writing :: "norec_pc \<Rightarrow> bool" where
  "writing (WriteBack e bs) \<longleftrightarrow> True"
| "writing _ \<longleftrightarrow> False"

definition lock_inv :: "norec_state \<Rightarrow> bool" where
  "lock_inv s \<longleftrightarrow> hist s \<noteq> [] \<and>
    (if even (global_lock s)
     then unat (global_lock s) = 2 * (length (hist s) - 1) \<and> smem s = last (hist s) \<and> (\<forall>t. \<not> writing (pcs s t))
     else unat (global_lock s) + 1 = 2 * (length (hist s) - 1) \<and>
       (\<exists>t e bs. pcs s t = WriteBack e bs \<and> apply_bytes bs (smem s) = last (hist s) \<and>
         (\<forall>t'. t' \<noteq> t \<longrightarrow> \<not> writing (pcs s t'))))"

definition log_inv :: "mem list \<Rightarrow> commit_record list \<Rightarrow> (nat \<times> nat \<times> commit_record) list \<Rightarrow> bool" where
  "log_inv h l ro \<longleftrightarrow> length h = Suc (length l) \<and>
    (\<forall>i < length l. matches (c_reads (l ! i)) (h ! i) \<and> h ! Suc i = apply_ws (c_writes (l ! i)) (h ! i)) \<and>
    (\<forall>(b, k, c) \<in> set ro. b \<le> k \<and> k < length h \<and> matches (c_reads c) (h ! k) \<and> c_writes c = [])"

definition norec_inv :: "norec_state \<Rightarrow> bool" where
  "norec_inv s \<longleftrightarrow> lock_inv s \<and> log_inv (hist s) (log s) (ro_log s) \<and> (\<forall>t. stack_bounds s t = (0, 0)) \<and>
    (\<forall>t. tinv (global_lock s) (smem s) (hist s) (born s t) (txs s t) (pcs s t))"

text \<open>What a thread can rely on while others run.\<close>

lemma tinv_env:
  assumes "tinv c m h b tx pc" and "c \<le> c'" and "c' = c \<Longrightarrow> even c \<Longrightarrow> m' = m"
    and "version c < length h" and "\<not> writing pc"
  shows "tinv c' m' (h @ ext) b tx pc"
proof -
  have ver: "(h @ ext) ! version x = h ! version x" if "x \<le> c" for x
  proof -
    have "version x \<le> version c" using that by (simp add: version_def word_le_nat_alt div_le_mono)
    then show ?thesis using assms(4) by (simp add: nth_append)
  qed
  have eq: "c = x \<and> m' = m" if "c' = x" "x \<le> c" "even x" for x
    using that assms(2,3) by (metis order.antisym)
  have snap: "snap_inv c' (h @ ext) b tx" if "pc \<noteq> BeginLoop"
    using assms(1,2) that ver by (auto simp: tinv_def snap_inv_def)
  have "pc_inv c' m' tx pc"
  proof (cases pc)
    case (ReadVal a sz b' i v)
    then show ?thesis using assms(1,2) eq [of b'] by (auto simp: tinv_def)
  next
    case (ReadCheck a sz v)
    then show ?thesis using assms(1,2) eq [of "snapshot tx"] by (auto simp: tinv_def snap_inv_def)
  next
    case (ReRead a sz i v)
    then show ?thesis using assms(1,2) eq [of "snapshot tx"] by (auto simp: tinv_def snap_inv_def)
  next
    case (ValRead k time rs i v)
    then show ?thesis using assms(1,2) eq [of time] by (auto simp: tinv_def)
  qed (use assms in simp_all)
  then show ?thesis using assms(1) snap by (auto simp: tinv_def)
qed


lemma and_one_word: "(w :: u64) AND 1 \<noteq> 0 \<longleftrightarrow> odd w"
  by (simp add: word_lock_bit)

lemma version_lock:
  assumes "lock_inv s"
  shows "version (global_lock s) < length (hist s)"
    and "even (global_lock s) \<Longrightarrow> hist s ! version (global_lock s) = smem s"
    and "even (global_lock s) \<Longrightarrow> version (global_lock s) = length (hist s) - 1"
proof -
  have ne: "hist s \<noteq> []" using assms by (simp add: lock_inv_def)
  show "version (global_lock s) < length (hist s)"
    using assms ne by (cases "hist s") (auto simp: lock_inv_def version_def split: if_splits)
  assume "even (global_lock s)"
  then have u: "unat (global_lock s) = 2 * (length (hist s) - 1)" "smem s = last (hist s)"
    using assms by (auto simp: lock_inv_def)
  show "version (global_lock s) = length (hist s) - 1" using u by (simp add: version_def)
  then show "hist s ! version (global_lock s) = smem s" using u ne by (simp add: last_conv_nth)
qed

lemma norec_invD:
  assumes "norec_inv s"
  shows "lock_inv s" "log_inv (hist s) (log s) (ro_log s)" "stack_bounds s t = (0, 0)"
    "tinv (global_lock s) (smem s) (hist s) (born s t) (txs s t) (pcs s t)"
  using assms by (simp_all add: norec_inv_def)

text \<open>A step that touches only its thread.\<close>

definition local_to :: "nat \<Rightarrow> norec_state \<Rightarrow> norec_state \<Rightarrow> bool" where
  "local_to t s s' \<longleftrightarrow> smem s' = smem s \<and> global_lock s' = global_lock s \<and> hist s' = hist s \<and>
    log s' = log s \<and> ro_log s' = ro_log s \<and> stack_bounds s' = stack_bounds s \<and>
    (\<forall>t'. t' \<noteq> t \<longrightarrow> txs s' t' = txs s t' \<and> pcs s' t' = pcs s t' \<and> born s' t' = born s t')"

lemma local_step_inv:
  assumes inv: "norec_inv s" and loc: "local_to t s s'"
    and pc: "\<not> writing (pcs s t)" "\<not> writing (pcs s' t)"
    and t: "tinv (global_lock s) (smem s) (hist s) (born s' t) (txs s' t) (pcs s' t)"
  shows "norec_inv s'"
proof -
  have w: "writing (pcs s' t') = writing (pcs s t')" for t'
    using loc pc by (cases "t' = t") (simp_all add: local_to_def)
  have "tinv (global_lock s') (smem s') (hist s') (born s' t') (txs s' t') (pcs s' t')" for t'
    using norec_invD(4) [OF inv, of t'] t loc by (cases "t' = t") (simp_all add: local_to_def)
  moreover have "lock_inv s'"
  proof (cases "even (global_lock s)")
    case True
    then show ?thesis using norec_invD(1) [OF inv] loc w by (simp add: lock_inv_def local_to_def)
  next
    case False
    then obtain u e bs where u: "pcs s u = WriteBack e bs" "apply_bytes bs (smem s) = last (hist s)"
        "\<And>t'. t' \<noteq> u \<Longrightarrow> \<not> writing (pcs s t')"
      using norec_invD(1) [OF inv] by (auto simp: lock_inv_def)
    have "u \<noteq> t" using u(1) pc(1) by auto
    then have "pcs s' u = WriteBack e bs" using u(1) loc by (simp add: local_to_def)
    then show ?thesis
      using norec_invD(1) [OF inv] loc w u False by (auto simp: lock_inv_def local_to_def)
  qed
  ultimately show ?thesis
    using norec_invD(2,3) [OF inv] loc by (simp add: norec_inv_def local_to_def)
qed

lemmas set_defs = set_tx_def set_pc_def set_ops_def fail_def Let_def

lemma fail_inv: "norec_inv s \<Longrightarrow> norec_inv (fail s)"
proof -
  have "lock_inv (fail s) = lock_inv s" by (simp add: lock_inv_def fail_def)
  then show "norec_inv s \<Longrightarrow> norec_inv (fail s)" by (simp add: norec_inv_def fail_def)
qed

lemma abort_inv:
  assumes "norec_inv s" and "\<not> writing (pcs s t)" and "pcs s t \<noteq> BeginLoop"
  shows "norec_inv (abort_tx t s)"
proof (rule local_step_inv [OF assms(1), of t])
  show "local_to t s (abort_tx t s)" by (simp add: local_to_def abort_tx_def set_defs)
  show "tinv (global_lock s) (smem s) (hist s) (born (abort_tx t s) t) (txs (abort_tx t s) t) (pcs (abort_tx t s) t)"
    using norec_invD(4) [OF assms(1), of t] assms(3)
    by (simp add: abort_tx_def set_defs tinv_def snap_inv_def tx_clear_def)
qed (use assms in \<open>simp_all add: abort_tx_def set_defs\<close>)

lemma begin_inv:
  assumes "norec_inv s" and "pcs s t = BeginLoop"
  shows "norec_inv (begin_step t s)"
proof (rule local_step_inv [OF assms(1), of t])
  show "local_to t s (begin_step t s)" by (simp add: local_to_def begin_step_def set_defs)
  show "tinv (global_lock s) (smem s) (hist s) (born (begin_step t s) t) (txs (begin_step t s) t) (pcs (begin_step t s) t)"
    using norec_invD(4) [OF assms(1), of t] assms(2) version_lock [OF norec_invD(1) [OF assms(1)]]
    by (auto simp: begin_step_def set_defs tinv_def snap_inv_def and_one_word)
qed (use assms in \<open>simp_all add: begin_step_def set_defs\<close>)


lemma read_inv:
  assumes inv: "norec_inv s" and pc: "pcs s t = p"
    and p: "case p of ReadBefore _ _ \<Rightarrow> True | ReadVal _ _ _ _ _ \<Rightarrow> True | ReadCheck _ _ _ \<Rightarrow> True | ReRead _ _ _ _ \<Rightarrow> True | _ \<Rightarrow> False"
  shows "norec_inv (read_step t p s)"
proof -
  let ?c = "global_lock s" and ?m = "smem s" and ?h = "hist s"
  note T = norec_invD(4) [OF inv, of t]
  note V = version_lock [OF norec_invD(1) [OF inv]]
  have set: "norec_inv (set_pc t p' s)"
    if "tinv ?c ?m ?h (born s t) (txs s t) p'" "\<not> writing p'" for p'
    by (rule local_step_inv [OF inv, of t])
      (use that pc p in \<open>auto simp: local_to_def set_defs split: norec_pc.splits\<close>)
  show ?thesis
  proof (cases p)
    case (ReadBefore a sz)
    have "tinv ?c ?m ?h (born s t) (txs s t) (ReadVal a sz ?c 0 0)" if "even ?c"
      using T pc that by (auto simp: tinv_def ReadBefore)
    then show ?thesis using inv set by (simp add: ReadBefore Let_def and_one_word)
  next
    case (ReadVal a sz b i v)
    have 1: "tinv ?c ?m ?h (born s t) (txs s t) (ReadVal a sz b (Suc i) (add_byte ?m a i v))" if "i < type_size sz"
    proof -
      have "i < 8" using that type_size_le [of sz] by linarith
      then show ?thesis using T pc that by (auto simp: tinv_def ReadVal load_bytes_Suc simp del: load_bytes.simps)
    qed
    have 2: "tinv ?c ?m ?h (born s t) (txs s t) (ReadBefore a sz)" using T pc by (auto simp: tinv_def ReadVal)
    have 3: "tinv ?c ?m ?h (born s t) (txs s t) (ReadCheck a sz v)" if "\<not> i < type_size sz" "?c = b"
      using T pc that by (auto simp: tinv_def ReadVal)
    show ?thesis using 1 2 3 set inv by (simp add: ReadVal fail_inv)
  next
    case (ReRead a sz i v)
    have 1: "tinv ?c ?m ?h (born s t) (txs s t) (ReRead a sz (Suc i) (add_byte ?m a i v))" if "i < type_size sz"
    proof -
      have "i < 8" using that type_size_le [of sz] by linarith
      then show ?thesis using T pc that by (auto simp: tinv_def ReRead load_bytes_Suc simp del: load_bytes.simps)
    qed
    have 3: "tinv ?c ?m ?h (born s t) (txs s t) (ReadCheck a sz v)" if "\<not> i < type_size sz"
      using T pc that by (auto simp: tinv_def ReRead)
    show ?thesis using 1 3 set inv abort_inv [OF inv, of t] pc by (simp add: ReRead fail_inv)
  next
    case (ReadCheck a sz v)
    have 1: "tinv ?c ?m ?h (born s t) (txs s t) (ValTime (KRead a sz))" using T pc by (auto simp: tinv_def ReadCheck)
    show ?thesis
    proof (cases "snapshot (txs s t) = ?c")
      case False
      then show ?thesis using 1 set by (simp add: ReadCheck Let_def)
    next
      case True
      then have e: "even ?c" and v: "v = load_bytes ?m a (type_size sz)"
        using T pc by (auto simp: tinv_def snap_inv_def ReadCheck)
      show ?thesis
      proof (rule local_step_inv [OF inv, of t])
        show "local_to t s (read_step t p s)" using True by (simp add: local_to_def ReadCheck set_defs)
        show "tinv ?c ?m ?h (born (read_step t p s) t) (txs (read_step t p s) t) (pcs (read_step t p s) t)"
          using True T pc V(2) [OF e] v
          by (auto simp: ReadCheck set_defs tinv_def snap_inv_def iseq_def any_u8_def read_value_eq)
      qed (use True pc in \<open>simp_all add: ReadCheck set_defs\<close>)
    qed
  qed (use p in simp_all)
qed

lemma validated_inv:
  assumes inv: "norec_inv s" and pc: "\<not> writing (pcs s t)" "pcs s t \<noteq> BeginLoop"
    and time: "even time" "time \<le> global_lock s" "snapshot (txs s t) \<le> time"
      "matches (read_set (txs s t)) (hist s ! version time)"
  shows "norec_inv (validated t k time s)"
proof (rule local_step_inv [OF inv, of t])
  show "local_to t s (validated t k time s)" by (simp add: local_to_def validated_def set_defs)
  have "version (snapshot (txs s t)) \<le> version time"
    using time(3) by (simp add: version_def word_le_nat_alt div_le_mono)
  then show "tinv (global_lock s) (smem s) (hist s) (born (validated t k time s) t) (txs (validated t k time s) t)
      (pcs (validated t k time s) t)"
    using norec_invD(4) [OF inv, of t] pc time
    by (auto simp: validated_def set_defs tinv_def snap_inv_def split: norec_k.splits)
qed (use assms in \<open>auto simp: validated_def set_defs split: norec_k.splits\<close>)

lemma validate_inv:
  assumes inv: "norec_inv s" and pc: "pcs s t = p"
    and p: "case p of ValTime _ \<Rightarrow> True | ValRead _ _ _ _ _ \<Rightarrow> True | _ \<Rightarrow> False"
  shows "norec_inv (validate_step t p s)"
proof -
  let ?c = "global_lock s" and ?m = "smem s" and ?h = "hist s"
  note T = norec_invD(4) [OF inv, of t]
  note V = version_lock [OF norec_invD(1) [OF inv]]
  have nw: "\<not> writing (pcs s t)" "pcs s t \<noteq> BeginLoop" using pc p by (auto split: norec_pc.splits)
  then have snap: "snapshot (txs s t) \<le> ?c" using T by (simp add: tinv_def snap_inv_def)
  have set: "norec_inv (set_pc t p' s)"
    if "tinv ?c ?m ?h (born s t) (txs s t) p'" "\<not> writing p'" for p'
    by (rule local_step_inv [OF inv, of t])
      (use that nw in \<open>auto simp: local_to_def set_defs\<close>)
  show ?thesis
  proof (cases p)
    case (ValTime k)
    have "tinv ?c ?m ?h (born s t) (txs s t) (ValRead k ?c (read_set (txs s t)) 0 0)" if "even ?c"
      using T pc that snap by (auto simp: tinv_def ValTime)
    moreover have "norec_inv (validated t k ?c s)" if "even ?c" "read_set (txs s t) = []"
      using that snap by (intro validated_inv [OF inv nw]) simp_all
    ultimately show ?thesis using inv set by (simp add: ValTime Let_def and_one_word)
  next
    case (ValRead k time rs i v)
    show ?thesis
    proof (cases rs)
      case Nil
      have "norec_inv (validated t k time s)" if "time = ?c"
        using T pc that V(2) by (intro validated_inv [OF inv nw]) (auto simp: tinv_def ValRead Nil)
      moreover have "tinv ?c ?m ?h (born s t) (txs s t) (ValTime k)" using T pc by (auto simp: tinv_def ValRead)
      ultimately show ?thesis using set by (simp add: ValRead Nil)
    next
      case (Cons r rs')
      have 1: "tinv ?c ?m ?h (born s t) (txs s t) (ValRead k time (r # rs') (Suc i) (add_byte ?m (r_addr r) i v))"
        if "i < type_size (r_type r)"
      proof -
        have "i < 8" using that type_size_le [of "r_type r"] by linarith
        then show ?thesis
          using T pc that by (auto simp: tinv_def ValRead Cons load_bytes_Suc simp del: load_bytes.simps)
      qed
      have 2: "tinv ?c ?m ?h (born s t) (txs s t) (ValRead k time rs' 0 0)"
        if ge: "\<not> i < type_size (r_type r)" and eq: "iseq v (observed_val r)"
      proof -
        obtain ds where d: "read_set (txs s t) = ds @ r # rs'" "?c = time \<longrightarrow> matches ds ?m"
          using T pc by (auto simp: tinv_def ValRead Cons)
        have "?c = time \<longrightarrow> matches (ds @ [r]) ?m"
          using d(2) T pc ge eq by (auto simp: tinv_def ValRead Cons read_value_eq)
        moreover have "read_set (txs s t) = (ds @ [r]) @ rs'" using d(1) by simp
        ultimately have "\<exists>ds. read_set (txs s t) = ds @ rs' \<and> (?c = time \<longrightarrow> matches ds ?m)" by blast
        then show ?thesis using T pc by (auto simp: tinv_def ValRead)
      qed
      show ?thesis using 1 2 set abort_inv [OF inv nw] by (simp add: ValRead Cons)
    qed
  qed (use p in simp_all)
qed


lemma odd_Suc_even: "even (c :: u64) \<Longrightarrow> odd (c + 1)"
  by simp

lemma unat_Suc_u64: "unat (c :: u64) + k < 2 ^ 64 \<Longrightarrow> unat (c + of_nat k) = unat c + k"
  by (simp add: unat_word_ariths unat_of_nat take_bit_nat_eq_self)

lemma cas_inv:
  assumes inv: "norec_inv s" and pc: "pcs s t = CommitCas" and b: "length (hist s) \<le> 2 ^ 62"
  shows "norec_inv (commit_step t CommitCas s)"
proof (cases "global_lock s = snapshot (txs s t)")
  case False
  then show ?thesis
    using norec_invD(4) [OF inv, of t] pc
    by (intro local_step_inv [OF inv, of t]) (auto simp: local_to_def set_defs tinv_def)
next
  case True
  define s' where "s' = commit_step t CommitCas s"
  let ?tx = "txs s t"
  let ?c = "global_lock s" and ?h = "hist s" and ?m' = "apply_ws (write_set ?tx) (smem s)"
  note T = norec_invD(4) [OF inv, of t] and L = norec_invD(1) [OF inv]
  note V = version_lock [OF L]
  have e: "even ?c" using T pc True by (auto simp: tinv_def snap_inv_def)
  have n: "unat ?c = 2 * (length ?h - 1)" "smem s = last ?h" "\<And>t. \<not> writing (pcs s t)" "?h \<noteq> []"
    using L e by (auto simp: lock_inv_def)
  have u: "unat (?c + 1) = unat ?c + 1" using unat_Suc_u64 [of ?c 1] n(1) b by simp
  have m: "matches (read_set ?tx) (smem s)"
    using T pc V(2) [OF e] True by (auto simp: tinv_def snap_inv_def)
  have s: "smem s' = smem s" "global_lock s' = ?c + 1" "hist s' = ?h @ [?m']"
      "log s' = log s @ [\<lparr>c_reads = read_set ?tx, c_writes = write_set ?tx, c_ops = ops s t\<rparr>]"
      "ro_log s' = ro_log s" "stack_bounds s' = stack_bounds s" "txs s' = txs s" "born s' = born s"
      "pcs s' = (pcs s)(t := WriteBack ?c (ws_bytes (write_set ?tx)))"
    using True by (simp_all add: s'_def set_defs)
  have "2 * length ?h = 2 * (length ?h - 1) + 2" using n(4) by (cases ?h) auto
  then have "lock_inv s'"
    using e n u by (auto simp: lock_inv_def s apply_ws_bytes)
  moreover have "log_inv (hist s') (log s') (ro_log s')"
    using norec_invD(2) [OF inv] m n(2,4)
    by (auto simp: log_inv_def s nth_append last_conv_nth less_Suc_eq)
  moreover have "tinv (global_lock s') (smem s') (hist s') (born s' t') (txs s' t') (pcs s' t')" for t'
  proof -
    have "?c \<le> ?c + 1" using u by (simp add: word_le_nat_alt)
    moreover have "?c + 1 \<noteq> ?c" by simp
    ultimately have E: "tinv (?c + 1) (smem s) (?h @ [?m']) (born s t') (txs s t') (pcs s t')"
      using tinv_env [OF norec_invD(4) [OF inv, of t'], of "?c + 1" "smem s"] V(1) n(3) by blast
    then show ?thesis using True pc by (cases "t' = t") (auto simp: s tinv_def)
  qed
  ultimately have "norec_inv s'" using norec_invD(3) [OF inv] by (simp add: norec_inv_def s(6))
  then show ?thesis by (simp only: s'_def)
qed

lemma held:
  assumes "lock_inv s" and "pcs s t = WriteBack e bs"
  shows "odd (global_lock s)" "unat (global_lock s) + 1 = 2 * (length (hist s) - 1)"
    "apply_bytes bs (smem s) = last (hist s)" "\<And>t'. t' \<noteq> t \<Longrightarrow> \<not> writing (pcs s t')"
proof -
  have w: "writing (pcs s t)" using assms(2) by simp
  then show o: "odd (global_lock s)" using assms(1) by (auto simp: lock_inv_def split: if_splits)
  then obtain u e' bs' where u: "pcs s u = WriteBack e' bs'" "apply_bytes bs' (smem s) = last (hist s)"
      "\<And>t'. t' \<noteq> u \<Longrightarrow> \<not> writing (pcs s t')" "unat (global_lock s) + 1 = 2 * (length (hist s) - 1)"
    using assms(1) by (auto simp: lock_inv_def)
  have "u = t" using u(3) [of t] w by blast
  with u assms(2) show "unat (global_lock s) + 1 = 2 * (length (hist s) - 1)"
    "apply_bytes bs (smem s) = last (hist s)" "\<And>t'. t' \<noteq> t \<Longrightarrow> \<not> writing (pcs s t')" by auto
qed

lemma writeback_inv:
  assumes inv: "norec_inv s" and pc: "pcs s t = WriteBack e ((a, b) # bs)"
  shows "norec_inv (commit_step t (WriteBack e ((a, b) # bs)) s)"
proof -
  define s' where "s' = commit_step t (WriteBack e ((a, b) # bs)) s"
  note H = held [OF norec_invD(1) [OF inv] pc] and V = version_lock [OF norec_invD(1) [OF inv]]
  have s: "smem s' = (smem s)(a := b)" "global_lock s' = global_lock s" "hist s' = hist s" "log s' = log s"
      "ro_log s' = ro_log s" "stack_bounds s' = stack_bounds s" "txs s' = txs s" "born s' = born s"
      "pcs s' = (pcs s)(t := WriteBack e bs)"
    by (simp_all add: s'_def set_defs)
  have "lock_inv s'" using H norec_invD(1) [OF inv] by (auto simp: lock_inv_def s)
  moreover have "tinv (global_lock s') (smem s') (hist s') (born s' t') (txs s' t') (pcs s' t')" for t'
  proof (cases "t' = t")
    case True
    then show ?thesis using norec_invD(4) [OF inv, of t] pc unfolding s tinv_def by auto
  next
    case False
    then show ?thesis
      using tinv_env [OF norec_invD(4) [OF inv, of t'], of "global_lock s" "(smem s)(a := b)" "[]"] H V(1)
      by (simp add: s)
  qed
  ultimately have "norec_inv s'" using norec_invD(2,3) [OF inv] by (simp add: norec_inv_def s)
  then show ?thesis by (simp only: s'_def)
qed

lemma release_inv:
  assumes inv: "norec_inv s" and pc: "pcs s t = WriteBack e []" and b: "length (hist s) \<le> 2 ^ 62"
  shows "norec_inv (commit_step t (WriteBack e []) s)"
proof -
  define s' where "s' = commit_step t (WriteBack e []) s"
  let ?c = "global_lock s"
  note H = held [OF norec_invD(1) [OF inv] pc] and V = version_lock [OF norec_invD(1) [OF inv]]
  have ec: "e + 2 = ?c + 1" using norec_invD(4) [OF inv, of t] pc by (simp add: tinv_def)
  have s: "smem s' = smem s" "global_lock s' = ?c + 1" "hist s' = hist s" "log s' = log s"
      "ro_log s' = ro_log s" "stack_bounds s' = stack_bounds s" "txs s' = (txs s)(t := tx_reset (txs s t))"
      "born s' = born s" "pcs s' = (pcs s)(t := Idle)"
    by (simp_all add: s'_def set_defs ec)
  have u: "unat (?c + 1) = unat ?c + 1" using unat_Suc_u64 [of ?c 1] H(2) b by simp
  have ne: "hist s \<noteq> []" using norec_invD(1) [OF inv] by (simp add: lock_inv_def)
  have "lock_inv s'" using H u ne by (auto simp: lock_inv_def s)
  moreover have "tinv (global_lock s') (smem s') (hist s') (born s' t') (txs s' t') (pcs s' t')" for t'
  proof (cases "t' = t")
    case True
    then show ?thesis by (simp add: s tinv_def snap_inv_def tx_reset_def tx_clear_def)
  next
    case False
    have "?c \<le> ?c + 1" using u by (simp add: word_le_nat_alt)
    moreover have "?c + 1 \<noteq> ?c" by simp
    ultimately show ?thesis
      using tinv_env [OF norec_invD(4) [OF inv, of t'], of "?c + 1" "smem s" "[]"] H(4) V(1) False
      by (simp add: s)
  qed
  ultimately have "norec_inv s'" using norec_invD(2,3) [OF inv] by (simp add: norec_inv_def s)
  then show ?thesis by (simp only: s'_def)
qed


lemma run_inv:
  assumes "norec_inv s" and "length (hist s) \<le> 2 ^ 62"
  shows "norec_inv (norec_run t s)"
proof (cases "pcs s t")
  case (WriteBack e bs)
  then show ?thesis
    using writeback_inv [OF assms(1), of t e] release_inv [OF assms(1) _ assms(2), of t e]
    by (cases bs) (auto simp: norec_run_def simp del: commit_step.simps)
qed (use assms in \<open>simp_all add: norec_run_def begin_inv read_inv validate_inv cas_inv
  del: commit_step.simps read_step.simps validate_step.simps\<close>)

lemma idle_step_inv:
  assumes "norec_inv s" and "pcs s t = Idle" and "local_to t s s'" and "\<not> writing (pcs s' t)"
    and "tinv (global_lock s) (smem s) (hist s) (born s' t) (txs s' t) (pcs s' t)"
  shows "norec_inv s'"
  using local_step_inv [OF assms(1,3) _ assms(4,5)] assms(2) by simp

lemma set_ops_inv: "norec_inv s \<Longrightarrow> norec_inv (set_ops t p s)"
proof -
  have "lock_inv (set_ops t p s) = lock_inv s" by (simp add: lock_inv_def set_ops_def)
  then show "norec_inv s \<Longrightarrow> norec_inv (set_ops t p s)" by (simp add: norec_inv_def set_ops_def)
qed

lemma call_inv:
  assumes inv: "norec_inv s" and pc: "pcs s t = Idle"
  shows "norec_inv (do_call t c s)"
proof (cases c)
  case CBegin
  then show ?thesis
    using norec_invD(4) [OF inv, of t] pc
    by (intro idle_step_inv [OF inv pc]) (auto simp: local_to_def set_defs tinv_def)
next
  case (CRead a sz)
  have "norec_inv (set_pc t (ReadBefore a sz) s)"
    using norec_invD(4) [OF inv, of t] pc
    by (intro idle_step_inv [OF inv pc]) (auto simp: local_to_def set_defs tinv_def)
  then show ?thesis
    using CRead inv by (simp add: read_call_def fail_inv set_ops_inv split: ws_result.split)
next
  case (CWrite a val sz)
  let ?tx = "txs s t"
  have "norec_inv (set_tx t (?tx\<lparr>read_only := False, write_set := ws\<rparr>) s)" for ws
    using norec_invD(4) [OF inv, of t] pc
    by (intro idle_step_inv [OF inv pc]) (auto simp: local_to_def set_defs tinv_def snap_inv_def)
  moreover have "\<not> isOnCurrentThreadStack (stack_bounds s t) a"
    using norec_invD(3) [OF inv] by (simp add: isOnCurrentThreadStack_def)
  ultimately show ?thesis
    using CWrite inv by (simp add: write_word_norec_def Let_def fail_inv set_ops_inv split: option.split)
next
  case CCommit
  let ?tx = "txs s t" and ?k = "unat (snapshot (txs s t)) div 2"
  have T: "snap_inv (global_lock s) (hist s) (born s t) ?tx" "read_only ?tx \<longrightarrow> write_set ?tx = []"
    using norec_invD(4) [OF inv, of t] pc by (auto simp: tinv_def)
  define r where "r = (born s t, ?k, \<lparr>c_reads = read_set ?tx, c_writes = write_set ?tx, c_ops = ops s t\<rparr>)"
  have "norec_inv (s\<lparr>ro_log := ro_log s @ [r]\<rparr>)" if a: "active ?tx" "read_only ?tx"
  proof -
    have "?k \<le> version (global_lock s)"
      using T(1) by (simp add: snap_inv_def version_def word_le_nat_alt div_le_mono)
    then have "?k < length (hist s)" using version_lock(1) [OF norec_invD(1) [OF inv]] by simp
    then have "log_inv (hist s) (log s) (ro_log s @ [r])"
      using norec_invD(2) [OF inv] T a by (auto simp: log_inv_def r_def snap_inv_def version_def)
    moreover have "lock_inv (s\<lparr>ro_log := ro_log s @ [r]\<rparr>) = lock_inv s" by (simp add: lock_inv_def)
    ultimately show ?thesis using inv by (simp add: norec_inv_def)
  qed
  moreover have "norec_inv (set_tx t (tx_reset (txs u t)) u)" if "norec_inv u" "pcs u t = Idle" for u
    by (rule idle_step_inv [OF that])
      (use that in \<open>auto simp: local_to_def set_defs tinv_def snap_inv_def tx_reset_def tx_clear_def\<close>)
  ultimately have "norec_inv (set_tx t (tx_reset ?tx) (s\<lparr>ro_log := ro_log s @ [r]\<rparr>))"
    if "active ?tx" "read_only ?tx"
    using that pc by force
  moreover have "norec_inv (set_pc t CommitCas s)"
    using norec_invD(4) [OF inv, of t] pc
    by (intro idle_step_inv [OF inv pc]) (auto simp: local_to_def set_defs tinv_def)
  ultimately show ?thesis
    using CCommit inv by (simp add: commit_call_def Let_def fail_inv set_ops_inv r_def)
qed

lemma init_thread_inv:
  assumes inv: "norec_inv s" and pc: "pcs s t = Idle"
  shows "norec_inv (init_thread t s)"
  using pc by (intro idle_step_inv [OF inv pc])
    (auto simp: init_thread_def local_to_def set_defs tinv_def snap_inv_def tx_reset_def tx_clear_def)

lemma hist_grows:
  assumes "norec_step L s ev = Some s'"
  shows "\<exists>ext. hist s' = hist s @ ext"
proof -
  have "\<exists>ext. hist (norec_run t s) = hist s @ ext" for t
  proof (cases "pcs s t")
    case (ValRead k time rs i v)
    then show ?thesis by (cases rs) (auto simp: norec_run_def validated_def abort_tx_def set_defs)
  next
    case (WriteBack e bs)
    then show ?thesis by (cases bs) (auto simp: norec_run_def set_defs)
  qed (auto simp: norec_run_def begin_step_def abort_tx_def validated_def set_defs)
  moreover have "hist (do_call t c s) = hist s" for t c
    by (cases c) (auto simp: read_call_def write_word_norec_def commit_call_def set_defs
        split: ws_result.split option.split)
  ultimately show ?thesis
    using assms by (cases ev) (auto simp: init_thread_def set_defs split: if_splits)
qed

lemma norec_reach_inv:
  assumes "norec_reach L m s" and "length (hist s) \<le> 2 ^ 62"
  shows "norec_inv s"
  using assms
proof (induction rule: norec_reach.induct)
  case reach_init
  show ?case
    by (simp add: norec_inv_def norec_init_def lock_inv_def log_inv_def tinv_def snap_inv_def fresh_tx_def)
next
  case (reach_step s ev s')
  have "length (hist s) \<le> length (hist s')" using hist_grows [OF reach_step.hyps(2)] by auto
  then have inv: "norec_inv s" and b: "length (hist s) \<le> 2 ^ 62"
    using reach_step.IH reach_step.prems by auto
  show ?case
    using reach_step.hyps(2) run_inv [OF inv b] call_inv [OF inv] init_thread_inv [OF inv]
    by (cases ev) (auto split: if_splits)
qed

section \<open>Operations of a transaction\<close>

definition logged :: "ReadLogEntry list \<Rightarrow> (addr \<times> ValueType \<times> u64) list" where
  "logged rs = map (\<lambda>r. (r_addr r, r_type r, observed_val r)) rs"

lemma logged_simps [simp]:
  "logged [] = []" "logged (rs @ rs') = logged rs @ logged rs'"
  "logged [r] = [(r_addr r, r_type r, observed_val r)]"
  by (simp_all add: logged_def)

lemma matches_agrees: "matches rs m \<longleftrightarrow> agrees (logged rs) m"
  by (auto simp: matches_def agrees_def logged_def iseq_def any_u8_def)

text \<open>The read in progress.\<close>

fun pending_k :: "norec_k \<Rightarrow> (addr \<times> ValueType) option" where
  "pending_k (KRead a sz) = Some (a, sz)"
| "pending_k KCommit = None"

fun pending :: "norec_pc \<Rightarrow> (addr \<times> ValueType) option" where
  "pending (ReadBefore a sz) = Some (a, sz)"
| "pending (ReadVal a sz b i v) = Some (a, sz)"
| "pending (ReadCheck a sz v) = Some (a, sz)"
| "pending (ReRead a sz i v) = Some (a, sz)"
| "pending (ValTime k) = pending_k k"
| "pending (ValRead k time rs i v) = pending_k k"
| "pending _ = None"

definition ops_inv :: "(addr \<Rightarrow> ValueType \<Rightarrow> bool) \<Rightarrow> Transaction \<Rightarrow> norec_pc \<Rightarrow> op list \<Rightarrow> bool" where
  "ops_inv L tx pc ps \<longleftrightarrow> ws_ok L (write_set tx) \<and> explains (logged (read_set tx)) (apply_ws (write_set tx)) ps \<and>
    (\<forall>a sz. pending pc = Some (a, sz) \<longrightarrow> L a sz \<and> ws_lookup (write_set tx) a sz = Miss)"

definition explained :: "commit_record \<Rightarrow> bool" where
  "explained c \<longleftrightarrow> explains (logged (c_reads c)) (apply_ws (c_writes c)) (c_ops c)"

definition all_explained :: "(addr \<Rightarrow> ValueType \<Rightarrow> bool) \<Rightarrow> norec_state \<Rightarrow> bool" where
  "all_explained L s \<longleftrightarrow> (\<forall>t. ops_inv L (txs s t) (pcs s t) (ops s t)) \<and> (\<forall>t. stack_bounds s t = (0, 0)) \<and>
    (\<forall>c \<in> set (log s). explained c) \<and> (\<forall>(b, k, c) \<in> set (ro_log s). explained c)"

lemma all_explainedD:
  assumes "all_explained L s"
  shows "ops_inv L (txs s t) (pcs s t) (ops s t)" and "stack_bounds s t = (0, 0)"
    and "c \<in> set (log s) \<Longrightarrow> explained c" and "(b, k, c) \<in> set (ro_log s) \<Longrightarrow> explained c"
  using assms by (auto simp: all_explained_def)

lemma explained_step:
  assumes inv: "all_explained L s"
    and oth: "\<And>t'. t' \<noteq> t \<Longrightarrow> txs s' t' = txs s t' \<and> pcs s' t' = pcs s t' \<and> ops s' t' = ops s t'"
    and "ops_inv L (txs s' t) (pcs s' t) (ops s' t)" and "stack_bounds s' = stack_bounds s"
    and "set (log s') \<subseteq> set (log s) \<union> Collect explained"
    and "set (ro_log s') \<subseteq> set (ro_log s) \<union> {(b, k, c). explained c}"
  shows "all_explained L s'"
proof -
  have "ops_inv L (txs s' t') (pcs s' t') (ops s' t')" for t'
    using assms(3) oth [of t'] all_explainedD(1) [OF inv, of t'] by (cases "t' = t") simp_all
  moreover have "\<forall>c \<in> set (log s'). explained c" using assms(5) all_explainedD(3) [OF inv] by blast
  moreover have "\<forall>(b, k, c) \<in> set (ro_log s'). explained c"
    using assms(6) all_explainedD(4) [OF inv] by blast
  ultimately show ?thesis using all_explainedD(2) [OF inv] assms(4) by (simp add: all_explained_def)
qed

lemma ops_inv_empty: "read_set tx = [] \<Longrightarrow> write_set tx = [] \<Longrightarrow> pending pc = None \<Longrightarrow> ops_inv L tx pc []"
  by (simp add: ops_inv_def ws_ok_def explains_def)

lemma abort_explained:
  assumes "all_explained L s" shows "all_explained L (abort_tx t s)"
  by (rule explained_step [OF assms, of t])
    (auto simp: abort_tx_def set_defs tx_clear_def intro: ops_inv_empty)

lemma fail_explained: "all_explained L s \<Longrightarrow> all_explained L (fail s)"
  by (simp add: all_explained_def fail_def)

lemma set_pc_explained:
  assumes "all_explained L s" and "pending pc = pending (pcs s t) \<or> pending pc = None"
  shows "all_explained L (set_pc t pc s)"
  by (rule explained_step [OF assms(1), of t])
    (use assms all_explainedD(1) [OF assms(1), of t] in \<open>auto simp: set_defs ops_inv_def\<close>)

lemma validated_explained:
  assumes "all_explained L s" and "pending_k k = pending (pcs s t)"
  shows "all_explained L (validated t k time s)"
  by (rule explained_step [OF assms(1), of t])
    (use assms all_explainedD(1) [OF assms(1), of t] in
      \<open>auto simp: set_defs ops_inv_def validated_def split: norec_k.splits\<close>)

lemma run_explained:
  assumes lay: "layout_ok L" and inv: "all_explained L s"
  shows "all_explained L (norec_run t s)"
proof (cases "pcs s t")
  case Idle
  then show ?thesis using inv by (simp add: norec_run_def)
next
  case BeginLoop
  have "all_explained L (begin_step t s)"
    by (rule explained_step [OF inv, of t])
      (use BeginLoop all_explainedD(1) [OF inv, of t] in
        \<open>auto simp: begin_step_def set_defs ops_inv_def ws_ok_def explains_def\<close>)
  then show ?thesis using BeginLoop by (simp add: norec_run_def)
next
  case (ReadBefore a sz)
  then show ?thesis using inv by (simp add: norec_run_def Let_def set_pc_explained)
next
  case (ReadVal a sz b i v)
  then show ?thesis using inv by (simp add: norec_run_def Let_def set_pc_explained fail_explained)
next
  case (ReRead a sz i v)
  then show ?thesis using inv by (simp add: norec_run_def Let_def set_pc_explained fail_explained abort_explained)
next
  case (ReadCheck a sz v)
  note I = all_explainedD(1) [OF inv, of t]
  have "explains (logged (read_set (txs s t)) @ [(a, sz, v)]) (apply_ws (write_set (txs s t)))
      (ops s t @ [Rd a sz (return_any_type sz v)])"
    using I ReadCheck by (intro norec_ws.explains_miss [OF lay]) (auto simp: ops_inv_def)
  then have "all_explained L (read_step t (ReadCheck a sz v) s)" if "snapshot (txs s t) = global_lock s"
    by (intro explained_step [OF inv, of t]) (use that I in \<open>auto simp: set_defs ops_inv_def\<close>)
  moreover have "all_explained L (set_pc t (ValTime (KRead a sz)) s)"
    using ReadCheck by (intro set_pc_explained [OF inv]) simp
  ultimately show ?thesis
    using ReadCheck by (auto simp: norec_run_def Let_def)
next
  case (ValTime k)
  then show ?thesis using inv by (simp add: norec_run_def Let_def set_pc_explained validated_explained)
next
  case (ValRead k time rs i v)
  then show ?thesis
    using inv by (cases rs) (simp_all add: norec_run_def set_pc_explained validated_explained abort_explained)
next
  case CommitCas
  note I = all_explainedD(1) [OF inv, of t]
  have "all_explained L (commit_step t CommitCas s)"
    by (rule explained_step [OF inv, of t])
      (use I CommitCas in \<open>auto simp: set_defs ops_inv_def explained_def\<close>)
  then show ?thesis using CommitCas by (simp add: norec_run_def)
next
  case (WriteBack e bs)
  note I = all_explainedD(1) [OF inv, of t]
  have "all_explained L (commit_step t (WriteBack e bs) s)"
  proof (cases bs)
    case Nil
    show ?thesis
      by (rule explained_step [OF inv, of t])
        (auto simp: Nil set_defs tx_reset_def tx_clear_def intro: ops_inv_empty)
  next
    case (Cons ab bs')
    then obtain a b where "bs = (a, b) # bs'" by (cases ab) auto
    then show ?thesis
      using I WriteBack by (intro explained_step [OF inv, of t]) (auto simp: set_defs ops_inv_def)
  qed
  then show ?thesis using WriteBack by (simp add: norec_run_def)
qed

lemma bad_addr_layout:
  assumes "layout_ok L" and "L a sz"
  shows "\<not> bad_read_addr a" and "\<not> bad_write_addr a"
  using layout_okD(1,2) [OF assms] by (auto simp: bad_read_addr_def bad_write_addr_def)

lemma call_explained:
  assumes lay: "layout_ok L" and inv: "all_explained L s" and pc: "pcs s t = Idle" and c: "call_ok L c"
  shows "all_explained L (do_call t c s)"
proof -
  note I = all_explainedD(1) [OF inv, of t]
  have stk: "\<not> isOnCurrentThreadStack (stack_bounds s t) a" for a
    using all_explainedD(2) [OF inv] by (simp add: isOnCurrentThreadStack_def)
  show ?thesis
  proof (cases c)
    case CBegin
    then show ?thesis using inv by (simp add: set_pc_explained)
  next
    case (CRead a sz)
    then have L: "L a sz" using c by simp
    show ?thesis
    proof (cases "ws_lookup (write_set (txs s t)) a sz")
      case (Hit v)
      have "explains (logged (read_set (txs s t))) (apply_ws (write_set (txs s t))) (ops s t @ [Rd a sz (return_any_type sz v)])"
        using I by (intro norec_ws.explains_hit [OF lay _ L Hit]) (auto simp: ops_inv_def)
      then have "all_explained L (set_ops t (ops s t @ [Rd a sz (return_any_type sz v)]) s)"
        by (intro explained_step [OF inv, of t]) (use I pc in \<open>auto simp: set_defs ops_inv_def\<close>)
      then show ?thesis using CRead Hit inv by (simp add: read_call_def fail_explained)
    next
      case Miss
      have "all_explained L (set_pc t (ReadBefore a sz) s)"
        by (rule explained_step [OF inv, of t]) (use I L Miss in \<open>auto simp: set_defs ops_inv_def\<close>)
      then show ?thesis
        using CRead Miss inv bad_addr_layout(1) [OF lay L] stk by (simp add: read_call_def fail_explained)
    next
      case AssertFail
      then show ?thesis using CRead inv by (simp add: read_call_def fail_explained)
    qed
  next
    case (CWrite a val sz)
    then have L: "L a sz" using c by simp
    have "all_explained L (set_ops t (ops s t @ [Wr a sz val]) (set_tx t ((txs s t)\<lparr>read_only := False, write_set := ws\<rparr>) s))"
      if ws: "ws_write (write_set (txs s t)) a val sz = Some ws" for ws
    proof -
      have "explains (logged (read_set (txs s t))) (apply_ws ws) (ops s t @ [Wr a sz val])"
        using I by (intro norec_ws.explains_write [OF lay _ L ws]) (auto simp: ops_inv_def)
      moreover have "ws_ok L ws" using I by (intro ws_write_log(1) [OF lay _ L ws]) (simp add: ops_inv_def)
      ultimately show ?thesis
        by (intro explained_step [OF inv, of t]) (use pc in \<open>auto simp: set_defs ops_inv_def\<close>)
    qed
    then show ?thesis
      using CWrite inv bad_addr_layout(2) [OF lay L] stk
      by (simp add: write_word_norec_def Let_def fail_explained split: option.split)
  next
    case CCommit
    have "all_explained L (set_ops t [] (set_tx t (tx_reset (txs s t))
        (s\<lparr>ro_log := ro_log s @ [(b, k, \<lparr>c_reads = read_set (txs s t), c_writes = write_set (txs s t), c_ops = ops s t\<rparr>)]\<rparr>)))" for b k
      by (rule explained_step [OF inv, of t])
        (use I pc in \<open>auto simp: set_defs explained_def tx_reset_def tx_clear_def ops_inv_def ws_ok_def explains_def\<close>)
    moreover have "all_explained L (set_pc t CommitCas s)" by (intro set_pc_explained [OF inv]) simp
    ultimately show ?thesis using CCommit inv by (simp add: commit_call_def Let_def fail_explained)
  qed
qed

lemma reach_explained:
  assumes "layout_ok L" and "norec_reach L m s"
  shows "all_explained L s"
  using assms(2)
proof (induction rule: norec_reach.induct)
  case reach_init
  show ?case
    by (auto simp: all_explained_def norec_init_def fresh_tx_def intro: ops_inv_empty)
next
  case (reach_step s ev s')
  have "all_explained L (init_thread t s)" if "pcs s t = Idle" for t
    by (rule explained_step [OF reach_step.IH, of t])
      (use that in \<open>auto simp: init_thread_def set_defs tx_reset_def tx_clear_def intro: ops_inv_empty\<close>)
  then show ?case
    using reach_step.hyps(2) run_explained [OF assms(1) reach_step.IH] call_explained [OF assms(1) reach_step.IH]
    by (cases ev) (auto split: if_splits)
qed


section \<open>Runs of the logs\<close>

lemma hist_hd:
  assumes "norec_reach L m s"
  shows "hist s \<noteq> [] \<and> hist s ! 0 = m"
  using assms
proof (induction rule: norec_reach.induct)
  case (reach_step s ev s')
  then obtain ext where "hist s' = hist s @ ext" using hist_grows by blast
  with reach_step.IH show ?case by (simp add: nth_append)
qed (simp add: norec_init_def)

lemma explains_run: "explains (logged rs) f ps \<Longrightarrow> matches rs m \<Longrightarrow> seq_run ps m = Some (f m)"
  by (simp add: explains_def matches_agrees)

lemma log_run:
  assumes "layout_ok L" "norec_reach L m s" "length (hist s) \<le> 2 ^ 62" "i < length (log s)"
  shows "seq_run (c_ops (log s ! i)) (hist s ! i) = Some (hist s ! Suc i)"
proof -
  have "explained (log s ! i)"
    using all_explainedD(3) [OF reach_explained [OF assms(1,2)]] assms(4) by simp
  moreover have "matches (c_reads (log s ! i)) (hist s ! i)" "hist s ! Suc i = apply_ws (c_writes (log s ! i)) (hist s ! i)"
    using norec_invD(2) [OF norec_reach_inv [OF assms(2,3)]] assms(4) by (auto simp: log_inv_def)
  ultimately show ?thesis by (simp add: explained_def explains_run)
qed

lemma log_run_all:
  assumes "layout_ok L" "norec_reach L m s" "length (hist s) \<le> 2 ^ 62" "n \<le> length (log s)"
  shows "seq_run (concat (map c_ops (take n (log s)))) m = Some (hist s ! n)"
  using assms(4)
proof (induction n)
  case 0
  then show ?case using hist_hd [OF assms(2)] by simp
next
  case (Suc n)
  then show ?case
    using log_run [OF assms(1-3), of n] by (simp add: take_Suc_conv_app_nth seq_run_append)
qed

section \<open>A concrete run\<close>

fun norec_exec :: "(addr \<Rightarrow> ValueType \<Rightarrow> bool) \<Rightarrow> norec_state \<Rightarrow> norec_event list \<Rightarrow> norec_state option" where
  "norec_exec L s [] = Some s"
| "norec_exec L s (ev # evs) = (case norec_step L s ev of None \<Rightarrow> None | Some s' \<Rightarrow> norec_exec L s' evs)"

lemma norec_exec_reach: "norec_reach L m s \<Longrightarrow> norec_exec L s evs = Some s' \<Longrightarrow> norec_reach L m s'"
  by (induction evs arbitrary: s) (auto split: option.splits intro: reach_step)

definition cell_layout :: "addr \<Rightarrow> ValueType \<Rightarrow> bool" where
  "cell_layout a t \<longleftrightarrow> a = 0x200000 \<and> t = UINT8"

lemma cell_layout_ok: "layout_ok cell_layout"
  by (simp add: layout_ok_def cell_layout_def)

text \<open>
  Two threads increment a one-byte cell: thread 1 reads, thread 0 reads, writes and commits, thread 1
  writes, fails its swap, finds the value changed, aborts and retries.
\<close>

definition incr_call :: "nat \<Rightarrow> norec_event list" where
  "incr_call t = [Call t CBegin, Run t, Call t (CRead 0x200000 UINT8), Run t, Run t, Run t, Run t]"

definition demo_trace :: "norec_event list" where
  "demo_trace = InitThread 0 # InitThread 1 # incr_call 1 @ incr_call 0 @
     [Call 0 (CWrite 0x200000 1 UINT8), Call 0 CCommit, Run 0, Run 0, Run 0,
      Call 1 (CWrite 0x200000 1 UINT8), Call 1 CCommit, Run 1, Run 1, Run 1, Run 1] @
     incr_call 1 @ [Call 1 (CWrite 0x200000 2 UINT8), Call 1 CCommit, Run 1, Run 1, Run 1] @
     incr_call 0 @ [Call 0 CCommit] @ incr_call 1"

definition demo_state :: norec_state where
  "demo_state = the (norec_exec cell_layout (norec_init (\<lambda>_. 0)) demo_trace)"

lemma demo_runs:
  "case norec_exec cell_layout (norec_init (\<lambda>_. 0)) demo_trace of None \<Rightarrow> False
   | Some s \<Rightarrow> \<not> failed s \<and> length (log s) = 2 \<and> length (hist s) = 3 \<and> global_lock s = 4 \<and>
       smem s 0x200000 = 2 \<and> g_tm_abort_count s = 1 \<and> length (ro_log s) = 1 \<and>
       fst (ro_log s ! 0) = 2 \<and> active (txs s 1) \<and> pcs s 1 = Idle \<and> length (ops s 1) = 1"
  by code_simp

lemma demo_state_props:
  "norec_reach cell_layout (\<lambda>_. 0) demo_state" "length (hist demo_state) \<le> 2 ^ 62" "even (global_lock demo_state)"
  "smem demo_state 0x200000 = 2" "active (txs demo_state 1)" "pcs demo_state 1 = Idle"
  "length (log demo_state) = 2" "ro_log demo_state \<noteq> []"
proof -
  obtain s where s: "norec_exec cell_layout (norec_init (\<lambda>_. 0)) demo_trace = Some s"
    using demo_runs by (auto split: option.splits)
  then have d: "demo_state = s" by (simp add: demo_state_def)
  show "norec_reach cell_layout (\<lambda>_. 0) demo_state"
    unfolding d using norec_exec_reach [OF reach_init s] .
  show "length (hist demo_state) \<le> 2 ^ 62" "even (global_lock demo_state)"
    "smem demo_state 0x200000 = 2" "active (txs demo_state 1)" "pcs demo_state 1 = Idle"
    "length (log demo_state) = 2" "ro_log demo_state \<noteq> []"
    using demo_runs s unfolding d by auto
qed

section \<open>Theorems\<close>

text \<open>
  C1. NOrec is serializable. Take any interleaving of any number of threads, at the granularity of
  single accesses to \<open>global_lock\<close> and single bytes of data. Whenever no commit is writing back
  (\<open>global_lock\<close> is even), shared memory is exactly what results from running the committed
  update transactions one after the other, in the order of their compare-and-swaps, on the
  initial memory, and in that run every read returns the value the program was given.
  (For programs that keep the layout discipline, and fewer than \<open>2^62\<close> commits.)
\<close>

theorem norec_serializable:
  assumes "layout_ok L" and "norec_reach L m s" and "length (hist s) \<le> 2 ^ 62" and "even (global_lock s)"
  shows "seq_run (concat (map c_ops (log s))) m = Some (smem s)"
proof -
  note inv = norec_reach_inv [OF assms(2,3)]
  have "smem s = last (hist s)" using norec_invD(1) [OF inv] assms(4) by (simp add: lock_inv_def)
  also have "\<dots> = hist s ! length (log s)"
    using norec_invD(2) [OF inv] hist_hd [OF assms(2)] by (simp add: log_inv_def last_conv_nth)
  finally show ?thesis using log_run_all [OF assms(1-3), of "length (log s)"] by simp
qed

theorem norec_serializable_witness:
  "seq_run (concat (map c_ops (log demo_state))) (\<lambda>_. 0) = Some (smem demo_state) \<and>
    length (log demo_state) = 2 \<and> smem demo_state 0x200000 = 2"
  using norec_serializable [OF cell_layout_ok demo_state_props(1,2,3)] demo_state_props by simp

text \<open>
  C2. NOrec is opaque. The reads and writes a live transaction has done so far, including one that is
  going to abort, are a possible sequential execution on one committed memory, the one
  after \<open>k\<close> commits; that memory is not older than the start of the transaction.
\<close>

theorem norec_opaque:
  assumes "layout_ok L" and "norec_reach L m s" and "length (hist s) \<le> 2 ^ 62"
    and "active (txs s t)" and "pcs s t \<noteq> BeginLoop"
  shows "\<exists>k. born s t \<le> k \<and> k < length (hist s) \<and>
    seq_run (ops s t) (hist s ! k) = Some (apply_ws (write_set (txs s t)) (hist s ! k))"
proof -
  note inv = norec_reach_inv [OF assms(2,3)]
  let ?k = "version (snapshot (txs s t))"
  have T: "snap_inv (global_lock s) (hist s) (born s t) (txs s t)"
    using norec_invD(4) [OF inv, of t] assms(5) by (simp add: tinv_def)
  have "?k \<le> version (global_lock s)"
    using T by (simp add: snap_inv_def version_def word_le_nat_alt div_le_mono)
  then have "?k < length (hist s)" using version_lock(1) [OF norec_invD(1) [OF inv]] by simp
  moreover have "explains (logged (read_set (txs s t))) (apply_ws (write_set (txs s t))) (ops s t)"
    using all_explainedD(1) [OF reach_explained [OF assms(1,2)], of t] by (simp add: ops_inv_def)
  ultimately show ?thesis
    using T assms(4) by (intro exI [of _ ?k]) (simp add: snap_inv_def explains_run)
qed

theorem norec_opaque_witness:
  "\<exists>k. born demo_state 1 \<le> k \<and> k < length (hist demo_state) \<and>
    seq_run (ops demo_state 1) (hist demo_state ! k) =
      Some (apply_ws (write_set (txs demo_state 1)) (hist demo_state ! k))"
  using norec_opaque [OF cell_layout_ok demo_state_props(1,2,5)] demo_state_props(6) by simp

text \<open>
  C3. A finished read-only transaction, which commits without any check, has read one committed memory
  throughout, not older than its start.
\<close>

theorem norec_read_only_commit:
  assumes "layout_ok L" and "norec_reach L m s" and "length (hist s) \<le> 2 ^ 62"
    and "(b, k, c) \<in> set (ro_log s)"
  shows "b \<le> k \<and> k < length (hist s) \<and> seq_run (c_ops c) (hist s ! k) = Some (hist s ! k)"
proof -
  have "b \<le> k" "k < length (hist s)" "matches (c_reads c) (hist s ! k)" "c_writes c = []"
    using norec_invD(2) [OF norec_reach_inv [OF assms(2,3)]] assms(4) by (auto simp: log_inv_def)
  moreover have "explained c" using all_explainedD(4) [OF reach_explained [OF assms(1,2)] assms(4)] .
  ultimately show ?thesis by (simp add: explained_def explains_run)
qed

theorem norec_read_only_commit_witness:
  "\<exists>b k c. (b, k, c) \<in> set (ro_log demo_state) \<and> b \<le> k \<and> k < length (hist demo_state) \<and>
    seq_run (c_ops c) (hist demo_state ! k) = Some (hist demo_state ! k)"
proof -
  obtain b k c where "(b, k, c) \<in> set (ro_log demo_state)"
    using demo_state_props(8) by (metis list.set_intros(1) neq_Nil_conv prod_cases3)
  with norec_read_only_commit [OF cell_layout_ok demo_state_props(1,2) this] show ?thesis by blast
qed

text \<open>
  C4. The sequence lock excludes writers: \<open>global_lock\<close> is odd exactly while a commit writes back, at
  most one thread does so, and what it still has to store completes the memory of its commit.
  This holds for every access pattern, typed or not.
\<close>

theorem norec_writer_exclusion:
  assumes "norec_reach L m s" and "length (hist s) \<le> 2 ^ 62"
  shows "(odd (global_lock s) \<longleftrightarrow> (\<exists>t. writing (pcs s t))) \<and>
    (\<forall>t u. writing (pcs s t) \<longrightarrow> writing (pcs s u) \<longrightarrow> t = u) \<and>
    (\<forall>t e bs. pcs s t = WriteBack e bs \<longrightarrow> apply_bytes bs (smem s) = last (hist s))"
proof -
  note L = norec_invD(1) [OF norec_reach_inv [OF assms]]
  have w: "\<exists>e bs. pcs s t = WriteBack e bs" if "writing (pcs s t)" for t
    using that by (cases "pcs s t") auto
  have "odd (global_lock s) \<longrightarrow> (\<exists>t. writing (pcs s t))"
    using L by (metis lock_inv_def writing.simps(1))
  moreover have "writing (pcs s t) \<longrightarrow> odd (global_lock s)" for t
    using held(1) [OF L] w by blast
  moreover have "t = u" if "writing (pcs s t)" "writing (pcs s u)" for t u
    using w [OF that(1)] held(4) [OF L, of t _ _ u] that(2) by blast
  moreover have "apply_bytes bs (smem s) = last (hist s)" if "pcs s t = WriteBack e bs" for t e bs
    using held(3) [OF L that] .
  ultimately show ?thesis by blast
qed

theorem norec_writer_exclusion_witness:
  "(\<exists>t. writing (pcs demo_state t)) = False"
  using norec_writer_exclusion [OF demo_state_props(1,2)] demo_state_props(3) by simp

end
