(* ===== verification/TM_TL2.thy ===== *)
theory TM_TL2
  imports TM_RedoLog
begin

text \<open>
  The TL2 backend (\<open>tl2/tl2.hpp\<close>): a global version clock, a table of versioned write locks
  (guards) hashed by address, commit-time locking and a write set with a one-word Bloom filter.
  This theory holds the data structures and the sequential operations; \<open>DataType\<close> has the
  constructors of \<open>ValueType\<close> (its \<open>PTR\<close> is \<open>POINTER\<close>).
\<close>

section \<open>Write-set entries\<close>

type_synonym DataType = ValueType

text \<open>\<open>dtype_size\<close>: no operation uses it, and it is not the width of \<open>FLOAT\<close> and \<open>PTR\<close>.\<close>

fun dtype_size :: "DataType \<Rightarrow> nat" where
  "dtype_size UINT8 = 1"
| "dtype_size FLOAT = 1"
| "dtype_size UINT16 = 2"
| "dtype_size UINT32 = 4"
| "dtype_size POINTER = 4"
| "dtype_size UINT64 = 8"
| "dtype_size DOUBLE = 8"

text \<open>
  The union \<open>Values\<close> is 16 bytes; its member arrays overlap, slot \<open>i\<close> of a member of width
  \<open>w\<close> being the bytes \<open>w * i\<close> to \<open>w * i + w - 1\<close>. Slot 0 is the old, slot 1 the new value.
\<close>

record WriteSetEntry =
  e_addr :: addr
  e_dtype :: DataType
  e_values :: mem

definition Values :: mem where
  "Values = (\<lambda>_. 0)"

fun member_width :: "DataType \<Rightarrow> nat" where
  "member_width UINT8 = 1"
| "member_width UINT16 = 2"
| "member_width UINT32 = 4"
| "member_width FLOAT = 4"
| "member_width UINT64 = 8"
| "member_width DOUBLE = 8"
| "member_width POINTER = 8"

definition old_value :: "WriteSetEntry \<Rightarrow> u64" where
  "old_value e = load_bytes (e_values e) 0 (member_width (e_dtype e))"

definition new_value :: "WriteSetEntry \<Rightarrow> u64" where
  "new_value e = load_bytes (e_values e) (of_nat (member_width (e_dtype e))) (member_width (e_dtype e))"

definition set_old :: "WriteSetEntry \<Rightarrow> u64 \<Rightarrow> WriteSetEntry" where
  "set_old e v = e\<lparr>e_values := store_bytes (e_values e) 0 v (member_width (e_dtype e))\<rparr>"

definition set_new :: "WriteSetEntry \<Rightarrow> u64 \<Rightarrow> WriteSetEntry" where
  "set_new e v = e\<lparr>e_values := store_bytes (e_values e) (of_nat (member_width (e_dtype e))) v (member_width (e_dtype e))\<rparr>"

text \<open>\<open>to_word\<close> and \<open>from_word<T>\<close> on the bit patterns of the typed values.\<close>

definition to_word :: "DataType \<Rightarrow> any_type_t \<Rightarrow> u64" where
  "to_word dt v = return_any_type dt v"

definition from_word :: "DataType \<Rightarrow> u64 \<Rightarrow> any_type_t" where
  "from_word dt v = return_any_type dt v"

section \<open>Guards\<close>

definition GUARD_TABLE_SIZE :: u64 where
  "GUARD_TABLE_SIZE = push_bit 13 1"

definition LOCK_MASK :: u64 where "LOCK_MASK = 1"
definition VERSION_MASK :: u64 where "VERSION_MASK = NOT LOCK_MASK"

definition get_guard_idx :: "addr \<Rightarrow> nat" where
  "get_guard_idx a = unat ((drop_bit 3 a XOR drop_bit 48 a) AND (GUARD_TABLE_SIZE - 1))"

definition guard_version :: "u64 \<Rightarrow> u64" where
  "guard_version g = drop_bit 1 (g AND VERSION_MASK)"

definition guard_locked :: "u64 \<Rightarrow> bool" where
  "guard_locked g \<longleftrightarrow> g AND LOCK_MASK \<noteq> 0"

text \<open>The lock-word updates of \<open>try_acquire_guard\<close>, \<open>release_guard\<close> and of the release with a version.\<close>

definition guard_lock :: "u64 \<Rightarrow> u64" where
  "guard_lock g = g OR LOCK_MASK"

definition guard_unlock :: "u64 \<Rightarrow> u64" where
  "guard_unlock g = g AND NOT LOCK_MASK"

definition versioned_guard :: "u64 \<Rightarrow> u64" where
  "versioned_guard version = push_bit 1 version AND VERSION_MASK"

section \<open>Transactions\<close>

record ReadSetEntry =
  guard_addr :: nat
  data_addr :: addr
  re_version :: u64
  re_dtype :: DataType
  locked_by_me :: bool

record TL2_Transaction =
  tl_active :: bool
  tl_aborted :: bool
  start_version :: u64
  commit_version :: u64
  tl_write_set :: "WriteSetEntry list"
  tl_read_set :: "ReadSetEntry list"
  bloom_filter :: u64

definition bloom_hash :: "addr \<Rightarrow> nat" where
  "bloom_hash a = unat ((a XOR drop_bit 17 a) AND 63)"

text \<open>\<open>bloom_set\<close> marks the eight bytes from the address on.\<close>

definition bloom_set :: "u64 \<Rightarrow> addr \<Rightarrow> u64" where
  "bloom_set bf a = foldl (\<lambda>bf off. bf OR push_bit (bloom_hash (a + of_nat off)) 1) bf [0..<8]"

definition bloom_might_contain :: "u64 \<Rightarrow> addr \<Rightarrow> bool" where
  "bloom_might_contain bf a \<longleftrightarrow> drop_bit (bloom_hash a) bf AND 1 \<noteq> 0"

section \<open>Writes\<close>

text \<open>\<open>write_impl\<close> on the write set and the filter: one entry per address.\<close>

fun ws_reuse :: "addr \<Rightarrow> DataType \<Rightarrow> u64 \<Rightarrow> WriteSetEntry list \<Rightarrow> WriteSetEntry list option" where
  "ws_reuse a dt v [] = None"
| "ws_reuse a dt v (e # es) =
     (if e_addr e = a then Some (set_new (e\<lparr>e_dtype := dt\<rparr>) v # es)
      else (case ws_reuse a dt v es of None \<Rightarrow> None | Some es' \<Rightarrow> Some (e # es')))"

definition write_impl :: "WriteSetEntry list \<times> u64 \<Rightarrow> addr \<Rightarrow> any_type_t \<Rightarrow> DataType \<Rightarrow> WriteSetEntry list \<times> u64" where
  "write_impl wb a val dt =
    (case ws_reuse a dt (to_word dt val) (fst wb) of
       Some ws \<Rightarrow> (ws, snd wb)
     | None \<Rightarrow>
         (fst wb @ [set_new \<lparr>e_addr = a, e_dtype = dt, e_values = Values\<rparr> (to_word dt val)],
          bloom_set (snd wb) a))"

section \<open>Reads\<close>

fun swapSize :: "DataType \<Rightarrow> nat" where
  "swapSize UINT8 = 1"
| "swapSize UINT16 = 2"
| "swapSize UINT32 = 4"
| "swapSize FLOAT = 4"
| "swapSize UINT64 = 8"
| "swapSize DOUBLE = 8"
| "swapSize POINTER = 8"

definition tl_interchange :: "WriteSetEntry \<Rightarrow> DataType \<Rightarrow> any_type_t option" where
  "tl_interchange e dt =
    (let entry_sz = swapSize (e_dtype e); req_sz = swapSize dt; v = new_value e
     in if entry_sz = req_sz \<and> entry_sz = 8 then Some (from_word dt v)
        else if entry_sz = 8 \<and> req_sz = 4 then Some (from_word dt (v AND 0xFFFFFFFF))
        else if entry_sz = 8 \<and> req_sz = 2 then Some (from_word dt (v AND 0xFFFF))
        else if entry_sz = 8 \<and> req_sz = 1 then Some (from_word dt (v AND 0xFF))
        else if entry_sz = 4 \<and> req_sz = 2 then Some (from_word dt (v AND 0xFFFF))
        else if entry_sz = 4 \<and> req_sz = 1 then Some (from_word dt (v AND 0xFF))
        else if entry_sz = 2 \<and> req_sz = 1 then Some (from_word dt (v AND 0xFF))
        else None)"

text \<open>An entry that starts before the address and spans it.\<close>

definition tl_covering :: "addr \<Rightarrow> DataType \<Rightarrow> WriteSetEntry \<Rightarrow> any_type_t option" where
  "tl_covering a dt e =
    (let entry_sz = swapSize (e_dtype e); req_sz = swapSize dt
     in if e_addr e = a \<or> entry_sz = 0 \<or> entry_sz \<le> req_sz then None
        else if e_addr e \<le> a \<and> a < e_addr e + of_nat entry_sz
        then Some (from_word dt (drop_bit (unat (a - e_addr e) * 8) (new_value e) AND BYTE_MASK req_sz))
        else None)"

fun tl_merge :: "WriteSetEntry list \<Rightarrow> addr \<Rightarrow> nat \<Rightarrow> nat \<Rightarrow> u64 \<Rightarrow> u64 option" where
  "tl_merge ws a i 0 merged = Some merged"
| "tl_merge ws a i (Suc n) merged =
     (case find (\<lambda>e. e_addr e = a + of_nat i \<and> e_dtype e = UINT8) ws of
        None \<Rightarrow> None
      | Some e \<Rightarrow> tl_merge ws a (Suc i) n (merged OR push_bit (i * 8) (new_value e AND 0xFF)))"

text \<open>The part of \<open>read_impl\<close> that looks for the transaction's own writes.\<close>

definition own_write :: "WriteSetEntry list \<Rightarrow> addr \<Rightarrow> DataType \<Rightarrow> any_type_t option" where
  "own_write ws a dt =
    (case find (\<lambda>e. e_addr e = a \<and> e_dtype e = dt) ws of
       Some e \<Rightarrow> Some (from_word dt (new_value e))
     | None \<Rightarrow>
         (case first_some (\<lambda>e. if e_addr e \<noteq> a then None else tl_interchange e dt) ws of
            Some v \<Rightarrow> Some v
          | None \<Rightarrow>
              (case first_some (tl_covering a dt) ws of
                 Some v \<Rightarrow> Some v
               | None \<Rightarrow> if swapSize dt = 8 then map_option (from_word dt) (tl_merge ws a 0 8 0) else None)))"

definition tl_lookup :: "WriteSetEntry list \<times> u64 \<Rightarrow> addr \<Rightarrow> DataType \<Rightarrow> ws_result" where
  "tl_lookup wb a dt =
    (if bloom_might_contain (snd wb) a
     then (case own_write (fst wb) a dt of None \<Rightarrow> Miss | Some v \<Rightarrow> Hit v)
     else Miss)"

section \<open>Write-back\<close>

text \<open>The sort of \<open>commit\<close> (addresses are unique) and its write-back loop.\<close>

definition sorted_ws :: "WriteSetEntry list \<Rightarrow> WriteSetEntry list" where
  "sorted_ws ws = foldr (insort_key e_addr) ws []"

definition tl_store :: "mem \<Rightarrow> WriteSetEntry \<Rightarrow> mem" where
  "tl_store m e = write_value_to_addr m (e_addr e) (new_value e) (e_dtype e)"

definition tl_apply :: "WriteSetEntry list \<Rightarrow> mem \<Rightarrow> mem" where
  "tl_apply ws m = foldl tl_store m ws"

definition tl_effect :: "WriteSetEntry list \<times> u64 \<Rightarrow> mem \<Rightarrow> mem" where
  "tl_effect wb = tl_apply (sorted_ws (fst wb))"

definition tl_bytes :: "WriteSetEntry list \<Rightarrow> (addr \<times> u8) list" where
  "tl_bytes ws = concat (map (\<lambda>e. store_list (e_addr e) (new_value e) (type_size (e_dtype e))) ws)"

section \<open>The write set of TL2 as a redo log\<close>

lemma sorted_ws_sort: "sorted_ws ws = sort_key e_addr ws"
  by (simp add: sorted_ws_def sort_key_def)

lemma member_width_eq [simp]: "member_width t = type_size t"
  by (cases t) simp_all

lemma swapSize_eq [simp]: "swapSize t = type_size t"
  by (cases t) simp_all

lemma new_value_set_new: "new_value (set_new e v) = return_any_type (e_dtype e) v"
  by (simp add: new_value_def set_new_def load_store_same return_any_eq)

lemma set_new_simps [simp]: "e_addr (set_new e v) = e_addr e" "e_dtype (set_new e v) = e_dtype e"
  by (simp_all add: set_new_def)

definition cell_of :: "WriteSetEntry \<Rightarrow> cell" where
  "cell_of e = (e_addr e, e_dtype e, new_value e)"

lemma tl_apply_cells: "tl_apply ws m = apply_cells (map cell_of ws) m"
  by (induction ws arbitrary: m) (simp_all add: tl_apply_def tl_store_def cell_of_def)

text \<open>The filter has no false negatives for the addresses of entries.\<close>

lemma bloom_hash_less: "bloom_hash a < 64"
proof -
  have "(a XOR drop_bit 17 a) AND 63 \<le> (63 :: u64)" by (rule word_and_le1)
  then show ?thesis by (simp add: bloom_hash_def word_le_nat_alt)
qed

lemma bloom_might_contain_bit: "bloom_might_contain bf a \<longleftrightarrow> bit bf (bloom_hash a)"
  by (simp add: bloom_might_contain_def and_one_eq bit_iff_odd_drop_bit mod2_eq_if)

lemma bit_or_push: "bit (bf OR 2 ^ n :: u64) k \<longleftrightarrow> bit bf k \<or> (k = n \<and> n < 64)"
  by (auto simp: bit_or_iff bit_exp_iff)

lemma bloom_set_bits: "bit (bloom_set bf a) k \<longleftrightarrow> bit bf k \<or> (\<exists>off < 8. k = bloom_hash (a + of_nat off))"
proof -
  have "bit (foldl (\<lambda>bf off. bf OR push_bit (bloom_hash (a + of_nat off)) 1) bf offs) k \<longleftrightarrow>
      bit bf k \<or> (\<exists>off \<in> set offs. k = bloom_hash (a + of_nat off))" for offs
    by (induction offs arbitrary: bf) (auto simp: bit_or_push bloom_hash_less)
  then show ?thesis by (auto simp: bloom_set_def)
qed

lemma bloom_set_contains: "bloom_might_contain (bloom_set bf a) a"
  using bloom_set_bits [of bf a "bloom_hash a"] by (auto simp: bloom_might_contain_bit intro: exI [of _ 0])

lemma bloom_set_keeps: "bloom_might_contain bf b \<Longrightarrow> bloom_might_contain (bloom_set bf a) b"
  by (simp add: bloom_might_contain_bit bloom_set_bits)

definition tl_ok :: "(addr \<Rightarrow> ValueType \<Rightarrow> bool) \<Rightarrow> WriteSetEntry list \<times> u64 \<Rightarrow> bool" where
  "tl_ok L wb \<longleftrightarrow> cells_ok L (map cell_of (fst wb)) \<and>
    (\<forall>e \<in> set (fst wb). bloom_might_contain (snd wb) (e_addr e) \<and> new_value e = return_any_type (e_dtype e) (new_value e))"

lemma tl_effect_cells:
  assumes "layout_ok L" "cells_ok L (map cell_of ws)"
  shows "tl_effect (ws, bf) m = apply_cells (map cell_of ws) m"
  unfolding tl_effect_def sorted_ws_sort tl_apply_cells fst_conv
  by (rule apply_cells_perm [OF assms(1)]) (use assms cells_ok_mset [of "map cell_of (sort_key e_addr ws)" "map cell_of ws" L] in simp_all)


lemma own_write_none:
  assumes "layout_ok L" "cells_ok L (map cell_of ws)" "L a sz" "a \<notin> e_addr ` set ws"
  shows "own_write ws a sz = None"
proof -
  have "find (\<lambda>e. e_addr e = a \<and> e_dtype e = sz) ws = None" using assms(4) by (auto simp: find_None_iff)
  moreover have "first_some (\<lambda>e. if e_addr e \<noteq> a then None else tl_interchange e sz) ws = None"
    using assms(4) by (auto simp: first_some_None)
  moreover have "first_some (tl_covering a sz) ws = None"
    unfolding first_some_None
  proof
    fix e assume e: "e \<in> set ws"
    then have "L (e_addr e) (e_dtype e)" "e_addr e \<noteq> a" using assms(2,4) by (auto simp: cells_ok_def cell_of_def)
    then have d: "disjoint_range (e_addr e) (type_size (e_dtype e)) a (type_size sz)"
      using layout_okD(3) [OF assms(1) _ assms(3)] by blast
    have "\<not> (e_addr e \<le> a \<and> a < e_addr e + of_nat (type_size (e_dtype e)))"
    proof
      assume r: "e_addr e \<le> a \<and> a < e_addr e + of_nat (type_size (e_dtype e))"
      then have "unat (a - e_addr e) < type_size (e_dtype e)"
        by (intro unat_diff_in_range) auto
      moreover have "e_addr e + of_nat (unat (a - e_addr e)) = a + of_nat 0" by simp
      moreover have "0 < type_size sz" by simp
      ultimately show False using d unfolding disjoint_range_def by blast
    qed
    then show "tl_covering a sz e = None" by (auto simp: tl_covering_def Let_def)
  qed
  moreover have "tl_merge ws a 0 8 0 = None"
  proof -
    have "find (\<lambda>e. e_addr e = a + of_nat 0 \<and> e_dtype e = UINT8) ws = None"
      using assms(4) by (auto simp: find_None_iff)
    then show ?thesis by (simp add: numeral_eq_Suc)
  qed
  ultimately show ?thesis by (simp add: own_write_def)
qed

lemma own_write_some:
  assumes "layout_ok L" "tl_ok L (ws, bf)" "L a sz" "e \<in> set ws" "e_addr e = a"
  shows "own_write ws a sz = Some (return_any_type sz (new_value e))"
proof -
  have ok: "cells_ok L (map cell_of ws)" using assms(2) by (simp add: tl_ok_def)
  have uniq: "e' = e" if "e' \<in> set ws" "e_addr e' = a" for e'
    using ok that assms(4,5) by (auto simp: cells_ok_def cell_of_def distinct_map inj_on_def)
  have Le: "L a (e_dtype e)" using ok assms(4,5) by (auto simp: cells_ok_def cell_of_def)
  show ?thesis
  proof (cases "find (\<lambda>e. e_addr e = a \<and> e_dtype e = sz) ws")
    case (Some e')
    then have "e' = e" using uniq by (auto dest: find_SomeD)
    then show ?thesis using Some by (simp add: own_write_def from_word_def)
  next
    case None
    then have "e_dtype e \<noteq> sz" using assms(4,5) by (auto simp: find_None_iff)
    then have s8: "type_size (e_dtype e) = 8" "type_size sz = 8"
      using layout_okD(4) [OF assms(1) Le assms(3)] by auto
    let ?f = "\<lambda>e. if e_addr e \<noteq> a then None else tl_interchange e sz"
    have fe: "?f e = Some (return_any_type sz (new_value e))"
      using assms(5) s8 by (simp add: tl_interchange_def from_word_def)
    then have "first_some ?f ws \<noteq> None" using assms(4) unfolding first_some_None by force
    moreover have "v = return_any_type sz (new_value e)" if fv: "first_some ?f ws = Some v" for v
    proof -
      obtain e' where "e' \<in> set ws" "?f e' = Some v" using first_some_SomeD [OF fv] by blast
      then have "e' = e" using uniq by (auto split: if_splits)
      with fe \<open>?f e' = Some v\<close> show ?thesis by (metis option.inject)
    qed
    ultimately have "first_some ?f ws = Some (return_any_type sz (new_value e))" by blast
    then show ?thesis using None by (simp add: own_write_def)
  qed
qed

lemma ws_reuse_none: "ws_reuse a dt v ws = None \<longleftrightarrow> a \<notin> e_addr ` set ws"
  by (induction ws) (auto split: option.splits)

lemma ws_reuse_some:
  "ws_reuse a dt v ws = Some ws' \<Longrightarrow>
   \<exists>xs e ys. ws = xs @ e # ys \<and> e_addr e = a \<and> ws' = xs @ set_new (e\<lparr>e_dtype := dt\<rparr>) v # ys"
proof (induction ws arbitrary: ws')
  case (Cons e es)
  show ?case
  proof (cases "e_addr e = a")
    case True
    then show ?thesis using Cons.prems by (intro exI [of _ "[]"] exI [of _ e] exI [of _ es]) simp
  next
    case False
    then obtain es' where u: "ws_reuse a dt v es = Some es'" "ws' = e # es'"
      using Cons.prems by (auto split: option.splits)
    obtain xs e' ys where "es = xs @ e' # ys" "e_addr e' = a" "es' = xs @ set_new (e'\<lparr>e_dtype := dt\<rparr>) v # ys"
      using Cons.IH [OF u(1)] by blast
    then show ?thesis using u(2) by (intro exI [of _ "e # xs"] exI [of _ e'] exI [of _ ys]) simp
  qed
qed simp

lemma write_impl_log:
  assumes lay: "layout_ok L" and ok: "tl_ok L wb" and L: "L a sz" and wb': "wb' = write_impl wb a v sz"
  shows "tl_ok L wb'" and "tl_effect wb' m = write_value_to_addr (tl_effect wb m) a v sz"
proof -
  obtain ws bf where wb: "wb = (ws, bf)" by (cases wb)
  have c: "cells_ok L (map cell_of ws)" using ok wb by (simp add: tl_ok_def)
  have "tl_ok L wb' \<and> tl_effect wb' m = write_value_to_addr (tl_effect wb m) a v sz"
  proof (cases "ws_reuse a sz (to_word sz v) ws")
    case None
    let ?e = "set_new \<lparr>e_addr = a, e_dtype = sz, e_values = Values\<rparr> (to_word sz v)"
    have w: "wb' = (ws @ [?e], bloom_set bf a)" using wb' wb None by (simp add: write_impl_def)
    have ce: "cell_of ?e = (a, sz, return_any_type sz v)"
      by (simp add: cell_of_def new_value_set_new to_word_def)
    have "a \<notin> e_addr ` set ws" using None by (simp add: ws_reuse_none)
    then have c': "cells_ok L (map cell_of (ws @ [?e]))"
      using c L ce by (auto simp: cells_ok_def cell_of_def)
    moreover have "new_value ?e = return_any_type sz (new_value ?e)"
      by (simp add: new_value_set_new to_word_def)
    ultimately have "tl_ok L wb'"
      using ok w wb by (auto simp: tl_ok_def bloom_set_contains bloom_set_keeps)
    moreover have "tl_effect wb' m = write_value_to_addr (tl_effect wb m) a v sz"
      using w wb c c' ce by (simp add: tl_effect_cells [OF lay] write_value_return)
    ultimately show ?thesis by blast
  next
    case (Some ws')
    then obtain xs e ys where s: "ws = xs @ e # ys" "e_addr e = a"
        "ws' = xs @ set_new (e\<lparr>e_dtype := sz\<rparr>) (to_word sz v) # ys"
      using ws_reuse_some by blast
    let ?e = "set_new (e\<lparr>e_dtype := sz\<rparr>) (to_word sz v)"
    have w: "wb' = (ws', bf)" using wb' wb Some by (simp add: write_impl_def)
    have ce: "cell_of ?e = (a, sz, return_any_type sz v)" "cell_of e = (a, e_dtype e, new_value e)"
      using s(2) by (simp_all add: cell_of_def new_value_set_new to_word_def)
    have c': "cells_ok L (map cell_of ws')" using c L s ce by (auto simp: cells_ok_def cell_of_def)
    moreover have "new_value ?e = return_any_type sz (new_value ?e)"
      by (simp add: new_value_set_new to_word_def)
    ultimately have "tl_ok L wb'" using ok w wb s by (auto simp: tl_ok_def)
    moreover have "tl_effect wb' m = write_value_to_addr (tl_effect wb m) a v sz"
    proof -
      have "cells_ok L (map cell_of xs @ (a, e_dtype e, new_value e) # map cell_of ys)"
        using c s ce by simp
      from apply_cells_update [OF lay this L, of "return_any_type sz v" m]
      show ?thesis
        using w wb s c c' ce by (simp add: tl_effect_cells [OF lay] write_value_return del: apply_cells_simps)
    qed
    ultimately show ?thesis by blast
  qed
  then show "tl_ok L wb'" "tl_effect wb' m = write_value_to_addr (tl_effect wb m) a v sz" by auto
qed

interpretation tl2_ws: redo_log "([], 0)" tl_lookup "\<lambda>wb a v dt. Some (write_impl wb a v dt)" tl_effect L "tl_ok L" for L
proof (unfold_locales, goal_cases)
  case (3 wb a sz v m)
  obtain ws bf where wb: "wb = (ws, bf)" by (cases wb)
  have c: "cells_ok L (map cell_of ws)" using 3 wb by (simp add: tl_ok_def)
  have o: "own_write ws a sz = Some v" using 3(4) wb by (auto simp: tl_lookup_def split: if_splits option.splits)
  then obtain e where e: "e \<in> set ws" "e_addr e = a"
    using own_write_none [OF 3(1) c 3(3)] by force
  then have "v = return_any_type sz (new_value e)" using own_write_some [OF 3(1) _ 3(3) e] 3(2) wb o by simp
  moreover have "(a, e_dtype e, new_value e) \<in> set (map cell_of ws)" using e by (auto simp: cell_of_def)
  ultimately show ?case
    using apply_cells_hit [OF 3(1) c 3(3)] wb tl_effect_cells [OF 3(1) c] by simp
next
  case (4 wb a sz m)
  obtain ws bf where wb: "wb = (ws, bf)" by (cases wb)
  have c: "cells_ok L (map cell_of ws)" using 4 wb by (simp add: tl_ok_def)
  have "a \<notin> e_addr ` set ws"
  proof
    assume "a \<in> e_addr ` set ws"
    then obtain e where e: "e \<in> set ws" "e_addr e = a" by blast
    then have "bloom_might_contain bf a" using 4(2) wb by (auto simp: tl_ok_def)
    then show False using 4(4) own_write_some [OF 4(1) _ 4(3) e] 4(2) wb by (simp add: tl_lookup_def)
  qed
  then have "a \<notin> fst ` set (map cell_of ws)" by (auto simp: cell_of_def)
  then show ?case using apply_cells_other [OF 4(1) c 4(3)] wb tl_effect_cells [OF 4(1) c] by simp
next
  case (5 wb a sz v wb')
  then show ?case using write_impl_log(1) [OF 5(1-3) refl] by auto
next
  case (6 wb a sz v wb' m)
  then show ?case using write_impl_log(2) [OF 6(1-3) refl] by auto
qed (simp_all add: tl_ok_def cells_ok_def tl_effect_def sorted_ws_def tl_apply_def)

end
