(* ===== verification/TM_VersionedLocks.thy ===== *)
theory TM_VersionedLocks
  imports TM_RedoLog
begin

text \<open>
  The protocol behind the commit-time locking backends, free of their representation: versioned
  locks found by a hash of the address, a global clock, reads that record the version of their lock,
  and a commit that locks its write set, takes a new clock value, validates its reads, writes
  back and releases the locks with the new version. The invariant and the serializability
  theorem are proved here once; a backend refines this protocol.
\<close>

section \<open>The protocol\<close>

record vread =
  vr_addr :: addr
  vr_type :: ValueType
  vr_ver :: nat
  vr_val :: u64

record 'p ventry =
  ve_ver :: nat
  ve_reads :: "(addr \<times> ValueType \<times> u64) list"
  ve_cells :: "cell list"
  ve_info :: 'p

datatype vphase =
    PBody
  | PRead addr ValueType nat nat any_type_t
  | PLock
  | PUndo
  | PVal nat
  | PWB "(addr \<times> u8) list"
  | PRel

record 'p vstate =
  vmem :: mem
  vclock :: nat
  vver :: "nat \<Rightarrow> nat"
  vowner :: "nat \<Rightarrow> nat option"
  vph :: "nat \<Rightarrow> vphase"
  vreads :: "nat \<Rightarrow> vread list"
  vcells :: "nat \<Rightarrow> cell list"
  vcv :: "nat \<Rightarrow> nat"
  vlog :: "'p ventry list"

definition read_cells :: "vread list \<Rightarrow> (addr \<times> ValueType \<times> u64) list" where
  "read_cells rs = map (\<lambda>r. (vr_addr r, vr_type r, vr_val r)) rs"

definition cell_bytes :: "cell list \<Rightarrow> (addr \<times> u8) list" where
  "cell_bytes cs = concat (map (\<lambda>(a, t, v). store_list a v (type_size t)) cs)"

text \<open>A commit enters the log at the place of its version.\<close>

definition log_insert :: "'p ventry \<Rightarrow> 'p ventry list \<Rightarrow> 'p ventry list" where
  "log_insert c l = filter (\<lambda>d. ve_ver d < ve_ver c) l @ c # filter (\<lambda>d. ve_ver c < ve_ver d) l"

inductive vstep :: "(addr \<Rightarrow> nat) \<Rightarrow> (addr \<Rightarrow> ValueType \<Rightarrow> bool) \<Rightarrow> 'p vstate \<Rightarrow> 'p vstate \<Rightarrow> bool"
  for idx :: "addr \<Rightarrow> nat" and L :: "addr \<Rightarrow> ValueType \<Rightarrow> bool" where
  v_reset: "vph s t = PBody \<Longrightarrow> vstep idx L s (s\<lparr>vreads := (vreads s)(t := [])\<rparr>)"
| v_read: "vph s t = PBody \<Longrightarrow> L a sz \<Longrightarrow>
    vstep idx L s (s\<lparr>vph := (vph s)(t := PRead a sz (vver s (idx a)) 0 0)\<rparr>)"
| v_byte: "vph s t = PRead a sz v0 i v \<Longrightarrow> i < type_size sz \<Longrightarrow>
    vstep idx L s (s\<lparr>vph := (vph s)(t := PRead a sz v0 (Suc i) (add_byte (vmem s) a i v))\<rparr>)"
| v_read_done: "vph s t = PRead a sz v0 i v \<Longrightarrow> i = type_size sz \<Longrightarrow>
    vstep idx L s (s\<lparr>vph := (vph s)(t := PBody),
      vreads := (vreads s)(t := vreads s t @ [\<lparr>vr_addr = a, vr_type = sz, vr_ver = v0, vr_val = v\<rparr>])\<rparr>)"
| v_drop: "vph s t = PRead a sz v0 i v \<Longrightarrow> vstep idx L s (s\<lparr>vph := (vph s)(t := PBody)\<rparr>)"
| v_start: "vph s t = PBody \<Longrightarrow> cells_ok L cs \<Longrightarrow>
    vstep idx L s (s\<lparr>vph := (vph s)(t := PLock), vcells := (vcells s)(t := cs)\<rparr>)"
| v_lock: "vph s t = PLock \<Longrightarrow> vowner s g = None \<Longrightarrow>
    vstep idx L s (s\<lparr>vowner := (vowner s)(g := Some t)\<rparr>)"
| v_inc: "vph s t = PLock \<Longrightarrow> \<forall>c \<in> set (vcells s t). vowner s (idx (fst c)) = Some t \<Longrightarrow>
    vstep idx L s (s\<lparr>vclock := Suc (vclock s), vcv := (vcv s)(t := Suc (vclock s)), vph := (vph s)(t := PVal 0)\<rparr>)"
| v_validate: "vph s t = PVal n \<Longrightarrow> n < length (vreads s t) \<Longrightarrow> r = vreads s t ! n \<Longrightarrow>
    vver s (idx (vr_addr r)) = vr_ver r \<Longrightarrow>
    vowner s (idx (vr_addr r)) = None \<or> vowner s (idx (vr_addr r)) = Some t \<Longrightarrow>
    vstep idx L s (s\<lparr>vph := (vph s)(t := PVal (Suc n))\<rparr>)"
| v_fail: "vph s t = PLock \<or> vph s t = PVal n \<Longrightarrow> vstep idx L s (s\<lparr>vph := (vph s)(t := PUndo)\<rparr>)"
| v_undo: "vph s t = PUndo \<Longrightarrow> vowner s g = Some t \<Longrightarrow>
    vstep idx L s (s\<lparr>vowner := (vowner s)(g := None)\<rparr>)"
| v_undone: "vph s t = PUndo \<or> vph s t = PRel \<Longrightarrow> \<forall>g. vowner s g \<noteq> Some t \<Longrightarrow>
    vstep idx L s (s\<lparr>vph := (vph s)(t := PBody), vreads := (vreads s)(t := [])\<rparr>)"
| v_commit: "vph s t = PVal n \<Longrightarrow> n = length (vreads s t) \<Longrightarrow>
    vstep idx L s (s\<lparr>vph := (vph s)(t := PWB (cell_bytes (vcells s t))),
      vlog := log_insert \<lparr>ve_ver = vcv s t, ve_reads = read_cells (vreads s t), ve_cells = vcells s t, ve_info = p\<rparr> (vlog s)\<rparr>)"
| v_write: "vph s t = PWB ((a, b) # bs) \<Longrightarrow>
    vstep idx L s (s\<lparr>vmem := (vmem s)(a := b), vph := (vph s)(t := PWB bs)\<rparr>)"
| v_written: "vph s t = PWB [] \<Longrightarrow> vstep idx L s (s\<lparr>vph := (vph s)(t := PRel)\<rparr>)"
| v_release: "vph s t = PRel \<Longrightarrow> vowner s g = Some t \<Longrightarrow>
    vstep idx L s (s\<lparr>vowner := (vowner s)(g := None), vver := (vver s)(g := vcv s t)\<rparr>)"

definition vinit :: "mem \<Rightarrow> nat \<Rightarrow> 'p vstate" where
  "vinit m c = \<lparr>vmem = m, vclock = c, vver = (\<lambda>_. 0), vowner = (\<lambda>_. None), vph = (\<lambda>_. PBody),
     vreads = (\<lambda>_. []), vcells = (\<lambda>_. []), vcv = (\<lambda>_. 0), vlog = []\<rparr>"

section \<open>Serial logs\<close>

definition final_mem :: "mem \<Rightarrow> 'p ventry list \<Rightarrow> mem" where
  "final_mem m l = foldl (\<lambda>m c. apply_cells (ve_cells c) m) m l"

fun serial :: "mem \<Rightarrow> 'p ventry list \<Rightarrow> bool" where
  "serial m [] \<longleftrightarrow> True"
| "serial m (c # cs) \<longleftrightarrow> agrees (ve_reads c) m \<and> serial (apply_cells (ve_cells c) m) cs"

lemma final_mem_simps [simp]:
  "final_mem m [] = m" "final_mem m (c # cs) = final_mem (apply_cells (ve_cells c) m) cs"
  "final_mem m (cs @ ds) = final_mem (final_mem m cs) ds"
  by (simp_all add: final_mem_def)

lemma serial_append: "serial m (cs @ ds) \<longleftrightarrow> serial m cs \<and> serial (final_mem m cs) ds"
  by (induction cs arbitrary: m) auto

lemma apply_cells_swap:
  assumes "layout_ok L" "cells_ok L cs" "cells_ok L ds" "fst ` set cs \<inter> fst ` set ds = {}"
  shows "apply_cells cs (apply_cells ds m) = apply_cells ds (apply_cells cs m)"
proof -
  have "cells_ok L (ds @ cs)" using assms(2-4) by (auto simp: cells_ok_def)
  then have "apply_cells (ds @ cs) m = apply_cells (cs @ ds) m"
    by (rule apply_cells_perm [OF assms(1)]) simp
  then show ?thesis by simp
qed

lemma agrees_apply_cells:
  assumes "layout_ok L" "cells_ok L cs" "\<forall>r \<in> set rs. L (fst r) (fst (snd r)) \<and> fst r \<notin> fst ` set cs"
  shows "agrees rs (apply_cells cs m) \<longleftrightarrow> agrees rs m"
  using assms apply_cells_other [OF assms(1,2)] by (fastforce simp: agrees_def)

text \<open>A transaction can be inserted before others that neither read nor write its cells.\<close>

definition apart :: "(addr \<Rightarrow> ValueType \<Rightarrow> bool) \<Rightarrow> cell list \<Rightarrow> 'p ventry \<Rightarrow> bool" where
  "apart L cs d \<longleftrightarrow> cells_ok L (ve_cells d) \<and> fst ` set cs \<inter> fst ` set (ve_cells d) = {} \<and>
    (\<forall>r \<in> set (ve_reads d). L (fst r) (fst (snd r)) \<and> fst r \<notin> fst ` set cs)"

lemma serial_shift:
  assumes "layout_ok L" "cells_ok L cs" "\<forall>d \<in> set l. apart L cs d" "serial m l"
  shows "serial (apply_cells cs m) l \<and> final_mem (apply_cells cs m) l = apply_cells cs (final_mem m l)"
  using assms(3,4)
proof (induction l arbitrary: m)
  case (Cons d l)
  have d: "cells_ok L (ve_cells d)" "fst ` set cs \<inter> fst ` set (ve_cells d) = {}"
      "\<forall>r \<in> set (ve_reads d). L (fst r) (fst (snd r)) \<and> fst r \<notin> fst ` set cs"
    using Cons.prems(1) by (auto simp: apart_def)
  have sw: "apply_cells (ve_cells d) (apply_cells cs m) = apply_cells cs (apply_cells (ve_cells d) m)"
    using apply_cells_swap [OF assms(1,2) d(1,2)] by simp
  have "serial (apply_cells (ve_cells d) m) l" using Cons.prems(2) by simp
  then have "serial (apply_cells cs (apply_cells (ve_cells d) m)) l \<and>
      final_mem (apply_cells cs (apply_cells (ve_cells d) m)) l = apply_cells cs (final_mem (apply_cells (ve_cells d) m) l)"
    using Cons.IH Cons.prems(1) by simp
  moreover have "agrees (ve_reads d) (apply_cells cs m)"
    using agrees_apply_cells [OF assms(1,2) d(3)] Cons.prems(2) by simp
  ultimately show ?case using sw by simp
qed simp

section \<open>Invariant\<close>

fun iswb :: "vphase \<Rightarrow> bool" where
  "iswb (PWB bs) \<longleftrightarrow> True"
| "iswb PRel \<longleftrightarrow> True"
| "iswb _ \<longleftrightarrow> False"

fun isval :: "vphase \<Rightarrow> bool" where
  "isval (PVal n) \<longleftrightarrow> True"
| "isval _ \<longleftrightarrow> False"

fun pend :: "vphase \<Rightarrow> (addr \<times> u8) list" where
  "pend (PWB bs) = bs"
| "pend _ = []"

text \<open>No committing transaction is changing the cells of a lock.\<close>

definition quiet :: "'p vstate \<Rightarrow> nat \<Rightarrow> bool" where
  "quiet s g \<longleftrightarrow> (\<forall>u. vowner s g = Some u \<longrightarrow> \<not> iswb (vph s u))"

definition inv_clock :: "'p vstate \<Rightarrow> bool" where
  "inv_clock s \<longleftrightarrow> (\<forall>g. vver s g \<le> vclock s) \<and> (\<forall>d \<in> set (vlog s). ve_ver d \<le> vclock s) \<and>
    (\<forall>t. isval (vph s t) \<or> iswb (vph s t) \<longrightarrow> vcv s t \<le> vclock s)"

definition inv_owner :: "'p vstate \<Rightarrow> bool" where
  "inv_owner s \<longleftrightarrow> (\<forall>t g. vowner s g = Some t \<longrightarrow> vph s t \<in> {PLock, PUndo} \<or> isval (vph s t) \<or> iswb (vph s t)) \<and>
    (\<forall>t g. vowner s g = Some t \<longrightarrow> isval (vph s t) \<or> iswb (vph s t) \<longrightarrow> vver s g < vcv s t)"

definition inv_unique :: "'p vstate \<Rightarrow> bool" where
  "inv_unique s \<longleftrightarrow> (\<forall>t u. t \<noteq> u \<longrightarrow> isval (vph s t) \<longrightarrow> isval (vph s u) \<or> iswb (vph s u) \<longrightarrow> vcv s t \<noteq> vcv s u) \<and>
    (\<forall>t. isval (vph s t) \<longrightarrow> (\<forall>d \<in> set (vlog s). ve_ver d \<noteq> vcv s t)) \<and>
    sorted_wrt (\<lambda>d e. ve_ver d < ve_ver e) (vlog s)"

definition inv_cells :: "(addr \<Rightarrow> ValueType \<Rightarrow> bool) \<Rightarrow> 'p vstate \<Rightarrow> bool" where
  "inv_cells L s \<longleftrightarrow> (\<forall>t. vph s t = PLock \<or> isval (vph s t) \<or> iswb (vph s t) \<longrightarrow> cells_ok L (vcells s t)) \<and>
    (\<forall>d \<in> set (vlog s). cells_ok L (ve_cells d) \<and> (\<forall>r \<in> set (ve_reads d). L (fst r) (fst (snd r))))"

fun iswriting :: "vphase \<Rightarrow> bool" where
  "iswriting (PWB bs) \<longleftrightarrow> True"
| "iswriting (PVal n) \<longleftrightarrow> True"
| "iswriting _ \<longleftrightarrow> False"

definition inv_held :: "(addr \<Rightarrow> nat) \<Rightarrow> 'p vstate \<Rightarrow> bool" where
  "inv_held idx s \<longleftrightarrow> (\<forall>t. iswriting (vph s t) \<longrightarrow> (\<forall>c \<in> set (vcells s t). vowner s (idx (fst c)) = Some t))"

definition inv_bytes :: "'p vstate \<Rightarrow> bool" where
  "inv_bytes s \<longleftrightarrow> (\<forall>t. \<forall>xb \<in> set (pend (vph s t)). \<exists>c \<in> set (vcells s t). unat (fst xb - fst c) < type_size (fst (snd c)))"

definition inv_written :: "(addr \<Rightarrow> nat) \<Rightarrow> 'p vstate \<Rightarrow> bool" where
  "inv_written idx s \<longleftrightarrow> (\<forall>d \<in> set (vlog s). \<forall>c \<in> set (ve_cells d).
    ve_ver d \<le> vver s (idx (fst c)) \<or>
    (\<exists>t. iswb (vph s t) \<and> vcv s t = ve_ver d \<and> vowner s (idx (fst c)) = Some t))"

definition read_ok :: "(addr \<Rightarrow> nat) \<Rightarrow> (addr \<Rightarrow> ValueType \<Rightarrow> bool) \<Rightarrow> 'p vstate \<Rightarrow> vread \<Rightarrow> bool" where
  "read_ok idx L s r \<longleftrightarrow> L (vr_addr r) (vr_type r) \<and> vr_ver r \<le> vver s (idx (vr_addr r)) \<and>
    (vver s (idx (vr_addr r)) = vr_ver r \<and> quiet s (idx (vr_addr r)) \<longrightarrow>
      read_value_from_addr (vmem s) (vr_addr r) (vr_type r) = vr_val r)"

definition inv_reads :: "(addr \<Rightarrow> nat) \<Rightarrow> (addr \<Rightarrow> ValueType \<Rightarrow> bool) \<Rightarrow> 'p vstate \<Rightarrow> bool" where
  "inv_reads idx L s \<longleftrightarrow> (\<forall>t. \<forall>r \<in> set (vreads s t). read_ok idx L s r \<and> (isval (vph s t) \<longrightarrow> vr_ver r < vcv s t)) \<and>
    (\<forall>t a sz v0 i v. vph s t = PRead a sz v0 i v \<longrightarrow> L a sz \<and> i \<le> type_size sz \<and> v0 \<le> vver s (idx a) \<and>
      (vver s (idx a) = v0 \<and> quiet s (idx a) \<longrightarrow> v = load_bytes (vmem s) a i))"

definition inv_mem :: "(addr \<Rightarrow> nat) \<Rightarrow> (addr \<Rightarrow> ValueType \<Rightarrow> bool) \<Rightarrow> mem \<Rightarrow> 'p vstate \<Rightarrow> bool" where
  "inv_mem idx L m0 s \<longleftrightarrow> (\<forall>a sz. L a sz \<longrightarrow>
    (quiet s (idx a) \<longrightarrow> read_value_from_addr (vmem s) a sz = read_value_from_addr (final_mem m0 (vlog s)) a sz) \<and>
    (\<forall>u. vowner s (idx a) = Some u \<longrightarrow> iswb (vph s u) \<longrightarrow>
      read_value_from_addr (apply_bytes (pend (vph s u)) (vmem s)) a sz = read_value_from_addr (final_mem m0 (vlog s)) a sz))"

definition before :: "nat \<Rightarrow> 'p ventry list \<Rightarrow> 'p ventry list" where
  "before c l = filter (\<lambda>d. ve_ver d < c) l"

definition after :: "nat \<Rightarrow> 'p ventry list \<Rightarrow> 'p ventry list" where
  "after c l = filter (\<lambda>d. c < ve_ver d) l"

text \<open>What a validating transaction knows of the reads it has checked.\<close>

definition checked :: "(addr \<Rightarrow> nat) \<Rightarrow> mem \<Rightarrow> 'p vstate \<Rightarrow> nat \<Rightarrow> vread \<Rightarrow> bool" where
  "checked idx m0 s t r \<longleftrightarrow>
    read_value_from_addr (final_mem m0 (before (vcv s t) (vlog s))) (vr_addr r) (vr_type r) = vr_val r \<and>
    (\<forall>u. u \<noteq> t \<longrightarrow> isval (vph s u) \<longrightarrow> vcv s u < vcv s t \<longrightarrow> vowner s (idx (vr_addr r)) \<noteq> Some u)"

definition inv_checked :: "(addr \<Rightarrow> nat) \<Rightarrow> mem \<Rightarrow> 'p vstate \<Rightarrow> bool" where
  "inv_checked idx m0 s \<longleftrightarrow> (\<forall>t n. vph s t = PVal n \<longrightarrow> n \<le> length (vreads s t) \<and> (\<forall>r \<in> set (take n (vreads s t)). checked idx m0 s t r)) \<and>
    (\<forall>d \<in> set (vlog s). \<forall>u. isval (vph s u) \<longrightarrow> vcv s u < ve_ver d \<longrightarrow>
      (\<forall>r \<in> set (ve_reads d). vowner s (idx (fst r)) \<noteq> Some u))"

definition vinv :: "(addr \<Rightarrow> nat) \<Rightarrow> (addr \<Rightarrow> ValueType \<Rightarrow> bool) \<Rightarrow> mem \<Rightarrow> 'p vstate \<Rightarrow> bool" where
  "vinv idx L m0 s \<longleftrightarrow> inv_clock s \<and> inv_owner s \<and> inv_unique s \<and> inv_cells L s \<and> inv_held idx s \<and> inv_bytes s \<and> inv_written idx s \<and>
    inv_reads idx L s \<and> inv_mem idx L m0 s \<and> inv_checked idx m0 s \<and> serial m0 (vlog s)"

lemma vinvD:
  assumes "vinv idx L m0 s"
  shows "inv_clock s" "inv_owner s" "inv_unique s" "inv_cells L s" "inv_held idx s" "inv_bytes s" "inv_written idx s"
    "inv_reads idx L s" "inv_mem idx L m0 s" "inv_checked idx m0 s" "serial m0 (vlog s)"
  using assms by (simp_all add: vinv_def)

lemma log_insert_set: "d \<in> set (log_insert c l) \<Longrightarrow> d = c \<or> d \<in> set l"
  by (auto simp: log_insert_def)

lemma clock_step:
  assumes st: "vstep idx L s s'" and I: "inv_clock s"
  shows "inv_clock s'"
  using st
proof cases
  case (v_inc t)
  then show ?thesis using I by (auto simp: inv_clock_def le_Suc_eq)
next
  case (v_commit t n p)
  then show ?thesis using I by (auto simp: inv_clock_def dest!: log_insert_set)
next
  case (v_release t g)
  then show ?thesis using I by (auto simp: inv_clock_def)
qed (use I in \<open>auto simp: inv_clock_def\<close>)


lemma owner_step:
  assumes st: "vstep idx L s s'" and I: "inv_clock s" "inv_owner s"
  shows "inv_owner s'"
  using st
proof cases
  case (v_inc t)
  have "vver s g < Suc (vclock s)" for g using I(1) by (simp add: inv_clock_def less_Suc_eq_le)
  then show ?thesis using I v_inc by (auto simp: inv_owner_def)
qed (use I in \<open>force simp: inv_owner_def\<close>)+

lemma unique_step:
  assumes st: "vstep idx L s s'" and I: "inv_clock s" "inv_unique s"
  shows "inv_unique s'"
  using st
proof cases
  case (v_inc t)
  have "vcv s u < Suc (vclock s)" if "isval (vph s u) \<or> iswb (vph s u)" for u
    using I(1) that by (auto simp: inv_clock_def less_Suc_eq_le)
  moreover have "ve_ver d < Suc (vclock s)" if "d \<in> set (vlog s)" for d
    using I(1) that by (auto simp: inv_clock_def less_Suc_eq_le)
  ultimately show ?thesis using I v_inc by (auto simp: inv_unique_def) fastforce+
next
  case (v_commit t n p)
  have so: "sorted_wrt (\<lambda>d e. ve_ver d < ve_ver e) (vlog s)" using I by (simp add: inv_unique_def)
  have "sorted_wrt (\<lambda>d e. ve_ver d < ve_ver e) (log_insert c (vlog s))" for c
    using so by (auto simp: log_insert_def sorted_wrt_append intro: sorted_wrt_filter)
  then show ?thesis using I v_commit by (auto simp: inv_unique_def dest!: log_insert_set)
qed (use I in \<open>auto simp: inv_unique_def\<close>)

lemma cell_bytes_in:
  assumes "xb \<in> set (cell_bytes cs)"
  shows "\<exists>c \<in> set cs. unat (fst xb - fst c) < type_size (fst (snd c))"
proof -
  obtain a sz v i where c: "(a, sz, v) \<in> set cs" "i < type_size sz" "fst xb = a + of_nat i"
    using assms by (auto simp: cell_bytes_def store_list_def)
  have "i < 8" using c(2) type_size_le [of sz] by linarith
  then have "i < 2 ^ 64" by simp
  then have "unat (fst xb - a) = i" by (simp only: c(3) unat_add_of_nat_diff)
  with c show ?thesis by (intro bexI [of _ "(a, sz, v)"]) simp_all
qed

lemma cells_step:
  assumes st: "vstep idx L s s'" and I: "inv_cells L s" "inv_reads idx L s"
  shows "inv_cells L s'"
  using st
proof cases
  case (v_commit t n p)
  have "\<forall>r \<in> set (read_cells (vreads s t)). L (fst r) (fst (snd r))"
    using I(2) by (auto simp: inv_reads_def read_ok_def read_cells_def)
  moreover have "cells_ok L (vcells s t)" using I(1) v_commit by (auto simp: inv_cells_def)
  ultimately show ?thesis
    using I v_commit unfolding inv_cells_def by (auto dest!: log_insert_set)
qed (use I in \<open>auto simp: inv_cells_def\<close>)

lemma held_step:
  assumes st: "vstep idx L s s'" and I: "inv_held idx s"
  shows "inv_held idx s'"
  using st
proof cases
  case (v_lock t g)
  then show ?thesis using I by (fastforce simp: inv_held_def)
next
  case (v_undo t g)
  then show ?thesis using I by (fastforce simp: inv_held_def)
next
  case (v_release t g)
  then show ?thesis using I by (fastforce simp: inv_held_def)
qed (use I in \<open>auto simp: inv_held_def\<close>)

lemma bytes_step:
  assumes st: "vstep idx L s s'" and I: "inv_bytes s"
  shows "inv_bytes s'"
  using st
proof cases
  case (v_commit t n p)
  then show ?thesis using I cell_bytes_in by (auto simp: inv_bytes_def)
qed (use I in \<open>force simp: inv_bytes_def\<close>)+

lemma written_frame:
  assumes "inv_written idx s" and "vlog s' = vlog s" and "vver s' = vver s"
    and "\<And>t g. iswb (vph s t) \<Longrightarrow> vowner s g = Some t \<Longrightarrow> iswb (vph s' t) \<and> vcv s' t = vcv s t \<and> vowner s' g = Some t"
  shows "inv_written idx s'"
  unfolding inv_written_def
proof (intro ballI)
  fix d c assume d: "d \<in> set (vlog s')" and c: "c \<in> set (ve_cells d)"
  have "ve_ver d \<le> vver s (idx (fst c)) \<or>
      (\<exists>t. iswb (vph s t) \<and> vcv s t = ve_ver d \<and> vowner s (idx (fst c)) = Some t)"
    using assms(1,2) d c by (simp add: inv_written_def)
  then show "ve_ver d \<le> vver s' (idx (fst c)) \<or>
      (\<exists>t. iswb (vph s' t) \<and> vcv s' t = ve_ver d \<and> vowner s' (idx (fst c)) = Some t)"
    using assms(3,4) by metis
qed

lemma written_step:
  assumes st: "vstep idx L s s'" and I: "inv_written idx s" "inv_owner s" "inv_held idx s"
  shows "inv_written idx s'"
  using st
proof cases
  case (v_commit t n p)
  have h: "vowner s (idx (fst c)) = Some t" if "c \<in> set (vcells s t)" for c
    using I(3) v_commit that by (auto simp: inv_held_def)
  show ?thesis
    unfolding inv_written_def
  proof (intro ballI)
    fix d c assume d: "d \<in> set (vlog s')" and c: "c \<in> set (ve_cells d)"
    have "d \<in> set (vlog s) \<or> (ve_ver d = vcv s t \<and> ve_cells d = vcells s t)"
      using d v_commit by (auto dest!: log_insert_set)
    then show "ve_ver d \<le> vver s' (idx (fst c)) \<or>
        (\<exists>t. iswb (vph s' t) \<and> vcv s' t = ve_ver d \<and> vowner s' (idx (fst c)) = Some t)"
    proof
      assume "d \<in> set (vlog s)"
      then have "ve_ver d \<le> vver s (idx (fst c)) \<or>
          (\<exists>t. iswb (vph s t) \<and> vcv s t = ve_ver d \<and> vowner s (idx (fst c)) = Some t)"
        using I(1) c by (auto simp: inv_written_def)
      then show ?thesis using v_commit by auto
    next
      assume "ve_ver d = vcv s t \<and> ve_cells d = vcells s t"
      then show ?thesis using v_commit h c by (intro disjI2 exI [of _ t]) auto
    qed
  qed
next
  case (v_release t g)
  have lt: "vver s g < vcv s t" using I(2) v_release by (auto simp: inv_owner_def)
  show ?thesis
    unfolding inv_written_def
  proof (intro ballI)
    fix d c assume d: "d \<in> set (vlog s')" and c: "c \<in> set (ve_cells d)"
    have "ve_ver d \<le> vver s (idx (fst c)) \<or>
        (\<exists>t. iswb (vph s t) \<and> vcv s t = ve_ver d \<and> vowner s (idx (fst c)) = Some t)"
      using I(1) d c v_release by (auto simp: inv_written_def)
    then show "ve_ver d \<le> vver s' (idx (fst c)) \<or>
        (\<exists>t. iswb (vph s' t) \<and> vcv s' t = ve_ver d \<and> vowner s' (idx (fst c)) = Some t)"
      using v_release lt by auto
  qed
qed (rule written_frame [OF I(1)]; auto)+


section \<open>Reads\<close>

lemma byte_outside:
  assumes "layout_ok L" "L a sz" "L c t" "c \<noteq> a" "unat (x - c) < type_size t" "j < type_size sz"
  shows "a + of_nat j \<noteq> x"
proof
  assume x: "a + of_nat j = x"
  have "disjoint_range c (type_size t) a (type_size sz)" using layout_okD(3) [OF assms(1,3,2)] assms(4) by blast
  moreover have "c + of_nat (unat (x - c)) = x" by simp
  ultimately show False using assms(5,6) x unfolding disjoint_range_def by metis
qed

lemma load_upd_outside:
  assumes "\<And>j. j < n \<Longrightarrow> a + of_nat j \<noteq> x" and "i \<le> n"
  shows "load_bytes (m(x := b)) a i = load_bytes m a i"
  by (rule load_bytes_cong) (use assms in auto)

text \<open>A byte that a committing transaction writes belongs to a cell it has locked.\<close>

lemma written_byte:
  assumes lay: "layout_ok L" and I: "inv_cells L s" "inv_held idx s" "inv_bytes s"
    and pc: "vph s t = PWB ((x, b) # bs)" and a: "L a sz" "vowner s (idx a) \<noteq> Some t" "j < type_size sz"
  shows "a + of_nat j \<noteq> x"
proof -
  obtain c where c: "c \<in> set (vcells s t)" "unat (x - fst c) < type_size (fst (snd c))"
    using I(3) pc by (fastforce simp: inv_bytes_def dest: spec [of _ t])
  have own: "vowner s (idx (fst c)) = Some t" using I(2) pc c(1) by (auto simp: inv_held_def)
  have "cells_ok L (vcells s t)" using I(1) pc by (auto simp: inv_cells_def)
  then have "L (fst c) (fst (snd c))" using c(1) by (auto simp: cells_ok_def)
  moreover have "fst c \<noteq> a" using own a(2) by auto
  ultimately show ?thesis using byte_outside [OF lay a(1)] c(2) a(3) by blast
qed

definition stable :: "(addr \<Rightarrow> nat) \<Rightarrow> (addr \<Rightarrow> ValueType \<Rightarrow> bool) \<Rightarrow> 'p vstate \<Rightarrow> 'p vstate \<Rightarrow> bool" where
  "stable idx L s s' \<longleftrightarrow> (\<forall>g. vver s g \<le> vver s' g) \<and>
    (\<forall>a sz. L a sz \<longrightarrow> vver s' (idx a) = vver s (idx a) \<longrightarrow> quiet s' (idx a) \<longrightarrow>
      quiet s (idx a) \<and> (\<forall>i \<le> type_size sz. load_bytes (vmem s') a i = load_bytes (vmem s) a i))"

lemma read_ok_stable:
  assumes "stable idx L s s'" and "read_ok idx L s r"
  shows "read_ok idx L s' r"
proof -
  let ?g = "idx (vr_addr r)"
  have le: "vr_ver r \<le> vver s ?g" "vver s ?g \<le> vver s' ?g" and l: "L (vr_addr r) (vr_type r)"
    using assms by (auto simp: read_ok_def stable_def)
  have "read_value_from_addr (vmem s') (vr_addr r) (vr_type r) = vr_val r"
    if "vver s' ?g = vr_ver r" "quiet s' ?g"
  proof -
    have "vver s' ?g = vver s ?g" using le that by simp
    then have "quiet s ?g" "load_bytes (vmem s') (vr_addr r) (type_size (vr_type r)) = load_bytes (vmem s) (vr_addr r) (type_size (vr_type r))"
      using assms(1) l that(2) by (auto simp: stable_def)
    then show ?thesis using assms(2) that(1) \<open>vver s' ?g = vver s ?g\<close> by (simp add: read_ok_def read_value_eq)
  qed
  then show ?thesis using le l by (simp add: read_ok_def)
qed

definition inflight_ok :: "(addr \<Rightarrow> nat) \<Rightarrow> (addr \<Rightarrow> ValueType \<Rightarrow> bool) \<Rightarrow> 'p vstate \<Rightarrow> addr \<Rightarrow> ValueType \<Rightarrow> nat \<Rightarrow> nat \<Rightarrow> any_type_t \<Rightarrow> bool" where
  "inflight_ok idx L s a sz v0 i v \<longleftrightarrow> L a sz \<and> i \<le> type_size sz \<and> v0 \<le> vver s (idx a) \<and>
    (vver s (idx a) = v0 \<and> quiet s (idx a) \<longrightarrow> v = load_bytes (vmem s) a i)"

lemma inflight_stable:
  assumes "stable idx L s s'" and "inflight_ok idx L s a sz v0 i v"
  shows "inflight_ok idx L s' a sz v0 i v"
proof -
  have le: "v0 \<le> vver s (idx a)" "vver s (idx a) \<le> vver s' (idx a)" and l: "L a sz" "i \<le> type_size sz"
    using assms by (auto simp: inflight_ok_def stable_def)
  have "v = load_bytes (vmem s') a i" if "vver s' (idx a) = v0" "quiet s' (idx a)"
  proof -
    have eq: "vver s' (idx a) = vver s (idx a)" using le that by simp
    then have "quiet s (idx a)" "load_bytes (vmem s') a i = load_bytes (vmem s) a i"
      using assms(1) l that(2) by (auto simp: stable_def)
    then show ?thesis using assms(2) that(1) eq by (simp add: inflight_ok_def)
  qed
  then show ?thesis using le l by (simp add: inflight_ok_def)
qed

lemma step_stable:
  assumes lay: "layout_ok L" and st: "vstep idx L s s'"
    and I: "inv_cells L s" "inv_held idx s" "inv_bytes s" "inv_owner s"
  shows "stable idx L s s'"
  using st
proof cases
  case (v_write t x b bs)
  have "load_bytes (vmem s') a i = load_bytes (vmem s) a i" if "L a sz" "quiet s' (idx a)" "i \<le> type_size sz" for a sz i
  proof -
    have "vowner s (idx a) \<noteq> Some t" using that(2) v_write by (auto simp: quiet_def)
    then show ?thesis
      using written_byte [OF lay I(1-3) v_write(2) that(1)] that(3) v_write(1)
      by (auto intro: load_upd_outside)
  qed
  moreover have "quiet s (idx a)" if "quiet s' (idx a)" for a
    using that v_write by (auto simp: quiet_def split: if_splits)
  ultimately show ?thesis using v_write by (auto simp: stable_def)
next
  case (v_release t g)
  have "vver s g < vcv s t" using I(4) v_release by (auto simp: inv_owner_def)
  then show ?thesis using v_release by (auto simp: stable_def quiet_def)
next
  case (v_undone t)
  then show ?thesis by (auto simp: stable_def quiet_def split: if_splits)
next
  case (v_lock t g)
  then show ?thesis by (auto simp: stable_def quiet_def split: if_splits)
next
  case (v_undo t g)
  then show ?thesis by (auto simp: stable_def quiet_def split: if_splits)
qed (auto simp: stable_def quiet_def split: if_splits)

lemma inv_reads_alt: "inv_reads idx L s \<longleftrightarrow>
    (\<forall>t. \<forall>r \<in> set (vreads s t). read_ok idx L s r \<and> (isval (vph s t) \<longrightarrow> vr_ver r < vcv s t)) \<and>
    (\<forall>t a sz v0 i v. vph s t = PRead a sz v0 i v \<longrightarrow> inflight_ok idx L s a sz v0 i v)"
  by (simp add: inv_reads_def inflight_ok_def)

lemma reads_step:
  assumes lay: "layout_ok L" and st: "vstep idx L s s'"
    and I: "inv_cells L s" "inv_held idx s" "inv_bytes s" "inv_owner s" "inv_reads idx L s" "inv_clock s"
  shows "inv_reads idx L s'"
proof -
  note S = step_stable [OF lay st I(1-4)]
  have R: "read_ok idx L s' r" if "r \<in> set (vreads s t)" for r t
    using read_ok_stable [OF S] I(5) that by (auto simp: inv_reads_alt)
  have F: "inflight_ok idx L s' a sz v0 i v" if "vph s t = PRead a sz v0 i v" for t a sz v0 i v
    using inflight_stable [OF S] I(5) that by (auto simp: inv_reads_alt)
  have V: "vr_ver r < vcv s t" if "r \<in> set (vreads s t)" "isval (vph s t)" for r t
    using I(5) that by (auto simp: inv_reads_def)
  show ?thesis
    using st
  proof cases
    case (v_read t a sz)
    have "inflight_ok idx L s' a sz (vver s (idx a)) 0 0" using v_read by (simp add: inflight_ok_def)
    then show ?thesis using R F V v_read by (auto simp: inv_reads_alt split: if_splits)
  next
    case (v_byte t a sz v0 i v)
    have "i < 8" using v_byte(3) type_size_le [of sz] by linarith
    then have "inflight_ok idx L s' a sz v0 (Suc i) (add_byte (vmem s) a i v)"
      using F [OF v_byte(2)] v_byte by (simp add: inflight_ok_def load_bytes_Suc del: load_bytes.simps)
    then show ?thesis using R F V v_byte by (auto simp: inv_reads_alt split: if_splits)
  next
    case (v_read_done t a sz v0 i v)
    have "read_ok idx L s' \<lparr>vr_addr = a, vr_type = sz, vr_ver = v0, vr_val = v\<rparr>"
      using F [OF v_read_done(2)] v_read_done(3) by (simp add: inflight_ok_def read_ok_def read_value_eq)
    then show ?thesis using R F V v_read_done by (auto simp: inv_reads_alt split: if_splits)
  next
    case (v_inc t)
    have "vr_ver r < Suc (vclock s)" if "r \<in> set (vreads s t)" for r
    proof -
      have "vr_ver r \<le> vver s (idx (vr_addr r))" using I(5) that by (auto simp: inv_reads_def read_ok_def)
      also have "\<dots> \<le> vclock s" using I(6) by (simp add: inv_clock_def)
      finally show ?thesis by simp
    qed
    then show ?thesis using R F V v_inc by (auto simp: inv_reads_alt split: if_splits)
  next
    case (v_undone t)
    then show ?thesis using R F V by (auto simp: inv_reads_alt split: if_splits)
  qed (use R F V in \<open>auto simp: inv_reads_alt split: if_splits\<close>)
qed


section \<open>The commit point\<close>

lemma final_shift:
  assumes "layout_ok L" "cells_ok L cs" "\<forall>d \<in> set l. apart L cs d"
  shows "final_mem (apply_cells cs m) l = apply_cells cs (final_mem m l)"
  using assms(3)
proof (induction l arbitrary: m)
  case (Cons d l)
  have "cells_ok L (ve_cells d)" "fst ` set cs \<inter> fst ` set (ve_cells d) = {}"
    using Cons.prems by (auto simp: apart_def)
  then have "apply_cells (ve_cells d) (apply_cells cs m) = apply_cells cs (apply_cells (ve_cells d) m)"
    using apply_cells_swap [OF assms(1,2)] by metis
  then show ?case using Cons by simp
qed simp

lemma final_other:
  assumes "layout_ok L" "L a sz" "\<forall>d \<in> set l. cells_ok L (ve_cells d) \<and> a \<notin> fst ` set (ve_cells d)"
  shows "read_value_from_addr (final_mem m l) a sz = read_value_from_addr m a sz"
  using assms(3) by (induction l arbitrary: m) (simp_all add: apply_cells_other [OF assms(1) _ assms(2)])

lemma log_split:
  assumes "sorted_wrt (\<lambda>d e. ve_ver d < ve_ver e) l" "\<forall>d \<in> set l. ve_ver d \<noteq> c"
  shows "before c l @ after c l = l"
  using assms
proof (induction l)
  case (Cons d l)
  show ?case
  proof (cases "ve_ver d < c")
    case True
    then show ?thesis using Cons by (simp add: before_def after_def)
  next
    case False
    then have c: "c < ve_ver d" using Cons.prems(2) by (simp add: nat_neq_iff)
    then have "\<forall>e \<in> set l. c < ve_ver e" using Cons.prems(1) by fastforce
    then have "before c l = []" "after c l = l"
      unfolding before_def after_def by (auto simp: filter_empty_conv filter_id_conv)
    then show ?thesis using c by (simp add: before_def after_def)
  qed
qed (simp add: before_def after_def)

lemma log_insert_alt: "log_insert c l = before (ve_ver c) l @ c # after (ve_ver c) l"
  by (simp add: log_insert_def before_def after_def)

text \<open>The log entries after the version of a validating transaction keep away from its cells.\<close>

lemma later_apart:
  assumes I: "inv_cells L s" "inv_held idx s" "inv_written idx s" "inv_owner s" "inv_checked idx m0 s"
    and t: "isval (vph s t)" and d: "d \<in> set (vlog s)" "vcv s t < ve_ver d"
  shows "apart L (vcells s t) d"
proof -
  have own: "vowner s (idx (fst c)) = Some t" if "c \<in> set (vcells s t)" for c
    using I(2) t that by (cases "vph s t") (auto simp: inv_held_def)
  have "cells_ok L (ve_cells d)" "\<forall>r \<in> set (ve_reads d). L (fst r) (fst (snd r))"
    using I(1) d(1) by (auto simp: inv_cells_def)
  moreover have "fst ` set (vcells s t) \<inter> fst ` set (ve_cells d) = {}"
  proof (rule ccontr)
    assume "fst ` set (vcells s t) \<inter> fst ` set (ve_cells d) \<noteq> {}"
    then obtain x where x: "x \<in> fst ` set (vcells s t)" "x \<in> fst ` set (ve_cells d)" by blast
    from x(1) obtain c where "c \<in> set (vcells s t)" "x = fst c" by blast
    moreover from x(2) obtain e where "e \<in> set (ve_cells d)" "x = fst e" by blast
    ultimately have c: "c \<in> set (vcells s t)" "e \<in> set (ve_cells d)" "fst c = fst e" by simp_all
    have "vver s (idx (fst e)) < vcv s t" using I(4) own [OF c(1)] t c(3) by (auto simp: inv_owner_def)
    then have "\<not> ve_ver d \<le> vver s (idx (fst e))" using d(2) by simp
    moreover have "ve_ver d \<le> vver s (idx (fst e)) \<or>
        (\<exists>t. iswb (vph s t) \<and> vcv s t = ve_ver d \<and> vowner s (idx (fst e)) = Some t)"
      using I(3) d(1) c(2) unfolding inv_written_def by blast
    ultimately obtain u where "iswb (vph s u)" "vowner s (idx (fst e)) = Some u" by blast
    then have "iswb (vph s t)" using own [OF c(1)] c(3) by simp
    then show False using t by (cases "vph s t") auto
  qed
  moreover have "fst r \<notin> fst ` set (vcells s t)" if "r \<in> set (ve_reads d)" for r
  proof
    assume "fst r \<in> fst ` set (vcells s t)"
    then have "vowner s (idx (fst r)) = Some t" using own by auto
    then show False using I(5) d t that by (auto simp: inv_checked_def)
  qed
  ultimately show ?thesis by (simp add: apart_def)
qed

lemma commit_serial:
  assumes lay: "layout_ok L" and inv: "vinv idx L m0 s"
    and t: "vph s t = PVal (length (vreads s t))"
    and c: "ve_ver c = vcv s t" "ve_reads c = read_cells (vreads s t)" "ve_cells c = vcells s t"
  shows "serial m0 (log_insert c (vlog s))"
    and "final_mem m0 (log_insert c (vlog s)) = apply_cells (vcells s t) (final_mem m0 (vlog s))"
proof -
  note D = vinvD [OF inv]
  let ?b = "before (vcv s t) (vlog s)" and ?a = "after (vcv s t) (vlog s)"
  have val: "isval (vph s t)" using t by simp
  have split: "?b @ ?a = vlog s" using D(3) val by (intro log_split) (auto simp: inv_unique_def)
  have ok: "cells_ok L (vcells s t)" using D(4) val by (auto simp: inv_cells_def)
  have ap: "\<forall>d \<in> set ?a. apart L (vcells s t) d"
    using later_apart [OF D(4,5,7,2,10) val] by (auto simp: after_def)
  have "\<forall>r \<in> set (vreads s t). checked idx m0 s t r" using D(10) t by (fastforce simp: inv_checked_def)
  then have ag: "agrees (ve_reads c) (final_mem m0 ?b)"
    by (auto simp: c(2) agrees_def read_cells_def checked_def)
  have sb: "serial m0 ?b" "serial (final_mem m0 ?b) ?a" using D(11) split serial_append by metis+
  have sh: "serial (apply_cells (vcells s t) (final_mem m0 ?b)) ?a"
    "final_mem (apply_cells (vcells s t) (final_mem m0 ?b)) ?a = apply_cells (vcells s t) (final_mem (final_mem m0 ?b) ?a)"
    using serial_shift [OF lay ok ap sb(2)] by auto
  show "serial m0 (log_insert c (vlog s))"
    using sb(1) ag sh(1) c by (simp add: log_insert_alt serial_append)
  have "final_mem m0 (vlog s) = final_mem (final_mem m0 ?b) ?a" using split by (metis final_mem_simps(3))
  then show "final_mem m0 (log_insert c (vlog s)) = apply_cells (vcells s t) (final_mem m0 (vlog s))"
    using sh(2) c by (simp add: log_insert_alt)
qed

lemma serial_step:
  assumes "layout_ok L" and st: "vstep idx L s s'" and inv: "vinv idx L m0 s"
  shows "serial m0 (vlog s')"
  using st
proof cases
  case (v_commit t n p)
  then show ?thesis using commit_serial(1) [OF assms(1) inv, of t] by simp
qed (use vinvD(11) [OF inv] in simp_all)

section \<open>Memory\<close>

lemma apply_bytes_pointwise: "m y = m' y \<Longrightarrow> apply_bytes bs m y = apply_bytes bs m' y"
proof (induction bs arbitrary: m m')
  case (Cons xb bs)
  obtain x b where xb: "xb = (x, b)" by (cases xb)
  have "apply_bytes bs (m(x := b)) y = apply_bytes bs (m'(x := b)) y"
    by (rule Cons.IH) (use Cons.prems in simp)
  then show ?case by (simp add: xb)
qed simp

lemma read_cong:
  assumes "\<And>j. j < type_size sz \<Longrightarrow> m (a + of_nat j) = m' (a + of_nat j)"
  shows "read_value_from_addr m a sz = read_value_from_addr m' a sz"
  unfolding read_value_eq by (rule load_bytes_cong) (rule assms)

lemma apply_cell_bytes: "apply_bytes (cell_bytes cs) m = apply_cells cs m"
proof (induction cs arbitrary: m)
  case (Cons c cs)
  then show ?case by (cases c) (simp add: cell_bytes_def store_bytes_upt write_value_eq)
qed (simp add: cell_bytes_def)

definition mem_ok :: "(addr \<Rightarrow> nat) \<Rightarrow> mem \<Rightarrow> 'p vstate \<Rightarrow> addr \<Rightarrow> ValueType \<Rightarrow> bool" where
  "mem_ok idx M s a sz \<longleftrightarrow>
    (quiet s (idx a) \<longrightarrow> read_value_from_addr (vmem s) a sz = read_value_from_addr M a sz) \<and>
    (\<forall>u. vowner s (idx a) = Some u \<longrightarrow> iswb (vph s u) \<longrightarrow>
      read_value_from_addr (apply_bytes (pend (vph s u)) (vmem s)) a sz = read_value_from_addr M a sz)"

lemma inv_mem_alt: "inv_mem idx L m0 s \<longleftrightarrow> (\<forall>a sz. L a sz \<longrightarrow> mem_ok idx (final_mem m0 (vlog s)) s a sz)"
  by (simp add: inv_mem_def mem_ok_def)

lemma mem_step:
  assumes lay: "layout_ok L" and st: "vstep idx L s s'" and inv: "vinv idx L m0 s"
  shows "inv_mem idx L m0 s'"
proof -
  note D = vinvD [OF inv]
  let ?M = "final_mem m0 (vlog s)"
  have I: "mem_ok idx ?M s a sz" if "L a sz" for a sz using D(9) that by (simp add: inv_mem_alt)
  have "mem_ok idx (final_mem m0 (vlog s')) s' a sz" if L: "L a sz" for a sz
    using st
  proof cases
    case (v_commit t n p)
    let ?cs = "vcells s t"
    have M': "final_mem m0 (vlog s') = apply_cells ?cs ?M"
      using commit_serial(2) [OF lay inv, of t] v_commit by simp
    have ok: "cells_ok L ?cs" using D(4) v_commit by (auto simp: inv_cells_def)
    have "\<forall>c \<in> set ?cs. vowner s (idx (fst c)) = Some t"
      using D(5) v_commit by (simp add: inv_held_def)
    then have own: "vowner s (idx a) = Some t" if "a \<in> fst ` set ?cs" using that by blast
    have same: "read_value_from_addr (apply_cells ?cs ?M) a sz = read_value_from_addr ?M a sz" if "a \<notin> fst ` set ?cs"
      using apply_cells_other [OF lay ok L that] .
    have mine: "read_value_from_addr (apply_cells ?cs (vmem s)) a sz = read_value_from_addr (apply_cells ?cs ?M) a sz"
      if o: "vowner s (idx a) = Some t"
    proof (cases "a \<in> fst ` set ?cs")
      case True
      then obtain u v where "(a, u, v) \<in> set ?cs" by force
      then show ?thesis using apply_cells_hit [OF lay ok L] by simp
    next
      case False
      have "quiet s (idx a)" using o v_commit by (auto simp: quiet_def)
      then show ?thesis using I [OF L] apply_cells_other [OF lay ok L False] by (simp add: mem_ok_def)
    qed
    have f: "vmem s' = vmem s" "vowner s' = vowner s" "vph s' = (vph s)(t := PWB (cell_bytes ?cs))"
      using v_commit by simp_all
    have q: "quiet s (idx a)" "vowner s (idx a) \<noteq> Some t" if "quiet s' (idx a)"
      using that f v_commit(2) by (auto simp: quiet_def split: if_splits)
    have 1: "read_value_from_addr (vmem s) a sz = read_value_from_addr (apply_cells ?cs ?M) a sz" if "quiet s' (idx a)"
    proof -
      have "a \<notin> fst ` set ?cs" using own q(2) [OF that] by blast
      then show ?thesis using same I [OF L] q(1) [OF that] by (simp add: mem_ok_def)
    qed
    have 2: "read_value_from_addr (apply_bytes (pend (vph s' u)) (vmem s)) a sz = read_value_from_addr (apply_cells ?cs ?M) a sz"
      if o: "vowner s (idx a) = Some u" and w: "iswb (vph s' u)" for u
    proof (cases "u = t")
      case True
      then show ?thesis using mine o f(3) by (simp add: apply_cell_bytes)
    next
      case False
      then have "a \<notin> fst ` set ?cs" using own o by auto
      then show ?thesis using same I [OF L] o w f(3) False by (simp add: mem_ok_def)
    qed
    show ?thesis using 1 2 by (simp add: mem_ok_def M' f(1,2))
  next
    case (v_write t x b bs)
    have out: "read_value_from_addr (apply_bytes us ((vmem s)(x := b))) a sz = read_value_from_addr (apply_bytes us (vmem s)) a sz"
      if "vowner s (idx a) \<noteq> Some t" for us
      using written_byte [OF lay D(4-6) v_write(2) L that]
      by (intro read_cong apply_bytes_pointwise) auto
    have out0: "read_value_from_addr ((vmem s)(x := b)) a sz = read_value_from_addr (vmem s) a sz"
      if "vowner s (idx a) \<noteq> Some t"
      using out [OF that, of "[]"] by simp
    show ?thesis
      using I [OF L] v_write out out0 by (auto simp: mem_ok_def quiet_def split: if_splits)
  next
    case (v_release t g)
    then show ?thesis using I [OF L] by (auto simp: mem_ok_def quiet_def split: if_splits)
  next
    case (v_lock t g)
    then show ?thesis using I [OF L] by (auto simp: mem_ok_def quiet_def split: if_splits)
  next
    case (v_undo t g)
    then show ?thesis using I [OF L] by (auto simp: mem_ok_def quiet_def split: if_splits)
  qed (use I [OF L] in \<open>auto simp: mem_ok_def quiet_def split: if_splits\<close>)
  then show ?thesis by (simp add: inv_mem_alt)
qed


section \<open>Validation\<close>

text \<open>
  A cell whose lock is quiet and older than a version \<open>b\<close> holds its value from before \<open>b\<close>: the log has no
  later write to it.
\<close>

lemma log_split_from:
  assumes "sorted_wrt (\<lambda>d e. ve_ver d < ve_ver e) l"
  shows "before b l @ filter (\<lambda>d. b \<le> ve_ver d) l = l"
  using assms
proof (induction l)
  case (Cons d l)
  show ?case
  proof (cases "ve_ver d < b")
    case False
    then have "\<forall>e \<in> set l. b \<le> ve_ver e" using Cons.prems by fastforce
    then have "before b l = []" "filter (\<lambda>d. b \<le> ve_ver d) l = l"
      unfolding before_def by (auto simp: filter_empty_conv filter_id_conv)
    then show ?thesis using False by (simp add: before_def)
  qed (use Cons in \<open>simp add: before_def\<close>)
qed (simp add: before_def)

lemma read_before:
  assumes lay: "layout_ok L" and inv: "vinv idx L m0 s"
    and L: "L a sz" and q: "quiet s (idx a)" and v: "vver s (idx a) < b"
  shows "read_value_from_addr (final_mem m0 (before b (vlog s))) a sz = read_value_from_addr (vmem s) a sz"
proof -
  note D = vinvD [OF inv]
  let ?f = "filter (\<lambda>d. b \<le> ve_ver d) (vlog s)"
  have "cells_ok L (ve_cells d) \<and> a \<notin> fst ` set (ve_cells d)" if d: "d \<in> set ?f" for d
  proof -
    have dl: "d \<in> set (vlog s)" "b \<le> ve_ver d" using d by auto
    have "fst e \<noteq> a" if "e \<in> set (ve_cells d)" for e
    proof
      assume "fst e = a"
      then have "ve_ver d \<le> vver s (idx a) \<or> (\<exists>u. iswb (vph s u) \<and> vcv s u = ve_ver d \<and> vowner s (idx a) = Some u)"
        using D(7) dl(1) that unfolding inv_written_def by metis
      then show False using q v dl(2) by (auto simp: quiet_def)
    qed
    then show ?thesis using D(4) dl(1) by (auto simp: inv_cells_def)
  qed
  moreover have "before b (vlog s) @ ?f = vlog s" using D(3) by (intro log_split_from) (simp add: inv_unique_def)
  then have "final_mem m0 (vlog s) = final_mem (final_mem m0 (before b (vlog s))) ?f" by (metis final_mem_simps(3))
  ultimately have "read_value_from_addr (final_mem m0 (vlog s)) a sz = read_value_from_addr (final_mem m0 (before b (vlog s))) a sz"
    using final_other [OF lay L, of ?f] by simp
  moreover have "read_value_from_addr (vmem s) a sz = read_value_from_addr (final_mem m0 (vlog s)) a sz"
    using D(9) L q by (simp add: inv_mem_def)
  ultimately show ?thesis by simp
qed

lemma before_insert_lower:
  assumes "c \<le> ve_ver e"
  shows "before c (log_insert e l) = before c (before (ve_ver e) l @ after (ve_ver e) l)"
  using assms by (simp add: log_insert_alt before_def)

lemma before_insert_higher:
  assumes "ve_ver e < c"
  shows "before c (log_insert e l) = before (ve_ver e) l @ e # before c (after (ve_ver e) l)"
  using assms by (auto simp: log_insert_alt before_def filter_id_conv intro!: filter_cong)

text \<open>A commit with a smaller version changes the earlier memory only in its own cells.\<close>

lemma before_commit:
  assumes lay: "layout_ok L" and inv: "vinv idx L m0 s"
    and t: "isval (vph s t)" and c: "ve_ver c = vcv s t" "ve_cells c = vcells s t"
    and r: "L a sz" "vcv s t < n \<longrightarrow> a \<notin> fst ` set (vcells s t)"
  shows "read_value_from_addr (final_mem m0 (before n (log_insert c (vlog s)))) a sz =
    read_value_from_addr (final_mem m0 (before n (vlog s))) a sz"
proof -
  note D = vinvD [OF inv]
  let ?b = "before (vcv s t) (vlog s)" and ?a = "after (vcv s t) (vlog s)"
  have split: "?b @ ?a = vlog s" using D(3) t by (intro log_split) (auto simp: inv_unique_def)
  show ?thesis
  proof (cases "n \<le> vcv s t")
    case True
    then show ?thesis using before_insert_lower [of n c "vlog s"] split c by simp
  next
    case False
    then have lt: "vcv s t < n" by simp
    have ok: "cells_ok L (vcells s t)" using D(4) t by (auto simp: inv_cells_def)
    have ap: "\<forall>d \<in> set (before n ?a). apart L (vcells s t) d"
      using later_apart [OF D(4,5,7,2,10) t] by (auto simp: after_def before_def)
    have "before n (vlog s) = ?b @ before n ?a"
    proof -
      have "before n ?b = ?b" using lt by (auto simp: before_def filter_id_conv intro!: filter_cong)
      moreover have "before n (?b @ ?a) = before n ?b @ before n ?a" by (simp add: before_def)
      ultimately show ?thesis using split by simp
    qed
    moreover have "final_mem m0 (before n (log_insert c (vlog s))) =
        apply_cells (vcells s t) (final_mem m0 (?b @ before n ?a))"
      using before_insert_higher [of c n "vlog s"] lt c final_shift [OF lay ok ap] by simp
    ultimately show ?thesis using apply_cells_other [OF lay ok r(1)] r(2) lt by simp
  qed
qed

lemma checked_frame:
  assumes "checked idx m0 s t r" and "vlog s' = vlog s" and "vcv s' t = vcv s t"
    and "\<And>u g. u \<noteq> t \<Longrightarrow> isval (vph s' u) \<Longrightarrow> vcv s' u < vcv s t \<Longrightarrow> vowner s' g = Some u \<Longrightarrow>
      isval (vph s u) \<and> vcv s' u = vcv s u \<and> vowner s g = Some u"
  shows "checked idx m0 s' t r"
  using assms unfolding checked_def by metis

lemma inv_checked_frame:
  assumes I: "inv_checked idx m0 s" and l: "vlog s' = vlog s"
    and v: "\<And>t n. vph s' t = PVal n \<Longrightarrow> vph s t = PVal n \<and> vreads s' t = vreads s t \<and> vcv s' t = vcv s t"
    and o: "\<And>t n g. vph s' t = PVal n \<Longrightarrow> vowner s' g = Some t \<Longrightarrow> vowner s g = Some t"
  shows "inv_checked idx m0 s'"
proof -
  have E: "\<exists>n. vph s' t = PVal n" if "isval (vph s' t)" for t using that by (cases "vph s' t") auto
  have w: "isval (vph s t) \<and> vcv s' t = vcv s t" if "isval (vph s' t)" for t
    using E [OF that] v by fastforce
  have q: "vowner s g = Some t" if "isval (vph s' t)" "vowner s' g = Some t" for t g
    using E [OF that(1)] o that(2) by metis
  have c: "checked idx m0 s' t r" if "vph s' t = PVal n" "r \<in> set (take n (vreads s t))" for t n r
  proof (rule checked_frame [OF _ l])
    show "checked idx m0 s t r" using I that v [OF that(1)] by (simp add: inv_checked_def)
    show "vcv s' t = vcv s t" using v [OF that(1)] by simp
  qed (simp add: w q)
  show ?thesis
    unfolding inv_checked_def
  proof (intro conjI allI impI ballI)
    fix t n assume t: "vph s' t = PVal n"
    show "n \<le> length (vreads s' t)" using v [OF t] I by (simp add: inv_checked_def)
    show "checked idx m0 s' t r" if "r \<in> set (take n (vreads s' t))" for r using c [OF t] v [OF t] that by simp
  next
    fix d u r assume "d \<in> set (vlog s')" and u: "isval (vph s' u)" "vcv s' u < ve_ver d" and "r \<in> set (ve_reads d)"
    then have "vowner s (idx (fst r)) \<noteq> Some u" using I w [OF u(1)] l by (simp add: inv_checked_def)
    then show "vowner s' (idx (fst r)) \<noteq> Some u" using q [OF u(1)] by blast
  qed
qed

lemma checked_step:
  assumes lay: "layout_ok L" and st: "vstep idx L s s'" and inv: "vinv idx L m0 s"
  shows "inv_checked idx m0 s'"
proof -
  note D = vinvD [OF inv]
  have C: "n \<le> length (vreads s t)" "\<And>r. r \<in> set (take n (vreads s t)) \<Longrightarrow> checked idx m0 s t r"
    if "vph s t = PVal n" for t n using D(10) that by (auto simp: inv_checked_def)
  have G: "vowner s (idx (fst r)) \<noteq> Some u"
    if "d \<in> set (vlog s)" "isval (vph s u)" "vcv s u < ve_ver d" "r \<in> set (ve_reads d)" for d u r
    using D(10) that by (auto simp: inv_checked_def)
  show ?thesis
    using st
  proof cases
    case (v_validate t n r)
    let ?g = "idx (vr_addr r)"
    have rin: "r \<in> set (vreads s t)" using v_validate by simp
    have ro: "read_ok idx L s r" "vr_ver r < vcv s t"
      using D(8) rin v_validate(2) by (auto simp: inv_reads_def)
    have q: "quiet s ?g" using v_validate by (auto simp: quiet_def)
    have "read_value_from_addr (vmem s) (vr_addr r) (vr_type r) = vr_val r" "L (vr_addr r) (vr_type r)"
      using ro q v_validate(5) by (auto simp: read_ok_def)
    then have "read_value_from_addr (final_mem m0 (before (vcv s t) (vlog s))) (vr_addr r) (vr_type r) = vr_val r"
      using read_before [OF lay inv _ q, of "vr_type r" "vcv s t"] ro(2) v_validate(5) by simp
    then have new: "checked idx m0 s t r" using v_validate(6) by (auto simp: checked_def)
    have "checked idx m0 s' u q" if "checked idx m0 s u q" for u q
      by (rule checked_frame [OF that]) (use v_validate in \<open>auto split: if_splits\<close>)
    moreover have "take (Suc n) (vreads s t) = take n (vreads s t) @ [r]"
      using v_validate by (simp add: take_Suc_conv_app_nth)
    ultimately show ?thesis
      using C G new v_validate by (auto simp: inv_checked_def split: if_splits)
  next
    case (v_commit t n p)
    let ?c = "\<lparr>ve_ver = vcv s t, ve_reads = read_cells (vreads s t), ve_cells = vcells s t, ve_info = p\<rparr>"
    have own: "vowner s (idx (fst c)) = Some t" if "c \<in> set (vcells s t)" for c
      using D(5) v_commit that unfolding inv_held_def by (metis iswriting.simps(2))
    have tc: "checked idx m0 s t r" if "r \<in> set (vreads s t)" for r
      using C(2) [OF v_commit(2)] v_commit(3) that by simp
    have f: "vlog s' = log_insert ?c (vlog s)" "vcv s' = vcv s" "vowner s' = vowner s" "vreads s' = vreads s"
        "\<And>u. vph s' u = (if u = t then PWB (cell_bytes (vcells s t)) else vph s u)"
      using v_commit by simp_all
    have A: "checked idx m0 s' u r" if u: "u \<noteq> t" "vph s u = PVal k" and r: "r \<in> set (vreads s u)" "checked idx m0 s u r" for u k r
    proof -
      have L: "L (vr_addr r) (vr_type r)" using D(8) r(1) by (auto simp: inv_reads_def read_ok_def)
      have "vcv s t \<noteq> vcv s u" using D(3) u v_commit(2) by (auto simp: inv_unique_def)
      moreover have "vcv s t < vcv s u \<longrightarrow> vr_addr r \<notin> fst ` set (vcells s t)"
      proof (intro impI notI)
        assume lt: "vcv s t < vcv s u" and "vr_addr r \<in> fst ` set (vcells s t)"
        then obtain c where "c \<in> set (vcells s t)" "fst c = vr_addr r" by force
        then have "vowner s (idx (vr_addr r)) = Some t" using own by metis
        moreover have "isval (vph s t)" using v_commit(2) by simp
        ultimately show False using r(2) u(1) lt unfolding checked_def by metis
      qed
      ultimately have "read_value_from_addr (final_mem m0 (before (vcv s u) (log_insert ?c (vlog s)))) (vr_addr r) (vr_type r) =
          read_value_from_addr (final_mem m0 (before (vcv s u) (vlog s))) (vr_addr r) (vr_type r)"
        using v_commit(2) by (intro before_commit [OF lay inv, of t]) (use L in auto)
      then show ?thesis using r(2) f by (auto simp: checked_def)
    qed
    have B: "vowner s' (idx (fst r)) \<noteq> Some u"
      if d: "d \<in> set (vlog s')" and u: "isval (vph s' u)" "vcv s' u < ve_ver d" and r: "r \<in> set (ve_reads d)" for d u r
    proof -
      have u': "u \<noteq> t" "isval (vph s u)" using u(1) f(5) by (auto split: if_splits)
      from d f(1) have "d = ?c \<or> d \<in> set (vlog s)" by (auto dest: log_insert_set)
      then show ?thesis
      proof
        assume "d = ?c"
        then obtain q where "q \<in> set (vreads s t)" "fst r = vr_addr q" using r by (auto simp: read_cells_def)
        then show ?thesis using tc u' u(2) f \<open>d = ?c\<close> by (auto simp: checked_def)
      next
        assume "d \<in> set (vlog s)"
        then show ?thesis using G u' u(2) r f by auto
      qed
    qed
    show ?thesis
      unfolding inv_checked_def
    proof (intro conjI allI impI ballI)
      fix u k assume "vph s' u = PVal k"
      then have u: "u \<noteq> t" "vph s u = PVal k" using f(5) by (auto split: if_splits)
      show "k \<le> length (vreads s' u)" using C(1) [OF u(2)] f(4) by simp
      fix r assume "r \<in> set (take k (vreads s' u))"
      then show "checked idx m0 s' u r" using A [OF u] C(2) [OF u(2)] f(4) by (auto dest: in_set_takeD)
    qed (use B in blast)
  next
    case (v_inc t)
    have below: "vcv s u < Suc (vclock s)" if "isval (vph s u)" for u
      using D(1) that by (auto simp: inv_clock_def less_Suc_eq_le)
    have A: "checked idx m0 s' u r" if "checked idx m0 s u r" "u \<noteq> t" "isval (vph s u)" for u r
      by (intro checked_frame [OF that(1)]) (use v_inc that below [of u] in \<open>auto split: if_splits\<close>)
    have "ve_ver d < Suc (vclock s)" if "d \<in> set (vlog s)" for d
      using D(1) that by (auto simp: inv_clock_def less_Suc_eq_le)
    then have "\<forall>d \<in> set (vlog s'). \<forall>u. isval (vph s' u) \<longrightarrow> vcv s' u < ve_ver d \<longrightarrow> (\<forall>r \<in> set (ve_reads d). vowner s' (idx (fst r)) \<noteq> Some u)"
      using G v_inc by (auto split: if_splits) force+
    then show ?thesis using A C v_inc by (auto simp: inv_checked_def split: if_splits)
  qed (rule inv_checked_frame [OF D(10)], auto split: if_splits)+
qed


section \<open>Every step keeps the invariant\<close>

lemma vinv_step:
  assumes "layout_ok L" "vstep idx L s s'" "vinv idx L m0 s"
  shows "vinv idx L m0 s'"
proof -
  note D = vinvD [OF assms(3)]
  show ?thesis
    unfolding vinv_def
    using clock_step [OF assms(2) D(1)] owner_step [OF assms(2) D(1,2)] unique_step [OF assms(2) D(1,3)]
      cells_step [OF assms(2) D(4,8)] held_step [OF assms(2) D(5)] bytes_step [OF assms(2) D(6)]
      written_step [OF assms(2) D(7,2,5)] reads_step [OF assms(1,2) D(4,5,6,2,8,1)]
      mem_step [OF assms] checked_step [OF assms] serial_step [OF assms]
    by blast
qed

lemma vinv_init: "vinv idx L m (vinit m c)"
  by (simp add: vinv_def vinit_def inv_clock_def inv_owner_def inv_unique_def inv_cells_def inv_held_def
      inv_bytes_def inv_written_def inv_reads_def inv_mem_def inv_checked_def quiet_def)

lemma vinv_steps:
  assumes "layout_ok L" "(vstep idx L)\<^sup>*\<^sup>* s s'" "vinv idx L m0 s"
  shows "vinv idx L m0 s'"
  using assms(2,3) by (induction rule: rtranclp_induct) (auto intro: vinv_step [OF assms(1)])

text \<open>Whatever explains the commits one by one explains the whole log.\<close>

lemma serial_run:
  assumes "serial m l" "\<forall>d \<in> set l. explains (ve_reads d) (apply_cells (ve_cells d)) (f (ve_info d))"
  shows "seq_run (concat (map (\<lambda>d. f (ve_info d)) l)) m = Some (final_mem m l)"
  using assms by (induction l arbitrary: m) (auto simp: explains_def seq_run_append)

section \<open>Snapshots\<close>

text \<open>
  A read belongs to the snapshot \<open>b\<close>: it has the value of the commits with versions below \<open>b\<close>, and no transaction
  that may still commit with such a version holds its lock.  A read keeps its place in a snapshot for ever.
\<close>

definition snap :: "(addr \<Rightarrow> nat) \<Rightarrow> (addr \<Rightarrow> ValueType \<Rightarrow> bool) \<Rightarrow> mem \<Rightarrow> 'p vstate \<Rightarrow> nat \<Rightarrow> vread \<Rightarrow> bool" where
  "snap idx L m0 s b r \<longleftrightarrow> L (vr_addr r) (vr_type r) \<and> b \<le> Suc (vclock s) \<and>
    read_value_from_addr (final_mem m0 (before b (vlog s))) (vr_addr r) (vr_type r) = vr_val r \<and>
    (\<forall>u. isval (vph s u) \<longrightarrow> vcv s u < b \<longrightarrow> vowner s (idx (vr_addr r)) \<noteq> Some u)"

lemma snap_now:
  assumes lay: "layout_ok L" and inv: "vinv idx L m0 s" and r: "read_ok idx L s r"
    and v: "vver s (idx (vr_addr r)) = vr_ver r" "vr_ver r < b" "b \<le> Suc (vclock s)"
    and o: "\<And>u. vowner s (idx (vr_addr r)) = Some u \<Longrightarrow> \<not> iswb (vph s u) \<and> \<not> isval (vph s u)"
  shows "snap idx L m0 s b r"
proof -
  have q: "quiet s (idx (vr_addr r))" using o by (auto simp: quiet_def)
  have "L (vr_addr r) (vr_type r)" "read_value_from_addr (vmem s) (vr_addr r) (vr_type r) = vr_val r"
    using r q v(1) by (auto simp: read_ok_def)
  then show ?thesis using read_before [OF lay inv _ q, of "vr_type r" b] v o by (auto simp: snap_def)
qed

lemma snap_step:
  assumes lay: "layout_ok L" and inv: "vinv idx L m0 s" and st: "vstep idx L s s'" and r: "snap idx L m0 s b r"
  shows "snap idx L m0 s' b r"
  using st
proof cases
  case (v_commit t n p)
  note D = vinvD [OF inv]
  let ?c = "\<lparr>ve_ver = vcv s t, ve_reads = read_cells (vreads s t), ve_cells = vcells s t, ve_info = p\<rparr>"
  have val: "isval (vph s t)" using v_commit(2) by simp
  have own: "vowner s (idx (fst c)) = Some t" if "c \<in> set (vcells s t)" for c
    using D(5) v_commit that unfolding inv_held_def by (metis iswriting.simps(2))
  have "vcv s t < b \<longrightarrow> vr_addr r \<notin> fst ` set (vcells s t)" using r own val unfolding snap_def by force
  then have "read_value_from_addr (final_mem m0 (before b (log_insert ?c (vlog s)))) (vr_addr r) (vr_type r) =
      read_value_from_addr (final_mem m0 (before b (vlog s))) (vr_addr r) (vr_type r)"
    using r by (intro before_commit [OF lay inv val]) (auto simp: snap_def)
  then show ?thesis using r v_commit by (auto simp: snap_def split: if_splits)
next
  case (v_inc t)
  then show ?thesis using r by (auto simp: snap_def split: if_splits)
qed (use r in \<open>auto simp: snap_def split: if_splits\<close>)

lemma snap_steps:
  assumes "layout_ok L" "vinv idx L m0 s" "(vstep idx L)\<^sup>*\<^sup>* s s'" "snap idx L m0 s b r"
  shows "snap idx L m0 s' b r"
proof -
  from assms(3) have "snap idx L m0 s' b r \<and> vinv idx L m0 s'"
    by (induction rule: rtranclp_induct) (use assms snap_step [OF assms(1)] vinv_step [OF assms(1)] in blast)+
  then show ?thesis by blast
qed

lemma snap_agrees: "\<forall>r \<in> set rs. snap idx L m0 s b r \<Longrightarrow> agrees (read_cells rs) (final_mem m0 (before b (vlog s)))"
  by (auto simp: agrees_def read_cells_def snap_def)

section \<open>For the backends\<close>

text \<open>The log of a backend, in the order of its commits, sorted by version.\<close>

lemma sort_log_insert:
  assumes "\<forall>d \<in> set l. ve_ver d \<noteq> ve_ver c"
  shows "sort_key ve_ver (l @ [c]) = log_insert c (sort_key ve_ver l)"
proof (rule properties_for_sort_key)
  have "mset (filter (\<lambda>d. ve_ver d < ve_ver c) l) + mset (filter (\<lambda>d. ve_ver c < ve_ver d) l) = mset l"
    using assms by (induction l) auto
  then show "mset (log_insert c (sort_key ve_ver l)) = mset (l @ [c])" by (simp add: log_insert_def)
next
  fix k assume "k \<in> set (log_insert c (sort_key ve_ver l))"
  have "filter (\<lambda>x. ve_ver k = ve_ver x) (sort_key ve_ver l) = filter (\<lambda>x. ve_ver k = ve_ver x) l"
    using sort_key_stable [of ve_ver "ve_ver k" l] by (simp add: eq_commute)
  moreover have "filter (\<lambda>x. ve_ver k = ve_ver x) (log_insert c ls) = filter (\<lambda>x. ve_ver k = ve_ver x) (ls @ [c])"
    if "\<forall>d \<in> set ls. ve_ver d \<noteq> ve_ver c" for ls
  proof (cases "ve_ver k" "ve_ver c" rule: linorder_cases)
    case less
    then show ?thesis by (auto simp: log_insert_def filter_empty_conv intro!: filter_cong)
  next
    case equal
    then show ?thesis using that by (auto simp: log_insert_def filter_empty_conv)
  next
    case greater
    then show ?thesis by (auto simp: log_insert_def filter_empty_conv intro!: filter_cong)
  qed
  ultimately show "filter (\<lambda>x. ve_ver k = ve_ver x) (log_insert c (sort_key ve_ver l)) = filter (\<lambda>x. ve_ver k = ve_ver x) (l @ [c])"
    using assms by simp
next
  show "sorted (map ve_ver (log_insert c (sort_key ve_ver l)))"
    by (auto simp: log_insert_def sorted_append sorted_filter)
qed

lemma vclock_step: "vstep idx L v v' \<Longrightarrow> vclock v' \<le> Suc (vclock v)"
  by (induction rule: vstep.induct) simp_all

text \<open>A rest of a list whose processed part lies in a set.\<close>

definition suffix_of :: "'a list \<Rightarrow> 'a list \<Rightarrow> 'a set \<Rightarrow> bool" where
  "suffix_of es ws X \<longleftrightarrow> (\<exists>ds. ws = ds @ es \<and> set ds \<subseteq> X)"

lemma suffix_of_Cons: "suffix_of (e # es) ws X \<Longrightarrow> e \<in> X \<Longrightarrow> suffix_of es ws X"
  unfolding suffix_of_def by (metis append.assoc append_Cons append_Nil insert_subset list.simps(15) set_append sup.bounded_iff set_empty2 empty_subsetI)

lemma suffix_of_mono: "suffix_of es ws X \<Longrightarrow> X \<subseteq> Y \<Longrightarrow> suffix_of es ws Y"
  by (auto simp: suffix_of_def)

lemma suffix_of_Nil [simp]: "suffix_of [] ws X \<longleftrightarrow> set ws \<subseteq> X"
  by (simp add: suffix_of_def)

lemma suffix_of_self [simp]: "suffix_of ws ws X"
  by (simp add: suffix_of_def)

end
