(* ===== verification/TM_TL2_Steps.thy ===== *)
theory TM_TL2_Steps
  imports TM_TL2 TM_VersionedLocks
begin

text \<open>
  Threads running the TL2 operations. A state holds the shared memory, \<open>g_clock\<close>, \<open>g_guards\<close>
  and, per thread, the descriptor, the local arrays of \<open>commit\<close> and a program counter.
  \<open>tl2_call\<close> starts an operation, \<open>tl2_run\<close> is the next shared access of an operation in
  progress. The fields \<open>tl_vals\<close> (values returned by the reads of the read set), \<open>tl_ops\<close>,
  \<open>tl_log\<close> (commits of update transactions in the order of their write-back) and \<open>tl_ro\<close> are
  ghost: no operation reads them.
\<close>

section \<open>State\<close>

datatype tl2_pc =
    TIdle
  | TGuard addr DataType
  | TData addr DataType nat any_type_t
  | TLock "WriteSetEntry list"
  | TCas u64 "WriteSetEntry list"
  | TUndo "WriteSetEntry list"
  | TValidate "ReadSetEntry list"
  | TWriteBack "(addr \<times> u8) list"
  | TRelease "WriteSetEntry list"

datatype tl2_op = LBegin | LRead addr DataType | LWrite addr any_type_t DataType | LCommit | LAbort

record tl2_state =
  tmem :: mem
  g_clock :: u64
  g_guards :: "nat \<Rightarrow> u64"
  tl_abort_count :: u64
  tl_txs :: "nat \<Rightarrow> TL2_Transaction"
  held_guard :: "nat \<Rightarrow> nat \<Rightarrow> bool"
  released_guard :: "nat \<Rightarrow> nat \<Rightarrow> bool"
  tl_pcs :: "nat \<Rightarrow> tl2_pc"
  tl_failed :: bool
  tl_vals :: "nat \<Rightarrow> u64 list"
  tl_ops :: "nat \<Rightarrow> op list"
  tl_log :: "op list ventry list"
  tl_ro :: "op list list"

definition tl_set_tx :: "nat \<Rightarrow> TL2_Transaction \<Rightarrow> tl2_state \<Rightarrow> tl2_state" where
  "tl_set_tx t tx s = s\<lparr>tl_txs := (tl_txs s)(t := tx)\<rparr>"

definition tl_set_pc :: "nat \<Rightarrow> tl2_pc \<Rightarrow> tl2_state \<Rightarrow> tl2_state" where
  "tl_set_pc t pc s = s\<lparr>tl_pcs := (tl_pcs s)(t := pc)\<rparr>"

definition tl_add_op :: "nat \<Rightarrow> op \<Rightarrow> tl2_state \<Rightarrow> tl2_state" where
  "tl_add_op t p s = s\<lparr>tl_ops := (tl_ops s)(t := tl_ops s t @ [p])\<rparr>"

definition tl_fresh :: TL2_Transaction where
  "tl_fresh = \<lparr>tl_active = False, tl_aborted = False, start_version = 0, commit_version = 0,
     tl_write_set = [], tl_read_set = [], bloom_filter = 0\<rparr>"

text \<open>\<open>STM::init\<close>, on the memory the program set up before.\<close>

definition tl2_init :: "mem \<Rightarrow> tl2_state" where
  "tl2_init m = \<lparr>tmem = m, g_clock = 1, g_guards = (\<lambda>_. 0), tl_abort_count = 0, tl_txs = (\<lambda>_. tl_fresh),
     held_guard = (\<lambda>_ _. False), released_guard = (\<lambda>_ _. False), tl_pcs = (\<lambda>_. TIdle), tl_failed = False,
     tl_vals = (\<lambda>_. []), tl_ops = (\<lambda>_. []), tl_log = [], tl_ro = []\<rparr>"

section \<open>Calls\<close>

definition tl_begin :: "nat \<Rightarrow> tl2_state \<Rightarrow> tl2_state" where
  "tl_begin t s =
    tl_set_tx t ((tl_txs s t)\<lparr>start_version := g_clock s, tl_active := True, tl_aborted := False,
        tl_write_set := [], tl_read_set := [], bloom_filter := 0\<rparr>)
      (s\<lparr>tl_vals := (tl_vals s)(t := []), tl_ops := (tl_ops s)(t := [])\<rparr>)"

text \<open>
  The local part of \<open>read_impl\<close>. \<open>tracked\<close> stands for \<open>isTMAddress\<close> or \<open>isTMGlobal\<close>; other
  addresses are accessed directly.
\<close>

definition tl_read_call :: "(addr \<Rightarrow> bool) \<Rightarrow> nat \<Rightarrow> addr \<Rightarrow> DataType \<Rightarrow> tl2_state \<Rightarrow> tl2_state" where
  "tl_read_call tracked t a dt s =
    (let tx = tl_txs s t
     in if \<not> tl_active tx then s\<lparr>tl_failed := True\<rparr>
        else if \<not> tracked a then tl_add_op t (Rd a dt (read_value_from_addr (tmem s) a dt)) s
        else (case tl_lookup (tl_write_set tx, bloom_filter tx) a dt of
                Hit v \<Rightarrow> tl_add_op t (Rd a dt v) s
              | _ \<Rightarrow> tl_set_pc t (TGuard a dt) s))"

definition tl_write_call :: "(addr \<Rightarrow> bool) \<Rightarrow> nat \<Rightarrow> addr \<Rightarrow> any_type_t \<Rightarrow> DataType \<Rightarrow> tl2_state \<Rightarrow> tl2_state" where
  "tl_write_call tracked t a val dt s =
    (let tx = tl_txs s t
     in if \<not> tl_active tx then s\<lparr>tl_failed := True\<rparr>
        else if \<not> tracked a
        then tl_add_op t (Wr a dt val) (s\<lparr>tmem := write_value_to_addr (tmem s) a val dt\<rparr>)
        else (case write_impl (tl_write_set tx, bloom_filter tx) a val dt of
                (ws, bf) \<Rightarrow> tl_add_op t (Wr a dt val) (tl_set_tx t (tx\<lparr>tl_write_set := ws, bloom_filter := bf\<rparr>) s)))"

text \<open>\<open>commit\<close> up to the first lock; without an active transaction it returns false.\<close>

definition tl_commit_call :: "nat \<Rightarrow> tl2_state \<Rightarrow> tl2_state" where
  "tl_commit_call t s =
    (let tx = tl_txs s t; ws = sorted_ws (tl_write_set tx)
     in if \<not> tl_active tx then s
        else if tl_write_set tx = []
        then tl_set_tx t (tx\<lparr>tl_active := False\<rparr>) (s\<lparr>tl_ro := tl_ro s @ [tl_ops s t]\<rparr>)
        else tl_set_pc t (TLock ws) (tl_set_tx t (tx\<lparr>tl_write_set := ws\<rparr>)
          (s\<lparr>held_guard := (held_guard s)(t := \<lambda>_. False)\<rparr>)))"

definition tl_abort :: "nat \<Rightarrow> tl2_state \<Rightarrow> tl2_state" where
  "tl_abort t s =
    tl_set_tx t ((tl_txs s t)\<lparr>tl_active := False, tl_aborted := True\<rparr>)
      (s\<lparr>tl_abort_count := tl_abort_count s + 1\<rparr>)"

fun tl2_call :: "(addr \<Rightarrow> bool) \<Rightarrow> nat \<Rightarrow> tl2_op \<Rightarrow> tl2_state \<Rightarrow> tl2_state" where
  "tl2_call tracked t LBegin s = tl_begin t s"
| "tl2_call tracked t (LRead a dt) s = tl_read_call tracked t a dt s"
| "tl2_call tracked t (LWrite a val dt) s = tl_write_call tracked t a val dt s"
| "tl2_call tracked t LCommit s = tl_commit_call t s"
| "tl2_call tracked t LAbort s = tl_abort t s"

section \<open>Steps of the operations\<close>

text \<open>\<open>read_impl\<close> after the write set: the guard, the read-set entry, the data.\<close>

fun tl_read_step :: "nat \<Rightarrow> tl2_pc \<Rightarrow> tl2_state \<Rightarrow> tl2_state" where
  "tl_read_step t (TGuard a dt) s =
    (let tx = tl_txs s t; idx = get_guard_idx a; guard = g_guards s idx
     in tl_set_pc t (TData a dt 0 0)
          (tl_set_tx t (tx\<lparr>tl_read_set := tl_read_set tx @ [\<lparr>guard_addr = idx, data_addr = a,
             re_version = guard_version guard, re_dtype = dt, locked_by_me = guard_locked guard\<rparr>]\<rparr>) s))"
| "tl_read_step t (TData a dt i v) s =
    (if i < type_size dt then tl_set_pc t (TData a dt (Suc i) (add_byte (tmem s) a i v)) s
     else tl_set_pc t TIdle (tl_add_op t (Rd a dt (from_word dt (to_word dt v)))
       (s\<lparr>tl_vals := (tl_vals s)(t := tl_vals s t @ [v])\<rparr>)))"
| "tl_read_step t _ s = s"

text \<open>
  The lock loop of \<open>commit\<close> with \<open>try_acquire_guard\<close> (a load, then compare-and-swaps), the clock
  increment, and the loop that gives the guards back after a failure.
\<close>

fun tl_lock_step :: "nat \<Rightarrow> tl2_pc \<Rightarrow> tl2_state \<Rightarrow> tl2_state" where
  "tl_lock_step t (TLock (e # es)) s =
    (let idx = get_guard_idx (e_addr e); guard = g_guards s idx
     in if held_guard s t idx then tl_set_pc t (TLock es) s
        else if guard_locked guard then tl_set_pc t (TUndo (tl_write_set (tl_txs s t))) s
        else tl_set_pc t (TCas guard (e # es)) s)"
| "tl_lock_step t (TCas guard (e # es)) s =
    (let idx = get_guard_idx (e_addr e)
     in if g_guards s idx = guard
        then tl_set_pc t (TLock es) (s\<lparr>g_guards := (g_guards s)(idx := guard_lock guard),
          held_guard := (held_guard s)(t := (held_guard s t)(idx := True))\<rparr>)
        else if guard_locked (g_guards s idx) then tl_set_pc t (TUndo (tl_write_set (tl_txs s t))) s
        else tl_set_pc t (TCas (g_guards s idx) (e # es)) s)"
| "tl_lock_step t (TLock []) s =
    (let tx = tl_txs s t
     in tl_set_pc t (TValidate (tl_read_set tx))
          (tl_set_tx t (tx\<lparr>commit_version := g_clock s + 1\<rparr>) (s\<lparr>g_clock := g_clock s + 1\<rparr>)))"
| "tl_lock_step t (TUndo (e # es)) s =
    (let idx = get_guard_idx (e_addr e)
     in if held_guard s t idx
        then tl_set_pc t (TUndo es) (s\<lparr>g_guards := (g_guards s)(idx := guard_unlock (g_guards s idx)),
          held_guard := (held_guard s)(t := (held_guard s t)(idx := False))\<rparr>)
        else tl_set_pc t (TUndo es) s)"
| "tl_lock_step t (TUndo []) s =
    tl_set_pc t TIdle (tl_set_tx t ((tl_txs s t)\<lparr>tl_active := False, tl_aborted := True\<rparr>) s)"
| "tl_lock_step t _ s = s"

text \<open>Validation of the read set; after the last entry the transaction is committed.\<close>

fun tl_validate_step :: "nat \<Rightarrow> tl2_pc \<Rightarrow> tl2_state \<Rightarrow> tl2_state" where
  "tl_validate_step t (TValidate (re # rs)) s =
    (let current_guard = g_guards s (guard_addr re); our_lock = held_guard s t (guard_addr re)
     in if guard_locked current_guard \<and> \<not> our_lock \<or> guard_version current_guard \<noteq> re_version re
        then tl_set_pc t (TUndo (tl_write_set (tl_txs s t))) s
        else tl_set_pc t (TValidate rs) s)"
| "tl_validate_step t (TValidate []) s =
    (let tx = tl_txs s t
     in tl_set_pc t (TWriteBack (tl_bytes (tl_write_set tx)))
          (s\<lparr>tl_log := tl_log s @ [\<lparr>ve_ver = unat (commit_version tx),
             ve_reads = map2 (\<lambda>re v. (data_addr re, re_dtype re, v)) (tl_read_set tx) (tl_vals s t),
             ve_cells = map cell_of (tl_write_set tx), ve_info = tl_ops s t\<rparr>]\<rparr>))"
| "tl_validate_step t _ s = s"

text \<open>Write-back, and the release of each guard once with the commit version.\<close>

fun tl_write_step :: "nat \<Rightarrow> tl2_pc \<Rightarrow> tl2_state \<Rightarrow> tl2_state" where
  "tl_write_step t (TWriteBack ((a, b) # bs)) s =
    tl_set_pc t (TWriteBack bs) (s\<lparr>tmem := (tmem s)(a := b)\<rparr>)"
| "tl_write_step t (TWriteBack []) s =
    tl_set_pc t (TRelease (tl_write_set (tl_txs s t))) (s\<lparr>released_guard := (released_guard s)(t := \<lambda>_. False)\<rparr>)"
| "tl_write_step t (TRelease (e # es)) s =
    (let idx = get_guard_idx (e_addr e)
     in if released_guard s t idx then tl_set_pc t (TRelease es) s
        else tl_set_pc t (TRelease es)
          (s\<lparr>released_guard := (released_guard s)(t := (released_guard s t)(idx := True)),
             g_guards := (g_guards s)(idx := versioned_guard (commit_version (tl_txs s t)))\<rparr>))"
| "tl_write_step t (TRelease []) s =
    tl_set_pc t TIdle (tl_set_tx t ((tl_txs s t)\<lparr>tl_active := False\<rparr>) s)"
| "tl_write_step t _ s = s"

definition tl2_run :: "nat \<Rightarrow> tl2_state \<Rightarrow> tl2_state" where
  "tl2_run t s =
    (case tl_pcs s t of
       TIdle \<Rightarrow> s
     | TGuard a dt \<Rightarrow> tl_read_step t (tl_pcs s t) s
     | TData a dt i v \<Rightarrow> tl_read_step t (tl_pcs s t) s
     | TValidate rs \<Rightarrow> tl_validate_step t (tl_pcs s t) s
     | TWriteBack bs \<Rightarrow> tl_write_step t (tl_pcs s t) s
     | TRelease es \<Rightarrow> tl_write_step t (tl_pcs s t) s
     | _ \<Rightarrow> tl_lock_step t (tl_pcs s t) s)"

section \<open>Executions\<close>

datatype tl2_event = LCall nat tl2_op | LRun nat

fun tl_call_ok :: "(addr \<Rightarrow> ValueType \<Rightarrow> bool) \<Rightarrow> tl2_op \<Rightarrow> bool" where
  "tl_call_ok L (LRead a dt) \<longleftrightarrow> L a dt"
| "tl_call_ok L (LWrite a val dt) \<longleftrightarrow> L a dt"
| "tl_call_ok L _ \<longleftrightarrow> True"

fun tl2_step :: "(addr \<Rightarrow> bool) \<Rightarrow> (addr \<Rightarrow> ValueType \<Rightarrow> bool) \<Rightarrow> tl2_state \<Rightarrow> tl2_event \<Rightarrow> tl2_state option" where
  "tl2_step tracked L s (LCall t c) =
    (if \<not> tl_failed s \<and> tl_pcs s t = TIdle \<and> tl_call_ok L c then Some (tl2_call tracked t c s) else None)"
| "tl2_step tracked L s (LRun t) =
    (if \<not> tl_failed s \<and> tl_pcs s t \<noteq> TIdle then Some (tl2_run t s) else None)"

fun tl2_exec :: "(addr \<Rightarrow> bool) \<Rightarrow> (addr \<Rightarrow> ValueType \<Rightarrow> bool) \<Rightarrow> tl2_event list \<Rightarrow> tl2_state \<Rightarrow> tl2_state option" where
  "tl2_exec tracked L [] s = Some s"
| "tl2_exec tracked L (ev # evs) s =
    (case tl2_step tracked L s ev of None \<Rightarrow> None | Some s' \<Rightarrow> tl2_exec tracked L evs s')"

end
