(* ===== verification/TM_TL2_Safety.thy ===== *)
theory TM_TL2_Safety
  imports TM_TL2_Steps
begin

text \<open>
  TL2 refines the versioned-lock protocol: every step of the state machine of TL2 is a step of the protocol
  or leaves it unchanged, under the relation \<open>sim\<close>. Serializability of the protocol
  carries over to TL2.
\<close>


section \<open>Guard words\<close>

lemma bit_LOCK_MASK: "bit LOCK_MASK k \<longleftrightarrow> k = 0"
  by (simp add: LOCK_MASK_def bit_1_iff)

lemma guard_locked_bit: "guard_locked g \<longleftrightarrow> bit g 0"
  by (simp add: guard_locked_def LOCK_MASK_def and_one_eq bit_0 odd_iff_mod_2_eq_one)

lemma guard_version_drop: "guard_version g = drop_bit 1 g"
  by (rule u64_eqI) (auto dest: u64_bit_less simp: guard_version_def VERSION_MASK_def bit_drop_bit_eq bit_and_iff bit_not_iff bit_LOCK_MASK)

lemma guard_lock_simps [simp]: "guard_locked (guard_lock g)" "guard_version (guard_lock g) = guard_version g"
  by (auto simp: guard_locked_bit guard_version_drop guard_lock_def bit_or_iff bit_LOCK_MASK bit_drop_bit_eq intro!: u64_eqI)

lemma guard_unlock_simps [simp]: "\<not> guard_locked (guard_unlock g)" "guard_version (guard_unlock g) = guard_version g"
  using u64_bit_less [of g "Suc _"] by (auto simp: guard_locked_bit guard_version_drop guard_unlock_def bit_and_iff bit_not_iff bit_LOCK_MASK bit_drop_bit_eq dest: u64_bit_less intro!: u64_eqI)

lemma versioned_guard_simps [simp]:
  "\<not> guard_locked (versioned_guard c)" "unat c < 2 ^ 63 \<Longrightarrow> guard_version (versioned_guard c) = c"
proof -
  show "\<not> guard_locked (versioned_guard c)"
    by (simp add: guard_locked_bit versioned_guard_def VERSION_MASK_def bit_and_iff bit_not_iff bit_LOCK_MASK)
  assume "unat c < 2 ^ 63"
  then have "\<not> bit (unat c) 63" by (simp add: bit_iff_odd)
  then have nb: "\<not> bit c 63" by (simp add: bit_unsigned_iff)
  have vs: "bit (versioned_guard c) (Suc k) \<longleftrightarrow> k < 63 \<and> bit c k" for k
    unfolding versioned_guard_def VERSION_MASK_def bit_and_iff bit_not_iff bit_push_bit_iff bit_LOCK_MASK by auto
  have "bit (guard_version (versioned_guard c)) k = bit c k" if "k < 64" for k
  proof -
    have "bit (guard_version (versioned_guard c)) k = bit (versioned_guard c) (Suc k)"
      by (simp only: guard_version_drop bit_drop_bit_eq o_apply plus_1_eq_Suc)
    moreover have "k = 63 \<or> k < 63" using that by linarith
    ultimately show ?thesis using nb vs [of k] by metis
  qed
  then show "guard_version (versioned_guard c) = c" by (rule u64_eqI)
qed

lemma tl_lookup_return: "tl_lookup wb a dt = Hit v \<Longrightarrow> return_any_type dt v = v"
proof -
  assume h: "tl_lookup wb a dt = Hit v"
  have i: "tl_interchange e dt = Some w \<Longrightarrow> return_any_type dt w = w" for e w
    by (auto simp: tl_interchange_def Let_def from_word_def split: if_splits)
  have c: "tl_covering a dt e = Some w \<Longrightarrow> return_any_type dt w = w" for e w
    by (auto simp: tl_covering_def Let_def from_word_def split: if_splits)
  have "own_write (fst wb) a dt = Some v" using h by (auto simp: tl_lookup_def split: if_splits option.splits)
  then show ?thesis
    using i c by (auto simp: own_write_def from_word_def split: option.splits if_splits dest!: first_some_SomeD)
qed

section \<open>Simulation\<close>

definition read_of :: "ReadSetEntry \<Rightarrow> u64 \<Rightarrow> vread" where
  "read_of re v = \<lparr>vr_addr = data_addr re, vr_type = re_dtype re, vr_ver = unat (re_version re), vr_val = v\<rparr>"

abbreviation (input) gidx :: "WriteSetEntry \<Rightarrow> nat" where
  "gidx e \<equiv> get_guard_idx (e_addr e)"

fun committing :: "tl2_pc \<Rightarrow> bool" where
  "committing TIdle \<longleftrightarrow> False"
| "committing (TGuard a dt) \<longleftrightarrow> False"
| "committing (TData a dt i v) \<longleftrightarrow> False"
| "committing _ \<longleftrightarrow> True"

text \<open>The phase of the protocol a program counter stands for.\<close>

fun phase :: "TL2_Transaction \<Rightarrow> tl2_pc \<Rightarrow> vphase" where
  "phase tx (TData a dt i v) = PRead a dt (unat (re_version (last (tl_read_set tx)))) i v"
| "phase tx (TLock es) = PLock"
| "phase tx (TCas g es) = PLock"
| "phase tx (TUndo es) = PUndo"
| "phase tx (TValidate rs) = PVal (length (tl_read_set tx) - length rs)"
| "phase tx (TWriteBack bs) = PWB bs"
| "phase tx (TRelease es) = PRel"
| "phase tx _ = PBody"

fun pc_sim :: "(addr \<Rightarrow> ValueType \<Rightarrow> bool) \<Rightarrow> TL2_Transaction \<Rightarrow> u64 list \<Rightarrow> (nat \<Rightarrow> bool) \<Rightarrow> (nat \<Rightarrow> bool) \<Rightarrow> nat \<Rightarrow> tl2_pc \<Rightarrow> bool" where
  "pc_sim L tx vals held rel cv TIdle \<longleftrightarrow> True"
| "pc_sim L tx vals held rel cv (TGuard a dt) \<longleftrightarrow> L a dt \<and> tl_lookup (tl_write_set tx, bloom_filter tx) a dt = Miss"
| "pc_sim L tx vals held rel cv (TData a dt i v) \<longleftrightarrow> L a dt \<and> tl_lookup (tl_write_set tx, bloom_filter tx) a dt = Miss \<and>
    i \<le> type_size dt \<and> (\<exists>rs re. tl_read_set tx = rs @ [re] \<and> length rs = length vals \<and> data_addr re = a \<and> re_dtype re = dt)"
| "pc_sim L tx vals held rel cv (TLock es) \<longleftrightarrow> suffix_of es (tl_write_set tx) {e. held (gidx e)}"
| "pc_sim L tx vals held rel cv (TCas g es) \<longleftrightarrow> suffix_of es (tl_write_set tx) {e. held (gidx e)} \<and> es \<noteq> [] \<and> \<not> guard_locked g"
| "pc_sim L tx vals held rel cv (TUndo es) \<longleftrightarrow> (\<forall>g. held g \<longrightarrow> g \<in> gidx ` set es)"
| "pc_sim L tx vals held rel cv (TValidate rs) \<longleftrightarrow> suffix_of rs (tl_read_set tx) UNIV \<and>
    suffix_of [] (tl_write_set tx) {e. held (gidx e)} \<and> cv = unat (commit_version tx) \<and> cv < 2 ^ 63"
| "pc_sim L tx vals held rel cv (TWriteBack bs) \<longleftrightarrow> suffix_of [] (tl_write_set tx) {e. held (gidx e)} \<and> cv = unat (commit_version tx) \<and> cv < 2 ^ 63"
| "pc_sim L tx vals held rel cv (TRelease es) \<longleftrightarrow> suffix_of [] (tl_write_set tx) {e. held (gidx e)} \<and> cv = unat (commit_version tx) \<and> cv < 2 ^ 63 \<and>
    suffix_of es (tl_write_set tx) {e. rel (gidx e)}"

definition owns :: "(nat \<Rightarrow> bool) \<Rightarrow> (nat \<Rightarrow> bool) \<Rightarrow> tl2_pc \<Rightarrow> nat \<Rightarrow> bool" where
  "owns held rel pc g \<longleftrightarrow> committing pc \<and> held g \<and> (\<forall>es. pc = TRelease es \<longrightarrow> \<not> rel g)"

lemma owns_simps [simp]:
  "owns held rel TIdle = (\<lambda>_. False)" "owns held rel (TGuard a dt) = (\<lambda>_. False)"
  "owns held rel (TData a dt i v) = (\<lambda>_. False)" "owns held rel (TLock es) = held"
  "owns held rel (TCas c es) = held" "owns held rel (TUndo es) = held" "owns held rel (TValidate rs) = held"
  "owns held rel (TWriteBack bs) = held" "owns held rel (TRelease es) = (\<lambda>g. held g \<and> \<not> rel g)"
  by (auto simp: owns_def fun_eq_iff)

definition logged_reads :: "TL2_Transaction \<Rightarrow> u64 list \<Rightarrow> (addr \<times> ValueType \<times> u64) list" where
  "logged_reads tx vals = map2 (\<lambda>re v. (data_addr re, re_dtype re, v)) (tl_read_set tx) vals"

definition tsim :: "(addr \<Rightarrow> ValueType \<Rightarrow> bool) \<Rightarrow> TL2_Transaction \<Rightarrow> tl2_pc \<Rightarrow> u64 list \<Rightarrow> op list \<Rightarrow> (nat \<Rightarrow> bool) \<Rightarrow> (nat \<Rightarrow> bool) \<Rightarrow>
    vphase \<Rightarrow> vread list \<Rightarrow> cell list \<Rightarrow> nat \<Rightarrow> (nat \<Rightarrow> bool) \<Rightarrow> bool" where
  "tsim L tx pc vals ps held rel ph rds cells cv own \<longleftrightarrow>
    ph = phase tx pc \<and> own = owns held rel pc \<and> pc_sim L tx vals held rel cv pc \<and>
    (pc \<noteq> TIdle \<longrightarrow> tl_active tx) \<and>
    rds = (if tl_active tx then map2 read_of (tl_read_set tx) vals else []) \<and>
    (\<forall>re \<in> set (tl_read_set tx). guard_addr re = get_guard_idx (data_addr re)) \<and>
    ((\<forall>a dt i v. pc \<noteq> TData a dt i v) \<longrightarrow> length vals = length (tl_read_set tx)) \<and>
    (committing pc \<longrightarrow> cells = map cell_of (tl_write_set tx) \<and> (\<forall>g. held g \<longrightarrow> g \<in> gidx ` set (tl_write_set tx)) \<and>
      explains (logged_reads tx vals) (apply_cells (map cell_of (tl_write_set tx))) ps) \<and>
    (tl_active tx \<and> \<not> committing pc \<longrightarrow> tl_ok L (tl_write_set tx, bloom_filter tx) \<and>
      explains (logged_reads tx vals) (tl_effect (tl_write_set tx, bloom_filter tx)) ps)"

definition gsim :: "tl2_state \<Rightarrow> op list vstate \<Rightarrow> bool" where
  "gsim s v \<longleftrightarrow> vmem v = tmem s \<and> vclock v = unat (g_clock s) \<and> vlog v = sort_key ve_ver (tl_log s) \<and>
    (\<forall>g. vver v g = unat (guard_version (g_guards s g))) \<and>
    (\<forall>g. guard_locked (g_guards s g) \<longleftrightarrow> vowner v g \<noteq> None) \<and>
    (\<forall>d \<in> set (tl_log s). explains (ve_reads d) (apply_cells (ve_cells d)) (ve_info d))"

definition tsims :: "(addr \<Rightarrow> ValueType \<Rightarrow> bool) \<Rightarrow> tl2_state \<Rightarrow> op list vstate \<Rightarrow> nat \<Rightarrow> bool" where
  "tsims L s v t \<longleftrightarrow> tsim L (tl_txs s t) (tl_pcs s t) (tl_vals s t) (tl_ops s t) (held_guard s t) (released_guard s t)
     (vph v t) (vreads v t) (vcells v t) (vcv v t) (\<lambda>g. vowner v g = Some t)"

definition sim :: "(addr \<Rightarrow> ValueType \<Rightarrow> bool) \<Rightarrow> tl2_state \<Rightarrow> op list vstate \<Rightarrow> bool" where
  "sim L s v \<longleftrightarrow> gsim s v \<and> (\<forall>t. tsims L s v t)"

lemma simI:
  assumes "sim L s v" and "gsim s' v'" and "tsims L s' v' t"
    and "\<And>u. u \<noteq> t \<Longrightarrow> tl_txs s' u = tl_txs s u \<and> tl_pcs s' u = tl_pcs s u \<and> tl_vals s' u = tl_vals s u \<and> tl_ops s' u = tl_ops s u \<and>
      held_guard s' u = held_guard s u \<and> released_guard s' u = released_guard s u \<and>
      vph v' u = vph v u \<and> vreads v' u = vreads v u \<and> vcells v' u = vcells v u \<and> vcv v' u = vcv v u"
    and "\<And>u g. u \<noteq> t \<Longrightarrow> (vowner v' g = Some u) = (vowner v g = Some u)"
  shows "sim L s' v'"
proof -
  have "tsims L s' v' u" for u
  proof (cases "u = t")
    case False
    then show ?thesis using assms(1) assms(4,5) [OF False] by (simp add: sim_def tsims_def)
  qed (use assms(3) in simp)
  then show ?thesis using assms(2) by (simp add: sim_def)
qed

definition simulated :: "(addr \<Rightarrow> ValueType \<Rightarrow> bool) \<Rightarrow> op list vstate \<Rightarrow> tl2_state \<Rightarrow> bool" where
  "simulated L v s' \<longleftrightarrow> (\<exists>v'. (vstep get_guard_idx L)\<^sup>=\<^sup>= v v' \<and> sim L s' v')"

lemma simulated_same: "sim L s' v \<Longrightarrow> simulated L v s'"
  by (auto simp: simulated_def)

lemma simulated_step: "vstep get_guard_idx L v v' \<Longrightarrow> sim L s' v' \<Longrightarrow> simulated L v s'"
  by (auto simp: simulated_def)

lemmas tl_upd = tl_set_pc_def tl_set_tx_def tl_add_op_def

lemma simD:
  assumes "sim L s v"
  shows "gsim s v" "tsim L (tl_txs s t) (tl_pcs s t) (tl_vals s t) (tl_ops s t) (held_guard s t) (released_guard s t)
     (vph v t) (vreads v t) (vcells v t) (vcv v t) (\<lambda>g. vowner v g = Some t)"
  using assms by (simp_all add: sim_def tsims_def)

lemma own_iff:
  assumes "sim L s v"
  shows "vowner v g = Some t \<longleftrightarrow> owns (held_guard s t) (released_guard s t) (tl_pcs s t) g"
  using simD(2) [OF assms, of t] by (simp add: tsim_def fun_eq_iff)

lemma zip_snoc_extra: "length xs = length ys \<Longrightarrow> zip (xs @ [x]) ys = zip xs ys"
  by (simp add: zip_append1)

subsection \<open>Calls\<close>

lemma sim_begin:
  assumes sim: "sim L s v" and pc: "tl_pcs s t = TIdle"
  shows "simulated L v (tl_begin t s)"
proof (rule simulated_step)
  note T = simD(2) [OF sim, of t]
  have ph: "vph v t = PBody" using T pc by (simp add: tsim_def)
  let ?v = "v\<lparr>vreads := (vreads v)(t := [])\<rparr>"
  show "vstep get_guard_idx L v ?v" using v_reset [OF ph] .
  show "sim L (tl_begin t s) ?v"
  proof (rule simI [OF sim])
    show "gsim (tl_begin t s) ?v" using simD(1) [OF sim] by (simp add: gsim_def tl_begin_def tl_upd)
    show "tsims L (tl_begin t s) ?v t"
      using T pc tl2_ws.explains_empty tl2_ws.empty_log by (simp add: tsims_def tsim_def tl_begin_def tl_upd logged_reads_def)
  qed (simp_all add: tl_begin_def tl_upd)
qed


lemma tl_lookup_no_assert: "tl_lookup wb a dt \<noteq> AssertFail"
  by (simp add: tl_lookup_def split: option.splits)

lemma sim_fail: "sim L s v \<Longrightarrow> sim L (s\<lparr>tl_failed := True\<rparr>) v"
  by (simp add: sim_def gsim_def tsims_def)

lemma sim_read_call:
  assumes lay: "layout_ok L" and sim: "sim L s v" and pc: "tl_pcs s t = TIdle" and L: "L a dt" and tr: "tracked a"
  shows "sim L (tl_read_call tracked t a dt s) v"
proof -
  note T = simD(2) [OF sim, of t] and G = simD(1) [OF sim]
  let ?tx = "tl_txs s t"
  show ?thesis
  proof (cases "tl_active ?tx")
    case True
    have ok: "tl_ok L (tl_write_set ?tx, bloom_filter ?tx)"
      and ex: "explains (logged_reads ?tx (tl_vals s t)) (tl_effect (tl_write_set ?tx, bloom_filter ?tx)) (tl_ops s t)"
      using T True pc by (simp_all add: tsim_def)
    show ?thesis
    proof (cases "tl_lookup (tl_write_set ?tx, bloom_filter ?tx) a dt")
      case (Hit w)
      have r: "tl_read_call tracked t a dt s = tl_add_op t (Rd a dt w) s" using True tr Hit by (simp add: tl_read_call_def)
      have "explains (logged_reads ?tx (tl_vals s t)) (tl_effect (tl_write_set ?tx, bloom_filter ?tx)) (tl_ops s t @ [Rd a dt w])"
        using tl2_ws.explains_hit [OF lay ok L Hit ex] tl_lookup_return [OF Hit] by simp
      then show ?thesis
        unfolding r by (intro simI [OF sim, of _ _ t]) (use T G pc in \<open>simp_all add: tl_upd gsim_def tsims_def tsim_def\<close>)
    next
      case Miss
      then have r: "tl_read_call tracked t a dt s = tl_set_pc t (TGuard a dt) s" using True tr by (simp add: tl_read_call_def)
      show ?thesis
        unfolding r by (intro simI [OF sim, of _ _ t])
          (use T G pc L Miss True in \<open>simp_all add: tl_upd gsim_def tsims_def tsim_def\<close>)
    qed (use tl_lookup_no_assert in blast)
  qed (use sim_fail [OF sim] in \<open>simp add: tl_read_call_def\<close>)
qed

lemma sim_write_call:
  assumes lay: "layout_ok L" and sim: "sim L s v" and pc: "tl_pcs s t = TIdle" and L: "L a dt" and tr: "tracked a"
  shows "sim L (tl_write_call tracked t a val dt s) v"
proof -
  note T = simD(2) [OF sim, of t] and G = simD(1) [OF sim]
  let ?tx = "tl_txs s t"
  show ?thesis
  proof (cases "tl_active ?tx")
    case True
    have ok: "tl_ok L (tl_write_set ?tx, bloom_filter ?tx)"
      and ex: "explains (logged_reads ?tx (tl_vals s t)) (tl_effect (tl_write_set ?tx, bloom_filter ?tx)) (tl_ops s t)"
      using T True pc by (simp_all add: tsim_def)
    obtain ws bf where w: "write_impl (tl_write_set ?tx, bloom_filter ?tx) a val dt = (ws, bf)"
      by (cases "write_impl (tl_write_set ?tx, bloom_filter ?tx) a val dt")
    have r: "tl_write_call tracked t a val dt s =
        tl_add_op t (Wr a dt val) (tl_set_tx t (?tx\<lparr>tl_write_set := ws, bloom_filter := bf\<rparr>) s)"
      using True tr w by (simp add: tl_write_call_def)
    have "tl_ok L (ws, bf)" using tl2_ws.write_invar [OF lay ok L, of val] w by simp
    moreover have "explains (logged_reads ?tx (tl_vals s t)) (tl_effect (ws, bf)) (tl_ops s t @ [Wr a dt val])"
      using tl2_ws.explains_write [OF lay ok L _ ex, of val] w by simp
    ultimately show ?thesis
      unfolding r by (intro simI [OF sim, of _ _ t]) (use T G pc in \<open>simp_all add: tl_upd gsim_def tsims_def tsim_def logged_reads_def\<close>)
  qed (use sim_fail [OF sim] in \<open>simp add: tl_write_call_def\<close>)
qed

lemma sim_abort:
  assumes sim: "sim L s v" and pc: "tl_pcs s t = TIdle"
  shows "simulated L v (tl_abort t s)"
proof (rule simulated_step)
  note T = simD(2) [OF sim, of t] and G = simD(1) [OF sim]
  have ph: "vph v t = PBody" using T pc by (simp add: tsim_def)
  show "vstep get_guard_idx L v (v\<lparr>vreads := (vreads v)(t := [])\<rparr>)" using v_reset [OF ph] .
  show "sim L (tl_abort t s) (v\<lparr>vreads := (vreads v)(t := [])\<rparr>)"
    by (intro simI [OF sim, of _ _ t]) (use T G pc in \<open>simp_all add: tl_abort_def tl_upd gsim_def tsims_def tsim_def\<close>)
qed

lemma sim_commit_call:
  assumes lay: "layout_ok L" and sim: "sim L s v" and pc: "tl_pcs s t = TIdle"
  shows "simulated L v (tl_commit_call t s)"
proof -
  note T = simD(2) [OF sim, of t] and G = simD(1) [OF sim]
  let ?tx = "tl_txs s t"
  let ?ws = "sorted_ws (tl_write_set ?tx)"
  have ph: "vph v t = PBody" using T pc by (simp add: tsim_def)
  show ?thesis
  proof (cases "tl_active ?tx")
    case False
    then show ?thesis using simulated_same [OF sim] by (simp add: tl_commit_call_def)
  next
    case act: True
    show ?thesis
    proof (cases "tl_write_set ?tx = []")
      case True
      let ?s = "tl_set_tx t (?tx\<lparr>tl_active := False\<rparr>) (s\<lparr>tl_ro := tl_ro s @ [tl_ops s t]\<rparr>)"
      have r: "tl_commit_call t s = ?s" using act True by (simp add: tl_commit_call_def)
      have "sim L ?s (v\<lparr>vreads := (vreads v)(t := [])\<rparr>)"
        by (intro simI [OF sim, of _ _ t]) (use T G pc in \<open>simp_all add: tl_upd gsim_def tsims_def tsim_def\<close>)
      then show ?thesis unfolding r by (rule simulated_step [OF v_reset [OF ph]])
    next
      case False
      let ?v = "v\<lparr>vph := (vph v)(t := PLock), vcells := (vcells v)(t := map cell_of ?ws)\<rparr>"
      let ?s = "tl_set_pc t (TLock ?ws) (tl_set_tx t (?tx\<lparr>tl_write_set := ?ws\<rparr>) (s\<lparr>held_guard := (held_guard s)(t := \<lambda>_. False)\<rparr>))"
      have r: "tl_commit_call t s = ?s" using act False by (simp add: tl_commit_call_def Let_def)
      have ok: "cells_ok L (map cell_of (tl_write_set ?tx))" using T act pc by (simp add: tsim_def tl_ok_def)
      have ms: "mset (map cell_of ?ws) = mset (map cell_of (tl_write_set ?tx))" by (simp add: sorted_ws_sort)
      have ok': "cells_ok L (map cell_of ?ws)" using ok cells_ok_mset [OF ms] by blast
      have "tl_effect (tl_write_set ?tx, bloom_filter ?tx) = apply_cells (map cell_of ?ws)"
        using apply_cells_perm [OF lay ok' ms] tl_effect_cells [OF lay ok] by (intro ext) metis
      then have ex: "explains (logged_reads ?tx (tl_vals s t)) (apply_cells (map cell_of ?ws)) (tl_ops s t)"
        using T act pc by (simp add: tsim_def)
      have "sim L ?s ?v"
        by (intro simI [OF sim, of _ _ t])
          (use T G pc act ex in \<open>simp_all add: tl_upd gsim_def tsims_def tsim_def logged_reads_def suffix_of_def\<close>)
      then show ?thesis unfolding r by (rule simulated_step [OF v_start [OF ph ok']])
    qed
  qed
qed


subsection \<open>Steps\<close>

lemmas sim_simps = tl_upd gsim_def tsims_def tsim_def

lemma sim_guard:
  assumes sim: "sim L s v" and pc: "tl_pcs s t = TGuard a dt"
  shows "simulated L v (tl2_run t s)"
proof (rule simulated_step)
  note T = simD(2) [OF sim, of t] and G = simD(1) [OF sim]
  let ?v = "v\<lparr>vph := (vph v)(t := PRead a dt (vver v (get_guard_idx a)) 0 0)\<rparr>"
  show "vstep get_guard_idx L v ?v" using T pc by (intro v_read) (simp_all add: tsim_def)
  show "sim L (tl2_run t s) ?v"
    by (intro simI [OF sim, of _ _ t])
      (use T G pc in \<open>simp_all add: tl2_run_def sim_simps logged_reads_def zip_snoc_extra Let_def\<close>)
qed

lemma sim_data:
  assumes lay: "layout_ok L" and sim: "sim L s v" and pc: "tl_pcs s t = TData a dt i w"
  shows "simulated L v (tl2_run t s)"
proof -
  note T = simD(2) [OF sim, of t] and G = simD(1) [OF sim]
  let ?tx = "tl_txs s t"
  obtain rs re where re: "tl_read_set ?tx = rs @ [re]" "length rs = length (tl_vals s t)" "data_addr re = a" "re_dtype re = dt"
    using T pc by (auto simp: tsim_def)
  have ph: "vph v t = PRead a dt (unat (re_version re)) i w" using T pc re by (simp add: tsim_def)
  have i: "i \<le> type_size dt" using T pc by (simp add: tsim_def)
  show ?thesis
  proof (cases "i < type_size dt")
    case True
    let ?v = "v\<lparr>vph := (vph v)(t := PRead a dt (unat (re_version re)) (Suc i) (add_byte (vmem v) a i w))\<rparr>"
    have "sim L (tl2_run t s) ?v"
      by (intro simI [OF sim, of _ _ t])
        (use T G pc re True in \<open>simp_all add: tl2_run_def sim_simps\<close>)
    then show ?thesis by (rule simulated_step [OF v_byte [OF ph True]])
  next
    case False
    let ?v = "v\<lparr>vph := (vph v)(t := PBody), vreads := (vreads v)(t := vreads v t @
        [\<lparr>vr_addr = a, vr_type = dt, vr_ver = unat (re_version re), vr_val = w\<rparr>])\<rparr>"
    have L: "L a dt" and act: "tl_active ?tx" and ok: "tl_ok L (tl_write_set ?tx, bloom_filter ?tx)"
      and miss: "tl_lookup (tl_write_set ?tx, bloom_filter ?tx) a dt = Miss"
      and ex: "explains (logged_reads ?tx (tl_vals s t)) (tl_effect (tl_write_set ?tx, bloom_filter ?tx)) (tl_ops s t)"
      using T pc by (simp_all add: tsim_def)
    have "logged_reads ?tx (tl_vals s t @ [w]) = logged_reads ?tx (tl_vals s t) @ [(a, dt, w)]"
      using re by (simp add: logged_reads_def zip_snoc_extra)
    with tl2_ws.explains_miss [OF lay ok L miss ex, of w]
    have "explains (logged_reads ?tx (tl_vals s t @ [w])) (tl_effect (tl_write_set ?tx, bloom_filter ?tx))
        (tl_ops s t @ [Rd a dt (from_word dt (to_word dt w))])" by (simp add: from_word_def to_word_def)
    then have "sim L (tl2_run t s) ?v"
      by (intro simI [OF sim, of _ _ t])
        (use T G pc re act False in \<open>simp_all add: tl2_run_def sim_simps zip_snoc_extra read_of_def\<close>)
    moreover have "i = type_size dt" using i False by simp
    ultimately show ?thesis using simulated_step [OF v_read_done [OF ph]] by blast
  qed
qed


lemma sim_lock:
  assumes sim: "sim L s v" and pc: "tl_pcs s t = TLock (e # es)"
  shows "simulated L v (tl2_run t s)"
proof -
  note T = simD(2) [OF sim, of t] and G = simD(1) [OF sim]
  let ?g = "get_guard_idx (e_addr e)"
  have ph: "vph v t = PLock" using T pc by (simp add: tsim_def)
  consider "held_guard s t ?g" | "\<not> held_guard s t ?g" "guard_locked (g_guards s ?g)" | "\<not> held_guard s t ?g" "\<not> guard_locked (g_guards s ?g)"
    by blast
  then show ?thesis
  proof cases
    case 1
    have "suffix_of es (tl_write_set (tl_txs s t)) {e. held_guard s t (gidx e)}"
      using T pc 1 by - (rule suffix_of_Cons [of e], simp_all add: tsim_def)
    then have "sim L (tl2_run t s) v"
      by (intro simI [OF sim, of _ _ t]) (use T G pc 1 in \<open>simp_all add: tl2_run_def sim_simps\<close>)
    then show ?thesis by (rule simulated_same)
  next
    case 2
    then have "sim L (tl2_run t s) (v\<lparr>vph := (vph v)(t := PUndo)\<rparr>)"
      by (intro simI [OF sim, of _ _ t]) (use T G pc in \<open>simp_all add: tl2_run_def sim_simps\<close>)
    then show ?thesis by (rule simulated_step [OF v_fail [OF disjI1 [OF ph]]])
  next
    case 3
    then have "sim L (tl2_run t s) v"
      by (intro simI [OF sim, of _ _ t]) (use T G pc in \<open>simp_all add: tl2_run_def sim_simps\<close>)
    then show ?thesis by (rule simulated_same)
  qed
qed

lemma sim_cas:
  assumes sim: "sim L s v" and pc: "tl_pcs s t = TCas c es"
  shows "simulated L v (tl2_run t s)"
proof -
  note T = simD(2) [OF sim, of t] and G = simD(1) [OF sim]
  obtain e es' where es: "es = e # es'" using T pc by (cases es) (simp_all add: tsim_def)
  let ?g = "get_guard_idx (e_addr e)"
  have ph: "vph v t = PLock" using T pc by (simp add: tsim_def)
  consider "g_guards s ?g = c" | "g_guards s ?g \<noteq> c" "guard_locked (g_guards s ?g)" | "g_guards s ?g \<noteq> c" "\<not> guard_locked (g_guards s ?g)"
    by blast
  then show ?thesis
  proof cases
    case 1
    have free: "vowner v ?g = None" using G T pc 1 by (auto simp: gsim_def tsim_def)
    let ?v = "v\<lparr>vowner := (vowner v)(?g := Some t)\<rparr>"
    have suf: "suffix_of (e # es') (tl_write_set (tl_txs s t)) {e. held_guard s t (gidx e)}" using T pc es by (simp add: tsim_def)
    then have e: "e \<in> set (tl_write_set (tl_txs s t))" by (auto simp: suffix_of_def)
    have own: "(\<lambda>g. vowner v g = Some t) = held_guard s t" using T pc by (simp add: tsim_def)
    have "suffix_of es' (tl_write_set (tl_txs s t)) {e. ((held_guard s t)(?g := True)) (gidx e)}"
      by (rule suffix_of_Cons [OF suffix_of_mono [OF suf]]) auto
    moreover have "(\<lambda>g. ((vowner v)(?g := Some t)) g = Some t) = (held_guard s t)(?g := True)"
      using own by (auto simp: fun_eq_iff)
    moreover have r: "tl2_run t s = tl_set_pc t (TLock es') (s\<lparr>g_guards := (g_guards s)(?g := guard_lock c),
        held_guard := (held_guard s)(t := (held_guard s t)(?g := True))\<rparr>)"
      using pc es 1 by (simp add: tl2_run_def Let_def)
    ultimately have tt: "tsims L (tl2_run t s) ?v t"
      using T pc es e by (simp add: tl_upd tsims_def tsim_def)
    have "sim L (tl2_run t s) ?v"
    proof (rule simI [OF sim _ tt])
      show "gsim (tl2_run t s) ?v" using G 1 unfolding r by (simp add: gsim_def tl_upd)
    qed (use free in \<open>auto simp: r tl_upd\<close>)
    then show ?thesis by (rule simulated_step [OF v_lock [OF ph free]])
  next
    case 2
    then have "sim L (tl2_run t s) (v\<lparr>vph := (vph v)(t := PUndo)\<rparr>)"
      by (intro simI [OF sim, of _ _ t]) (use T G pc es in \<open>simp_all add: tl2_run_def sim_simps\<close>)
    then show ?thesis by (rule simulated_step [OF v_fail [OF disjI1 [OF ph]]])
  next
    case 3
    then have "sim L (tl2_run t s) v"
      by (intro simI [OF sim, of _ _ t]) (use T G pc es in \<open>simp_all add: tl2_run_def sim_simps\<close>)
    then show ?thesis by (rule simulated_same)
  qed
qed

lemma sim_clock:
  assumes sim: "sim L s v" and pc: "tl_pcs s t = TLock []" and b: "unat (g_clock s) + 1 < 2 ^ 63"
  shows "simulated L v (tl2_run t s)"
proof (rule simulated_step)
  note T = simD(2) [OF sim, of t] and G = simD(1) [OF sim]
  let ?v = "v\<lparr>vclock := Suc (vclock v), vcv := (vcv v)(t := Suc (vclock v)), vph := (vph v)(t := PVal 0)\<rparr>"
  have u: "unat (g_clock s + 1) = Suc (unat (g_clock s))" using b by (simp add: unat_word_ariths)
  have own: "vowner v g = Some t \<longleftrightarrow> held_guard s t g" for g using own_iff [OF sim, of g t] pc by simp
  show "vstep get_guard_idx L v ?v"
    using T pc own by (intro v_inc) (auto simp: tsim_def cell_of_def)
  have r: "tl2_run t s = tl_set_pc t (TValidate (tl_read_set (tl_txs s t)))
      (tl_set_tx t ((tl_txs s t)\<lparr>commit_version := g_clock s + 1\<rparr>) (s\<lparr>g_clock := g_clock s + 1\<rparr>))"
    using pc by (simp add: tl2_run_def Let_def)
  show "sim L (tl2_run t s) ?v"
  proof (rule simI [OF sim, of _ _ t])
    show "gsim (tl2_run t s) ?v" using G u unfolding r by (simp add: gsim_def tl_upd)
    show "tsims L (tl2_run t s) ?v t" using T G pc b u unfolding r by (simp add: gsim_def tsims_def tsim_def tl_upd logged_reads_def)
  qed (simp_all add: r tl_upd)
qed

lemma sim_undo:
  assumes sim: "sim L s v" and pc: "tl_pcs s t = TUndo es"
  shows "simulated L v (tl2_run t s)"
proof (cases es)
  note T = simD(2) [OF sim, of t] and G = simD(1) [OF sim]
  have ph: "vph v t = PUndo" using T pc by (simp add: tsim_def)
  have own: "vowner v g = Some t \<longleftrightarrow> held_guard s t g" for g using own_iff [OF sim, of g t] pc by simp
  {
    case Nil
    let ?v = "v\<lparr>vph := (vph v)(t := PBody), vreads := (vreads v)(t := [])\<rparr>"
    have none: "\<not> held_guard s t g" for g using T pc Nil by (auto simp: tsim_def)
    have "sim L (tl2_run t s) ?v"
      by (intro simI [OF sim, of _ _ t]) (use T G pc Nil own none in \<open>simp_all add: tl2_run_def sim_simps\<close>)
    moreover have "vstep get_guard_idx L v ?v" using own none ph by (intro v_undone) simp_all
    ultimately show ?thesis by (rule simulated_step [rotated])
  next
    case (Cons e es')
    let ?g = "get_guard_idx (e_addr e)"
    show ?thesis
    proof (cases "held_guard s t ?g")
      case True
      let ?v = "v\<lparr>vowner := (vowner v)(?g := None)\<rparr>"
      have "(\<lambda>g. ((vowner v)(?g := None)) g = Some t) = (held_guard s t)(?g := False)"
        using own by (auto simp: fun_eq_iff)
      moreover have vo: "vowner v ?g = Some t" using own True by simp
      moreover have r: "tl2_run t s = tl_set_pc t (TUndo es') (s\<lparr>g_guards := (g_guards s)(?g := guard_unlock (g_guards s ?g)),
          held_guard := (held_guard s)(t := (held_guard s t)(?g := False))\<rparr>)"
        using pc Cons True by (simp add: tl2_run_def Let_def)
      ultimately have tt: "tsims L (tl2_run t s) ?v t"
        using T pc Cons True by (simp add: tl_upd tsims_def tsim_def) blast
      have "sim L (tl2_run t s) ?v"
      proof (rule simI [OF sim _ tt])
        show "gsim (tl2_run t s) ?v" using G unfolding r by (simp add: gsim_def tl_upd)
      qed (use vo in \<open>simp_all add: r tl_upd\<close>)
      then show ?thesis by (rule simulated_step [OF v_undo [OF ph vo]])
    next
      case False
      have "held_guard s t g \<longrightarrow> g \<in> gidx ` set es'" for g using T pc Cons False by (auto simp: tsim_def)
      moreover have r: "tl2_run t s = tl_set_pc t (TUndo es') s" using pc Cons False by (simp add: tl2_run_def Let_def)
      ultimately have "sim L (tl2_run t s) v"
        by (intro simI [OF sim, of _ _ t]) (use T G pc in \<open>simp_all add: r sim_simps\<close>)
      then show ?thesis by (rule simulated_same)
    qed
  }
qed


lemma sim_validate:
  assumes sim: "sim L s v" and pc: "tl_pcs s t = TValidate (re # rs)"
  shows "simulated L v (tl2_run t s)"
proof -
  note T = simD(2) [OF sim, of t] and G = simD(1) [OF sim]
  let ?tx = "tl_txs s t" and ?g = "guard_addr re"
  obtain ds where ds: "tl_read_set ?tx = ds @ re # rs" using T pc by (auto simp: tsim_def suffix_of_def)
  have ph: "vph v t = PVal (length ds)" using T pc ds by (simp add: tsim_def)
  have own: "vowner v g = Some t \<longleftrightarrow> held_guard s t g" for g using own_iff [OF sim, of g t] pc by simp
  show ?thesis
  proof (cases "guard_locked (g_guards s ?g) \<and> \<not> held_guard s t ?g \<or> guard_version (g_guards s ?g) \<noteq> re_version re")
    case True
    then have r: "tl2_run t s = tl_set_pc t (TUndo (tl_write_set ?tx)) s" using pc by (simp add: tl2_run_def Let_def)
    have "sim L (tl2_run t s) (v\<lparr>vph := (vph v)(t := PUndo)\<rparr>)"
      by (intro simI [OF sim, of _ _ t]) (use T G pc in \<open>simp_all add: r sim_simps\<close>)
    then show ?thesis by (rule simulated_step [OF v_fail [OF disjI2 [OF ph]]])
  next
    case False
    then have r: "tl2_run t s = tl_set_pc t (TValidate rs) s" using pc by (auto simp: tl2_run_def Let_def)
    have suf: "suffix_of rs (tl_read_set ?tx) UNIV" using ds by (auto simp: suffix_of_def intro: exI [of _ "ds @ [re]"])
    have len: "length (tl_vals s t) = length (tl_read_set ?tx)" and act: "tl_active ?tx"
      and rds: "vreads v t = map2 read_of (tl_read_set ?tx) (tl_vals s t)"
      and g: "?g = get_guard_idx (data_addr re)"
      using T pc ds by (auto simp: tsim_def)
    let ?r = "vreads v t ! length ds"
    have n: "length ds < length (vreads v t)" using rds len ds by simp
    have "?r = read_of re (tl_vals s t ! length ds)" using rds len ds by simp
    then have rr: "vr_addr ?r = data_addr re" "vr_ver ?r = unat (re_version re)" by (simp_all add: read_of_def)
    have "vver v ?g = unat (re_version re)" using G False by (simp add: gsim_def)
    moreover have "vowner v ?g = None \<or> vowner v ?g = Some t" using G own False by (auto simp: gsim_def)
    ultimately have st: "vstep get_guard_idx L v (v\<lparr>vph := (vph v)(t := PVal (Suc (length ds)))\<rparr>)"
      by (intro v_validate [OF ph n refl]) (simp_all add: rr g)
    have "sim L (tl2_run t s) (v\<lparr>vph := (vph v)(t := PVal (Suc (length ds)))\<rparr>)"
      by (intro simI [OF sim, of _ _ t]) (use T G pc suf ds in \<open>simp_all add: r sim_simps\<close>)
    then show ?thesis by (rule simulated_step [OF st])
  qed
qed

lemma read_cells_of: "read_cells (map2 read_of rs vs) = map2 (\<lambda>re v. (data_addr re, re_dtype re, v)) rs vs"
  by (simp add: read_cells_def read_of_def comp_def split_beta)

lemma cell_bytes_tl: "cell_bytes (map cell_of ws) = tl_bytes ws"
  by (simp add: cell_bytes_def tl_bytes_def cell_of_def comp_def)

lemma sim_committed:
  assumes sim: "sim L s v" and inv: "vinv get_guard_idx L m0 v" and pc: "tl_pcs s t = TValidate []"
  shows "simulated L v (tl2_run t s)"
proof -
  note T = simD(2) [OF sim, of t] and G = simD(1) [OF sim]
  let ?tx = "tl_txs s t"
  let ?c = "\<lparr>ve_ver = unat (commit_version ?tx), ve_reads = logged_reads ?tx (tl_vals s t),
    ve_cells = map cell_of (tl_write_set ?tx), ve_info = tl_ops s t\<rparr>"
  let ?v = "v\<lparr>vph := (vph v)(t := PWB (tl_bytes (tl_write_set ?tx))), vlog := log_insert ?c (vlog v)\<rparr>"
  have t: "vph v t = PVal (length (vreads v t))" "vcells v t = map cell_of (tl_write_set ?tx)" "vcv v t = unat (commit_version ?tx)"
    "read_cells (vreads v t) = logged_reads ?tx (tl_vals s t)"
    using T pc by (simp_all add: tsim_def read_cells_of logged_reads_def)
  have r: "tl2_run t s = tl_set_pc t (TWriteBack (tl_bytes (tl_write_set ?tx))) (s\<lparr>tl_log := tl_log s @ [?c]\<rparr>)"
    using pc by (simp add: tl2_run_def Let_def logged_reads_def)
  have st: "vstep get_guard_idx L v ?v" using v_commit [OF t(1) refl, of get_guard_idx L "tl_ops s t"] t by (simp add: cell_bytes_tl)
  have "\<forall>d \<in> set (vlog v). ve_ver d \<noteq> vcv v t"
    using vinvD(3) [OF inv] t(1) by (auto simp: inv_unique_def)
  then have "\<forall>d \<in> set (tl_log s). ve_ver d \<noteq> ve_ver ?c" using G t(3) by (simp add: gsim_def)
  from sort_log_insert [OF this] have "log_insert ?c (vlog v) = sort_key ve_ver (tl_log s @ [?c])"
    using G by (simp add: gsim_def)
  moreover have "explains (logged_reads ?tx (tl_vals s t)) (apply_cells (map cell_of (tl_write_set ?tx))) (tl_ops s t)"
    using T pc by (simp add: tsim_def)
  ultimately have g: "gsim (tl2_run t s) ?v" using G unfolding r by (simp add: gsim_def tl_upd del: sort_key_simps)
  have "sim L (tl2_run t s) ?v"
    by (rule simI [OF sim g, of t]) (use T pc in \<open>simp_all add: r tl_upd tsims_def tsim_def\<close>)
  then show ?thesis by (rule simulated_step [OF st])
qed

lemma sim_write_back:
  assumes sim: "sim L s v" and pc: "tl_pcs s t = TWriteBack bs"
  shows "simulated L v (tl2_run t s)"
proof (cases bs)
  note T = simD(2) [OF sim, of t] and G = simD(1) [OF sim]
  have ph: "vph v t = PWB bs" using T pc by (simp add: tsim_def)
  {
    case Nil
    let ?v = "v\<lparr>vph := (vph v)(t := PRel)\<rparr>"
    have "sim L (tl2_run t s) ?v"
      by (intro simI [OF sim, of _ _ t]) (use T G pc Nil in \<open>simp_all add: tl2_run_def sim_simps\<close>)
    then show ?thesis by (rule simulated_step [OF v_written [OF ph [unfolded Nil]]])
  next
    case (Cons p bs')
    obtain a b where p: "p = (a, b)" by (cases p)
    have "sim L (tl2_run t s) (v\<lparr>vmem := (vmem v)(a := b), vph := (vph v)(t := PWB bs')\<rparr>)"
      by (intro simI [OF sim, of _ _ t]) (use T G pc Cons p in \<open>simp_all add: tl2_run_def sim_simps\<close>)
    then show ?thesis by (rule simulated_step [OF v_write [OF ph [unfolded Cons p]]])
  }
qed

lemma sim_release:
  assumes sim: "sim L s v" and pc: "tl_pcs s t = TRelease es"
  shows "simulated L v (tl2_run t s)"
proof (cases es)
  note T = simD(2) [OF sim, of t] and G = simD(1) [OF sim]
  have ph: "vph v t = PRel" using T pc by (simp add: tsim_def)
  have own: "vowner v g = Some t \<longleftrightarrow> held_guard s t g \<and> \<not> released_guard s t g" for g
    using own_iff [OF sim, of g t] pc by simp
  {
    case Nil
    let ?v = "v\<lparr>vph := (vph v)(t := PBody), vreads := (vreads v)(t := [])\<rparr>"
    have none: "vowner v g \<noteq> Some t" for g using T pc Nil own by (auto simp: tsim_def)
    have "sim L (tl2_run t s) ?v"
      by (intro simI [OF sim, of _ _ t]) (use T G pc Nil none in \<open>simp_all add: tl2_run_def sim_simps\<close>)
    moreover have "vstep get_guard_idx L v ?v" using none ph by (intro v_undone) simp_all
    ultimately show ?thesis by (rule simulated_step [rotated])
  next
    case (Cons e es')
    let ?g = "get_guard_idx (e_addr e)"
    have suf: "suffix_of (e # es') (tl_write_set (tl_txs s t)) {e. released_guard s t (gidx e)}" using T pc Cons by (simp add: tsim_def)
    show ?thesis
    proof (cases "released_guard s t ?g")
      case True
      have "suffix_of es' (tl_write_set (tl_txs s t)) {e. released_guard s t (gidx e)}"
        using suf True by - (rule suffix_of_Cons [of e], simp_all)
      moreover have r: "tl2_run t s = tl_set_pc t (TRelease es') s" using pc Cons True by (simp add: tl2_run_def Let_def)
      ultimately have "sim L (tl2_run t s) v"
        by (intro simI [OF sim, of _ _ t]) (use T G pc in \<open>simp_all add: r sim_simps\<close>)
      then show ?thesis by (rule simulated_same)
    next
      case False
      let ?cv = "commit_version (tl_txs s t)"
      let ?v = "v\<lparr>vowner := (vowner v)(?g := None), vver := (vver v)(?g := vcv v t)\<rparr>"
      have cv: "vcv v t = unat ?cv" "unat ?cv < 2 ^ 63" using T pc by (simp_all add: tsim_def)
      have "e \<in> set (tl_write_set (tl_txs s t))" using suf by (auto simp: suffix_of_def)
      then have vo: "vowner v ?g = Some t" using own False T pc by (auto simp: tsim_def)
      have r: "tl2_run t s = tl_set_pc t (TRelease es')
          (s\<lparr>released_guard := (released_guard s)(t := (released_guard s t)(?g := True)),
             g_guards := (g_guards s)(?g := versioned_guard ?cv)\<rparr>)"
        using pc Cons False by (simp add: tl2_run_def Let_def)
      have "suffix_of es' (tl_write_set (tl_txs s t)) {e. ((released_guard s t)(?g := True)) (gidx e)}"
        by (rule suffix_of_Cons [OF suffix_of_mono [OF suf]]) auto
      moreover have "(\<lambda>g. ((vowner v)(?g := None)) g = Some t) = (\<lambda>g. held_guard s t g \<and> \<not> ((released_guard s t)(?g := True)) g)"
        using own by (auto simp: fun_eq_iff)
      ultimately have tt: "tsims L (tl2_run t s) ?v t"
        using T pc by (simp add: r tl_upd tsims_def tsim_def)
      have "sim L (tl2_run t s) ?v"
      proof (rule simI [OF sim _ tt])
        show "gsim (tl2_run t s) ?v" using G cv unfolding r by (simp add: gsim_def tl_upd)
      qed (use vo in \<open>simp_all add: r tl_upd\<close>)
      then show ?thesis by (rule simulated_step [OF v_release [OF ph vo]])
    qed
  }
qed


section \<open>Every execution is simulated\<close>

lemma sim_step:
  assumes lay: "layout_ok L" and tr: "\<forall>a dt. L a dt \<longrightarrow> tracked a" and sim: "sim L s v" and inv: "vinv get_guard_idx L m0 v"
    and st: "tl2_step tracked L s ev = Some s'" and b: "unat (g_clock s) + 1 < 2 ^ 63"
  shows "simulated L v s'"
proof (cases ev)
  case (LCall t c)
  have pc: "tl_pcs s t = TIdle" and ok: "tl_call_ok L c" and s': "s' = tl2_call tracked t c s"
    using st LCall by (auto split: if_splits)
  show ?thesis
  proof (cases c)
    case (LRead a dt)
    then show ?thesis using simulated_same [OF sim_read_call [OF lay sim pc, of a dt tracked]] ok tr s' by auto
  next
    case (LWrite a val dt)
    then show ?thesis using simulated_same [OF sim_write_call [OF lay sim pc, of a dt tracked val]] ok tr s' by auto
  qed (use sim_begin [OF sim pc] sim_commit_call [OF lay sim pc] sim_abort [OF sim pc] in \<open>simp_all add: s'\<close>)
next
  case (LRun t)
  have pc: "tl_pcs s t \<noteq> TIdle" and s': "s' = tl2_run t s" using st LRun by (auto split: if_splits)
  show ?thesis
  proof (cases "tl_pcs s t")
    case (TLock es)
    then show ?thesis using sim_lock [OF sim] sim_clock [OF sim _ b] by (cases es) (simp_all add: s')
  next
    case (TValidate rs)
    then show ?thesis using sim_validate [OF sim] sim_committed [OF sim inv] by (cases rs) (simp_all add: s')
  qed (use pc sim_guard [OF sim] sim_data [OF lay sim] sim_cas [OF sim] sim_undo [OF sim] sim_write_back [OF sim] sim_release [OF sim] in \<open>simp_all add: s'\<close>)
qed

lemma sim_init: "sim L (tl2_init m) (vinit m 1)"
  by (simp add: sim_def gsim_def tsims_def tsim_def tl2_init_def vinit_def tl_fresh_def guard_version_def guard_locked_def)

lemma exec_sim:
  assumes lay: "layout_ok L" and tr: "\<forall>a dt. L a dt \<longrightarrow> tracked a"
  shows "tl2_exec tracked L evs s = Some s' \<Longrightarrow> sim L s v \<Longrightarrow> vinv get_guard_idx L m0 v \<Longrightarrow>
    unat (g_clock s) + length evs < 2 ^ 63 \<Longrightarrow> \<exists>v'. (vstep get_guard_idx L)\<^sup>*\<^sup>* v v' \<and> sim L s' v'"
proof (induction evs arbitrary: s v)
  case (Cons ev evs)
  obtain s1 where s1: "tl2_step tracked L s ev = Some s1" "tl2_exec tracked L evs s1 = Some s'"
    using Cons.prems(1) by (auto split: option.splits)
  obtain v1 where v1: "(vstep get_guard_idx L)\<^sup>=\<^sup>= v v1" "sim L s1 v1"
    using sim_step [OF lay tr Cons.prems(2,3) s1(1)] Cons.prems(4) by (auto simp: simulated_def)
  have "vinv get_guard_idx L m0 v1" using v1(1) vinv_step [OF lay] Cons.prems(3) by auto
  moreover have "vclock v1 \<le> Suc (vclock v)" using v1(1) vclock_step by auto
  then have "unat (g_clock s1) \<le> Suc (unat (g_clock s))"
    using simD(1) [OF v1(2)] simD(1) [OF Cons.prems(2)] by (simp add: gsim_def)
  ultimately obtain v' where "(vstep get_guard_idx L)\<^sup>*\<^sup>* v1 v'" "sim L s' v'"
    using Cons.IH [OF s1(2) v1(2)] Cons.prems(4) by auto
  moreover have "(vstep get_guard_idx L)\<^sup>*\<^sup>* v v1" using v1(1) by auto
  ultimately show ?case using rtranclp_trans by metis
qed auto

lemma exec_init_sim:
  assumes "layout_ok L" "\<forall>a dt. L a dt \<longrightarrow> tracked a" "tl2_exec tracked L evs (tl2_init m) = Some s" "length evs < 2 ^ 62"
  shows "\<exists>v. (vstep get_guard_idx L)\<^sup>*\<^sup>* (vinit m 1) v \<and> sim L s v \<and> vinv get_guard_idx L m v"
proof -
  have "\<exists>v. (vstep get_guard_idx L)\<^sup>*\<^sup>* (vinit m 1) v \<and> sim L s v"
    by (rule exec_sim [OF assms(1,2,3) sim_init vinv_init]) (use assms(4) in \<open>simp add: tl2_init_def\<close>)
  then show ?thesis using vinv_steps [OF assms(1) _ vinv_init] by blast
qed

section \<open>Concrete runs\<close>

definition two_cells :: "addr \<Rightarrow> ValueType \<Rightarrow> bool" where
  "two_cells a t \<longleftrightarrow> (a = 0x200000 \<or> a = 0x200008) \<and> t = UINT8"

lemma two_cells_ok: "layout_ok two_cells"
  by (simp add: layout_ok_def two_cells_def disjoint_range_def)

text \<open>Thread 0 writes both cells and commits; thread 1, which had read before, fails its commit and repeats.\<close>

definition tl2_trace :: "tl2_event list" where
  "tl2_trace =
    [LCall 1 LBegin, LCall 1 (LRead 0x200000 UINT8), LRun 1, LRun 1, LRun 1, LCall 1 (LWrite 0x200000 1 UINT8),
     LCall 0 LBegin, LCall 0 (LRead 0x200008 UINT8), LRun 0, LRun 0, LRun 0,
     LCall 0 (LWrite 0x200008 1 UINT8), LCall 0 (LWrite 0x200000 1 UINT8), LCall 0 LCommit] @ replicate 13 (LRun 0) @
    [LCall 1 LCommit] @ replicate 6 (LRun 1) @
    [LCall 1 LBegin, LCall 1 (LRead 0x200000 UINT8), LRun 1, LRun 1, LRun 1, LCall 1 (LWrite 0x200000 2 UINT8), LCall 1 LCommit] @
    replicate 9 (LRun 1)"

definition tl2_demo :: tl2_state where
  "tl2_demo = the (tl2_exec (\<lambda>_. True) two_cells tl2_trace (tl2_init (\<lambda>_. 0)))"

lemma tl2_demo_runs:
  "case tl2_exec (\<lambda>_. True) two_cells tl2_trace (tl2_init (\<lambda>_. 0)) of None \<Rightarrow> False
   | Some s \<Rightarrow> map ve_ver (tl_log s) = [2, 4] \<and> tmem s 0x200000 = 2 \<and> tmem s 0x200008 = 1 \<and>
       \<not> guard_locked (g_guards s (get_guard_idx 0x200000))"
  by code_simp

lemma tl2_demo_props:
  "tl2_exec (\<lambda>_. True) two_cells tl2_trace (tl2_init (\<lambda>_. 0)) = Some tl2_demo"
  "map ve_ver (tl_log tl2_demo) = [2, 4]" "tmem tl2_demo 0x200000 = 2"
  "\<not> guard_locked (g_guards tl2_demo (get_guard_idx 0x200000))"
  using tl2_demo_runs by (auto simp: tl2_demo_def split: option.splits)

lemma tl2_trace_length: "length tl2_trace < 2 ^ 62"
  by (simp add: tl2_trace_def)

text \<open>A reader between whose two reads a writer commits.\<close>

definition tl2_skew :: "tl2_event list" where
  "tl2_skew =
    [LCall 1 LBegin, LCall 1 (LRead 0x200000 UINT8), LRun 1, LRun 1, LRun 1,
     LCall 0 LBegin, LCall 0 (LWrite 0x200000 1 UINT8), LCall 0 (LWrite 0x200008 1 UINT8), LCall 0 LCommit] @ replicate 12 (LRun 0) @
    [LCall 1 (LRead 0x200008 UINT8), LRun 1, LRun 1, LRun 1, LCall 1 LCommit]"

section \<open>Theorems\<close>

text \<open>
  C5. TL2 is serializable for update transactions. Take any interleaving of any number of threads at the
  granularity of single accesses to the clock, the guards and the data bytes. The committed update
  transactions, run one after the other in the order of their commit versions on the initial
  memory, return to the program exactly the values it read, and they leave in every cell whose guard
  is free the value that shared memory holds. (For programs that keep the layout discipline and
  executions of fewer than \<open>2^62\<close> steps, so that the clock does not wrap.)
\<close>

theorem tl2_serializable:
  assumes "layout_ok L" and "\<forall>a dt. L a dt \<longrightarrow> tracked a"
    and "tl2_exec tracked L evs (tl2_init m) = Some s" and "length evs < 2 ^ 62"
  shows "\<exists>m'. seq_run (concat (map ve_info (sort_key ve_ver (tl_log s)))) m = Some m' \<and>
    (\<forall>a dt. L a dt \<and> \<not> guard_locked (g_guards s (get_guard_idx a)) \<longrightarrow>
      read_value_from_addr (tmem s) a dt = read_value_from_addr m' a dt)"
proof -
  obtain v where v: "sim L s v" "vinv get_guard_idx L m v" using exec_init_sim [OF assms] by blast
  note G = simD(1) [OF v(1)] and D = vinvD [OF v(2)]
  let ?l = "sort_key ve_ver (tl_log s)"
  have l: "vlog v = ?l" using G by (simp add: gsim_def)
  have "seq_run (concat (map ve_info ?l)) m = Some (final_mem m ?l)"
    using serial_run [of m ?l "\<lambda>ps. ps"] D(11) G l by (simp add: gsim_def)
  moreover have "read_value_from_addr (tmem s) a dt = read_value_from_addr (final_mem m ?l) a dt"
    if "L a dt" "\<not> guard_locked (g_guards s (get_guard_idx a))" for a dt
  proof -
    have "vowner v (get_guard_idx a) = None" using G that(2) by (simp add: gsim_def)
    then have "quiet v (get_guard_idx a)" by (simp add: quiet_def)
    then show ?thesis using D(9) that(1) G l by (simp add: inv_mem_def gsim_def)
  qed
  ultimately show ?thesis by blast
qed

theorem tl2_serializable_witness:
  "\<exists>m'. seq_run (concat (map ve_info (sort_key ve_ver (tl_log tl2_demo)))) (\<lambda>_. 0) = Some m' \<and>
     read_value_from_addr (tmem tl2_demo) 0x200000 UINT8 = read_value_from_addr m' 0x200000 UINT8 \<and>
     length (tl_log tl2_demo) = 2"
proof -
  have "length (tl_log tl2_demo) = 2" using arg_cong [OF tl2_demo_props(2), of length] by simp
  then show ?thesis
    using tl2_serializable [OF two_cells_ok _ tl2_demo_props(1) tl2_trace_length] tl2_demo_props(4)
    by (auto simp: two_cells_def)
qed

text \<open>
  C7. The guards of TL2 are mutual-exclusion locks: a guard word has its lock bit set exactly when some
  committing thread holds it (has acquired it in its commit and not yet released it), and no two
  threads hold the same guard.
\<close>

theorem tl2_guard_exclusion:
  assumes "layout_ok L" and "\<forall>a dt. L a dt \<longrightarrow> tracked a"
    and "tl2_exec tracked L evs (tl2_init m) = Some s" and "length evs < 2 ^ 62"
  shows "(guard_locked (g_guards s g) \<longleftrightarrow> (\<exists>t. owns (held_guard s t) (released_guard s t) (tl_pcs s t) g)) \<and>
    (owns (held_guard s t) (released_guard s t) (tl_pcs s t) g \<longrightarrow>
     owns (held_guard s u) (released_guard s u) (tl_pcs s u) g \<longrightarrow> t = u)"
proof -
  obtain v where v: "sim L s v" "vinv get_guard_idx L m v" using exec_init_sim [OF assms] by blast
  have "guard_locked (g_guards s g) \<longleftrightarrow> (\<exists>t. vowner v g = Some t)" using simD(1) [OF v(1)] by (simp add: gsim_def)
  then show ?thesis using own_iff [OF v(1)] by (metis option.inject)
qed

theorem tl2_guard_exclusion_witness:
  "\<not> (\<exists>t. owns (held_guard tl2_demo t) (released_guard tl2_demo t) (tl_pcs tl2_demo t) (get_guard_idx 0x200000))"
  using tl2_guard_exclusion [OF two_cells_ok _ tl2_demo_props(1) tl2_trace_length] tl2_demo_props(4) by blast



text \<open>
  C6. TL2 implements the versioned-lock protocol: every execution of the state machine of TL2 is matched, under
  the relation \<open>sim\<close> (same memory, clock, guard versions and holders, same reads and write sets per
  thread, same commits), by an execution of the protocol from its initial state.
\<close>

theorem tl2_refines_protocol:
  assumes "layout_ok L" and "\<forall>a dt. L a dt \<longrightarrow> tracked a"
    and "tl2_exec tracked L evs (tl2_init m) = Some s" and "length evs < 2 ^ 62"
  shows "\<exists>v. (vstep get_guard_idx L)\<^sup>*\<^sup>* (vinit m 1) v \<and> sim L s v"
  using exec_init_sim [OF assms] by blast

theorem tl2_refines_protocol_witness:
  "\<exists>v. (vstep get_guard_idx two_cells)\<^sup>*\<^sup>* (vinit (\<lambda>_. 0) 1) v \<and> sim two_cells tl2_demo v"
  using tl2_refines_protocol [OF two_cells_ok _ tl2_demo_props(1) tl2_trace_length] by blast

end
