(* ===== verification/TM_TinySTM.thy ===== *)
theory TM_TinySTM
  imports TM_RedoLog TM_Interfaces "HOL-Library.AList"
begin

text \<open>
  The data structures of the TinySTM backend (\<open>tiny_stm/tinystm_common.hpp\<close>) and the local part of its
  write-back, commit-time-locking design (\<open>tiny_stm/tinystm_wbctl.hpp\<close>): the 64-bit lock words, the lock table, the
  write set with its address index, and what reads and writes do with the write set.
\<close>

section \<open>Lock words\<close>

text \<open>Two ownership bits, three incarnation bits, thirteen thread bits, and the version above them.\<close>

definition OWNED_BITS :: nat where "OWNED_BITS = 2"
definition INCARNATION_BITS :: nat where "INCARNATION_BITS = 3"
definition LOCK_BITS :: nat where "LOCK_BITS = OWNED_BITS + INCARNATION_BITS"
definition THREAD_BITS :: nat where "THREAD_BITS = 13"
definition MAX_THREADS :: u64 where "MAX_THREADS = push_bit THREAD_BITS 1"
definition META_BITS :: nat where "META_BITS = LOCK_BITS + THREAD_BITS"

definition WRITE_MASK :: u64 where "WRITE_MASK = 1"
definition READ_MASK :: u64 where "READ_MASK = 2"
definition OWNED_MASK :: u64 where "OWNED_MASK = WRITE_MASK OR READ_MASK"
definition INCARNATION_MASK :: u64 where "INCARNATION_MASK = 7"
definition THREAD_MASK :: u64 where "THREAD_MASK = MAX_THREADS - 1"

definition VERSION_BITS_MASK :: u64 where
  "VERSION_BITS_MASK = drop_bit META_BITS
     (NOT OWNED_MASK AND NOT (push_bit OWNED_BITS INCARNATION_MASK) AND NOT (push_bit LOCK_BITS THREAD_MASK))"

definition get_owner :: "u64 \<Rightarrow> u64" where
  "get_owner l = drop_bit LOCK_BITS (l AND push_bit LOCK_BITS THREAD_MASK)"

definition is_locked :: "u64 \<Rightarrow> bool" where
  "is_locked l \<longleftrightarrow> l AND OWNED_MASK \<noteq> 0"

definition is_locked_by :: "u64 \<Rightarrow> u64 \<Rightarrow> bool" where
  "is_locked_by l tx_id \<longleftrightarrow> l AND OWNED_MASK \<noteq> 0 \<and> drop_bit LOCK_BITS (l AND push_bit LOCK_BITS THREAD_MASK) = tx_id"

definition get_version :: "u64 \<Rightarrow> u64" where
  "get_version l = drop_bit META_BITS (l AND push_bit META_BITS VERSION_BITS_MASK)"

definition get_incarnation :: "u64 \<Rightarrow> u64" where
  "get_incarnation l = drop_bit OWNED_BITS l AND INCARNATION_MASK"

text \<open>
  The atomic updates: the \<open>fetch_and\<close> of \<open>unlock\<close>, the stores of the two unlocks with a version, the desired values
  of the compare-and-swaps of \<open>try_lock\<close> and \<open>try_lock_with_incarnation\<close> and the store of \<open>inc_abort\<close>.
\<close>

definition unlock_word :: "u64 \<Rightarrow> u64" where
  "unlock_word l = l AND (NOT OWNED_MASK AND NOT (push_bit LOCK_BITS THREAD_MASK))"

definition reset_version :: "u64 \<Rightarrow> u64" where
  "reset_version l = l AND NOT (push_bit META_BITS VERSION_BITS_MASK)"

definition version_word :: "u64 \<Rightarrow> u64" where
  "version_word v = push_bit META_BITS (v AND VERSION_BITS_MASK)"

definition version_incarnation_word :: "u64 \<Rightarrow> u64 \<Rightarrow> u64" where
  "version_incarnation_word new_version new_incarnation =
    push_bit META_BITS (new_version AND VERSION_BITS_MASK) OR push_bit OWNED_BITS (new_incarnation AND INCARNATION_MASK)"

definition lock_word :: "u64 \<Rightarrow> u64 \<Rightarrow> u64" where
  "lock_word tx_id l = (l AND push_bit META_BITS VERSION_BITS_MASK) OR
     (push_bit LOCK_BITS (tx_id AND THREAD_MASK) OR WRITE_MASK) OR
     (l AND push_bit OWNED_BITS INCARNATION_MASK)"

definition incarnation_lock_word :: "u64 \<Rightarrow> u64 \<Rightarrow> u64" where
  "incarnation_lock_word tx_id incarnation =
    push_bit LOCK_BITS (tx_id AND THREAD_MASK) OR push_bit OWNED_BITS (incarnation AND INCARNATION_MASK)"

definition inc_abort_word :: "u64 \<Rightarrow> u64" where
  "inc_abort_word l =
    (let new_incarnation = (drop_bit OWNED_BITS l AND INCARNATION_MASK) + 1; current_version = drop_bit META_BITS l
     in push_bit META_BITS current_version OR push_bit OWNED_BITS (new_incarnation AND INCARNATION_MASK))"

text \<open>
  The operations of \<open>Lock\<close> on a word nobody else changes, with their assertions: \<open>Inl\<close> is a failed one.
\<close>

datatype lock_err = NotOwner | WrongConfiguration | UnlockedWithOwner

definition lock_unlock :: "u64 \<Rightarrow> u64 \<Rightarrow> lock_err + u64" where
  "lock_unlock tx_id l =
    (if is_locked l \<and> get_owner l = tx_id then Inr (unlock_word l)
     else if is_locked l then Inl NotOwner
     else Inr l)"

definition unlock_with_version :: "u64 \<Rightarrow> u64 \<Rightarrow> u64 \<Rightarrow> lock_err + u64" where
  "unlock_with_version tx_id v l = (if get_owner l = tx_id then Inr (version_word v) else Inl NotOwner)"

definition unlock_with_version_and_incarnation :: "u64 \<Rightarrow> u64 \<Rightarrow> u64 \<Rightarrow> u64 \<Rightarrow> lock_err + u64" where
  "unlock_with_version_and_incarnation tx_id v i l =
    (if get_owner l = tx_id then Inr (version_incarnation_word v i) else Inl NotOwner)"

text \<open>
  \<open>try_lock\<close> up to the compare-and-swap, on the word it has loaded: busy, or the word to swap in.
\<close>

definition try_lock_load :: "u64 \<Rightarrow> u64 \<Rightarrow> lock_err + u64 option" where
  "try_lock_load tx_id l =
    (if l AND OWNED_MASK \<noteq> 0 then Inr None
     else if \<not> (lock_word tx_id l AND WRITE_MASK = 1 \<and> get_owner (lock_word tx_id l) = tx_id) then Inl WrongConfiguration
     else if get_owner (l AND NOT OWNED_MASK) \<noteq> 0 then Inl UnlockedWithOwner
     else Inr (Some (lock_word tx_id l)))"

definition try_lock_with_incarnation :: "u64 \<Rightarrow> u64 \<Rightarrow> u64 \<Rightarrow> bool \<times> u64" where
  "try_lock_with_incarnation tx_id incarnation l =
    (if l = 0 then (True, incarnation_lock_word tx_id incarnation) else (False, l))"

section \<open>Lock table\<close>

definition LOCK_EXTRA_BITS :: nat where "LOCK_EXTRA_BITS = 3"
definition LOCK_ARRAY_LOG_SIZE :: nat where "LOCK_ARRAY_LOG_SIZE = 14"
definition LOCK_ARRAY_SIZE :: u64 where "LOCK_ARRAY_SIZE = push_bit LOCK_ARRAY_LOG_SIZE 1"
definition LOCK_ARRAY_MASK :: u64 where "LOCK_ARRAY_MASK = LOCK_ARRAY_SIZE - 1"

text \<open>The index of the lock of an address: the table is indexed by its aligned word.\<close>

definition lock_index :: "addr \<Rightarrow> nat" where
  "lock_index a = unat (drop_bit LOCK_EXTRA_BITS a AND LOCK_ARRAY_MASK)"

definition lock_of :: "addr \<Rightarrow> nat" where
  "lock_of a = lock_index (base_addr (mk_ByteOffset a))"

section \<open>The write set\<close>

record WriteLogEntry_wbctl =
  wl_type :: ValueType
  wl_addr :: addr
  wl_version :: u64
  wl_new_val :: any_type_t

record ts_ws =
  ts_write_set :: "(addr \<times> WriteLogEntry_wbctl) list"
  ts_index :: "(addr \<times> nat) list"

definition ts_empty :: ts_ws where
  "ts_empty = \<lparr>ts_write_set = [], ts_index = []\<rparr>"

definition kWsIndexThreshold :: nat where "kWsIndexThreshold = 32"

text \<open>The linear scan, from position \<open>i\<close> on.  A pointer into the vector is the position of its element.\<close>

fun scan_pos :: "addr \<Rightarrow> (addr \<times> 'e) list \<Rightarrow> nat \<Rightarrow> nat option" where
  "scan_pos a [] i = None"
| "scan_pos a (kv # kvs) i = (if fst kv = a then Some i else scan_pos a kvs (Suc i))"

definition ws_find :: "ts_ws \<Rightarrow> addr \<Rightarrow> nat option" where
  "ws_find w a = (if ts_index w \<noteq> [] then map_of (ts_index w) a else scan_pos a (ts_write_set w) 0)"

definition ws_index_activate :: "ts_ws \<Rightarrow> ts_ws" where
  "ws_index_activate w =
    w\<lparr>ts_index := foldl (\<lambda>ix i. AList.update (fst (ts_write_set w ! i)) i ix) [] [0..<length (ts_write_set w)]\<rparr>"

text \<open>A value-initialised entry, in which the tag is no enumerator: it is assigned before it is read.\<close>

definition blank_entry :: WriteLogEntry_wbctl where
  "blank_entry = \<lparr>wl_type = UINT8, wl_addr = 0, wl_version = 0, wl_new_val = 0\<rparr>"

definition ws_get_or_insert :: "ts_ws \<Rightarrow> addr \<Rightarrow> ts_ws \<times> nat" where
  "ws_get_or_insert w a =
    (case ws_find w a of
       Some i \<Rightarrow> (w, i)
     | None \<Rightarrow>
         (let ws = ts_write_set w @ [(a, blank_entry)]
          in if ts_index w \<noteq> [] then (w\<lparr>ts_write_set := ws, ts_index := AList.update a (length ws - 1) (ts_index w)\<rparr>, length ws - 1)
             else if length ws > kWsIndexThreshold then (ws_index_activate (w\<lparr>ts_write_set := ws\<rparr>), length ws - 1)
             else (w\<lparr>ts_write_set := ws\<rparr>, length ws - 1)))"

definition ws_erase_idx :: "ts_ws \<Rightarrow> nat \<Rightarrow> ts_ws" where
  "ws_erase_idx w i =
    (let ws = ts_write_set w
     in if i \<ge> length ws then w
        else
          (let erased = fst (ws ! i); moved = fst (last ws); ix = ts_index w;
               ix' = (if ix \<noteq> [] then AList.delete erased (if erased \<noteq> moved then AList.update moved i ix else ix) else ix)
           in w\<lparr>ts_write_set := butlast (ws[i := last ws]), ts_index := ix'\<rparr>))"

definition ws_erase_addr :: "ts_ws \<Rightarrow> addr \<Rightarrow> ts_ws" where
  "ws_erase_addr w a = (case ws_find w a of Some i \<Rightarrow> ws_erase_idx w i | None \<Rightarrow> w)"

text \<open>The entry of an address, and the assignment through \<open>ws_get_or_insert\<close> or a pointer.\<close>

definition ws_entry :: "ts_ws \<Rightarrow> addr \<Rightarrow> WriteLogEntry_wbctl option" where
  "ws_entry w a = map_option (\<lambda>i. snd (ts_write_set w ! i)) (ws_find w a)"

definition ws_set :: "ts_ws \<Rightarrow> nat \<Rightarrow> WriteLogEntry_wbctl \<Rightarrow> ts_ws" where
  "ws_set w i e = w\<lparr>ts_write_set := (ts_write_set w)[i := (fst (ts_write_set w ! i), e)]\<rparr>"

definition ws_put :: "ts_ws \<Rightarrow> addr \<Rightarrow> WriteLogEntry_wbctl \<Rightarrow> ts_ws" where
  "ws_put w a e = (case ws_get_or_insert w a of (w', i) \<Rightarrow> ws_set w' i e)"

section \<open>Reads of own writes\<close>

text \<open>\<open>typeSize\<close> and the switch on \<open>read_size\<close> have the values of \<^const>\<open>type_size\<close>.\<close>

text \<open>The loops that put a value together from \<open>UINT8\<close> entries: \<open>n\<close> bytes left from byte \<open>i\<close>.\<close>

fun merge_bytes :: "ts_ws \<Rightarrow> addr \<Rightarrow> nat \<Rightarrow> nat \<Rightarrow> u64 \<Rightarrow> u64 option" where
  "merge_bytes w a i 0 merged = Some merged"
| "merge_bytes w a i (Suc n) merged =
     (case ws_entry w (a + of_nat i) of
        Some e \<Rightarrow>
          if wl_type e = UINT8 then merge_bytes w a (Suc i) n (merged OR push_bit (i * 8) (ucast (any_u1 (wl_new_val e))))
          else None
      | None \<Rightarrow> None)"

datatype own_read = Own any_type_t | FromMemory | NoMatch

text \<open>The entry \<open>e\<close> of the address itself.  A member read of the union is its low bytes.\<close>

definition read_exact :: "ts_ws \<Rightarrow> addr \<Rightarrow> ValueType \<Rightarrow> WriteLogEntry_wbctl \<Rightarrow> own_read" where
  "read_exact w a sz e =
    (let ty = wl_type e; v = wl_new_val e
     in if ty = sz then Own v
        else if sz = POINTER \<and> ty = UINT64 \<or> sz = UINT64 \<and> ty = POINTER then Own v
        else if (sz = UINT64 \<or> sz = POINTER) \<and> (ty = UINT8 \<or> ty = UINT16 \<or> ty = UINT32)
        then (case merge_bytes w a 0 8 0 of Some merged \<Rightarrow> Own merged | None \<Rightarrow> FromMemory)
        else if sz = UINT8 \<and> ty = UINT64 then Own (any_u8 v AND 0xFF)
        else if sz = UINT8 \<and> ty = UINT32 then Own (ucast (any_u4 v AND 0xFF))
        else if sz = UINT8 \<and> ty = UINT16 then Own (ucast (any_u2 v AND 0xFF))
        else if sz = UINT16 \<and> ty = UINT64 then Own (any_u8 v AND 0xFFFF)
        else if sz = UINT32 \<and> ty = UINT64 then Own (any_u8 v AND 0xFFFFFFFF)
        else NoMatch)"

text \<open>Wider entries at the aligned addresses below an address at an offset in its word.\<close>

definition read_cover64 :: "ts_ws \<Rightarrow> addr \<Rightarrow> ValueType \<Rightarrow> own_read" where
  "read_cover64 w a sz =
    (let bo = mk_ByteOffset a; shift = unat (offset bo) * 8
     in case ws_entry w (base_addr bo) of
          Some e \<Rightarrow>
            if wl_type e = UINT64 \<and> sz \<in> {UINT8, UINT16, UINT32}
            then Own (return_any_type sz (drop_bit shift (any_u8 (wl_new_val e)))) else NoMatch
        | None \<Rightarrow> NoMatch)"

definition read_cover32 :: "ts_ws \<Rightarrow> addr \<Rightarrow> ValueType \<Rightarrow> own_read" where
  "read_cover32 w a sz =
    (let u32_addr = a AND NOT 3; byte_off = unat (a - u32_addr)
     in case ws_entry w u32_addr of
          Some e \<Rightarrow>
            if wl_type e = UINT32 \<and> (sz = UINT8 \<or> sz = UINT16 \<and> byte_off \<le> 2)
            then Own (return_any_type sz (ucast (drop_bit (byte_off * 8) (any_u4 (wl_new_val e))))) else NoMatch
        | None \<Rightarrow> NoMatch)"

definition read_cover16 :: "ts_ws \<Rightarrow> addr \<Rightarrow> ValueType \<Rightarrow> own_read" where
  "read_cover16 w a sz =
    (let u16_addr = a AND NOT 1; byte_off = unat (a - u16_addr)
     in case ws_entry w u16_addr of
          Some e \<Rightarrow>
            if wl_type e = UINT16 \<and> byte_off < 2 \<and> sz = UINT8
            then Own (ucast (ucast (drop_bit (byte_off * 8) (any_u2 (wl_new_val e))) :: u8)) else NoMatch
        | None \<Rightarrow> NoMatch)"

text \<open>The order of the tests of \<open>read_word_ctl\<close> before \<open>read_from_memory\<close>.\<close>

definition or_else :: "own_read \<Rightarrow> own_read \<Rightarrow> own_read" where
  "or_else x y = (case x of NoMatch \<Rightarrow> y | _ \<Rightarrow> x)"

definition read_own :: "ts_ws \<Rightarrow> addr \<Rightarrow> ValueType \<Rightarrow> own_read" where
  "read_own w a sz =
    or_else (case ws_entry w a of Some e \<Rightarrow> read_exact w a sz e | None \<Rightarrow> NoMatch)
    (or_else (case merge_bytes w a 0 (type_size sz) 0 of Some merged \<Rightarrow> Own merged | None \<Rightarrow> NoMatch)
     (if offset (mk_ByteOffset a) \<noteq> 0
      then or_else (read_cover64 w a sz) (or_else (read_cover32 w a sz) (read_cover16 w a sz))
      else NoMatch))"

definition ctl_lookup :: "ts_ws \<Rightarrow> addr \<Rightarrow> ValueType \<Rightarrow> ws_result" where
  "ctl_lookup w a sz = (case read_own w a sz of Own v \<Rightarrow> Hit v | _ \<Rightarrow> Miss)"

section \<open>Writes to the write set\<close>

text \<open>
  \<open>write_word_ctl\<close> up to its lock loop: it has returned (\<open>Done\<close>), or it goes on to insert an entry.
\<close>

datatype ws_write_result = Done ts_ws | Insert ts_ws

definition sub_write :: "ValueType \<Rightarrow> any_type_t \<Rightarrow> (u64 \<times> u64) option" where
  "sub_write sz val =
    (case sz of UINT8 \<Rightarrow> Some (0xFF, ucast (any_u1 val)) | UINT16 \<Rightarrow> Some (0xFFFF, ucast (any_u2 val))
     | UINT32 \<Rightarrow> Some (0xFFFFFFFF, ucast (any_u4 val)) | _ \<Rightarrow> None)"

definition ws_set_val :: "ts_ws \<Rightarrow> nat \<Rightarrow> u64 \<Rightarrow> ts_ws" where
  "ws_set_val w i v = ws_set w i ((snd (ts_write_set w ! i))\<lparr>wl_new_val := v\<rparr>)"

text \<open>An update in place of the entry of the address.\<close>

definition write_exact :: "ts_ws \<Rightarrow> addr \<Rightarrow> any_type_t \<Rightarrow> ValueType \<Rightarrow> ts_ws option" where
  "write_exact w a val sz =
    (case ws_find w a of
       Some i \<Rightarrow>
         (let e = snd (ts_write_set w ! i)
          in if wl_type e = sz then Some (ws_set_val w i val)
             else if wl_type e = UINT64 \<and> sz = UINT8
             then Some (ws_set_val w i ((any_u8 (wl_new_val e) AND NOT 0xFF) OR ucast (any_u1 val)))
             else None)
     | None \<Rightarrow> None)"

text \<open>A sub-word write into the \<open>UINT64\<close> entry of the aligned word.\<close>

definition write_base :: "ts_ws \<Rightarrow> addr \<Rightarrow> any_type_t \<Rightarrow> ValueType \<Rightarrow> ts_ws option" where
  "write_base w a val sz =
    (let bo = mk_ByteOffset a; shift = unat (offset bo) * 8
     in if offset bo = 0 then None
        else (case ws_find w (base_addr bo) of
                Some i \<Rightarrow>
                  (let e = snd (ts_write_set w ! i)
                   in if wl_type e \<noteq> UINT64 then None
                      else (case sub_write sz val of
                              Some (m, wv) \<Rightarrow>
                                if push_bit shift m = 0 then None
                                else Some (ws_set_val w i ((any_u8 (wl_new_val e) AND NOT (push_bit shift m)) OR push_bit shift wv))
                            | None \<Rightarrow> None))
              | None \<Rightarrow> None))"

text \<open>The guards that skip a write because a wider entry exists.\<close>

definition write_covered :: "ts_ws \<Rightarrow> addr \<Rightarrow> ValueType \<Rightarrow> bool" where
  "write_covered w a sz \<longleftrightarrow>
    (case ws_entry w a of Some e \<Rightarrow> wl_type e \<noteq> sz \<and> type_size (wl_type e) > type_size sz | None \<Rightarrow> False) \<or>
    offset (mk_ByteOffset a) \<noteq> 0 \<and>
    (case ws_entry w (base_addr (mk_ByteOffset a)) of
       Some e \<Rightarrow> wl_type e \<noteq> sz \<and> type_size (wl_type e) \<ge> type_size sz + unat (offset (mk_ByteOffset a))
     | None \<Rightarrow> False)"

text \<open>The loop that erases narrower entries under a wider write.\<close>

fun erase_narrower :: "ts_ws \<Rightarrow> addr \<Rightarrow> ValueType \<Rightarrow> nat \<Rightarrow> nat \<Rightarrow> ts_ws" where
  "erase_narrower w a sz i 0 = w"
| "erase_narrower w a sz i (Suc n) =
     erase_narrower
       (case ws_entry w (a + of_nat i) of
          Some e \<Rightarrow> if wl_type e \<noteq> sz \<and> type_size (wl_type e) < type_size sz then ws_erase_addr w (a + of_nat i) else w
        | None \<Rightarrow> w)
       a sz (Suc i) n"

definition ctl_write :: "ts_ws \<Rightarrow> addr \<Rightarrow> any_type_t \<Rightarrow> ValueType \<Rightarrow> ws_write_result" where
  "ctl_write w a val sz =
    (case write_exact w a val sz of
       Some w' \<Rightarrow> Done w'
     | None \<Rightarrow>
         (case write_base w a val sz of
            Some w' \<Rightarrow> Done w'
          | None \<Rightarrow>
              if write_covered w a sz then Done w
              else Insert (if type_size sz > 1 then erase_narrower w a sz 0 (type_size sz) else w)))"

definition ctl_insert :: "ts_ws \<Rightarrow> addr \<Rightarrow> any_type_t \<Rightarrow> ValueType \<Rightarrow> u64 \<Rightarrow> ts_ws" where
  "ctl_insert w a val sz version = ws_put w a \<lparr>wl_type = sz, wl_addr = a, wl_version = version, wl_new_val = val\<rparr>"

end
