(* ===== verification/TM_SpinToken.thy ===== *)
theory TM_SpinToken
  imports TM_Prelude
begin

text \<open>
  The spin token of \<open>common/tm_spin_token.hpp\<close>, with which a backend lets one transaction wait for a lock
  instead of aborting.  Every function is the atomic operation it performs on \<open>g_tx_token\<close>;
  \<open>tm_token_soft_spin\<close> performs two, so that other threads can run in between.  Beside the token the state
  records which threads were told that they hold it and have not released it since.
\<close>

section \<open>Operations\<close>

definition tm_token_is_free :: "int \<Rightarrow> bool" where
  "tm_token_is_free token \<longleftrightarrow> token = -1"

definition tm_token_try_acquire :: "int \<Rightarrow> int \<Rightarrow> bool \<times> int" where
  "tm_token_try_acquire tx_id token = (if token = -1 then (True, tx_id) else (False, token))"

text \<open>The tests of \<open>tm_token_soft_spin\<close> before its attempt.\<close>

definition soft_spin_check :: "int \<Rightarrow> int \<Rightarrow> int \<Rightarrow> bool" where
  "soft_spin_check abort_count threshold token \<longleftrightarrow> \<not> abort_count < threshold \<and> tm_token_is_free token"

definition tm_token_release :: "int \<Rightarrow> int" where
  "tm_token_release token = -1"

definition tm_token_release_if_held :: "int \<Rightarrow> int \<Rightarrow> int" where
  "tm_token_release_if_held tx_id token = (if token = tx_id then -1 else token)"

section \<open>Threads\<close>

record token_state =
  tok :: int
  spinning :: "int set"
  holders :: "int set"

definition token_init :: token_state where
  "token_init = \<lparr>tok = -1, spinning = {}, holders = {}\<rparr>"

text \<open>
  The events: an attempt, the two parts of a soft spin, the release of a commit (\<open>EvCommit\<close>, which the backends
  perform whether or not they hold the token) and the release of an abort.
\<close>

datatype token_event = EvTry int | EvCheck int int int | EvCas int | EvCommit int | EvAbort int

definition attempt :: "int \<Rightarrow> token_state \<Rightarrow> token_state" where
  "attempt t s = (case tm_token_try_acquire t (tok s) of (b, tk) \<Rightarrow>
     s\<lparr>tok := tk, spinning := spinning s - {t}, holders := (if b then insert t (holders s) else holders s)\<rparr>)"

fun token_step :: "token_event \<Rightarrow> token_state \<Rightarrow> token_state" where
  "token_step (EvTry t) s = attempt t s"
| "token_step (EvCheck t aborts threshold) s =
     (if soft_spin_check aborts threshold (tok s) then s\<lparr>spinning := insert t (spinning s)\<rparr> else s)"
| "token_step (EvCas t) s = (if t \<in> spinning s then attempt t s else s)"
| "token_step (EvCommit t) s = s\<lparr>tok := tm_token_release (tok s), holders := holders s - {t}\<rparr>"
| "token_step (EvAbort t) s = s\<lparr>tok := tm_token_release_if_held t (tok s), holders := holders s - {t}\<rparr>"

fun token_run :: "token_event list \<Rightarrow> token_state \<Rightarrow> token_state" where
  "token_run [] s = s"
| "token_run (e # es) s = token_run es (token_step e s)"

text \<open>Runs in which a commit releases only the token of its own thread.\<close>

fun disciplined :: "token_event list \<Rightarrow> token_state \<Rightarrow> bool" where
  "disciplined [] s \<longleftrightarrow> True"
| "disciplined (e # es) s \<longleftrightarrow> (case e of EvCommit t \<Rightarrow> tok s = t \<or> tok s = -1 | _ \<Rightarrow> True) \<and> disciplined es (token_step e s)"

definition event_thread :: "token_event \<Rightarrow> int" where
  "event_thread e = (case e of EvTry t \<Rightarrow> t | EvCheck t a b \<Rightarrow> t | EvCas t \<Rightarrow> t | EvCommit t \<Rightarrow> t | EvAbort t \<Rightarrow> t)"

section \<open>Exclusion\<close>

definition token_inv :: "token_state \<Rightarrow> bool" where
  "token_inv s \<longleftrightarrow> holders s = (if tok s = -1 then {} else {tok s})"

lemma token_inv_step:
  assumes "token_inv s" and "event_thread e \<noteq> -1" and "case e of EvCommit t \<Rightarrow> tok s = t \<or> tok s = -1 | _ \<Rightarrow> True"
  shows "token_inv (token_step e s)"
  using assms
  by (cases e) (auto simp: token_inv_def attempt_def tm_token_try_acquire_def tm_token_release_def tm_token_release_if_held_def
      event_thread_def split: if_splits)

lemma token_inv_run:
  "token_inv s \<Longrightarrow> \<forall>e \<in> set es. event_thread e \<noteq> -1 \<Longrightarrow> disciplined es s \<Longrightarrow> token_inv (token_run es s)"
  by (induction es arbitrary: s) (auto intro: token_inv_step)




end
