(* ===== verification/TM_TinySTM_Steps.thy ===== *)
theory TM_TinySTM_Steps
  imports TM_TinySTM TM_SpinToken TM_VersionedLocks
begin

text \<open>
  The commit-time-locking design of TinySTM (\<open>tiny_stm/tinystm_wbctl.hpp\<close>) as a state machine.  A call runs up to its first
  access to shared state; each further step of a thread performs one atomic access to the clock, a lock word, the
  spin token or a byte of data, and the local work up to the next one.  Loads of a lock word its owner repeats while it
  holds the lock are one step, since nobody else changes it.  Failed assertions set \<open>ts_failed\<close> and end the run.
\<close>

section \<open>State\<close>

record ReadLogEntry_wbctl =
  rl_type :: ValueType
  rl_addr :: addr
  rl_version :: u64
  rl_val :: any_type_t

text \<open>A thread without a transaction object (a null \<open>current_tx_wbctl\<close>) has the identifier 0.\<close>

record ts_tx =
  ts_id :: u64
  ts_start :: u64
  ts_end :: u64
  ts_commit :: u64
  ts_active :: bool
  ts_read_only :: bool
  ts_aborts :: int
  ts_retry :: bool
  ts_reads :: "ReadLogEntry_wbctl list"
  ts_writes :: ts_ws
  ts_locks :: "nat list"

text \<open>Who called \<open>extend\<close> or \<open>validate\<close>, with the local variables of the caller.\<close>

datatype ts_cont =
    XRead addr ValueType u64 nat
  | XWrite addr any_type_t ValueType
  | XSpin addr any_type_t ValueType
  | XLock addr "addr list" nat
  | XGap u64
  | XCommit u64

datatype ts_pc =
    TsIdle
  | TsBegin
  | RdLock addr ValueType
  | RdLoop addr ValueType u64 nat
  | RdVal addr ValueType u64 nat nat any_type_t
  | WrLock addr any_type_t ValueType
  | WrCheck addr any_type_t ValueType u64
  | ExtClock ts_cont
  | ValLoop ts_cont "u64 option" "ReadLogEntry_wbctl list"
  | SpinCheck ts_cont
  | SpinTok ts_cont
  | CmClock
  | CmLock "addr list"
  | CmTry addr "addr list" nat
  | CmCas u64 u64 addr "addr list" nat
  | CmResetThr
  | CmReset nat
  | CmResetClock
  | CmResetDone
  | CmResetLoad
  | CmWait
  | CmWB u64 "(addr \<times> u8) list"
  | CmRel u64 "(addr \<times> WriteLogEntry_wbctl) list"
  | AbUnlock "nat list"

text \<open>
  The ghost fields: which entries of the read set come from reads (\<open>write_word_ctl\<close> enters its writes, too), the
  operations of the running transaction as the program saw them, and the committed transactions.
\<close>

record ts_state =
  ts_mem :: mem
  ts_clock :: u64
  ts_table :: "nat \<Rightarrow> u64"
  ts_thr_counter :: u64
  ts_reset_thr :: u64
  ts_abort_count :: u64
  ts_token :: int
  ts_serialize :: "(nat \<times> nat) option"
  ts_txs :: "nat \<Rightarrow> ts_tx"
  ts_pcs :: "nat \<Rightarrow> ts_pc"
  ts_failed :: bool
  ts_marks :: "nat \<Rightarrow> bool list"
  ts_ops :: "nat \<Rightarrow> op list"
  ts_log :: "op list ventry list"
  ts_ro :: "(nat \<times> vread list \<times> op list) list"

text \<open>What the write-back needs to know of the process: \<open>isTMAddress\<close>, the explicit mode and the stack pointer of a thread.\<close>

record ts_env =
  env_tm :: "addr \<Rightarrow> bool"
  env_expli :: "nat \<Rightarrow> bool"
  env_marker :: "nat \<Rightarrow> addr"

definition ts_set_tx :: "nat \<Rightarrow> ts_tx \<Rightarrow> ts_state \<Rightarrow> ts_state" where
  "ts_set_tx t tx s = s\<lparr>ts_txs := (ts_txs s)(t := tx)\<rparr>"

definition ts_set_pc :: "nat \<Rightarrow> ts_pc \<Rightarrow> ts_state \<Rightarrow> ts_state" where
  "ts_set_pc t pc s = s\<lparr>ts_pcs := (ts_pcs s)(t := pc)\<rparr>"

definition ts_set_ops :: "nat \<Rightarrow> op list \<Rightarrow> ts_state \<Rightarrow> ts_state" where
  "ts_set_ops t ps s = s\<lparr>ts_ops := (ts_ops s)(t := ps)\<rparr>"

definition ts_set_marks :: "nat \<Rightarrow> bool list \<Rightarrow> ts_state \<Rightarrow> ts_state" where
  "ts_set_marks t ms s = s\<lparr>ts_marks := (ts_marks s)(t := ms)\<rparr>"

definition ts_set_lock :: "nat \<Rightarrow> u64 \<Rightarrow> ts_state \<Rightarrow> ts_state" where
  "ts_set_lock g l s = s\<lparr>ts_table := (ts_table s)(g := l)\<rparr>"

definition ts_fail :: "ts_state \<Rightarrow> ts_state" where
  "ts_fail s = s\<lparr>ts_failed := True\<rparr>"

section \<open>Transactions and threads\<close>

definition ts_clear :: "ts_tx \<Rightarrow> ts_tx" where
  "ts_clear tx = tx\<lparr>ts_reads := [], ts_writes := ts_empty, ts_locks := []\<rparr>"

definition ts_reset :: "ts_tx \<Rightarrow> ts_tx" where
  "ts_reset tx = ts_clear (tx\<lparr>ts_start := 0, ts_end := 0, ts_active := False, ts_read_only := True, ts_aborts := 0, ts_retry := False\<rparr>)"

definition ts_null :: ts_tx where
  "ts_null = \<lparr>ts_id = 0, ts_start = 0, ts_end = 0, ts_commit = 0, ts_active = False, ts_read_only = True, ts_aborts = 0,
     ts_retry = False, ts_reads = [], ts_writes = ts_empty, ts_locks = []\<rparr>"

text \<open>\<open>init()\<close> and \<open>reset_locks()\<close>, on the memory the program set up before.\<close>

definition tiny_init :: "mem \<Rightarrow> ts_state" where
  "tiny_init m = \<lparr>ts_mem = m, ts_clock = 1, ts_table = (\<lambda>_. 0), ts_thr_counter = 1, ts_reset_thr = 0, ts_abort_count = 0,
     ts_token = -1, ts_serialize = None, ts_txs = (\<lambda>_. ts_null), ts_pcs = (\<lambda>_. TsIdle), ts_failed = False,
     ts_marks = (\<lambda>_. []), ts_ops = (\<lambda>_. []), ts_log = [], ts_ro = []\<rparr>"

definition ts_init_thread :: "nat \<Rightarrow> ts_state \<Rightarrow> ts_state" where
  "ts_init_thread t s =
    (let tx = ts_txs s t;
         (tx', c) = (if ts_id tx = 0 then (ts_null\<lparr>ts_id := ts_thr_counter s\<rparr>, ts_thr_counter s + 1) else (tx, ts_thr_counter s))
     in ts_set_marks t [] (ts_set_ops t [] (ts_set_tx t (ts_reset tx') (s\<lparr>ts_thr_counter := c\<rparr>))))"

definition ts_exit_thread :: "nat \<Rightarrow> ts_state \<Rightarrow> ts_state" where
  "ts_exit_thread t s = ts_set_marks t [] (ts_set_ops t [] (ts_set_tx t ts_null s))"

text \<open>The serialization lock, a recursive mutex with the lock count of its owner; \<open>lock\<close> blocks while another thread owns it.\<close>

definition tm_serialize_lock :: "nat \<Rightarrow> (nat \<times> nat) option \<Rightarrow> (nat \<times> nat) option option" where
  "tm_serialize_lock t m = (case m of None \<Rightarrow> Some (Some (t, 1)) | Some (u, n) \<Rightarrow> if u = t then Some (Some (t, Suc n)) else None)"

definition tm_serialize_unlock :: "nat \<Rightarrow> (nat \<times> nat) option \<Rightarrow> (nat \<times> nat) option" where
  "tm_serialize_unlock t m = (case m of Some (u, n) \<Rightarrow> if u = t then (if n \<le> 1 then None else Some (t, n - 1)) else m | None \<Rightarrow> None)"

definition tm_serialize_unlock_all :: "nat \<Rightarrow> (nat \<times> nat) option \<Rightarrow> (nat \<times> nat) option" where
  "tm_serialize_unlock_all t m = (case m of Some (u, n) \<Rightarrow> if u = t then None else m | None \<Rightarrow> None)"

section \<open>Abort\<close>

text \<open>\<open>abort_tx\<close>: the loop of \<open>unlock_held_locks\<close> follows in the steps, then the jump back to the start of the transaction.\<close>

definition ts_abort :: "nat \<Rightarrow> ts_state \<Rightarrow> ts_state" where
  "ts_abort t s =
    (if ts_id (ts_txs s t) = 0 \<or> \<not> ts_active (ts_txs s t) then ts_fail s
     else ts_set_pc t (AbUnlock (ts_locks (ts_txs s t))) (s\<lparr>ts_serialize := tm_serialize_unlock_all t (ts_serialize s)\<rparr>))"

fun abort_step :: "nat \<Rightarrow> ts_pc \<Rightarrow> ts_state \<Rightarrow> ts_state" where
  "abort_step t (AbUnlock (g # gs)) s =
    (case lock_unlock (ts_id (ts_txs s t)) (ts_table s g) of
       Inl err \<Rightarrow> ts_fail s
     | Inr l \<Rightarrow> ts_set_pc t (AbUnlock gs) (ts_set_lock g l s))"
| "abort_step t (AbUnlock []) s =
    (let tx = ts_clear (ts_txs s t)
     in ts_set_pc t TsIdle (ts_set_marks t [] (ts_set_ops t []
          (ts_set_tx t (tx\<lparr>ts_aborts := ts_aborts tx + 1, ts_retry := True\<rparr>)
            (s\<lparr>ts_token := tm_token_release_if_held (uint (ts_id tx)) (ts_token s), ts_abort_count := ts_abort_count s + 1\<rparr>)))))"
| "abort_step t _ s = s"

section \<open>Validation\<close>

text \<open>The test of \<open>validate\<close> on one entry of the read set and the word of its lock.\<close>

definition entry_valid :: "u64 \<Rightarrow> ReadLogEntry_wbctl \<Rightarrow> u64 \<Rightarrow> bool" where
  "entry_valid tx_id r l \<longleftrightarrow> \<not> (l AND OWNED_MASK \<noteq> 0 \<and> get_owner l \<noteq> tx_id \<or> get_version l > rl_version r)"

definition wb_skip :: "ts_env \<Rightarrow> nat \<Rightarrow> addr \<Rightarrow> bool" where
  "wb_skip E t a \<longleftrightarrow>
    \<not> env_expli E t \<and> \<not> env_tm E a \<and>
      (let m = env_marker E t; d = (if a > m then a - m else m - a) in d < 32 * 1024 * 1024) \<or>
    a < 0x100000"

definition wb_bytes :: "ts_env \<Rightarrow> nat \<Rightarrow> (addr \<times> WriteLogEntry_wbctl) list \<Rightarrow> (addr \<times> u8) list" where
  "wb_bytes E t ws = concat (map (\<lambda>(a, e). if wb_skip E t a then [] else store_list a (wl_new_val e) (type_size (wl_type e))) ws)"

text \<open>The entries of the read set that come from reads, in the terms of the log.\<close>

definition read_entry :: "ReadLogEntry_wbctl \<Rightarrow> vread" where
  "read_entry r = \<lparr>vr_addr = rl_addr r, vr_type = rl_type r, vr_ver = unat (rl_version r), vr_val = rl_val r\<rparr>"

definition marked_reads :: "ReadLogEntry_wbctl list \<Rightarrow> bool list \<Rightarrow> vread list" where
  "marked_reads rs ms = map (read_entry \<circ> fst) (filter snd (zip rs ms))"

text \<open>
  The returns of \<open>extend\<close> and \<open>validate\<close>: the commit goes on to its last validation after the gap check and to the
  write-back after that; this is where an update transaction enters the log.
\<close>

fun validated_to :: "ts_env \<Rightarrow> nat \<Rightarrow> ts_cont \<Rightarrow> ts_state \<Rightarrow> ts_state" where
  "validated_to E t (XRead a sz l spin) s = ts_set_pc t (RdLoop a sz l spin) s"
| "validated_to E t (XWrite a val sz) s = ts_set_pc t (WrLock a val sz) s"
| "validated_to E t (XSpin a val sz) s = ts_set_pc t (WrLock a val sz) s"
| "validated_to E t (XLock a as n) s = (if n + 1 \<ge> 1000 then ts_abort t s else ts_set_pc t (CmTry a as (n + 1)) s)"
| "validated_to E t (XGap cv) s = ts_set_pc t (ValLoop (XCommit cv) None (ts_reads (ts_txs s t))) s"
| "validated_to E t (XCommit cv) s =
    (let tx = ts_txs s t
     in ts_set_pc t (CmWB cv (wb_bytes E t (ts_write_set (ts_writes tx))))
          (s\<lparr>ts_log := ts_log s @ [\<lparr>ve_ver = unat cv, ve_reads = read_cells (marked_reads (ts_reads tx) (ts_marks s t)),
             ve_cells = map (\<lambda>(a, e). (a, wl_type e, wl_new_val e)) (ts_write_set (ts_writes tx)), ve_info = ts_ops s t\<rparr>]\<rparr>))"

fun invalid_to :: "nat \<Rightarrow> ts_cont \<Rightarrow> ts_state \<Rightarrow> ts_state" where
  "invalid_to t (XWrite a val sz) s = ts_abort t s"
| "invalid_to t (XGap cv) s = ts_abort t s"
| "invalid_to t (XCommit cv) s = ts_abort t s"
| "invalid_to t k s = ts_set_pc t (SpinCheck k) s"

text \<open>What a thread that acquired the token goes back to.\<close>

fun spin_to :: "nat \<Rightarrow> ts_cont \<Rightarrow> ts_state \<Rightarrow> ts_state" where
  "spin_to t (XRead a sz l spin) s = ts_set_pc t (RdLoop a sz l spin) s"
| "spin_to t (XLock a as n) s = ts_set_pc t (CmTry a as n) s"
| "spin_to t (XSpin a val sz) s = ts_set_pc t (WrLock a val sz) s"
| "spin_to t _ s = s"

fun validation_step :: "ts_env \<Rightarrow> nat \<Rightarrow> ts_pc \<Rightarrow> ts_state \<Rightarrow> ts_state" where
  "validation_step E t (ExtClock k) s =
    (if ts_clock s \<ge> VERSION_BITS_MASK then s
     else ts_set_pc t (ValLoop k (Some (ts_clock s)) (ts_reads (ts_txs s t))) s)"
| "validation_step E t (ValLoop k lv (r # rs)) s =
    (if entry_valid (ts_id (ts_txs s t)) r (ts_table s (lock_of (rl_addr r))) then ts_set_pc t (ValLoop k lv rs) s
     else invalid_to t k s)"
| "validation_step E t (ValLoop k (Some v) []) s = validated_to E t k (ts_set_tx t ((ts_txs s t)\<lparr>ts_end := v\<rparr>) s)"
| "validation_step E t (ValLoop k None []) s = validated_to E t k s"
| "validation_step E t (SpinCheck k) s =
    (if soft_spin_check (ts_aborts (ts_txs s t)) 5 (ts_token s) then ts_set_pc t (SpinTok k) s else ts_abort t s)"
| "validation_step E t (SpinTok k) s =
    (case tm_token_try_acquire (uint (ts_id (ts_txs s t))) (ts_token s) of
       (b, tk) \<Rightarrow> if b then spin_to t k (s\<lparr>ts_token := tk\<rparr>) else ts_abort t s)"
| "validation_step E t _ s = s"

section \<open>Reads and writes\<close>

text \<open>\<open>read_word_ctl\<close> from the first load of the lock on.\<close>

fun ts_read_step :: "nat \<Rightarrow> ts_pc \<Rightarrow> ts_state \<Rightarrow> ts_state" where
  "ts_read_step t (RdLock a sz) s =
    (let l = ts_table s (lock_of a)
     in if is_locked_by l (ts_id (ts_txs s t)) then ts_fail s else ts_set_pc t (RdLoop a sz l 0) s)"
| "ts_read_step t (RdLoop a sz l spin) s =
    (if l AND OWNED_MASK \<noteq> 0
     then (if spin + 1 > 5000 then ts_abort t s else ts_set_pc t (RdLoop a sz (ts_table s (lock_of a)) (spin + 1)) s)
     else ts_set_pc t (RdVal a sz l spin 0 0) s)"
| "ts_read_step t (RdVal a sz l spin i v) s =
    (if i < type_size sz then ts_set_pc t (RdVal a sz l spin (Suc i) (add_byte (ts_mem s) a i v)) s
     else
       (let tx = ts_txs s t; l2 = ts_table s (lock_of a)
        in if l \<noteq> l2 then ts_set_pc t (RdLoop a sz l2 spin) s
           else if get_version l > ts_end tx then ts_set_pc t (ExtClock (XRead a sz l spin)) s
           else ts_set_pc t TsIdle (ts_set_ops t (ts_ops s t @ [Rd a sz (return_any_type sz v)]) (ts_set_marks t (ts_marks s t @ [True])
             (ts_set_tx t (tx\<lparr>ts_reads := ts_reads tx @ [\<lparr>rl_type = sz, rl_addr = a, rl_version = get_version l, rl_val = v\<rparr>]\<rparr>) s)))))"
| "ts_read_step t _ s = s"

text \<open>The loop of \<open>write_word_ctl\<close>.\<close>

fun ts_write_step :: "nat \<Rightarrow> ts_pc \<Rightarrow> ts_state \<Rightarrow> ts_state" where
  "ts_write_step t (WrLock a val sz) s =
    (let l = ts_table s (lock_of a)
     in if get_owner l = ts_id (ts_txs s t) then ts_fail s
        else if l AND OWNED_MASK \<noteq> 0 then ts_set_pc t (ValLoop (XSpin a val sz) None (ts_reads (ts_txs s t))) s
        else ts_set_pc t (WrCheck a val sz l) s)"
| "ts_write_step t (WrCheck a val sz l) s =
    (let tx = ts_txs s t; l2 = ts_table s (lock_of a)
     in if l \<noteq> l2 then ts_set_pc t (WrLock a val sz) s
        else if get_version l2 > ts_end tx then ts_set_pc t (ExtClock (XWrite a val sz)) s
        else ts_set_pc t TsIdle (ts_set_ops t (ts_ops s t @ [Wr a sz val]) (ts_set_marks t (ts_marks s t @ [False])
          (ts_set_tx t (tx\<lparr>ts_writes := ctl_insert (ts_writes tx) a val sz (get_version l2),
             ts_reads := ts_reads tx @ [\<lparr>rl_type = sz, rl_addr = a, rl_version = get_version l2, rl_val = val\<rparr>]\<rparr>) s))))"
| "ts_write_step t _ s = s"

section \<open>Commit\<close>

text \<open>The end of \<open>commit\<close>.\<close>

definition commit_done :: "nat \<Rightarrow> u64 \<Rightarrow> ts_state \<Rightarrow> ts_state" where
  "commit_done t cv s =
    ts_set_pc t TsIdle (ts_set_marks t [] (ts_set_ops t []
      (ts_set_tx t (ts_reset ((ts_txs s t)\<lparr>ts_commit := cv\<rparr>)) (s\<lparr>ts_token := tm_token_release (ts_token s)\<rparr>))))"

text \<open>After \<open>increment_clock\<close>.\<close>

definition commit_version_known :: "nat \<Rightarrow> u64 \<Rightarrow> ts_state \<Rightarrow> ts_state" where
  "commit_version_known t cv s =
    (let tx = ts_txs s t
     in if cv < ts_end tx then ts_abort t s
        else if cv \<noteq> ts_end tx + 1 then ts_set_pc t (ExtClock (XGap cv)) s
        else ts_set_pc t (ValLoop (XCommit cv) None (ts_reads tx)) s)"

fun ts_lock_step :: "nat \<Rightarrow> ts_pc \<Rightarrow> ts_state \<Rightarrow> ts_state" where
  "ts_lock_step t (CmLock (a # as)) s =
    (if a < 0x100000 then ts_set_pc t (CmLock as) s
     else
       (let l = ts_table s (lock_of a); tx_id = ts_id (ts_txs s t)
        in if get_owner l \<noteq> tx_id then ts_set_pc t (CmTry a as 0) s
           else if is_locked l then ts_set_pc t (CmLock as) s
           else ts_fail s))"
| "ts_lock_step t (CmTry a as n) s =
    (let l = ts_table s (lock_of a)
     in case try_lock_load (ts_id (ts_txs s t)) l of
          Inl err \<Rightarrow> ts_fail s
        | Inr None \<Rightarrow> ts_set_pc t (ExtClock (XLock a as n)) s
        | Inr (Some desired) \<Rightarrow> ts_set_pc t (CmCas (l AND NOT OWNED_MASK) desired a as n) s)"
| "ts_lock_step t (CmCas expected desired a as n) s =
    (let g = lock_of a; tx = ts_txs s t
     in if ts_table s g = expected
        then (if is_locked desired \<and> get_owner desired = ts_id tx
              then ts_set_pc t (CmLock as) (ts_set_tx t (tx\<lparr>ts_locks := ts_locks tx @ [g]\<rparr>) (ts_set_lock g desired s))
              else ts_fail (ts_set_lock g desired s))
        else ts_set_pc t (ExtClock (XLock a as n)) s)"
| "ts_lock_step t (CmLock []) s =
    (let res = ts_clock s + 1; s' = s\<lparr>ts_clock := res\<rparr>
     in if res \<ge> VERSION_BITS_MASK then ts_set_pc t CmResetThr s' else commit_version_known t res s')"
| "ts_lock_step t _ s = s"

text \<open>The overflow of the clock in \<open>increment_clock\<close>: one thread resets the table and the clock, the others wait.\<close>

fun ts_reset_step :: "nat \<Rightarrow> ts_pc \<Rightarrow> ts_state \<Rightarrow> ts_state" where
  "ts_reset_step t CmResetThr s =
    (if ts_reset_thr s = 0 then ts_set_pc t (CmReset 0) (s\<lparr>ts_reset_thr := ts_id (ts_txs s t)\<rparr>) else ts_set_pc t CmWait s)"
| "ts_reset_step t (CmReset i) s =
    (if i < unat LOCK_ARRAY_SIZE then ts_set_pc t (CmReset (Suc i)) (ts_set_lock i 0 s) else ts_set_pc t CmResetClock s)"
| "ts_reset_step t CmResetClock s = ts_set_pc t CmResetDone (s\<lparr>ts_clock := 1\<rparr>)"
| "ts_reset_step t CmResetDone s = ts_set_pc t CmResetLoad (s\<lparr>ts_reset_thr := 0\<rparr>)"
| "ts_reset_step t CmResetLoad s = commit_version_known t (ts_clock s) s"
| "ts_reset_step t CmWait s = (if ts_clock s \<ge> VERSION_BITS_MASK then s else commit_version_known t (ts_clock s) s)"
| "ts_reset_step t _ s = s"

fun ts_commit_step :: "nat \<Rightarrow> ts_pc \<Rightarrow> ts_state \<Rightarrow> ts_state" where
  "ts_commit_step t CmClock s =
    (let tx = ts_txs s t
     in if ts_clock s \<ge> VERSION_BITS_MASK then s
        else if ts_read_only tx
        then commit_done t (ts_clock s) (s\<lparr>ts_ro := ts_ro s @ [(unat (ts_end tx), marked_reads (ts_reads tx) (ts_marks s t), ts_ops s t)]\<rparr>)
        else ts_set_pc t (CmLock (sort (map fst (ts_write_set (ts_writes tx))))) s)"
| "ts_commit_step t (CmWB cv ((a, b) # bs)) s = ts_set_pc t (CmWB cv bs) (s\<lparr>ts_mem := (ts_mem s)(a := b)\<rparr>)"
| "ts_commit_step t (CmWB cv []) s = ts_set_pc t (CmRel cv (ts_write_set (ts_writes (ts_txs s t)))) s"
| "ts_commit_step t (CmRel cv ((a, e) # es)) s =
    (let g = lock_of a; l = ts_table s g; tx_id = ts_id (ts_txs s t)
     in if a < 0x100000 \<or> \<not> is_locked_by l tx_id then ts_set_pc t (CmRel cv es) s
        else (case (if get_version l > cv then lock_unlock tx_id l else unlock_with_version tx_id cv l) of
                Inl err \<Rightarrow> ts_fail s
              | Inr l' \<Rightarrow> if get_version l' \<ge> cv then ts_set_pc t (CmRel cv es) (ts_set_lock g l' s) else ts_fail (ts_set_lock g l' s)))"
| "ts_commit_step t (CmRel cv []) s = commit_done t cv s"
| "ts_commit_step t _ s = s"

definition tiny_run :: "ts_env \<Rightarrow> nat \<Rightarrow> ts_state \<Rightarrow> ts_state" where
  "tiny_run E t s =
    (let pc = ts_pcs s t
     in case pc of
          TsIdle \<Rightarrow> s
        | TsBegin \<Rightarrow>
            if ts_clock s \<ge> VERSION_BITS_MASK then s
            else
              (let tx = ts_txs s t; v = ts_clock s
               in ts_set_pc t TsIdle (ts_set_tx t (tx\<lparr>ts_start := v, ts_end := v, ts_active := True, ts_read_only := True,
                    ts_aborts := (if ts_retry tx then ts_aborts tx else 0), ts_retry := False\<rparr>) s))
        | RdLock a sz \<Rightarrow> ts_read_step t pc s
        | RdLoop a sz l spin \<Rightarrow> ts_read_step t pc s
        | RdVal a sz l spin i v \<Rightarrow> ts_read_step t pc s
        | WrLock a val sz \<Rightarrow> ts_write_step t pc s
        | WrCheck a val sz l \<Rightarrow> ts_write_step t pc s
        | ExtClock k \<Rightarrow> validation_step E t pc s
        | ValLoop k lv rs \<Rightarrow> validation_step E t pc s
        | SpinCheck k \<Rightarrow> validation_step E t pc s
        | SpinTok k \<Rightarrow> validation_step E t pc s
        | CmLock as \<Rightarrow> ts_lock_step t pc s
        | CmTry a as n \<Rightarrow> ts_lock_step t pc s
        | CmCas expected desired a as n \<Rightarrow> ts_lock_step t pc s
        | CmClock \<Rightarrow> ts_commit_step t pc s
        | CmWB cv bs \<Rightarrow> ts_commit_step t pc s
        | CmRel cv es \<Rightarrow> ts_commit_step t pc s
        | AbUnlock gs \<Rightarrow> abort_step t pc s
        | _ \<Rightarrow> ts_reset_step t pc s)"

section \<open>Calls and executions\<close>

datatype ts_call = TInit | TExit | TBegin | TRead addr ValueType | TWrite addr any_type_t ValueType | TCommit | TAbort
  | TSerLock | TSerUnlock

definition ts_begin :: "nat \<Rightarrow> ts_state \<Rightarrow> ts_state" where
  "ts_begin t s =
    (let tx = ts_txs s t
     in if ts_id tx = 0 then ts_fail s
        else if ts_active tx then s
        else ts_set_pc t TsBegin (ts_set_marks t [] (ts_set_ops t [] (ts_set_tx t (ts_clear tx) s))))"

definition ts_read :: "nat \<Rightarrow> addr \<Rightarrow> ValueType \<Rightarrow> ts_state \<Rightarrow> ts_state" where
  "ts_read t a sz s =
    (let tx = ts_txs s t
     in if ts_id tx = 0 \<or> \<not> ts_active tx then ts_fail s
        else (case ctl_lookup (ts_writes tx) a sz of
                Hit v \<Rightarrow> ts_set_ops t (ts_ops s t @ [Rd a sz (return_any_type sz v)]) s
              | _ \<Rightarrow>
                  if a < 0x100000 then ts_set_ops t (ts_ops s t @ [Rd a sz 0]) s
                  else ts_set_pc t (RdLock a sz) s))"

definition ts_write :: "nat \<Rightarrow> addr \<Rightarrow> any_type_t \<Rightarrow> ValueType \<Rightarrow> ts_state \<Rightarrow> ts_state" where
  "ts_write t a val sz s =
    (let tx = ts_txs s t
     in if ts_id tx = 0 \<or> \<not> ts_active tx then ts_fail s
        else (case ctl_write (ts_writes tx) a val sz of
                Done w \<Rightarrow> ts_set_ops t (ts_ops s t @ [Wr a sz val]) (ts_set_tx t (tx\<lparr>ts_read_only := False, ts_writes := w\<rparr>) s)
              | Insert w \<Rightarrow> ts_set_pc t (WrLock a val sz) (ts_set_tx t (tx\<lparr>ts_read_only := False, ts_writes := w\<rparr>) s)))"

definition ts_commit_call :: "nat \<Rightarrow> ts_state \<Rightarrow> ts_state" where
  "ts_commit_call t s =
    (if ts_id (ts_txs s t) = 0 \<or> \<not> ts_active (ts_txs s t) then ts_fail s else ts_set_pc t CmClock s)"

fun tiny_call :: "nat \<Rightarrow> ts_call \<Rightarrow> ts_state \<Rightarrow> ts_state option" where
  "tiny_call t TInit s = Some (ts_init_thread t s)"
| "tiny_call t TExit s = Some (ts_exit_thread t s)"
| "tiny_call t TBegin s = Some (ts_begin t s)"
| "tiny_call t (TRead a sz) s = Some (ts_read t a sz s)"
| "tiny_call t (TWrite a val sz) s = Some (ts_write t a val sz s)"
| "tiny_call t TCommit s = Some (ts_commit_call t s)"
| "tiny_call t TAbort s = Some (ts_abort t s)"
| "tiny_call t TSerLock s = map_option (\<lambda>m. s\<lparr>ts_serialize := m\<rparr>) (tm_serialize_lock t (ts_serialize s))"
| "tiny_call t TSerUnlock s = Some (s\<lparr>ts_serialize := tm_serialize_unlock t (ts_serialize s)\<rparr>)"

fun ts_call_ok :: "(addr \<Rightarrow> ValueType \<Rightarrow> bool) \<Rightarrow> ts_call \<Rightarrow> bool" where
  "ts_call_ok L (TRead a sz) \<longleftrightarrow> L a sz"
| "ts_call_ok L (TWrite a val sz) \<longleftrightarrow> L a sz"
| "ts_call_ok L _ \<longleftrightarrow> True"

datatype ts_event = TsCall nat ts_call | TsRun nat

fun tiny_step :: "ts_env \<Rightarrow> (addr \<Rightarrow> ValueType \<Rightarrow> bool) \<Rightarrow> ts_state \<Rightarrow> ts_event \<Rightarrow> ts_state option" where
  "tiny_step E L s (TsCall t c) = (if \<not> ts_failed s \<and> ts_pcs s t = TsIdle \<and> ts_call_ok L c then tiny_call t c s else None)"
| "tiny_step E L s (TsRun t) = (if \<not> ts_failed s \<and> ts_pcs s t \<noteq> TsIdle then Some (tiny_run E t s) else None)"

fun tiny_exec :: "ts_env \<Rightarrow> (addr \<Rightarrow> ValueType \<Rightarrow> bool) \<Rightarrow> ts_event list \<Rightarrow> ts_state \<Rightarrow> ts_state option" where
  "tiny_exec E L [] s = Some s"
| "tiny_exec E L (ev # evs) s = (case tiny_step E L s ev of None \<Rightarrow> None | Some s' \<Rightarrow> tiny_exec E L evs s')"

end
