(* ===== verification/TM_TinySTM_Log.thy ===== *)
theory TM_TinySTM_Log
  imports TM_TinySTM
begin

text \<open>
  The lock words of TinySTM are records of their fields, its indexed write set is a finite map, and under the access
  discipline of \<^const>\<open>layout_ok\<close> the reads and writes of the commit-time-locking design treat it as a redo log.
\<close>

section \<open>Fields of a lock word\<close>

lemmas lock_consts = OWNED_BITS_def INCARNATION_BITS_def LOCK_BITS_def THREAD_BITS_def META_BITS_def

lemma masks:
  "OWNED_MASK = mask 2" "INCARNATION_MASK = mask 3" "THREAD_MASK = mask 13" "VERSION_BITS_MASK = mask 46"
  by (simp_all add: OWNED_MASK_def WRITE_MASK_def READ_MASK_def INCARNATION_MASK_def THREAD_MASK_def MAX_THREADS_def
      VERSION_BITS_MASK_def lock_consts mask_eq_exp_minus_1)

lemma bit_is_locked: "is_locked l \<longleftrightarrow> bit l 0 \<or> bit l 1"
proof -
  have "is_locked l \<longleftrightarrow> (\<exists>k. bit (l AND mask 2) k)"
    unfolding is_locked_def masks by (auto simp: u64_eq_iff intro: u64_bit_less)
  also have "\<dots> \<longleftrightarrow> (\<exists>k. bit l k \<and> k < 2)" by (auto simp: bit_and_iff bit_mask_iff dest: u64_bit_less)
  also have "\<dots> \<longleftrightarrow> bit l 0 \<or> bit l 1" by (auto simp: less_2_cases_iff)
  finally show ?thesis .
qed

lemma bit_get_owner [tm_bits]: "bit (get_owner l) k \<longleftrightarrow> k < 13 \<and> bit l (k + 5)"
  by (auto simp: get_owner_def masks lock_consts bit_drop_bit_eq bit_and_iff bit_push_bit_iff bit_mask_iff add.commute dest: u64_bit_less)

lemma bit_get_version [tm_bits]: "bit (get_version l) k \<longleftrightarrow> bit l (k + 18)"
  by (auto simp: get_version_def masks lock_consts bit_drop_bit_eq bit_and_iff bit_push_bit_iff bit_mask_iff add.commute dest: u64_bit_less)

lemma bit_get_incarnation [tm_bits]: "bit (get_incarnation l) k \<longleftrightarrow> k < 3 \<and> bit l (k + 2)"
  by (auto simp: get_incarnation_def masks lock_consts bit_drop_bit_eq bit_and_iff bit_mask_iff add.commute dest: u64_bit_less)

lemma bit_unlock_word [tm_bits]: "bit (unlock_word l) k \<longleftrightarrow> bit l k \<and> 2 \<le> k \<and> \<not> (5 \<le> k \<and> k < 18)"
  by (auto simp: unlock_word_def masks lock_consts bit_and_iff bit_not_iff bit_push_bit_iff bit_mask_iff dest: u64_bit_less)

lemma bit_version_word [tm_bits]: "bit (version_word v) k \<longleftrightarrow> 18 \<le> k \<and> k < 64 \<and> bit v (k - 18)"
  by (auto simp: version_word_def masks lock_consts bit_push_bit_iff bit_and_iff bit_mask_iff)

lemma bit_lock_word [tm_bits]:
  "bit (lock_word i l) k \<longleftrightarrow> (18 \<le> k \<and> bit l k) \<or> (5 \<le> k \<and> k < 18 \<and> bit i (k - 5)) \<or> k = 0 \<or> (2 \<le> k \<and> k < 5 \<and> bit l k)"
  by (auto simp: lock_word_def WRITE_MASK_def masks lock_consts bit_or_iff bit_and_iff bit_push_bit_iff bit_mask_iff bit_1_iff
      dest: u64_bit_less)

lemma bit_version_incarnation_word [tm_bits]:
  "bit (version_incarnation_word v i) k \<longleftrightarrow> (18 \<le> k \<and> k < 64 \<and> bit v (k - 18)) \<or> (2 \<le> k \<and> k < 5 \<and> bit i (k - 2))"
  by (auto simp: version_incarnation_word_def masks lock_consts bit_or_iff bit_push_bit_iff bit_and_iff bit_mask_iff)

lemma is_locked_by_alt: "is_locked_by l i \<longleftrightarrow> is_locked l \<and> get_owner l = i"
  by (simp add: is_locked_by_def is_locked_def get_owner_def)

lemma unlock_word_fields [simp]:
  "\<not> is_locked (unlock_word l)" "get_owner (unlock_word l) = 0" "get_version (unlock_word l) = get_version l"
  "get_incarnation (unlock_word l) = get_incarnation l"
  by (auto simp: bit_is_locked tm_bits intro!: u64_eqI)

lemma small_bits:
  assumes "unat (v :: u64) < 2 ^ n"
  shows "bit v k \<Longrightarrow> k < n"
proof (rule ccontr)
  assume b: "bit v k" and k: "\<not> k < n"
  have "bit (unat v) k" using b by (simp add: bit_unsigned_iff)
  then have "2 ^ k \<le> unat v" by (metis bit_nat_def div_less even_zero not_less)
  moreover have "(2 :: nat) ^ n \<le> 2 ^ k" using k by simp
  ultimately show False using assms by linarith
qed

lemmas field_bits = small_bits [where n = 46, simplified] small_bits [where n = 13, simplified] small_bits [where n = 3, simplified]

lemma version_word_fields [simp]:
  "\<not> is_locked (version_word v)" "get_owner (version_word v) = 0" "unat v < 2 ^ 46 \<Longrightarrow> get_version (version_word v) = v"
  "get_incarnation (version_word v) = 0"
  by (auto simp: bit_is_locked tm_bits intro!: u64_eqI dest: field_bits)

lemma lock_word_fields [simp]:
  "is_locked (lock_word i l)" "unat i < 2 ^ 13 \<Longrightarrow> get_owner (lock_word i l) = i" "get_version (lock_word i l) = get_version l"
  "get_incarnation (lock_word i l) = get_incarnation l" "lock_word i l AND WRITE_MASK = 1"
  by (auto simp: bit_is_locked tm_bits bit_and_iff WRITE_MASK_def bit_1_iff intro!: u64_eqI dest: field_bits)

lemma version_incarnation_word_fields [simp]:
  "\<not> is_locked (version_incarnation_word v i)" "get_owner (version_incarnation_word v i) = 0"
  "unat v < 2 ^ 46 \<Longrightarrow> get_version (version_incarnation_word v i) = v"
  "unat i < 2 ^ 3 \<Longrightarrow> get_incarnation (version_incarnation_word v i) = i"
  by (auto simp: bit_is_locked tm_bits intro!: u64_eqI dest: field_bits)

lemma word_of_fields:
  assumes "is_locked l = is_locked l'" "\<not> is_locked l" "get_owner l = get_owner l'" "get_version l = get_version l'"
    "get_incarnation l = get_incarnation l'"
  shows "l = l'"
proof (rule u64_eqI)
  fix k :: nat assume "k < 64"
  have o: "bit l (j + 5) = bit l' (j + 5)" if "j < 13" for j using assms(3) that by (metis bit_get_owner)
  have v: "bit l (j + 18) = bit l' (j + 18)" for j using assms(4) by (metis bit_get_version)
  have i: "bit l j = bit l' j" if "2 \<le> j" "j < 5" for j
  proof -
    define n where "n = j - 2"
    have j: "j = n + 2" using that(1) by (simp add: n_def)
    then have "n < 3" using that(2) by simp
    then have "bit l (n + 2) = bit l' (n + 2)" using assms(5) by (metis bit_get_incarnation)
    then show ?thesis using j by blast
  qed
  have z: "\<not> bit l 0" "\<not> bit l 1" "\<not> bit l' 0" "\<not> bit l' 1" using assms(1,2) by (auto simp: bit_is_locked)
  consider "k = 0" | "k = 1" | "2 \<le> k" "k < 5" | "5 \<le> k" "k < 18" | "18 \<le> k" by linarith
  then show "bit l k = bit l' k"
  proof cases
    case 3 then show ?thesis by (rule i)
  next
    case 4 then show ?thesis using o [of "k - 5"] by simp
  next
    case 5 then show ?thesis using v [of "k - 18"] by simp
  qed (use z in auto)
qed

section \<open>The indexed write set\<close>

lemma scan_pos_None: "scan_pos a ws i = None \<longleftrightarrow> a \<notin> fst ` set ws"
  by (induction ws arbitrary: i) auto

lemma scan_pos_Some:
  "scan_pos a ws i = Some j \<Longrightarrow> i \<le> j \<and> j < i + length ws \<and> fst (ws ! (j - i)) = a \<and> map_of ws a = Some (snd (ws ! (j - i)))"
proof (induction ws arbitrary: i)
  case (Cons kv ws)
  show ?case
  proof (cases "fst kv = a")
    case False
    then have "scan_pos a ws (Suc i) = Some j" using Cons.prems by simp
    from Cons.IH [OF this] show ?thesis using False by (cases kv) (auto simp: nth_Cons' Suc_diff_le)
  qed (use Cons.prems in \<open>cases kv; simp\<close>)
qed simp

lemma scan_pos_nth:
  assumes "distinct (map fst ws)" "j < length ws"
  shows "scan_pos (fst (ws ! j)) ws i = Some (i + j)"
  using assms
proof (induction ws arbitrary: i j)
  case (Cons kv ws)
  show ?case
  proof (cases j)
    case (Suc j')
    then have "fst (ws ! j') \<in> fst ` set ws" using Cons.prems by auto
    then have "fst kv \<noteq> fst (ws ! j')" using Cons.prems(1) by (metis distinct.simps(2) list.set_map list.simps(9))
    then show ?thesis using Cons Suc by simp
  qed simp
qed simp

lemma scan_pos_iff:
  assumes "distinct (map fst ws)"
  shows "scan_pos a ws 0 = Some j \<longleftrightarrow> j < length ws \<and> fst (ws ! j) = a"
  using scan_pos_nth [OF assms, of j 0] scan_pos_Some [of a ws 0 j] by auto

definition ts_inv :: "ts_ws \<Rightarrow> bool" where
  "ts_inv w \<longleftrightarrow> distinct (map fst (ts_write_set w)) \<and>
    (ts_index w \<noteq> [] \<longrightarrow> (\<forall>a. map_of (ts_index w) a = scan_pos a (ts_write_set w) 0))"

lemma ts_invD: "ts_inv w \<Longrightarrow> distinct (map fst (ts_write_set w))"
  by (simp add: ts_inv_def)

lemma ws_find_scan: "ts_inv w \<Longrightarrow> ws_find w a = scan_pos a (ts_write_set w) 0"
  by (simp add: ws_find_def ts_inv_def)

lemma ws_find_iff: "ts_inv w \<Longrightarrow> ws_find w a = Some j \<longleftrightarrow> j < length (ts_write_set w) \<and> fst (ts_write_set w ! j) = a"
  by (simp add: ws_find_scan scan_pos_iff ts_invD)

lemma ws_entry_map: "ts_inv w \<Longrightarrow> ws_entry w a = map_of (ts_write_set w) a"
proof -
  assume "ts_inv w"
  then show ?thesis
    using scan_pos_Some [of a "ts_write_set w" 0] scan_pos_None [of a "ts_write_set w" 0]
    by (cases "scan_pos a (ts_write_set w) 0")
      (auto simp: ws_entry_def ws_find_scan map_of_eq_None_iff [THEN iffD2])
qed

lemma index_fold:
  "map_of (foldl (\<lambda>ix i. AList.update (fst (ws ! i)) i ix) [] [0..<n]) a = Some j \<Longrightarrow> j < n \<and> fst (ws ! j) = a"
  by (induction n) (auto simp: update_conv' split: if_splits)

lemma index_fold_dom:
  "j < n \<Longrightarrow> map_of (foldl (\<lambda>ix i. AList.update (fst (ws ! i)) i ix) [] [0..<n]) (fst (ws ! j)) \<noteq> None"
  by (induction n) (auto simp: update_conv' less_Suc_eq)

lemma index_built:
  assumes "distinct (map fst ws)"
  shows "map_of (foldl (\<lambda>ix i. AList.update (fst (ws ! i)) i ix) [] [0..<length ws]) a = scan_pos a ws 0"
proof (rule option_eqI)
  fix j
  let ?ix = "foldl (\<lambda>ix i. AList.update (fst (ws ! i)) i ix) [] [0..<length ws]"
  show "map_of ?ix a = Some j \<longleftrightarrow> scan_pos a ws 0 = Some j"
  proof
    assume "map_of ?ix a = Some j"
    then show "scan_pos a ws 0 = Some j" using index_fold [of ws "length ws" a j] scan_pos_iff [OF assms] by blast
  next
    assume "scan_pos a ws 0 = Some j"
    then have j: "j < length ws" "fst (ws ! j) = a" using scan_pos_iff [OF assms] by blast+
    then obtain i where i: "map_of ?ix a = Some i" using index_fold_dom [of j "length ws" ws] by auto
    then have "i < length ws" "fst (ws ! i) = a" using index_fold [of ws "length ws" a i] by blast+
    then have "i = j" using j nth_eq_iff_index_eq [OF assms, of i j] by simp
    then show "map_of ?ix a = Some j" using i by simp
  qed
qed

lemma scan_pos_snoc: "scan_pos b (ws @ [(a, e)]) i =
    (case scan_pos b ws i of Some j \<Rightarrow> Some j | None \<Rightarrow> if a = b then Some (i + length ws) else None)"
  by (induction ws arbitrary: i) (simp_all split: option.splits)

lemma ws_get_or_insert_inv:
  assumes I: "ts_inv w" and g: "ws_get_or_insert w a = (w', i)"
  shows "ts_inv w'" "ws_find w' a = Some i" "i < length (ts_write_set w')" "fst (ts_write_set w' ! i) = a"
    "ts_write_set w' = (if a \<in> fst ` set (ts_write_set w) then ts_write_set w else ts_write_set w @ [(a, blank_entry)])"
proof -
  let ?ws = "ts_write_set w @ [(a, blank_entry)]"
  have A: "ts_inv w' \<and> ts_write_set w' = (if a \<in> fst ` set (ts_write_set w) then ts_write_set w else ?ws) \<and>
      ws_find w' a = Some i"
  proof (cases "ws_find w a")
    case None
    then have na: "a \<notin> fst ` set (ts_write_set w)" using I by (simp add: ws_find_scan scan_pos_None)
    have d: "distinct (map fst ?ws)" using na ts_invD [OF I] by auto
    have s: "scan_pos a ?ws 0 = Some (length (ts_write_set w))"
      using na by (simp add: scan_pos_snoc scan_pos_None [THEN iffD2])
    have w': "ts_write_set w' = ?ws" "i = length (ts_write_set w)"
      "ts_index w' = (if ts_index w \<noteq> [] then AList.update a i (ts_index w)
         else if length ?ws > kWsIndexThreshold then foldl (\<lambda>ix i. AList.update (fst (?ws ! i)) i ix) [] [0..<length ?ws] else [])"
      using g None by (auto simp: ws_get_or_insert_def ws_index_activate_def Let_def split: if_splits)
    have "map_of (ts_index w') b = scan_pos b ?ws 0" if "ts_index w' \<noteq> []" for b
    proof (cases "ts_index w \<noteq> []")
      case True
      then have "map_of (ts_index w) b = scan_pos b (ts_write_set w) 0" using I by (simp add: ts_inv_def)
      then show ?thesis
        using True w' na scan_pos_None [of a "ts_write_set w" 0] by (auto simp: update_conv' scan_pos_snoc split: option.splits)
    next
      case False
      then have "ts_index w' = foldl (\<lambda>ix i. AList.update (fst (?ws ! i)) i ix) [] [0..<length ?ws]"
        using that w'(3) by (simp split: if_splits)
      then show ?thesis using index_built [OF d] by simp
    qed
    then have "ts_inv w'" using d w'(1) by (simp add: ts_inv_def)
    then show ?thesis using w'(1,2) na s by (simp add: ws_find_scan)
  next
    case (Some j)
    then have "a \<in> fst ` set (ts_write_set w)"
      using ws_find_iff [OF I, of a j] by (metis image_eqI nth_mem)
    then show ?thesis using g Some I by (simp add: ws_get_or_insert_def)
  qed
  then show "ts_inv w'" "ws_find w' a = Some i"
    "ts_write_set w' = (if a \<in> fst ` set (ts_write_set w) then ts_write_set w else ?ws)" by blast+
  then show "i < length (ts_write_set w')" "fst (ts_write_set w' ! i) = a" using ws_find_iff by blast+
qed

text \<open>Assignment to an existing entry keeps the addresses.\<close>

lemma ws_set_fst: "map fst (ts_write_set (ws_set w i e)) = map fst (ts_write_set w)"
  by (simp add: ws_set_def map_update) (metis list_update_id map_update nth_map)

lemma scan_pos_fst: "map fst ws = map fst vs \<Longrightarrow> scan_pos a ws i = scan_pos a vs i"
  by (induction ws arbitrary: vs i) (auto simp: Cons_eq_map_conv)

lemma ws_set_inv: "ts_inv w \<Longrightarrow> ts_inv (ws_set w i e)"
proof -
  assume "ts_inv w"
  moreover have "ts_index (ws_set w i e) = ts_index w" by (simp add: ws_set_def)
  ultimately show ?thesis
    using scan_pos_fst [OF ws_set_fst [of w i e]] by (simp add: ts_inv_def ws_set_fst)
qed

lemma ws_set_map:
  assumes "ts_inv w" "i < length (ts_write_set w)" "fst (ts_write_set w ! i) = a"
  shows "map_of (ts_write_set (ws_set w i e)) = (map_of (ts_write_set w))(a \<mapsto> e)"
proof -
  have d: "distinct (map fst (ts_write_set w))" by (rule ts_invD [OF assms(1)])
  obtain xs e0 ys where w: "ts_write_set w = xs @ (a, e0) # ys" "i = length xs"
    using assms(2,3) by (metis id_take_nth_drop length_take less_imp_le_nat min.absorb2 prod.collapse)
  then have "a \<notin> fst ` set xs" "a \<notin> fst ` set ys" using d by auto
  then have "map_of xs a = None" by (simp add: map_of_eq_None_iff)
  then show ?thesis using w by (auto simp: ws_set_def fun_eq_iff map_add_def split: option.splits)
qed

lemma ws_put_inv: "ts_inv w \<Longrightarrow> ts_inv (ws_put w a e)"
  using ws_get_or_insert_inv(1) [of w a] by (auto simp: ws_put_def ws_set_inv split: prod.splits)

lemma ws_put_map: "ts_inv w \<Longrightarrow> map_of (ts_write_set (ws_put w a e)) = (map_of (ts_write_set w))(a \<mapsto> e)"
proof -
  assume I: "ts_inv w"
  obtain w' i where g: "ws_get_or_insert w a = (w', i)" by force
  note i = ws_get_or_insert_inv [OF I g]
  have "map_of (ts_write_set (ws_set w' i e)) = (map_of (ts_write_set w'))(a \<mapsto> e)"
    by (rule ws_set_map [OF i(1,3,4)])
  moreover have "a \<notin> fst ` set (ts_write_set w) \<Longrightarrow> (map_of (ts_write_set w @ [(a, blank_entry)]))(a \<mapsto> e) = (map_of (ts_write_set w))(a \<mapsto> e)"
    by (auto simp: fun_eq_iff map_add_def split: option.splits)
  ultimately show ?thesis using i(5) g by (auto simp: ws_put_def split: if_splits)
qed

lemma swap_last:
  assumes "distinct (map fst ws)" "i < length ws" and ws': "ws' = butlast (ws[i := last ws])"
  shows "length ws' = length ws - 1" "j < length ws - 1 \<Longrightarrow> ws' ! j = (if j = i then last ws else ws ! j)"
    "distinct (map fst ws')" "map_of ws' = (map_of ws)(fst (ws ! i) := None)"
proof -
  show len: "length ws' = length ws - 1" by (simp add: ws')
  show nth: "ws' ! j = (if j = i then last ws else ws ! j)" if "j < length ws - 1" for j
    using that assms(2) by (simp add: ws' nth_butlast)
  have inj: "fst (ws ! j) = fst (ws ! k) \<longleftrightarrow> j = k" if "j < length ws" "k < length ws" for j k
    using nth_eq_iff_index_eq [OF assms(1), of j k] that by simp
  have lst: "last ws = ws ! (length ws - 1)" using assms(2) by (intro last_conv_nth) auto
  show d: "distinct (map fst ws')"
    unfolding distinct_conv_nth using len nth inj lst by (auto split: if_splits)
  have iff: "map_of vs a = Some e \<longleftrightarrow> (\<exists>j < length vs. vs ! j = (a, e))" if "distinct (map fst vs)" for vs :: "('a \<times> 'b) list" and a e
    using that by (auto simp: map_of_eq_Some_iff in_set_conv_nth)
  show "map_of ws' = (map_of ws)(fst (ws ! i) := None)"
  proof (rule ext, rule option_eqI)
    fix a e
    show "map_of ws' a = Some e \<longleftrightarrow> ((map_of ws)(fst (ws ! i) := None)) a = Some e"
    proof
      assume "map_of ws' a = Some e"
      then obtain j where j: "j < length ws - 1" "ws' ! j = (a, e)" using iff [OF d] len by auto
      then have "\<exists>k < length ws. ws ! k = (a, e) \<and> k \<noteq> i"
        using nth [OF j(1)] lst by (cases "j = i") (auto intro: exI [of _ j] exI [of _ "length ws - 1"])
      then obtain k where k: "k < length ws" "ws ! k = (a, e)" "k \<noteq> i" by blast
      then show "((map_of ws)(fst (ws ! i) := None)) a = Some e"
        using iff [OF assms(1)] inj [of k i] assms(2) by auto
    next
      assume "((map_of ws)(fst (ws ! i) := None)) a = Some e"
      then have "a \<noteq> fst (ws ! i)" "\<exists>k < length ws. ws ! k = (a, e)" using iff [OF assms(1)] by (auto split: if_splits)
      then have "\<exists>k < length ws. ws ! k = (a, e) \<and> k \<noteq> i" by fastforce
      then obtain k where k: "k < length ws" "ws ! k = (a, e)" "k \<noteq> i" by blast
      show "map_of ws' a = Some e"
      proof (cases "k = length ws - 1")
        case True
        then have "i < length ws - 1" using k assms(2) by linarith
        then show ?thesis using nth [of i] k True lst iff [OF d] len by auto
      next
        case False
        then have "k < length ws - 1" using k by linarith
        then show ?thesis using nth [of k] k iff [OF d] len by auto
      qed
    qed
  qed
qed

lemma ws_erase_idx_map:
  assumes I: "ts_inv w" and i: "i < length (ts_write_set w)" and a: "fst (ts_write_set w ! i) = a"
  shows "ts_inv (ws_erase_idx w i)" "map_of (ts_write_set (ws_erase_idx w i)) = (map_of (ts_write_set w))(a := None)"
proof -
  let ?ws = "ts_write_set w" and ?w' = "ws_erase_idx w i"
  have d: "distinct (map fst ?ws)" by (rule ts_invD [OF I])
  have ws': "ts_write_set ?w' = butlast (?ws[i := last ?ws])" using i by (simp add: ws_erase_idx_def Let_def)
  note sl = swap_last [OF d i ws']
  show "map_of (ts_write_set ?w') = (map_of ?ws)(a := None)" using sl(4) a by simp
  have inj: "fst (?ws ! j) = fst (?ws ! k) \<longleftrightarrow> j = k" if "j < length ?ws" "k < length ?ws" for j k
    using nth_eq_iff_index_eq [OF d, of j k] that by simp
  have lst: "last ?ws = ?ws ! (length ?ws - 1)" using i by (intro last_conv_nth) auto
  have "map_of (ts_index ?w') b = scan_pos b (ts_write_set ?w') 0" if ne: "ts_index ?w' \<noteq> []" for b
  proof (rule option_eqI)
    fix j
    have ixn: "ts_index w \<noteq> []" using ne i by (auto simp: ws_erase_idx_def Let_def split: if_splits)
    then have ix: "map_of (ts_index w) c = Some j \<longleftrightarrow> j < length ?ws \<and> fst (?ws ! j) = c" for c j
      using I scan_pos_iff [OF d] by (simp add: ts_inv_def)
    have m: "map_of (ts_index ?w') b = (if b = a then None else if b = fst (last ?ws) then Some i else map_of (ts_index w) b)"
    proof (cases "a = fst (last ?ws)")
      case True
      then show ?thesis using i a ixn by (auto simp: ws_erase_idx_def Let_def delete_conv')
    next
      case False
      then show ?thesis using i a ixn by (auto simp: ws_erase_idx_def Let_def delete_conv' update_conv')
    qed
    have s: "scan_pos b (ts_write_set ?w') 0 = Some j \<longleftrightarrow> j < length ?ws - 1 \<and> fst (if j = i then last ?ws else ?ws ! j) = b"
      using scan_pos_iff [OF sl(3)] sl(1) sl(2) [of j] by auto
    show "map_of (ts_index ?w') b = Some j \<longleftrightarrow> scan_pos b (ts_write_set ?w') 0 = Some j"
      unfolding m s
    proof (cases "b = a")
      case True
      then show "((if b = a then None else if b = fst (last ?ws) then Some i else map_of (ts_index w) b) = Some j) =
          (j < length ?ws - 1 \<and> fst (if j = i then last ?ws else ?ws ! j) = b)"
        using a inj [of j i] inj [of "length ?ws - 1" i] i lst by auto
    next
      case False
      have l: "fst (last ?ws) = b \<Longrightarrow> i < length ?ws - 1" using False a lst i by (cases "i = length ?ws - 1") auto
      show "((if b = a then None else if b = fst (last ?ws) then Some i else map_of (ts_index w) b) = Some j) =
          (j < length ?ws - 1 \<and> fst (if j = i then last ?ws else ?ws ! j) = b)"
      proof (cases "b = fst (last ?ws)")
        case True
        then show ?thesis using False l lst inj [of j "length ?ws - 1"] by auto
      next
        case nb: False
        have "j = length ?ws - 1 \<Longrightarrow> fst (?ws ! j) \<noteq> b" using nb lst by auto
        moreover have "j < length ?ws \<Longrightarrow> j = length ?ws - 1 \<or> j < length ?ws - 1" by linarith
        ultimately show ?thesis using False nb ix a by auto
      qed
    qed
  qed
  then show "ts_inv ?w'" using sl(3) by (simp add: ts_inv_def)
qed

lemma ws_erase_addr_map:
  assumes "ts_inv w"
  shows "ts_inv (ws_erase_addr w a)" "map_of (ts_write_set (ws_erase_addr w a)) = (map_of (ts_write_set w))(a := None)"
proof -
  have "ts_inv (ws_erase_addr w a) \<and> map_of (ts_write_set (ws_erase_addr w a)) = (map_of (ts_write_set w))(a := None)"
  proof (cases "ws_find w a")
    case None
    then have "a \<notin> fst ` set (ts_write_set w)" using assms by (simp add: ws_find_scan scan_pos_None)
    then show ?thesis using None assms by (auto simp: ws_erase_addr_def fun_eq_iff map_of_eq_None_iff)
  next
    case (Some i)
    then show ?thesis using ws_erase_idx_map [OF assms] ws_find_iff [OF assms, of a i] by (simp add: ws_erase_addr_def)
  qed
  then show "ts_inv (ws_erase_addr w a)" "map_of (ts_write_set (ws_erase_addr w a)) = (map_of (ts_write_set w))(a := None)"
    by blast+
qed

text \<open>The write set as a map: what the transactions rely on.\<close>

lemma ts_inv_empty: "ts_inv \<lparr>ts_write_set = [], ts_index = []\<rparr>"
  by (simp add: ts_inv_def)

interpretation tiny_ws: map_store ts_empty "\<lambda>w a e. Some (ws_put w a e)" "\<lambda>w a. Some (ws_entry w a)" ts_inv "\<lambda>w. map_of (ts_write_set w)"
  by unfold_locales (simp_all add: ts_inv_empty ts_empty_def ws_put_inv ws_put_map ws_entry_map)

lemma ws_put_list:
  assumes "ts_inv w"
  shows "ts_write_set (ws_put w a e) =
    (case ws_find w a of Some i \<Rightarrow> (ts_write_set w)[i := (a, e)] | None \<Rightarrow> ts_write_set w @ [(a, e)])"
proof -
  obtain w' i where g: "ws_get_or_insert w a = (w', i)" by force
  note i = ws_get_or_insert_inv [OF assms g]
  have p: "ts_write_set (ws_put w a e) = (ts_write_set w')[i := (a, e)]" using g i(4) by (simp add: ws_put_def ws_set_def)
  show ?thesis
  proof (cases "ws_find w a")
    case None
    then have "a \<notin> fst ` set (ts_write_set w)" using assms by (simp add: ws_find_scan scan_pos_None)
    then have w': "ts_write_set w' = ts_write_set w @ [(a, blank_entry)]" using i(5) by simp
    have "i = length (ts_write_set w)"
      using i(2) w' \<open>a \<notin> _\<close> by (simp add: ws_find_scan [OF i(1)] scan_pos_snoc scan_pos_None [THEN iffD2])
    then show ?thesis using p w' None by simp
  next
    case (Some j)
    then have "w' = w" "i = j" using g by (simp_all add: ws_get_or_insert_def)
    then show ?thesis using p Some by simp
  qed
qed

section \<open>The write set as a redo log\<close>

definition ts_cell :: "addr \<times> WriteLogEntry_wbctl \<Rightarrow> cell" where
  "ts_cell kv = (fst kv, wl_type (snd kv), wl_new_val (snd kv))"

definition ts_effect :: "ts_ws \<Rightarrow> mem \<Rightarrow> mem" where
  "ts_effect w m = apply_cells (map ts_cell (ts_write_set w)) m"

definition ts_ok :: "(addr \<Rightarrow> ValueType \<Rightarrow> bool) \<Rightarrow> ts_ws \<Rightarrow> bool" where
  "ts_ok L w \<longleftrightarrow> ts_inv w \<and> cells_ok L (map ts_cell (ts_write_set w))"

text \<open>The cells that are accessed with one type, or as \<open>UINT64\<close> and \<open>POINTER\<close>.\<close>

definition word_cells :: "(addr \<Rightarrow> ValueType \<Rightarrow> bool) \<Rightarrow> addr \<Rightarrow> ValueType \<Rightarrow> bool" where
  "word_cells L a t \<longleftrightarrow> L a t \<and> (\<forall>u. L a u \<longrightarrow> u = t \<or> {t, u} = {UINT64, POINTER})"

lemma word_cells_types: "word_cells L a t \<Longrightarrow> word_cells L a u \<Longrightarrow> u = t \<or> t = UINT64 \<and> u = POINTER \<or> t = POINTER \<and> u = UINT64"
  by (auto simp: word_cells_def doubleton_eq_iff)

lemma and_not_add: "(a AND NOT m) + (a AND m) = (a :: u64)"
proof -
  have "(a AND NOT m) + (a AND m) = (a AND NOT m) OR (a AND m)"
    by (rule disjunctive_add) (simp add: bit_and_iff bit_not_iff)
  also have "\<dots> = a" by (rule u64_eqI) (auto simp: bit_or_iff bit_and_iff bit_not_iff)
  finally show ?thesis .
qed

lemma minus_and_not: "(a :: u64) - (a AND NOT m) = a AND m"
  using and_not_add [of a m] by (metis add_diff_cancel_left')

lemma unat_and_less: "unat ((a :: u64) AND m) \<le> unat m"
  using word_and_le1 [of a m] by (simp add: word_le_nat_alt and.commute)

lemma ws_entry_in: "ts_inv w \<Longrightarrow> ws_entry w b = Some e \<Longrightarrow> (b, e) \<in> set (ts_write_set w)"
  by (simp add: ws_entry_map map_of_SomeD)

lemma ws_entry_cell: "ts_ok L w \<Longrightarrow> ws_entry w b = Some e \<Longrightarrow> L b (wl_type e)"
  by (auto simp: ts_ok_def cells_ok_def ts_cell_def dest!: ws_entry_in)

text \<open>No entry starts inside a cell, and none covers it from below.\<close>

lemma no_inner_entry:
  assumes "layout_ok L" "ts_ok L w" "L a sz" "0 < i" "i < type_size sz"
  shows "ws_entry w (a + of_nat i) = None"
proof (rule ccontr)
  assume "ws_entry w (a + of_nat i) \<noteq> None"
  then obtain e where "ws_entry w (a + of_nat i) = Some e" by auto
  then have L: "L (a + of_nat i) (wl_type e)" by (rule ws_entry_cell [OF assms(2)])
  have "i < 8" using assms(5) type_size_le [of sz] by linarith
  then have "i < 2 ^ 64" by simp
  then have "a \<noteq> a + of_nat i" using assms(4) add_of_nat_eq_iff [of 0 i a] by auto
  then have "disjoint_range a (type_size sz) (a + of_nat i) (type_size (wl_type e))"
    using layout_okD(3) [OF assms(1,3) L] by blast
  then have "a + of_nat i \<noteq> a + of_nat i + of_nat 0" using assms(5) type_size_pos unfolding disjoint_range_def by blast
  then show False by simp
qed

lemma no_covering_entry:
  assumes "layout_ok L" "ts_ok L w" "L a sz" "ws_entry w b = Some e" "b \<noteq> a"
  shows "type_size (wl_type e) \<le> unat (a - b)"
proof (rule ccontr)
  assume "\<not> type_size (wl_type e) \<le> unat (a - b)"
  then have l: "unat (a - b) < type_size (wl_type e)" by simp
  have "disjoint_range b (type_size (wl_type e)) a (type_size sz)"
    using layout_okD(3) [OF assms(1) ws_entry_cell [OF assms(2,4)] assms(3)] assms(5) by blast
  moreover have "b + of_nat (unat (a - b)) = a + of_nat 0" by simp
  ultimately show False using l type_size_pos [of sz] unfolding disjoint_range_def by blast
qed

lemma no_aligned_entry:
  assumes "layout_ok L" "ts_ok L w" "L a sz" "ws_entry w a = None" "ws_entry w (a AND NOT m) = Some e"
  shows "type_size (wl_type e) \<le> unat (a AND m)"
  using no_covering_entry [OF assms(1-3,5)] assms(4,5) by (metis minus_and_not option.distinct(1))

lemma read_own_none:
  assumes "layout_ok L" "ts_ok L w" "L a sz" "ws_entry w a = None"
  shows "read_own w a sz = NoMatch"
proof -
  note na = no_aligned_entry [OF assms]
  obtain n where n: "type_size sz = Suc n" using type_size_pos [of sz] by (metis Suc_pred')
  have "read_cover64 w a sz = NoMatch"
    using na [of 7] unat_and_less [of a 7]
    by (auto simp: read_cover64_def Let_def mk_ByteOffset_def OFFSET_MASK_def split: option.splits)
  moreover have "read_cover32 w a sz = NoMatch"
    using na [of 3] unat_and_less [of a 3] by (auto simp: read_cover32_def Let_def minus_and_not split: option.splits)
  moreover have "read_cover16 w a sz = NoMatch"
    using na [of 1] unat_and_less [of a 1] by (auto simp: read_cover16_def Let_def minus_and_not split: option.splits)
  ultimately show ?thesis by (simp add: read_own_def or_else_def assms(4) n)
qed

lemma read_own_some:
  assumes "ts_ok (word_cells L) w" "word_cells L a sz" "ws_entry w a = Some e"
  shows "read_own w a sz = Own (wl_new_val e)"
  using word_cells_types [OF assms(2) ws_entry_cell [OF assms(1,3)]] assms(3)
  by (auto simp: read_own_def or_else_def read_exact_def)

lemma write_exact_none:
  assumes "ts_ok (word_cells L) w" "word_cells L a sz" "ws_entry w a = Some e" "wl_type e \<noteq> sz"
  shows "write_exact w a v sz = None"
  using word_cells_types [OF assms(2) ws_entry_cell [OF assms(1,3)]] assms(3,4)
  by (auto simp: write_exact_def ws_entry_def Let_def split: option.splits)

lemma aligned_entry_same:
  assumes "layout_ok L" "ts_ok L w" "L a sz" "ws_entry w (base_addr (mk_ByteOffset a)) = Some e" "offset (mk_ByteOffset a) \<noteq> 0"
  shows "type_size (wl_type e) \<le> unat (offset (mk_ByteOffset a))"
proof -
  have "base_addr (mk_ByteOffset a) \<noteq> a"
    using assms(5) and_not_add [of a 7] by (auto simp: mk_ByteOffset_def OFFSET_MASK_def)
  then show ?thesis
    using no_covering_entry [OF assms(1-4)] minus_and_not [of a 7] by (simp add: mk_ByteOffset_def OFFSET_MASK_def)
qed

lemma write_base_none:
  assumes "layout_ok L" "ts_ok L w" "L a sz"
  shows "write_base w a v sz = None"
proof (rule ccontr)
  assume "write_base w a v sz \<noteq> None"
  then obtain i where o: "offset (mk_ByteOffset a) \<noteq> 0" and f: "ws_find w (base_addr (mk_ByteOffset a)) = Some i"
      and t: "wl_type (snd (ts_write_set w ! i)) = UINT64"
    by (auto simp: write_base_def Let_def split: if_splits option.splits)
  have "ws_entry w (base_addr (mk_ByteOffset a)) = Some (snd (ts_write_set w ! i))" using f by (simp add: ws_entry_def)
  from aligned_entry_same [OF assms this o] t have "8 \<le> unat (offset (mk_ByteOffset a))" by simp
  then show False using unat_and_less [of a 7] by (simp add: mk_ByteOffset_def OFFSET_MASK_def)
qed

lemma write_not_covered:
  assumes "layout_ok (word_cells L)" "ts_ok (word_cells L) w" "word_cells L a sz"
  shows "\<not> write_covered w a sz"
proof -
  have "wl_type e = sz \<or> type_size (wl_type e) = type_size sz" if "ws_entry w a = Some e" for e
    using word_cells_types [OF assms(3) ws_entry_cell [OF assms(2) that]] by auto
  moreover have "type_size (wl_type e) < type_size sz + unat (offset (mk_ByteOffset a))"
    if "ws_entry w (base_addr (mk_ByteOffset a)) = Some e" "offset (mk_ByteOffset a) \<noteq> 0" for e
    using aligned_entry_same [OF assms that] type_size_pos [of sz] by linarith
  ultimately show ?thesis
    by (auto simp: write_covered_def not_le split: option.splits)
qed

lemma erase_narrower_same:
  assumes "\<And>j. i \<le> j \<Longrightarrow> j < i + n \<Longrightarrow> case ws_entry w (a + of_nat j) of None \<Rightarrow> True | Some e \<Rightarrow> type_size sz \<le> type_size (wl_type e)"
  shows "erase_narrower w a sz i n = w"
  using assms
proof (induction n arbitrary: i)
  case (Suc n)
  have "erase_narrower w a sz (Suc i) n = w" by (rule Suc.IH) (use Suc.prems in auto)
  moreover have "case ws_entry w (a + of_nat i) of None \<Rightarrow> True | Some e \<Rightarrow> type_size sz \<le> type_size (wl_type e)"
    using Suc.prems [of i] by simp
  ultimately show ?case by (auto split: option.splits)
qed simp

lemma erase_narrower_ok:
  assumes "layout_ok (word_cells L)" "ts_ok (word_cells L) w" "word_cells L a sz"
  shows "erase_narrower w a sz 0 (type_size sz) = w"
proof (rule erase_narrower_same)
  fix j assume j: "j < 0 + type_size sz"
  show "case ws_entry w (a + of_nat j) of None \<Rightarrow> True | Some e \<Rightarrow> type_size sz \<le> type_size (wl_type e)"
  proof (cases "j = 0")
    case True
    then show ?thesis
      using word_cells_types [OF assms(3)] ws_entry_cell [OF assms(2), of a] by (force split: option.splits)
  next
    case False
    then show ?thesis using no_inner_entry [OF assms, of j] j by simp
  qed
qed

definition ctl_write_log :: "u64 \<Rightarrow> ts_ws \<Rightarrow> addr \<Rightarrow> any_type_t \<Rightarrow> ValueType \<Rightarrow> ts_ws" where
  "ctl_write_log ver w a v sz = (case ctl_write w a v sz of Done w' \<Rightarrow> w' | Insert w' \<Rightarrow> ctl_insert w' a v sz ver)"

text \<open>Under the discipline a write updates its entry or inserts one; the entry then holds the value.\<close>

lemma ctl_write_cases:
  assumes "layout_ok (word_cells L)" "ts_ok (word_cells L) w" "word_cells L a sz"
  shows "ctl_write w a v sz =
    (case ws_find w a of
       Some i \<Rightarrow> if wl_type (snd (ts_write_set w ! i)) = sz then Done (ws_set_val w i v) else Insert w
     | None \<Rightarrow> Insert w)"
proof -
  have *: "write_exact w a v sz = None \<Longrightarrow> ctl_write w a v sz = Insert w"
    using write_base_none [OF assms] write_not_covered [OF assms] erase_narrower_ok [OF assms] by (simp add: ctl_write_def)
  show ?thesis
  proof (cases "ws_find w a")
    case None
    then show ?thesis using * by (simp add: write_exact_def)
  next
    case (Some i)
    show ?thesis
    proof (cases "wl_type (snd (ts_write_set w ! i)) = sz")
      case True
      then show ?thesis using Some by (simp add: ctl_write_def write_exact_def)
    next
      case False
      then show ?thesis using Some * write_exact_none [OF assms(2,3)] by (simp add: ws_entry_def)
    qed
  qed
qed

lemma ctl_write_log_list:
  assumes "layout_ok (word_cells L)" "ts_ok (word_cells L) w" "word_cells L a sz"
  shows "ts_inv (ctl_write_log ver w a v sz)"
    "map ts_cell (ts_write_set (ctl_write_log ver w a v sz)) =
      (case ws_find w a of Some i \<Rightarrow> (map ts_cell (ts_write_set w))[i := (a, sz, v)] | None \<Rightarrow> map ts_cell (ts_write_set w) @ [(a, sz, v)])"
proof -
  have I: "ts_inv w" using assms(2) by (simp add: ts_ok_def)
  show "ts_inv (ctl_write_log ver w a v sz)"
    using ctl_write_cases [OF assms, of v] I
    by (auto simp: ctl_write_log_def ctl_insert_def ws_put_inv ws_set_val_def ws_set_inv split: option.splits)
  show "map ts_cell (ts_write_set (ctl_write_log ver w a v sz)) =
      (case ws_find w a of Some i \<Rightarrow> (map ts_cell (ts_write_set w))[i := (a, sz, v)] | None \<Rightarrow> map ts_cell (ts_write_set w) @ [(a, sz, v)])"
  proof (cases "ws_find w a")
    case None
    then show ?thesis
      using ctl_write_cases [OF assms, of v] ws_put_list [OF I, of a]
      by (simp add: ctl_write_log_def ctl_insert_def ts_cell_def)
  next
    case (Some i)
    then have "fst (ts_write_set w ! i) = a" using ws_find_iff [OF I] by blast
    then show ?thesis
      using ctl_write_cases [OF assms, of v] ws_put_list [OF I, of a] Some
      by (simp add: ctl_write_log_def ctl_insert_def ws_set_val_def ws_set_def ts_cell_def map_update)
  qed
qed

lemma ctl_write_log_ok:
  assumes "layout_ok (word_cells L)" "ts_ok (word_cells L) w" "word_cells L a sz"
  shows "ts_ok (word_cells L) (ctl_write_log ver w a v sz)"
    "ts_effect (ctl_write_log ver w a v sz) m = write_value_to_addr (ts_effect w m) a v sz"
proof -
  let ?cs = "map ts_cell (ts_write_set w)" and ?w' = "ctl_write_log ver w a v sz"
  have I: "ts_inv w" and c: "cells_ok (word_cells L) ?cs" using assms(2) by (simp_all add: ts_ok_def)
  note l = ctl_write_log_list [OF assms, of ver v]
  have "cells_ok (word_cells L) (map ts_cell (ts_write_set ?w')) \<and> ts_effect ?w' m = write_value_to_addr (ts_effect w m) a v sz"
  proof (cases "ws_find w a")
    case None
    then have "a \<notin> fst ` set ?cs" using I by (force simp: ws_find_scan scan_pos_None ts_cell_def)
    then show ?thesis using c assms(3) l(2) None by (auto simp: cells_ok_def ts_effect_def)
  next
    case (Some i)
    then have i: "i < length (ts_write_set w)" "fst (ts_write_set w ! i) = a" using ws_find_iff [OF I] by blast+
    define xs where "xs = take i ?cs"
    define ys where "ys = drop (Suc i) ?cs"
    define e where "e = snd (ts_write_set w ! i)"
    have cs: "?cs = xs @ (a, wl_type e, wl_new_val e) # ys"
      using id_take_nth_drop [of i ?cs] i by (simp add: xs_def ys_def e_def ts_cell_def)
    have "length xs = i" using i by (simp add: xs_def)
    then have u: "?cs[i := (a, sz, v)] = xs @ (a, sz, v) # ys" by (metis cs list_update_length)
    have "cells_ok (word_cells L) (xs @ (a, sz, v) # ys)" using c assms(3) unfolding cs by (auto simp: cells_ok_def)
    moreover have "apply_cells (xs @ (a, sz, v) # ys) m =
        write_value_to_addr (apply_cells (xs @ (a, wl_type e, wl_new_val e) # ys) m) a v sz"
      by (rule apply_cells_update [OF assms(1) _ assms(3)]) (use c cs in simp)
    ultimately show ?thesis using l(2) Some u cs by (simp add: ts_effect_def del: apply_cells_simps)
  qed
  then show "ts_ok (word_cells L) ?w'" "ts_effect ?w' m = write_value_to_addr (ts_effect w m) a v sz"
    using l(1) by (simp_all add: ts_ok_def)
qed

lemma ctl_lookup_cases:
  assumes "layout_ok (word_cells L)" "ts_ok (word_cells L) w" "word_cells L a sz"
  shows "ctl_lookup w a sz = (case ws_entry w a of Some e \<Rightarrow> Hit (wl_new_val e) | None \<Rightarrow> Miss)"
  using read_own_none [OF assms] read_own_some [OF assms(2,3)] by (auto simp: ctl_lookup_def split: option.splits)

interpretation tiny_log: redo_log ts_empty ctl_lookup "\<lambda>w a v sz. Some (ctl_write_log ver w a v sz)" ts_effect "word_cells L" "ts_ok (word_cells L)"
  for L ver
proof (unfold_locales, goal_cases)
  case (3 w a sz v m)
  then obtain e where e: "ws_entry w a = Some e" "v = wl_new_val e"
    using ctl_lookup_cases [OF 3(1-3)] by (auto split: option.splits)
  have "ts_inv w" using 3(2) by (simp add: ts_ok_def)
  then have "(a, wl_type e, v) \<in> set (map ts_cell (ts_write_set w))" using ws_entry_in [OF _ e(1)] e(2) by (force simp: ts_cell_def)
  then show ?case using apply_cells_hit [OF 3(1) _ 3(3)] 3(2) by (simp add: ts_effect_def ts_ok_def)
next
  case (4 w a sz m)
  have "ws_entry w a = None" using 4(4) ctl_lookup_cases [OF 4(1-3)] by (auto split: option.splits)
  moreover have "ts_inv w" using 4(2) by (simp add: ts_ok_def)
  ultimately have "a \<notin> fst ` set (map ts_cell (ts_write_set w))"
    by (auto simp: ws_entry_map map_of_eq_None_iff ts_cell_def image_iff)
  then show ?case using apply_cells_other [OF 4(1) _ 4(3)] 4(2) by (simp add: ts_effect_def ts_ok_def)
next
  case (5 w a sz v w')
  then show ?case using ctl_write_log_ok(1) [OF 5(1-3)] by auto
next
  case (6 w a sz v w' m)
  then show ?case using ctl_write_log_ok(2) [OF 6(1-3)] by auto
qed (simp_all add: ts_ok_def ts_empty_def ts_inv_empty cells_ok_def ts_effect_def)

section \<open>Theorems\<close>

text \<open>Sequences of insertions and erasures, on the write set and on a map.\<close>

datatype ws_cmd = WsPut addr WriteLogEntry_wbctl | WsErase addr

fun ws_do :: "ts_ws \<Rightarrow> ws_cmd \<Rightarrow> ts_ws" where
  "ws_do w (WsPut a e) = ws_put w a e"
| "ws_do w (WsErase a) = ws_erase_addr w a"

fun map_do :: "(addr \<rightharpoonup> WriteLogEntry_wbctl) \<Rightarrow> ws_cmd \<Rightarrow> (addr \<rightharpoonup> WriteLogEntry_wbctl)" where
  "map_do f (WsPut a e) = f(a \<mapsto> e)"
| "map_do f (WsErase a) = f(a := None)"

lemma ws_do_map: "ts_inv w \<Longrightarrow> ts_inv (ws_do w c) \<and> map_of (ts_write_set (ws_do w c)) = map_do (map_of (ts_write_set w)) c"
  by (cases c) (simp_all add: ws_put_inv ws_put_map ws_erase_addr_map)

text \<open>
  C18. The write set of TinySTM, a vector searched linearly up to 32 entries and through an address index from then on, with erasure by
  swapping in the last entry, is a map from addresses to entries: after any sequence of insertions and erasures a lookup finds what the map holds.
\<close>

theorem tiny_ws_refines_map: "ws_entry (foldl ws_do ts_empty cs) a = foldl map_do Map.empty cs a"
proof -
  have "ts_inv (foldl ws_do w cs) \<and> map_of (ts_write_set (foldl ws_do w cs)) = foldl map_do (map_of (ts_write_set w)) cs" if "ts_inv w" for w
    using that by (induction cs arbitrary: w) (simp_all add: ws_do_map)
  from this [of ts_empty] show ?thesis using ts_inv_empty by (simp add: ws_entry_map ts_empty_def)
qed

text \<open>
  A write narrower than an entry of the same address is dropped unless it is a byte: the transaction goes on reading the old value.
\<close>

lemma ws_entry_put: "ts_inv w \<Longrightarrow> ws_entry (ws_put w a e) b = (if b = a then Some e else ws_entry w b)"
  by (simp add: ws_entry_map ws_put_inv ws_put_map)

theorem tiny_narrow_write_lost:
  "let w = ctl_insert ts_empty a v UINT64 ver in ctl_write w a b UINT32 = Done w \<and> ctl_lookup w a UINT32 = Hit (any_u8 v AND 0xFFFFFFFF)"
proof -
  let ?e = "\<lparr>wl_type = UINT64, wl_addr = a, wl_version = ver, wl_new_val = v\<rparr>"
  let ?w = "ctl_insert ts_empty a v UINT64 ver"
  have i: "ts_inv ts_empty" using ts_inv_empty by (simp add: ts_empty_def)
  have e: "ws_entry ?w a = Some ?e" by (simp add: ctl_insert_def ws_entry_put [OF i])
  then obtain j where j: "ws_find ?w a = Some j" "snd (ts_write_set ?w ! j) = ?e" by (auto simp: ws_entry_def)
  have n: "ws_entry ?w b = None" if "b \<noteq> a" for b using that i by (simp add: ctl_insert_def ws_entry_put ws_entry_map) (simp add: ts_empty_def)
  have "write_exact ?w a b UINT32 = None" using j by (simp add: write_exact_def Let_def)
  moreover have "write_base ?w a b UINT32 = None"
  proof (cases "offset (mk_ByteOffset a) = 0")
    case False
    then have "base_addr (mk_ByteOffset a) \<noteq> a" using and_not_add [of a OFFSET_MASK] by (auto simp: mk_ByteOffset_def)
    then have "ws_find ?w (base_addr (mk_ByteOffset a)) = None" using n by (simp add: ws_entry_def)
    then show ?thesis by (simp add: write_base_def Let_def)
  qed (simp add: write_base_def Let_def)
  moreover have "write_covered ?w a UINT32" using e by (simp add: write_covered_def)
  moreover have "read_own ?w a UINT32 = Own (any_u8 v AND 0xFFFFFFFF)" using e by (simp add: read_own_def read_exact_def or_else_def)
  ultimately show ?thesis by (simp add: Let_def ctl_write_def ctl_lookup_def)
qed

theorem tiny_double_read_misses: "ctl_lookup (ctl_insert ts_empty 0x200000 v UINT64 ver) 0x200000 DOUBLE = Miss"
  by code_simp

end
