(* ===== verification/TM_TinySTM_Relation.thy ===== *)
theory TM_TinySTM_Relation
  imports TM_TinySTM_Steps TM_TinySTM_Log
begin

text \<open>
  TinySTM with commit-time locking refines the versioned-lock protocol, and beyond it every running transaction reads from
  the snapshot of its \<open>end_version\<close>.  The relation \<open>tiny_sim\<close> has a part for the shared state, a part for the
  transaction object of each thread and a part for its program counter; each step is matched by steps of the protocol.
\<close>

section \<open>Read sets\<close>

lemma zip_take_len: "zip xs (take (length xs) zs) = zip xs zs"
proof (induction xs arbitrary: zs)
  case (Cons x xs)
  then show ?case by (cases zs) simp_all
qed simp

lemma marked_append:
  "marked_reads (ds @ es) ms = marked_reads ds ms @ marked_reads es (drop (length ds) ms)"
  by (simp add: marked_reads_def zip_append1 zip_take_len)

lemma marked_Cons: "marked_reads (r # rs) (b # ms) = (if b then [read_entry r] else []) @ marked_reads rs ms"
  by (simp add: marked_reads_def)

lemma marked_Nil [simp]: "marked_reads [] ms = []" "marked_reads rs [] = []"
  by (simp_all add: marked_reads_def)

lemma marked_split:
  assumes "length ms = length (ds @ r # rest)"
  shows "marked_reads (ds @ r # rest) ms =
    marked_reads ds ms @ (if ms ! length ds then [read_entry r] else []) @ marked_reads rest (drop (Suc (length ds)) ms)"
    "marked_reads (ds @ [r]) ms = marked_reads ds ms @ (if ms ! length ds then [read_entry r] else [])"
  using assms Cons_nth_drop_Suc [of "length ds" ms, symmetric] by (simp_all add: marked_append marked_Cons)

lemma marked_snoc:
  assumes "length ms = length rs"
  shows "marked_reads (rs @ [r]) (ms @ [b]) = marked_reads rs ms @ (if b then [read_entry r] else [])"
  using assms by (simp add: marked_reads_def)

text \<open>The reads already processed by a validation loop with the rest \<open>rest\<close>.\<close>

definition passed :: "ts_tx \<Rightarrow> bool list \<Rightarrow> ReadLogEntry_wbctl list \<Rightarrow> vread list" where
  "passed tx ms rest = marked_reads (take (length (ts_reads tx) - length rest) (ts_reads tx)) ms"

lemma passed_start [simp]: "passed tx ms (ts_reads tx) = []"
  by (simp add: passed_def marked_reads_def)

lemma passed_all [simp]: "passed tx ms [] = marked_reads (ts_reads tx) ms"
  by (simp add: passed_def)

lemma passed_Cons:
  assumes "ts_reads tx = ds @ r # rest" "length ms = length (ts_reads tx)"
  shows "passed tx ms (r # rest) = marked_reads ds ms"
    "passed tx ms rest = marked_reads ds ms @ (if ms ! length ds then [read_entry r] else [])"
  using marked_split(2) [of ms ds r rest] assms by (simp_all add: passed_def)

section \<open>The relation\<close>

definition rd_phase :: "addr \<Rightarrow> ValueType \<Rightarrow> u64 \<Rightarrow> vphase" where
  "rd_phase a sz l = (if is_locked l then PBody else PRead a sz (unat (get_version l)) 0 0)"

fun cont_phase :: "ts_cont \<Rightarrow> nat \<Rightarrow> vphase" where
  "cont_phase (XRead a sz l spin) n = rd_phase a sz l"
| "cont_phase (XWrite a val sz) n = PBody"
| "cont_phase (XSpin a val sz) n = PBody"
| "cont_phase (XLock a as k) n = PLock"
| "cont_phase (XGap cv) n = PVal 0"
| "cont_phase (XCommit cv) n = PVal n"

fun ts_phase :: "ts_tx \<Rightarrow> bool list \<Rightarrow> ts_pc \<Rightarrow> vphase" where
  "ts_phase tx ms (RdLoop a sz l spin) = rd_phase a sz l"
| "ts_phase tx ms (RdVal a sz l spin i v) = PRead a sz (unat (get_version l)) i v"
| "ts_phase tx ms (ExtClock k) = cont_phase k 0"
| "ts_phase tx ms (ValLoop k lv rs) = cont_phase k (length (passed tx ms rs))"
| "ts_phase tx ms (SpinCheck k) = cont_phase k 0"
| "ts_phase tx ms (SpinTok k) = cont_phase k 0"
| "ts_phase tx ms (CmLock as) = PLock"
| "ts_phase tx ms (CmTry a as n) = PLock"
| "ts_phase tx ms (CmCas ex d a as n) = PLock"
| "ts_phase tx ms (CmWB cv bs) = PWB bs"
| "ts_phase tx ms (CmRel cv es) = PRel"
| "ts_phase tx ms (AbUnlock gs) = PUndo"
| "ts_phase tx ms _ = PBody"

abbreviation (input) own_locks :: "op list vstate \<Rightarrow> nat \<Rightarrow> nat set" where
  "own_locks v t \<equiv> {g. vowner v g = Some t}"

text \<open>A thread in the body of a transaction holds no lock; a committing one holds the locks of its list.\<close>

definition body_locks :: "op list vstate \<Rightarrow> nat \<Rightarrow> ts_tx \<Rightarrow> bool" where
  "body_locks v t tx \<longleftrightarrow> own_locks v t = {} \<and> ts_locks tx = []"

definition commit_locks :: "op list vstate \<Rightarrow> nat \<Rightarrow> ts_tx \<Rightarrow> bool" where
  "commit_locks v t tx \<longleftrightarrow> own_locks v t = set (ts_locks tx) \<and> distinct (ts_locks tx) \<and>
    set (ts_locks tx) \<subseteq> lock_of ` fst ` set (ts_write_set (ts_writes tx)) \<and>
    vcells v t = map ts_cell (ts_write_set (ts_writes tx))"

definition lock_sim :: "op list vstate \<Rightarrow> nat \<Rightarrow> ts_tx \<Rightarrow> addr list \<Rightarrow> bool" where
  "lock_sim v t tx as \<longleftrightarrow> commit_locks v t tx \<and> suffix_of as (sort (map fst (ts_write_set (ts_writes tx)))) {a. vowner v (lock_of a) = Some t}"

definition all_locked :: "op list vstate \<Rightarrow> nat \<Rightarrow> ts_tx \<Rightarrow> u64 \<Rightarrow> bool" where
  "all_locked v t tx cv \<longleftrightarrow> commit_locks v t tx \<and> (\<forall>a \<in> fst ` set (ts_write_set (ts_writes tx)). vowner v (lock_of a) = Some t) \<and>
    vcv v t = unat cv \<and> unat cv < 2 ^ 46"

definition snaps :: "(addr \<Rightarrow> ValueType \<Rightarrow> bool) \<Rightarrow> mem \<Rightarrow> op list vstate \<Rightarrow> nat \<Rightarrow> vread list \<Rightarrow> bool" where
  "snaps L m0 v b rs \<longleftrightarrow> (\<forall>r \<in> set rs. snap lock_of L m0 v b r)"

definition at_end :: "(addr \<Rightarrow> ValueType \<Rightarrow> bool) \<Rightarrow> mem \<Rightarrow> op list vstate \<Rightarrow> ts_tx \<Rightarrow> bool list \<Rightarrow> bool" where
  "at_end L m0 v tx ms \<longleftrightarrow> snaps L m0 v (Suc (unat (ts_end tx))) (marked_reads (ts_reads tx) ms)"

text \<open>What an access in progress knows: a read missed the write set, a write will insert into it.\<close>

definition reading :: "(addr \<Rightarrow> ValueType \<Rightarrow> bool) \<Rightarrow> ts_tx \<Rightarrow> addr \<Rightarrow> ValueType \<Rightarrow> bool" where
  "reading L tx a sz \<longleftrightarrow> L a sz \<and> ctl_lookup (ts_writes tx) a sz = Miss"

definition writing :: "(addr \<Rightarrow> ValueType \<Rightarrow> bool) \<Rightarrow> ts_tx \<Rightarrow> addr \<Rightarrow> any_type_t \<Rightarrow> ValueType \<Rightarrow> bool" where
  "writing L tx a val sz \<longleftrightarrow> L a sz \<and> ctl_write (ts_writes tx) a val sz = Insert (ts_writes tx) \<and> \<not> ts_read_only tx"

fun cont_sim :: "(addr \<Rightarrow> ValueType \<Rightarrow> bool) \<Rightarrow> mem \<Rightarrow> op list vstate \<Rightarrow> nat \<Rightarrow> ts_tx \<Rightarrow> bool list \<Rightarrow> ts_cont \<Rightarrow> bool" where
  "cont_sim L m0 v t tx ms (XRead a sz l spin) \<longleftrightarrow> body_locks v t tx \<and> at_end L m0 v tx ms \<and> reading L tx a sz \<and> \<not> is_locked l"
| "cont_sim L m0 v t tx ms (XWrite a val sz) \<longleftrightarrow> body_locks v t tx \<and> at_end L m0 v tx ms \<and> writing L tx a val sz"
| "cont_sim L m0 v t tx ms (XSpin a val sz) \<longleftrightarrow> body_locks v t tx \<and> at_end L m0 v tx ms \<and> writing L tx a val sz"
| "cont_sim L m0 v t tx ms (XLock a as n) \<longleftrightarrow> lock_sim v t tx (a # as) \<and> at_end L m0 v tx ms \<and> \<not> ts_read_only tx"
| "cont_sim L m0 v t tx ms (XGap cv) \<longleftrightarrow> all_locked v t tx cv"
| "cont_sim L m0 v t tx ms (XCommit cv) \<longleftrightarrow> all_locked v t tx cv"

text \<open>A validation for an extension to the clock value \<open>lv\<close> has found its reads in that snapshot.\<close>

definition ext_sim :: "(addr \<Rightarrow> ValueType \<Rightarrow> bool) \<Rightarrow> mem \<Rightarrow> op list vstate \<Rightarrow> ts_tx \<Rightarrow> bool list \<Rightarrow> ts_cont \<Rightarrow> u64 option \<Rightarrow> ReadLogEntry_wbctl list \<Rightarrow> bool" where
  "ext_sim L m0 v tx ms k lv rs \<longleftrightarrow>
    (case lv of None \<Rightarrow> (case k of XSpin a val sz \<Rightarrow> True | XCommit cv \<Rightarrow> True | _ \<Rightarrow> False)
     | Some c \<Rightarrow> (case k of XSpin a val sz \<Rightarrow> False | XCommit cv \<Rightarrow> False | _ \<Rightarrow> True) \<and> unat (ts_end tx) \<le> unat c \<and> unat c \<le> vclock v \<and>
         (case k of XGap cv \<Rightarrow> True | _ \<Rightarrow> snaps L m0 v (Suc (unat c)) (passed tx ms rs)))"

fun pc_ok :: "(addr \<Rightarrow> ValueType \<Rightarrow> bool) \<Rightarrow> mem \<Rightarrow> op list vstate \<Rightarrow> nat \<Rightarrow> ts_tx \<Rightarrow> bool list \<Rightarrow> ts_pc \<Rightarrow> bool" where
  "pc_ok L m0 v t tx ms TsIdle \<longleftrightarrow> body_locks v t tx \<and> at_end L m0 v tx ms"
| "pc_ok L m0 v t tx ms TsBegin \<longleftrightarrow> body_locks v t tx \<and> \<not> ts_active tx \<and> ts_id tx \<noteq> 0"
| "pc_ok L m0 v t tx ms (RdLock a sz) \<longleftrightarrow> body_locks v t tx \<and> at_end L m0 v tx ms \<and> reading L tx a sz"
| "pc_ok L m0 v t tx ms (RdLoop a sz l spin) \<longleftrightarrow> body_locks v t tx \<and> at_end L m0 v tx ms \<and> reading L tx a sz"
| "pc_ok L m0 v t tx ms (RdVal a sz l spin i w) \<longleftrightarrow> body_locks v t tx \<and> at_end L m0 v tx ms \<and> reading L tx a sz \<and> \<not> is_locked l \<and> i \<le> type_size sz"
| "pc_ok L m0 v t tx ms (WrLock a val sz) \<longleftrightarrow> body_locks v t tx \<and> at_end L m0 v tx ms \<and> writing L tx a val sz"
| "pc_ok L m0 v t tx ms (WrCheck a val sz l) \<longleftrightarrow> body_locks v t tx \<and> at_end L m0 v tx ms \<and> writing L tx a val sz"
| "pc_ok L m0 v t tx ms (ExtClock k) \<longleftrightarrow> cont_sim L m0 v t tx ms k \<and> (case k of XSpin a val sz \<Rightarrow> False | XCommit cv \<Rightarrow> False | _ \<Rightarrow> True)"
| "pc_ok L m0 v t tx ms (ValLoop k lv rs) \<longleftrightarrow> cont_sim L m0 v t tx ms k \<and> suffix_of rs (ts_reads tx) UNIV \<and> ext_sim L m0 v tx ms k lv rs"
| "pc_ok L m0 v t tx ms (SpinCheck k) \<longleftrightarrow> cont_sim L m0 v t tx ms k \<and> (case k of XWrite a val sz \<Rightarrow> False | XGap cv \<Rightarrow> False | XCommit cv \<Rightarrow> False | _ \<Rightarrow> True)"
| "pc_ok L m0 v t tx ms (SpinTok k) \<longleftrightarrow> cont_sim L m0 v t tx ms k \<and> (case k of XWrite a val sz \<Rightarrow> False | XGap cv \<Rightarrow> False | XCommit cv \<Rightarrow> False | _ \<Rightarrow> True)"
| "pc_ok L m0 v t tx ms CmClock \<longleftrightarrow> body_locks v t tx \<and> at_end L m0 v tx ms"
| "pc_ok L m0 v t tx ms (CmLock as) \<longleftrightarrow> lock_sim v t tx as \<and> at_end L m0 v tx ms \<and> \<not> ts_read_only tx"
| "pc_ok L m0 v t tx ms (CmTry a as n) \<longleftrightarrow> lock_sim v t tx (a # as) \<and> at_end L m0 v tx ms \<and> \<not> ts_read_only tx"
| "pc_ok L m0 v t tx ms (CmCas ex d a as n) \<longleftrightarrow> lock_sim v t tx (a # as) \<and> at_end L m0 v tx ms \<and> \<not> ts_read_only tx \<and>
    \<not> is_locked ex \<and> d = lock_word (ts_id tx) ex"
| "pc_ok L m0 v t tx ms (CmWB cv bs) \<longleftrightarrow> all_locked v t tx cv"
| "pc_ok L m0 v t tx ms (CmRel cv es) \<longleftrightarrow> suffix_of es (ts_write_set (ts_writes tx)) UNIV \<and> own_locks v t \<subseteq> lock_of ` fst ` set es \<and>
    vcv v t = unat cv \<and> unat cv < 2 ^ 46"
| "pc_ok L m0 v t tx ms (AbUnlock gs) \<longleftrightarrow> own_locks v t = set gs \<and> distinct gs"
| "pc_ok L m0 v t tx ms _ \<longleftrightarrow> False"

text \<open>The transaction object of a thread, whatever its program counter.\<close>

definition tx_ok :: "(addr \<Rightarrow> ValueType \<Rightarrow> bool) \<Rightarrow> op list vstate \<Rightarrow> nat \<Rightarrow> ts_tx \<Rightarrow> bool list \<Rightarrow> op list \<Rightarrow> bool" where
  "tx_ok L v t tx ms ps \<longleftrightarrow> length ms = length (ts_reads tx) \<and> vreads v t = marked_reads (ts_reads tx) ms \<and>
    ts_ok (word_cells L) (ts_writes tx) \<and> explains (read_cells (marked_reads (ts_reads tx) ms)) (ts_effect (ts_writes tx)) ps \<and>
    (ts_active tx \<longrightarrow> ts_id tx \<noteq> 0) \<and> (\<not> ts_active tx \<longrightarrow> ts_reads tx = [] \<and> ts_writes tx = ts_empty \<and> ps = []) \<and>
    (ts_read_only tx \<longrightarrow> ts_write_set (ts_writes tx) = []) \<and>
    unat (ts_end tx) \<le> vclock v \<and> (\<forall>r \<in> set (marked_reads (ts_reads tx) ms). vr_ver r \<le> unat (ts_end tx))"

definition pcsim :: "(addr \<Rightarrow> ValueType \<Rightarrow> bool) \<Rightarrow> mem \<Rightarrow> op list vstate \<Rightarrow> nat \<Rightarrow> ts_tx \<Rightarrow> bool list \<Rightarrow> ts_pc \<Rightarrow> bool" where
  "pcsim L m0 v t tx ms pc \<longleftrightarrow> vph v t = ts_phase tx ms pc \<and> pc_ok L m0 v t tx ms pc \<and> (pc \<noteq> TsIdle \<and> pc \<noteq> TsBegin \<longrightarrow> ts_active tx)"

text \<open>A lock word and the state of its lock in the protocol.\<close>

definition word_sim :: "(nat \<Rightarrow> ts_tx) \<Rightarrow> u64 \<Rightarrow> nat \<Rightarrow> nat option \<Rightarrow> bool" where
  "word_sim txs l ver owner \<longleftrightarrow> unat (get_version l) = ver \<and> get_incarnation l = 0 \<and>
    (case owner of None \<Rightarrow> \<not> is_locked l \<and> get_owner l = 0 | Some t \<Rightarrow> is_locked l \<and> get_owner l = ts_id (txs t) \<and> ts_id (txs t) \<noteq> 0)"

definition ids_ok :: "ts_state \<Rightarrow> bool" where
  "ids_ok s \<longleftrightarrow> 1 \<le> unat (ts_thr_counter s) \<and> (\<forall>t. unat (ts_id (ts_txs s t)) < unat (ts_thr_counter s)) \<and>
    (\<forall>t u. ts_id (ts_txs s t) = ts_id (ts_txs s u) \<longrightarrow> ts_id (ts_txs s t) \<noteq> 0 \<longrightarrow> t = u)"

definition shared_sim :: "ts_state \<Rightarrow> op list vstate \<Rightarrow> bool" where
  "shared_sim s v \<longleftrightarrow> vmem v = ts_mem s \<and> vclock v = unat (ts_clock s) \<and> vlog v = sort_key ve_ver (ts_log s) \<and>
    (\<forall>g. word_sim (ts_txs s) (ts_table s g) (vver v g) (vowner v g)) \<and> ids_ok s \<and>
    (\<forall>d \<in> set (ts_log s). explains (ve_reads d) (apply_cells (ve_cells d)) (ve_info d))"

definition ro_sim :: "(addr \<Rightarrow> ValueType \<Rightarrow> bool) \<Rightarrow> mem \<Rightarrow> ts_state \<Rightarrow> op list vstate \<Rightarrow> bool" where
  "ro_sim L m0 s v \<longleftrightarrow> (\<forall>(e, rs, ps) \<in> set (ts_ro s). e \<le> vclock v \<and> snaps L m0 v (Suc e) rs \<and> explains (read_cells rs) (\<lambda>m. m) ps)"

abbreviation (input) thread_sim :: "(addr \<Rightarrow> ValueType \<Rightarrow> bool) \<Rightarrow> mem \<Rightarrow> ts_state \<Rightarrow> op list vstate \<Rightarrow> nat \<Rightarrow> bool" where
  "thread_sim L m0 s v t \<equiv> tx_ok L v t (ts_txs s t) (ts_marks s t) (ts_ops s t) \<and> pcsim L m0 v t (ts_txs s t) (ts_marks s t) (ts_pcs s t)"

definition tiny_sim :: "(addr \<Rightarrow> ValueType \<Rightarrow> bool) \<Rightarrow> mem \<Rightarrow> ts_state \<Rightarrow> op list vstate \<Rightarrow> bool" where
  "tiny_sim L m0 s v \<longleftrightarrow> shared_sim s v \<and> ro_sim L m0 s v \<and> (\<forall>t. thread_sim L m0 s v t)"

end
