(* ===== verification/TM_TinySTM_Access.thy ===== *)
theory TM_TinySTM_Access
  imports TM_TinySTM_Relation
begin

text \<open>
  The steps of a transaction before its commit, and the calls of a thread, are matched by the versioned-lock protocol.
\<close>

section \<open>Steps of other threads\<close>

definition same_thread :: "op list vstate \<Rightarrow> op list vstate \<Rightarrow> nat \<Rightarrow> bool" where
  "same_thread v v' u \<longleftrightarrow> vph v' u = vph v u \<and> vreads v' u = vreads v u \<and> vcells v' u = vcells v u \<and> vcv v' u = vcv v u \<and>
    (\<forall>g. vowner v' g = Some u \<longleftrightarrow> vowner v g = Some u)"

definition grows :: "(addr \<Rightarrow> ValueType \<Rightarrow> bool) \<Rightarrow> mem \<Rightarrow> op list vstate \<Rightarrow> op list vstate \<Rightarrow> bool" where
  "grows L m0 v v' \<longleftrightarrow> vclock v \<le> vclock v' \<and> (\<forall>b r. snap lock_of L m0 v b r \<longrightarrow> snap lock_of L m0 v' b r)"

lemma vclock_mono: "(vstep idx L)\<^sup>*\<^sup>* v v' \<Longrightarrow> vclock v \<le> vclock v'"
proof (induction rule: rtranclp_induct)
  case (step v1 v2)
  then have "vclock v1 \<le> vclock v2" by (auto elim!: vstep.cases)
  with step show ?case by simp
qed simp

lemma grows_steps: "layout_ok L \<Longrightarrow> vinv lock_of L m0 v \<Longrightarrow> (vstep lock_of L)\<^sup>*\<^sup>* v v' \<Longrightarrow> grows L m0 v v'"
  using vclock_mono snap_steps unfolding grows_def by blast

lemma grows_step: "layout_ok L \<Longrightarrow> vinv lock_of L m0 v \<Longrightarrow> vstep lock_of L v v' \<Longrightarrow> grows L m0 v v'"
  by (blast intro: grows_steps)

lemma grows_refl [simp]: "grows L m0 v v"
  by (simp add: grows_def)

lemma snaps_grows: "grows L m0 v v' \<Longrightarrow> snaps L m0 v b rs \<Longrightarrow> snaps L m0 v' b rs"
  by (simp add: grows_def snaps_def)

lemma at_end_grows: "grows L m0 v v' \<Longrightarrow> at_end L m0 v tx ms \<Longrightarrow> at_end L m0 v' tx ms"
  unfolding at_end_def by (rule snaps_grows)

lemma ext_sim_grows: "grows L m0 v v' \<Longrightarrow> ext_sim L m0 v tx ms k lv rs \<Longrightarrow> ext_sim L m0 v' tx ms k lv rs"
  using snaps_grows [of L m0 v v'] unfolding ext_sim_def grows_def
  by (cases lv; cases k) (auto intro: order_trans)

lemma locks_same:
  assumes "same_thread v v' u"
  shows "body_locks v' u tx = body_locks v u tx" "commit_locks v' u tx = commit_locks v u tx" "lock_sim v' u tx as = lock_sim v u tx as"
    "all_locked v' u tx cv = all_locked v u tx cv" "own_locks v' u = own_locks v u"
  using assms by (auto simp: same_thread_def body_locks_def commit_locks_def lock_sim_def all_locked_def)

lemma cont_sim_frame: "same_thread v v' u \<Longrightarrow> grows L m0 v v' \<Longrightarrow> cont_sim L m0 v u tx ms k \<Longrightarrow> cont_sim L m0 v' u tx ms k"
  by (cases k) (auto simp: locks_same intro: at_end_grows)

lemma pc_ok_frame: "same_thread v v' u \<Longrightarrow> grows L m0 v v' \<Longrightarrow> pc_ok L m0 v u tx ms pc \<Longrightarrow> pc_ok L m0 v' u tx ms pc"
  using at_end_grows [of L m0 v v' tx ms] cont_sim_frame [of v v' u L m0 tx ms] ext_sim_grows [of L m0 v v' tx ms] locks_same [of v v' u]
  by (cases pc) (simp_all add: same_thread_def)

lemma thread_frame:
  assumes "same_thread v v' u" "grows L m0 v v'"
  shows "tx_ok L v u tx ms ps \<Longrightarrow> tx_ok L v' u tx ms ps" "pcsim L m0 v u tx ms pc \<Longrightarrow> pcsim L m0 v' u tx ms pc"
proof -
  show "tx_ok L v u tx ms ps \<Longrightarrow> tx_ok L v' u tx ms ps"
    using assms by (auto simp: tx_ok_def same_thread_def grows_def)
  show "pcsim L m0 v u tx ms pc \<Longrightarrow> pcsim L m0 v' u tx ms pc"
    using pc_ok_frame [OF assms] assms(1) by (auto simp: pcsim_def same_thread_def)
qed

lemma ro_sim_frame: "grows L m0 v v' \<Longrightarrow> ts_ro s' = ts_ro s \<Longrightarrow> ro_sim L m0 s v \<Longrightarrow> ro_sim L m0 s' v'"
  unfolding ro_sim_def using snaps_grows [of L m0 v v'] by (fastforce simp: grows_def)

section \<open>Steps of one thread\<close>

text \<open>All of the relation but the program counter of the thread that runs.\<close>

definition rest_sim :: "(addr \<Rightarrow> ValueType \<Rightarrow> bool) \<Rightarrow> mem \<Rightarrow> ts_state \<Rightarrow> op list vstate \<Rightarrow> nat \<Rightarrow> bool" where
  "rest_sim L m0 s v t \<longleftrightarrow> shared_sim s v \<and> ro_sim L m0 s v \<and> tx_ok L v t (ts_txs s t) (ts_marks s t) (ts_ops s t) \<and>
    (\<forall>u. u \<noteq> t \<longrightarrow> thread_sim L m0 s v u)"

lemma tiny_sim_split: "tiny_sim L m0 s v \<longleftrightarrow> rest_sim L m0 s v t \<and> pcsim L m0 v t (ts_txs s t) (ts_marks s t) (ts_pcs s t)"
  unfolding tiny_sim_def rest_sim_def by metis

lemmas ts_upd = ts_set_tx_def ts_set_pc_def ts_set_ops_def ts_set_marks_def ts_set_lock_def

lemma rest_set_pc: "rest_sim L m0 (ts_set_pc t pc s) v t \<longleftrightarrow> rest_sim L m0 s v t"
  by (simp add: rest_sim_def shared_sim_def ids_ok_def ro_sim_def ts_set_pc_def)

lemma sim_set_pc:
  "rest_sim L m0 s v t \<Longrightarrow> pcsim L m0 v t (ts_txs s t) (ts_marks s t) pc \<Longrightarrow> tiny_sim L m0 (ts_set_pc t pc s) v"
  by (simp add: tiny_sim_split [of L m0 _ v t] rest_set_pc) (simp add: ts_set_pc_def)

lemma restI:
  assumes "rest_sim L m0 s v t" and "grows L m0 v v'"
    and "shared_sim s' v'" and "ts_ro s' = ts_ro s" and "tx_ok L v' t (ts_txs s' t) (ts_marks s' t) (ts_ops s' t)"
    and "\<And>u. u \<noteq> t \<Longrightarrow> same_thread v v' u \<and> ts_txs s' u = ts_txs s u \<and> ts_pcs s' u = ts_pcs s u \<and> ts_marks s' u = ts_marks s u \<and> ts_ops s' u = ts_ops s u"
  shows "rest_sim L m0 s' v' t"
proof -
  have "thread_sim L m0 s' v' u" if "u \<noteq> t" for u
    using assms(1) assms(6) [OF that] thread_frame [OF _ assms(2), of u] that by (simp add: rest_sim_def)
  then show ?thesis using assms(1,3,5) ro_sim_frame [OF assms(2,4)] by (simp add: rest_sim_def)
qed

text \<open>A step to \<open>s'\<close> is matched by the protocol; \<open>f\<close> is whether an assertion has failed.\<close>

definition tiny_simulated :: "(addr \<Rightarrow> ValueType \<Rightarrow> bool) \<Rightarrow> mem \<Rightarrow> op list vstate \<Rightarrow> bool \<Rightarrow> ts_state \<Rightarrow> bool" where
  "tiny_simulated L m0 v f s' \<longleftrightarrow> ts_failed s' = f \<and> (\<exists>v'. (vstep lock_of L)\<^sup>*\<^sup>* v v' \<and> tiny_sim L m0 s' v')"

lemma tiny_simulated_same: "tiny_sim L m0 s' v \<Longrightarrow> ts_failed s' = f \<Longrightarrow> tiny_simulated L m0 v f s'"
  by (auto simp: tiny_simulated_def)

lemma tiny_simulated_steps: "(vstep lock_of L)\<^sup>*\<^sup>* v v' \<Longrightarrow> tiny_simulated L m0 v' f s' \<Longrightarrow> tiny_simulated L m0 v f s'"
  unfolding tiny_simulated_def by (meson rtranclp_trans)

lemma tiny_simulated_step: "vstep lock_of L v v' \<Longrightarrow> tiny_simulated L m0 v' f s' \<Longrightarrow> tiny_simulated L m0 v f s'"
  by (rule tiny_simulated_steps [OF r_into_rtranclp])

lemma ts_set_failed [simp]:
  "ts_failed (ts_set_pc t pc s) = ts_failed s" "ts_failed (ts_set_tx t tx s) = ts_failed s" "ts_failed (ts_set_ops t ps s) = ts_failed s"
  "ts_failed (ts_set_marks t ms s) = ts_failed s" "ts_failed (ts_set_lock g l s) = ts_failed s"
  by (simp_all add: ts_upd)

lemma restD:
  assumes "rest_sim L m0 s v t"
  shows "shared_sim s v" "ro_sim L m0 s v" "tx_ok L v t (ts_txs s t) (ts_marks s t) (ts_ops s t)"
  using assms by (simp_all add: rest_sim_def)

lemma word_sim_ids: "(\<And>u. ts_id (txs' u) = ts_id (txs u)) \<Longrightarrow> word_sim txs' l ver o' = word_sim txs l ver o'"
  by (simp add: word_sim_def split: option.splits)

lemma shared_frame:
  assumes "shared_sim s v" and "\<And>u. ts_id (ts_txs s' u) = ts_id (ts_txs s u)"
    and "ts_mem s' = ts_mem s" "ts_clock s' = ts_clock s" "ts_log s' = ts_log s" "ts_table s' = ts_table s" "ts_thr_counter s' = ts_thr_counter s"
    and "vmem v' = vmem v" "vclock v' = vclock v" "vlog v' = vlog v" "vver v' = vver v" "vowner v' = vowner v"
  shows "shared_sim s' v'"
proof -
  have "ids_ok s' = ids_ok s" using assms(2,7) by (simp add: ids_ok_def)
  then show ?thesis using assms(1,3-) word_sim_ids [of "ts_txs s'" "ts_txs s", OF assms(2)] by (simp add: shared_sim_def)
qed

text \<open>A step of the protocol that only changes the phase of the thread.\<close>

lemma locks_phase [simp]:
  "body_locks (v\<lparr>vph := f\<rparr>) t tx = body_locks v t tx" "commit_locks (v\<lparr>vph := f\<rparr>) t tx = commit_locks v t tx"
  "lock_sim (v\<lparr>vph := f\<rparr>) t tx as = lock_sim v t tx as" "all_locked (v\<lparr>vph := f\<rparr>) t tx cv = all_locked v t tx cv"
  by (simp_all add: body_locks_def commit_locks_def lock_sim_def all_locked_def)

lemma at_end_step: "layout_ok L \<Longrightarrow> vinv lock_of L m0 v \<Longrightarrow> vstep lock_of L v v' \<Longrightarrow> at_end L m0 v tx ms \<Longrightarrow> at_end L m0 v' tx ms"
  by (rule at_end_grows [OF grows_step])

lemma rest_phase:
  assumes lay: "layout_ok L" and inv: "vinv lock_of L m0 v" and rest: "rest_sim L m0 s v t"
    and st: "vstep lock_of L v (v\<lparr>vph := (vph v)(t := p)\<rparr>)"
  shows "rest_sim L m0 s (v\<lparr>vph := (vph v)(t := p)\<rparr>) t"
proof (rule restI [OF rest grows_step [OF lay inv st]])
  note R = restD [OF rest]
  show "shared_sim s (v\<lparr>vph := (vph v)(t := p)\<rparr>)" by (rule shared_frame [OF R(1)]) simp_all
qed (use restD(3) [OF rest] in \<open>simp_all add: tx_ok_def same_thread_def\<close>)

lemma sim_phase:
  assumes "layout_ok L" "vinv lock_of L m0 v" "rest_sim L m0 s v t"
    and st: "vstep lock_of L v (v\<lparr>vph := (vph v)(t := p)\<rparr>)"
    and "pcsim L m0 (v\<lparr>vph := (vph v)(t := p)\<rparr>) t (ts_txs s t) (ts_marks s t) pc"
  shows "tiny_simulated L m0 v (ts_failed s) (ts_set_pc t pc s)"
proof -
  have "tiny_sim L m0 (ts_set_pc t pc s) (v\<lparr>vph := (vph v)(t := p)\<rparr>)"
    by (rule sim_set_pc [OF rest_phase [OF assms(1-4)] assms(5)])
  then show ?thesis using tiny_simulated_step [OF st tiny_simulated_same] by simp
qed

lemma sim_stay:
  "rest_sim L m0 s v t \<Longrightarrow> pcsim L m0 v t (ts_txs s t) (ts_marks s t) pc \<Longrightarrow> tiny_simulated L m0 v (ts_failed s) (ts_set_pc t pc s)"
  using tiny_simulated_same [OF sim_set_pc] by simp

subsection \<open>Abort\<close>

lemma to_undo:
  assumes "vph v t = PBody \<or> (\<exists>a sz v0 i w. vph v t = PRead a sz v0 i w) \<or> vph v t = PLock \<or> (\<exists>n. vph v t = PVal n)"
  shows "\<exists>cs. (vstep lock_of L)\<^sup>*\<^sup>* v (v\<lparr>vph := (vph v)(t := PUndo), vcells := (vcells v)(t := cs)\<rparr>)"
proof -
  have body: "(vstep lock_of L)\<^sup>*\<^sup>* w (w\<lparr>vph := (vph w)(t := PUndo), vcells := (vcells w)(t := [])\<rparr>)" if "vph w t = PBody" for w :: "'a vstate"
  proof -
    let ?w = "w\<lparr>vph := (vph w)(t := PLock), vcells := (vcells w)(t := [])\<rparr>"
    have "vstep lock_of L w ?w" using that by (intro v_start) (simp_all add: cells_ok_def)
    moreover have "vstep lock_of L ?w (?w\<lparr>vph := (vph ?w)(t := PUndo)\<rparr>)" by (rule v_fail) simp
    ultimately have "(vstep lock_of L)\<^sup>*\<^sup>* w (?w\<lparr>vph := (vph ?w)(t := PUndo)\<rparr>)" by (meson converse_rtranclp_into_rtranclp r_into_rtranclp)
    moreover have "?w\<lparr>vph := (vph ?w)(t := PUndo)\<rparr> = w\<lparr>vph := (vph w)(t := PUndo), vcells := (vcells w)(t := [])\<rparr>" by (cases w) simp
    ultimately show ?thesis by (simp only:)
  qed
  have late: ?thesis if "vph v t = PLock \<or> (\<exists>n. vph v t = PVal n)"
  proof -
    have "vstep lock_of L v (v\<lparr>vph := (vph v)(t := PUndo)\<rparr>)" using that by (auto intro: v_fail)
    then show ?thesis by (intro exI [of _ "vcells v t"]) simp
  qed
  show ?thesis
  proof (cases "vph v t")
    case (PRead a sz v0 i w)
    then have "vstep lock_of L v (v\<lparr>vph := (vph v)(t := PBody)\<rparr>)" by (rule v_drop)
    then show ?thesis using body [of "v\<lparr>vph := (vph v)(t := PBody)\<rparr>"] by (auto intro: converse_rtranclp_into_rtranclp)
  qed (use assms body late in auto)
qed

lemma sim_ts_abort:
  assumes lay: "layout_ok L" and inv: "vinv lock_of L m0 v" and rest: "rest_sim L m0 s v t" and act: "ts_active (ts_txs s t)"
    and ph: "vph v t = PBody \<or> (\<exists>a sz v0 i w. vph v t = PRead a sz v0 i w) \<or> vph v t = PLock \<or> (\<exists>n. vph v t = PVal n)"
    and own: "own_locks v t = set (ts_locks (ts_txs s t))" "distinct (ts_locks (ts_txs s t))"
  shows "tiny_simulated L m0 v (ts_failed s) (ts_abort t s)"
proof -
  obtain cs where st: "(vstep lock_of L)\<^sup>*\<^sup>* v (v\<lparr>vph := (vph v)(t := PUndo), vcells := (vcells v)(t := cs)\<rparr>)"
    using to_undo [OF ph] by blast
  let ?v = "v\<lparr>vph := (vph v)(t := PUndo), vcells := (vcells v)(t := cs)\<rparr>"
    and ?s = "s\<lparr>ts_serialize := tm_serialize_unlock_all t (ts_serialize s)\<rparr>"
  have "rest_sim L m0 ?s ?v t"
    by (rule restI [OF rest grows_steps [OF lay inv st]])
      (use restD [OF rest] in \<open>auto simp: shared_sim_def ids_ok_def tx_ok_def same_thread_def\<close>)
  then have "tiny_sim L m0 (ts_set_pc t (AbUnlock (ts_locks (ts_txs s t))) ?s) ?v"
    by (rule sim_set_pc) (use act own in \<open>simp add: pcsim_def\<close>)
  moreover have "ts_id (ts_txs s t) \<noteq> 0" using restD(3) [OF rest] act by (simp add: tx_ok_def)
  then have "ts_abort t s = ts_set_pc t (AbUnlock (ts_locks (ts_txs s t))) ?s" using act by (simp add: ts_abort_def)
  ultimately show ?thesis using tiny_simulated_steps [OF st tiny_simulated_same] by simp
qed

subsection \<open>Lock words\<close>

lemma shared_word: "shared_sim s v \<Longrightarrow> word_sim (ts_txs s) (ts_table s g) (vver v g) (vowner v g)"
  by (simp add: shared_sim_def)

lemma word_version: "shared_sim s v \<Longrightarrow> unat (get_version (ts_table s g)) = vver v g"
  using shared_word [of s v g] by (simp add: word_sim_def)

lemma word_locked: "shared_sim s v \<Longrightarrow> is_locked (ts_table s g) \<longleftrightarrow> vowner v g \<noteq> None"
  using shared_word [of s v g] by (auto simp: word_sim_def split: option.splits)

lemma word_owner:
  assumes "shared_sim s v" "ts_id (ts_txs s t) \<noteq> 0"
  shows "get_owner (ts_table s g) = ts_id (ts_txs s t) \<longleftrightarrow> vowner v g = Some t"
proof -
  have "ids_ok s" using assms(1) by (simp add: shared_sim_def)
  then show ?thesis
    using shared_word [OF assms(1), of g] assms(2) by (cases "vowner v g") (auto simp: word_sim_def ids_ok_def)
qed

lemma word_mine:
  assumes "shared_sim s v" "ts_id (ts_txs s t) \<noteq> 0"
  shows "is_locked_by (ts_table s g) (ts_id (ts_txs s t)) \<longleftrightarrow> vowner v g = Some t"
  using word_owner [OF assms, of g] word_locked [OF assms(1), of g] by (auto simp: is_locked_by_alt)

lemma owned_and: "l AND OWNED_MASK \<noteq> 0 \<longleftrightarrow> is_locked l"
  by (simp add: is_locked_def)

lemma entry_valid_iff:
  assumes "shared_sim s v" "ts_id (ts_txs s t) \<noteq> 0"
  shows "entry_valid (ts_id (ts_txs s t)) r (ts_table s g) \<longleftrightarrow>
    (vowner v g = None \<or> vowner v g = Some t) \<and> vver v g \<le> unat (rl_version r)"
  using word_owner [OF assms, of g] word_locked [OF assms(1), of g] word_version [OF assms(1), of g]
  by (auto simp: entry_valid_def owned_and word_le_nat_alt not_less)

lemma table_set:
  assumes "shared_sim s v" "word_sim (ts_txs s) l (vver v' g) (vowner v' g)"
    and "vmem v' = vmem v" "vclock v' = vclock v" "vlog v' = vlog v" "\<And>h. h \<noteq> g \<Longrightarrow> vver v' h = vver v h \<and> vowner v' h = vowner v h"
  shows "shared_sim (ts_set_lock g l s) v'"
  using assms by (simp add: shared_sim_def ids_ok_def ts_set_lock_def)

subsection \<open>The end of an abort\<close>

lemma explains_none: "explains (read_cells (marked_reads [] ms)) (ts_effect ts_empty) []"
  using tiny_log.explains_empty by (simp add: read_cells_def)

lemma ts_ok_empty: "ts_ok L ts_empty"
  by (simp add: ts_ok_def ts_empty_def ts_inv_empty cells_ok_def)

lemma at_end_none [simp]: "at_end L m0 v tx []" "ts_reads tx = [] \<Longrightarrow> at_end L m0 v tx ms"
  by (simp_all add: at_end_def snaps_def)

lemma sim_unlock:
  assumes lay: "layout_ok L" and inv: "vinv lock_of L m0 v" and sim: "tiny_sim L m0 s v" and pc: "ts_pcs s t = AbUnlock gs"
  shows "tiny_simulated L m0 v (ts_failed s) (tiny_run E t s)"
proof (cases gs)
  have rest: "rest_sim L m0 s v t" and P: "pcsim L m0 v t (ts_txs s t) (ts_marks s t) (AbUnlock gs)"
    using sim pc tiny_sim_split [of L m0 s v t] by simp_all
  note R = restD [OF rest]
  have ph: "vph v t = PUndo" and own: "own_locks v t = set gs" "distinct gs" and act: "ts_active (ts_txs s t)"
    using P by (simp_all add: pcsim_def)
  {
    case Nil
    let ?v = "v\<lparr>vph := (vph v)(t := PBody), vreads := (vreads v)(t := [])\<rparr>"
    have st: "vstep lock_of L v ?v" using ph own Nil by (intro v_undone) auto
    have g: "grows L m0 v ?v" by (rule grows_step [OF lay inv st])
    define s1 where "s1 = ts_set_marks t [] (ts_set_ops t []
          (ts_set_tx t ((ts_clear (ts_txs s t))\<lparr>ts_aborts := ts_aborts (ts_txs s t) + 1, ts_retry := True\<rparr>)
            (s\<lparr>ts_token := tm_token_release_if_held (uint (ts_id (ts_txs s t))) (ts_token s), ts_abort_count := ts_abort_count s + 1\<rparr>)))"
    have "rest_sim L m0 s1 ?v t"
    proof (rule restI [OF rest g])
      show "shared_sim s1 ?v" by (rule shared_frame [OF R(1)]) (simp_all add: s1_def ts_upd ts_clear_def)
      show "tx_ok L ?v t (ts_txs s1 t) (ts_marks s1 t) (ts_ops s1 t)"
        using R(3) act explains_none ts_ok_empty by (auto simp: tx_ok_def s1_def ts_upd ts_clear_def ts_empty_def)
    qed (auto simp: s1_def ts_upd same_thread_def)
    then have "tiny_sim L m0 (ts_set_pc t TsIdle s1) ?v"
      by (rule sim_set_pc) (use own Nil in \<open>simp add: pcsim_def body_locks_def s1_def ts_upd ts_clear_def\<close>)
    moreover have "tiny_run E t s = ts_set_pc t TsIdle s1" using pc Nil by (simp add: tiny_run_def Let_def s1_def ts_clear_def)
    ultimately show ?thesis using tiny_simulated_step [OF st tiny_simulated_same] by (simp add: s1_def ts_upd)
  next
    case (Cons g gs')
    let ?v = "v\<lparr>vowner := (vowner v)(g := None)\<rparr>"
    have id: "ts_id (ts_txs s t) \<noteq> 0" using R(3) act by (simp add: tx_ok_def)
    have o: "vowner v g = Some t" using own Cons by auto
    have st: "vstep lock_of L v ?v" using v_undo [OF ph o] .
    have gr: "grows L m0 v ?v" by (rule grows_step [OF lay inv st])
    have u: "lock_unlock (ts_id (ts_txs s t)) (ts_table s g) = Inr (unlock_word (ts_table s g))"
      using word_mine [OF R(1) id, of g] o by (simp add: lock_unlock_def is_locked_by_alt)
    let ?s = "ts_set_lock g (unlock_word (ts_table s g)) s"
    have "rest_sim L m0 ?s ?v t"
    proof (rule restI [OF rest gr])
      show "shared_sim ?s ?v" using shared_word [OF R(1), of g] by (intro table_set [OF R(1)]) (simp_all add: word_sim_def)
    qed (use R(3) o in \<open>auto simp: ts_upd tx_ok_def same_thread_def\<close>)
    then have "tiny_sim L m0 (ts_set_pc t (AbUnlock gs') ?s) ?v"
      by (rule sim_set_pc) (use P own Cons in \<open>auto simp: pcsim_def ts_upd\<close>)
    moreover have "tiny_run E t s = ts_set_pc t (AbUnlock gs') ?s" using pc Cons u by (simp add: tiny_run_def Let_def)
    ultimately show ?thesis using tiny_simulated_step [OF st tiny_simulated_same] by simp
  }
qed

subsection \<open>Calls\<close>

lemma sim_at:
  assumes "tiny_sim L m0 s v" "ts_pcs s t = pc"
  shows "rest_sim L m0 s v t" "pcsim L m0 v t (ts_txs s t) (ts_marks s t) pc"
  using assms tiny_sim_split [of L m0 s v t] by simp_all

lemma sim_ts_fail: "tiny_sim L m0 s v \<Longrightarrow> tiny_sim L m0 (ts_fail s) v"
proof -
  assume s: "tiny_sim L m0 s v"
  then have "shared_sim s v" by (simp add: tiny_sim_def)
  then have "shared_sim (ts_fail s) v" by (rule shared_frame) (simp_all add: ts_fail_def)
  then show ?thesis using s by (simp add: tiny_sim_def ro_sim_def ts_fail_def)
qed

lemma call_failed: "tiny_sim L m0 s v \<Longrightarrow> \<exists>f. tiny_simulated L m0 v f (ts_fail s)"
  by (blast intro: tiny_simulated_same sim_ts_fail)

lemma sim_begin_call:
  assumes sim: "tiny_sim L m0 s v" and pc: "ts_pcs s t = TsIdle"
  shows "\<exists>f. tiny_simulated L m0 v f (ts_begin t s)"
proof (cases "ts_id (ts_txs s t) = 0 \<or> ts_active (ts_txs s t)")
  case True
  then show ?thesis using call_failed [OF sim] tiny_simulated_same [OF sim] by (auto simp: ts_begin_def Let_def)
next
  case False
  note S = sim_at [OF sim pc] and R = restD [OF sim_at(1) [OF sim pc]]
  let ?s = "ts_set_marks t [] (ts_set_ops t [] (ts_set_tx t (ts_clear (ts_txs s t)) s))"
  have e: "ts_reads (ts_txs s t) = []" "ts_writes (ts_txs s t) = ts_empty" "ts_ops s t = []" "ts_marks s t = []"
    using R(3) False by (auto simp: tx_ok_def)
  have "rest_sim L m0 ?s v t"
  proof (rule restI [OF S(1) grows_refl])
    show "shared_sim ?s v" by (rule shared_frame [OF R(1)]) (simp_all add: ts_upd ts_clear_def)
    show "tx_ok L v t (ts_txs ?s t) (ts_marks ?s t) (ts_ops ?s t)" using R(3) e False by (simp add: ts_upd tx_ok_def ts_clear_def)
  qed (simp_all add: ts_upd same_thread_def)
  then have "tiny_sim L m0 (ts_set_pc t TsBegin ?s) v"
    by (rule sim_set_pc) (use S(2) False in \<open>simp add: pcsim_def body_locks_def ts_upd ts_clear_def\<close>)
  moreover have "ts_begin t s = ts_set_pc t TsBegin ?s" using False by (simp add: ts_begin_def Let_def)
  ultimately show ?thesis using tiny_simulated_same by metis
qed

lemma sim_begin_run:
  assumes sim: "tiny_sim L m0 s v" and pc: "ts_pcs s t = TsBegin"
  shows "tiny_simulated L m0 v (ts_failed s) (tiny_run E t s)"
proof (cases "ts_clock s \<ge> VERSION_BITS_MASK")
  case True
  then show ?thesis using tiny_simulated_same [OF sim] pc by (simp add: tiny_run_def)
next
  case False
  note S = sim_at [OF sim pc] and R = restD [OF sim_at(1) [OF sim pc]]
  let ?tx = "(ts_txs s t)\<lparr>ts_start := ts_clock s, ts_end := ts_clock s, ts_active := True, ts_read_only := True,
      ts_aborts := (if ts_retry (ts_txs s t) then ts_aborts (ts_txs s t) else 0), ts_retry := False\<rparr>"
  have e: "ts_reads (ts_txs s t) = []" "ts_writes (ts_txs s t) = ts_empty" "ts_ops s t = []" "ts_marks s t = []" "ts_id (ts_txs s t) \<noteq> 0"
    using R(3) S(2) by (auto simp: tx_ok_def pcsim_def)
  have "rest_sim L m0 (ts_set_tx t ?tx s) v t"
  proof (rule restI [OF S(1) grows_refl])
    show "shared_sim (ts_set_tx t ?tx s) v" by (rule shared_frame [OF R(1)]) (simp_all add: ts_upd)
    show "tx_ok L v t (ts_txs (ts_set_tx t ?tx s) t) (ts_marks (ts_set_tx t ?tx s) t) (ts_ops (ts_set_tx t ?tx s) t)"
      using R(1,3) e by (simp add: ts_upd tx_ok_def shared_sim_def ts_empty_def)
  qed (simp_all add: ts_upd same_thread_def)
  then have "tiny_sim L m0 (ts_set_pc t TsIdle (ts_set_tx t ?tx s)) v"
    by (rule sim_set_pc) (use S(2) e in \<open>simp add: pcsim_def body_locks_def ts_upd\<close>)
  moreover have "tiny_run E t s = ts_set_pc t TsIdle (ts_set_tx t ?tx s)" using False pc by (simp add: tiny_run_def Let_def)
  ultimately show ?thesis using tiny_simulated_same by simp
qed

text \<open>A new transaction object, or none: the reads of the thread are forgotten.\<close>

lemma sim_new_tx:
  assumes lay: "layout_ok L" and inv: "vinv lock_of L m0 v" and sim: "tiny_sim L m0 s v" and pc: "ts_pcs s t = TsIdle"
    and tx: "\<not> ts_active tx" "ts_reads tx = []" "ts_writes tx = ts_empty" "ts_end tx = 0" "ts_locks tx = []"
    and ids: "ids_ok (ts_set_tx t tx s\<lparr>ts_thr_counter := c\<rparr>)"
  shows "\<exists>f. tiny_simulated L m0 v f (ts_set_marks t [] (ts_set_ops t [] (ts_set_tx t tx (s\<lparr>ts_thr_counter := c\<rparr>))))"
proof -
  note S = sim_at [OF sim pc] and R = restD [OF sim_at(1) [OF sim pc]]
  let ?v = "v\<lparr>vreads := (vreads v)(t := [])\<rparr>"
    and ?s = "ts_set_marks t [] (ts_set_ops t [] (ts_set_tx t tx (s\<lparr>ts_thr_counter := c\<rparr>)))"
  have st: "vstep lock_of L v ?v" using S(2) by (intro v_reset) (simp add: pcsim_def)
  have no: "vowner v g \<noteq> Some t" for g using S(2) by (auto simp: pcsim_def body_locks_def)
  have w: "word_sim (ts_txs ?s) l ver (vowner v g) = word_sim (ts_txs s) l ver (vowner v g)" for l ver g
    using no [of g] by (auto simp: word_sim_def ts_upd split: option.splits)
  have "rest_sim L m0 ?s ?v t"
  proof (rule restI [OF S(1) grows_step [OF lay inv st]])
    have "ids_ok ?s = ids_ok (ts_set_tx t tx s\<lparr>ts_thr_counter := c\<rparr>)" by (simp add: ids_ok_def ts_upd)
    then show "shared_sim ?s ?v" using R(1) ids w by (simp add: shared_sim_def ts_upd)
    show "tx_ok L ?v t (ts_txs ?s t) (ts_marks ?s t) (ts_ops ?s t)"
      using tx explains_none ts_ok_empty by (simp add: ts_upd tx_ok_def ts_empty_def)
  qed (simp_all add: ts_upd same_thread_def)
  moreover have "pcsim L m0 ?v t (ts_txs ?s t) (ts_marks ?s t) (ts_pcs ?s t)"
    using S(2) tx pc by (simp add: pcsim_def body_locks_def ts_upd)
  ultimately have "tiny_sim L m0 ?s ?v" by (simp add: tiny_sim_split [of L m0 ?s ?v t])
  then show ?thesis using tiny_simulated_step [OF st tiny_simulated_same] by blast
qed

lemma ids_replace:
  assumes "ids_ok s" and "unat c \<ge> unat (ts_thr_counter s)" and "unat (ts_id tx) < unat c"
    and "ts_id tx = 0 \<or> ts_id tx = ts_id (ts_txs s t) \<or> (\<forall>u. unat (ts_id (ts_txs s u)) < unat (ts_id tx))"
  shows "ids_ok (ts_set_tx t tx s\<lparr>ts_thr_counter := c\<rparr>)"
proof -
  let ?id = "\<lambda>u. ts_id (((ts_txs s)(t := tx)) u)"
  have "unat (ts_id (ts_txs s u)) < unat c" for u
    using assms(1,2) unfolding ids_ok_def by (meson less_le_trans)
  then have "unat (?id u) < unat c" for u using assms(3) by simp
  moreover have "1 \<le> unat c" using assms(3) by linarith
  moreover have "u = w" if "?id u = ?id w" "?id u \<noteq> 0" for u w
  proof -
    have old: "ts_id (ts_txs s x) = ts_id (ts_txs s y) \<Longrightarrow> ts_id (ts_txs s x) \<noteq> 0 \<Longrightarrow> x = y" for x y
      using assms(1) unfolding ids_ok_def by blast
    have new: "x = t" if "ts_id (ts_txs s x) = ts_id tx" "ts_id tx \<noteq> 0" for x
      using assms(4)
    proof (elim disjE)
      assume "\<forall>u. unat (ts_id (ts_txs s u)) < unat (ts_id tx)"
      then have "unat (ts_id (ts_txs s x)) < unat (ts_id tx)" by blast
      then show ?thesis using that(1) by simp
    next
      assume "ts_id tx = ts_id (ts_txs s t)"
      then show ?thesis using that by (intro old) simp_all
    qed (use that(2) in blast)
    consider "u = t" "w = t" | "u = t" "w \<noteq> t" | "u \<noteq> t" "w = t" | "u \<noteq> t" "w \<noteq> t" by blast
    then show ?thesis
    proof cases
      case 2
      then have "w = t" using that by (intro new) simp_all
      then show ?thesis using 2 by blast
    next
      case 3
      then have "u = t" using that by (intro new) simp_all
      then show ?thesis using 3 by blast
    next
      case 4
      then show ?thesis using that by (intro old) simp_all
    qed blast
  qed
  moreover have "ids_ok (ts_set_tx t tx s\<lparr>ts_thr_counter := c\<rparr>) \<longleftrightarrow>
      1 \<le> unat c \<and> (\<forall>u. unat (?id u) < unat c) \<and> (\<forall>u w. ?id u = ?id w \<longrightarrow> ?id u \<noteq> 0 \<longrightarrow> u = w)"
    by (simp add: ids_ok_def ts_upd)
  ultimately show ?thesis by blast
qed

lemma sim_init_thread:
  assumes lay: "layout_ok L" and inv: "vinv lock_of L m0 v" and sim: "tiny_sim L m0 s v" and pc: "ts_pcs s t = TsIdle"
    and b: "unat (ts_thr_counter s) < 2 ^ 63"
  shows "\<exists>f. tiny_simulated L m0 v f (ts_init_thread t s)"
proof -
  have ids: "ids_ok s" using sim by (simp add: tiny_sim_def shared_sim_def)
  have bd: "unat (ts_id (ts_txs s x)) < unat (ts_thr_counter s)" for x using ids by (simp add: ids_ok_def)
  have u: "unat (ts_thr_counter s + 1) = Suc (unat (ts_thr_counter s))" using b by (simp add: unat_word_ariths)
  show ?thesis
  proof (cases "ts_id (ts_txs s t) = 0")
    case True
    let ?tx = "ts_reset (ts_null\<lparr>ts_id := ts_thr_counter s\<rparr>)"
    have "ids_ok (ts_set_tx t ?tx s\<lparr>ts_thr_counter := ts_thr_counter s + 1\<rparr>)"
      by (rule ids_replace [OF ids]) (use u bd in \<open>simp_all add: ts_reset_def ts_clear_def\<close>)
    then have "\<exists>f. tiny_simulated L m0 v f (ts_set_marks t [] (ts_set_ops t [] (ts_set_tx t ?tx (s\<lparr>ts_thr_counter := ts_thr_counter s + 1\<rparr>))))"
      by (intro sim_new_tx [OF lay inv sim pc]) (simp_all add: ts_reset_def ts_clear_def)
    then show ?thesis using True by (simp add: ts_init_thread_def Let_def)
  next
    case False
    let ?tx = "ts_reset (ts_txs s t)"
    have "ids_ok (ts_set_tx t ?tx s\<lparr>ts_thr_counter := ts_thr_counter s\<rparr>)"
      by (rule ids_replace [OF ids]) (use bd in \<open>simp_all add: ts_reset_def ts_clear_def\<close>)
    then have "\<exists>f. tiny_simulated L m0 v f (ts_set_marks t [] (ts_set_ops t [] (ts_set_tx t ?tx (s\<lparr>ts_thr_counter := ts_thr_counter s\<rparr>))))"
      by (intro sim_new_tx [OF lay inv sim pc]) (simp_all add: ts_reset_def ts_clear_def)
    then show ?thesis using False by (simp add: ts_init_thread_def Let_def)
  qed
qed

lemma sim_exit_thread:
  assumes lay: "layout_ok L" and inv: "vinv lock_of L m0 v" and sim: "tiny_sim L m0 s v" and pc: "ts_pcs s t = TsIdle"
  shows "\<exists>f. tiny_simulated L m0 v f (ts_exit_thread t s)"
proof -
  have ids: "ids_ok s" using sim by (simp add: tiny_sim_def shared_sim_def)
  have "ids_ok (ts_set_tx t ts_null s\<lparr>ts_thr_counter := ts_thr_counter s\<rparr>)"
    by (rule ids_replace [OF ids]) (use ids in \<open>simp_all add: ts_null_def ids_ok_def\<close>)
  then have "\<exists>f. tiny_simulated L m0 v f (ts_set_marks t [] (ts_set_ops t [] (ts_set_tx t ts_null (s\<lparr>ts_thr_counter := ts_thr_counter s\<rparr>))))"
    by (intro sim_new_tx [OF lay inv sim pc]) (simp_all add: ts_null_def)
  then show ?thesis by (simp add: ts_exit_thread_def)
qed

text \<open>An operation that only touches the transaction object and the record of operations.\<close>

lemma sim_ops_tx:
  assumes rest: "rest_sim L m0 s v t" and tx: "ts_id tx = ts_id (ts_txs s t)" and ok: "tx_ok L v t tx (ts_marks s t) ps"
  shows "rest_sim L m0 (ts_set_ops t ps (ts_set_tx t tx s)) v t"
proof (rule restI [OF rest grows_refl])
  show "shared_sim (ts_set_ops t ps (ts_set_tx t tx s)) v"
    by (rule shared_frame [OF restD(1) [OF rest]]) (use tx in \<open>simp_all add: ts_upd\<close>)
qed (use ok in \<open>simp_all add: ts_upd same_thread_def\<close>)

lemma set_same [simp]: "ts_set_tx t (ts_txs s t) s = s" "ts_set_ops t (ts_ops s t) s = s"
  by (simp_all add: ts_upd)

lemma sim_ts_read:
  assumes lay: "layout_ok L" "word_cells L = L" and sim: "tiny_sim L m0 s v" and pc: "ts_pcs s t = TsIdle" and L: "L a sz"
  shows "\<exists>f. tiny_simulated L m0 v f (ts_read t a sz s)"
proof (cases "ts_id (ts_txs s t) = 0 \<or> \<not> ts_active (ts_txs s t)")
  case True
  then have "ts_read t a sz s = ts_fail s" by (auto simp: ts_read_def Let_def)
  then show ?thesis using call_failed [OF sim] by simp
next
  case False
  note S = sim_at [OF sim pc] and R = restD [OF sim_at(1) [OF sim pc]]
  let ?tx = "ts_txs s t"
  have ok: "ts_ok (word_cells L) (ts_writes ?tx)" and ex: "explains (read_cells (marked_reads (ts_reads ?tx) (ts_marks s t))) (ts_effect (ts_writes ?tx)) (ts_ops s t)"
    using R(3) by (simp_all add: tx_ok_def)
  have lw: "layout_ok (word_cells L)" "word_cells L a sz" using lay L by simp_all
  consider w where "ctl_lookup (ts_writes ?tx) a sz = Hit w" | "ctl_lookup (ts_writes ?tx) a sz = Miss"
    by (cases "read_own (ts_writes ?tx) a sz") (auto simp: ctl_lookup_def)
  then show ?thesis
  proof cases
    case (1 w)
    let ?ps = "ts_ops s t @ [Rd a sz (return_any_type sz w)]"
    have "tx_ok L v t ?tx (ts_marks s t) ?ps"
      using R(3) False tiny_log.explains_hit [OF lw(1) ok lw(2) 1 ex] by (simp add: tx_ok_def)
    from sim_ops_tx [OF S(1) refl this] have "rest_sim L m0 (ts_set_ops t ?ps s) v t" by simp
    then have "tiny_sim L m0 (ts_set_ops t ?ps s) v"
      using S(2) pc by (simp add: tiny_sim_split [of L m0 _ v t]) (simp add: ts_upd)
    moreover have "ts_read t a sz s = ts_set_ops t ?ps s" using False 1 by (simp add: ts_read_def Let_def)
    ultimately show ?thesis using tiny_simulated_same by metis
  next
    case 2
    have "\<not> a < 0x100000" using layout_okD(1) [OF lay(1) L] by simp
    then have "ts_read t a sz s = ts_set_pc t (RdLock a sz) s" using False 2 by (simp add: ts_read_def Let_def)
    moreover have "tiny_sim L m0 (ts_set_pc t (RdLock a sz) s) v"
      by (rule sim_set_pc [OF S(1)]) (use S(2) False 2 L in \<open>simp add: pcsim_def reading_def\<close>)
    ultimately show ?thesis using tiny_simulated_same by metis
  qed
qed

lemma sim_ts_write:
  assumes lay: "layout_ok L" "word_cells L = L" and sim: "tiny_sim L m0 s v" and pc: "ts_pcs s t = TsIdle" and L: "L a sz"
  shows "\<exists>f. tiny_simulated L m0 v f (ts_write t a val sz s)"
proof (cases "ts_id (ts_txs s t) = 0 \<or> \<not> ts_active (ts_txs s t)")
  case True
  then have "ts_write t a val sz s = ts_fail s" by (auto simp: ts_write_def Let_def)
  then show ?thesis using call_failed [OF sim] by simp
next
  case False
  note S = sim_at [OF sim pc] and R = restD [OF sim_at(1) [OF sim pc]]
  let ?tx = "ts_txs s t"
  let ?w = "ts_writes ?tx"
  have ok: "ts_ok (word_cells L) ?w" and ex: "explains (read_cells (marked_reads (ts_reads ?tx) (ts_marks s t))) (ts_effect ?w) (ts_ops s t)"
    using R(3) by (simp_all add: tx_ok_def)
  have lw: "layout_ok (word_cells L)" "word_cells L a sz" using lay L by simp_all
  consider w where "ctl_write ?w a val sz = Done w" | "ctl_write ?w a val sz = Insert ?w"
    using ctl_write_cases [OF lw(1) ok lw(2), of val] by (auto split: option.splits if_splits)
  then show ?thesis
  proof cases
    case (1 w)
    let ?ps = "ts_ops s t @ [Wr a sz val]" and ?tx' = "?tx\<lparr>ts_read_only := False, ts_writes := w\<rparr>"
    have "ctl_write_log 0 ?w a val sz = w" using 1 by (simp add: ctl_write_log_def)
    then have "ts_ok (word_cells L) w" "explains (read_cells (marked_reads (ts_reads ?tx) (ts_marks s t))) (ts_effect w) ?ps"
      using tiny_log.write_invar [OF lw(1) ok lw(2), of 0 val] tiny_log.explains_write [OF lw(1) ok lw(2) _ ex, of 0 val] by simp_all
    then have "tx_ok L v t ?tx' (ts_marks s t) ?ps" using R(3) False by (simp add: tx_ok_def)
    then have "rest_sim L m0 (ts_set_ops t ?ps (ts_set_tx t ?tx' s)) v t" by (intro sim_ops_tx [OF S(1)]) simp_all
    then have "tiny_sim L m0 (ts_set_ops t ?ps (ts_set_tx t ?tx' s)) v"
      using S(2) pc False by (simp add: tiny_sim_split [of L m0 _ v t]) (simp add: ts_upd pcsim_def body_locks_def at_end_def)
    moreover have "ts_write t a val sz s = ts_set_ops t ?ps (ts_set_tx t ?tx' s)" using False 1 by (simp add: ts_write_def Let_def)
    ultimately show ?thesis using tiny_simulated_same by metis
  next
    case 2
    let ?tx' = "?tx\<lparr>ts_read_only := False\<rparr>"
    have "tx_ok L v t ?tx' (ts_marks s t) (ts_ops s t)" using R(3) False by (simp add: tx_ok_def)
    then have "rest_sim L m0 (ts_set_ops t (ts_ops s t) (ts_set_tx t ?tx' s)) v t" by (intro sim_ops_tx [OF S(1)]) simp_all
    moreover have "ts_set_ops t (ts_ops s t) (ts_set_tx t ?tx' s) = ts_set_tx t ?tx' s" by (simp add: ts_upd)
    ultimately have "tiny_sim L m0 (ts_set_pc t (WrLock a val sz) (ts_set_tx t ?tx' s)) v"
      by (intro sim_set_pc) (use S(2) False L 2 in \<open>simp_all add: pcsim_def writing_def body_locks_def at_end_def ts_upd\<close>)
    moreover have "ts_write t a val sz s = ts_set_pc t (WrLock a val sz) (ts_set_tx t ?tx' s)"
      using False 2 by (simp add: ts_write_def Let_def)
    ultimately show ?thesis using tiny_simulated_same by metis
  qed
qed

subsection \<open>Reads\<close>

lemma vph_triv: "vph v t = p \<Longrightarrow> v\<lparr>vph := (vph v)(t := p)\<rparr> = v"
  by auto

lemma sim_to_read:
  assumes lay: "layout_ok L" and inv: "vinv lock_of L m0 v" and rest: "rest_sim L m0 s v t" and ph: "vph v t = PBody"
    and ok: "at_end L m0 v (ts_txs s t) (ts_marks s t)" "L a sz"
    and pc: "\<And>v'. vph v' t = PRead a sz (vver v (lock_of a)) 0 0 \<Longrightarrow> at_end L m0 v' (ts_txs s t) (ts_marks s t) \<Longrightarrow> own_locks v' t = own_locks v t \<Longrightarrow>
      pcsim L m0 v' t (ts_txs s t) (ts_marks s t) pc"
  shows "tiny_simulated L m0 v (ts_failed s) (ts_set_pc t pc s)"
proof -
  have st: "vstep lock_of L v (v\<lparr>vph := (vph v)(t := PRead a sz (vver v (lock_of a)) 0 0)\<rparr>)" using ph ok(2) by (rule v_read)
  show ?thesis by (rule sim_phase [OF lay inv rest st], rule pc) (use at_end_step [OF lay inv st ok(1)] in simp_all)
qed

lemma sim_to_loop:
  assumes lay: "layout_ok L" and inv: "vinv lock_of L m0 v" and rest: "rest_sim L m0 s v t" and ph: "vph v t = PBody"
    and ok: "body_locks v t (ts_txs s t)" "at_end L m0 v (ts_txs s t) (ts_marks s t)" "reading L (ts_txs s t) a sz" "ts_active (ts_txs s t)"
  shows "tiny_simulated L m0 v (ts_failed s) (ts_set_pc t (RdLoop a sz (ts_table s (lock_of a)) n) s)"
proof (cases "is_locked (ts_table s (lock_of a))")
  case True
  then show ?thesis by (intro sim_stay [OF rest]) (use ph ok in \<open>simp add: pcsim_def rd_phase_def\<close>)
next
  case False
  have "L a sz" using ok(3) by (simp add: reading_def)
  then show ?thesis
    by (rule sim_to_read [OF lay inv rest ph ok(2)])
      (use ok False word_version [OF restD(1) [OF rest], of "lock_of a"] in \<open>simp add: pcsim_def rd_phase_def body_locks_def\<close>)
qed

lemma drop_read:
  assumes lay: "layout_ok L" and inv: "vinv lock_of L m0 v" and rest: "rest_sim L m0 s v t" and ph: "vph v t = PRead a sz v0 i w"
    and ok: "body_locks v t (ts_txs s t)" "at_end L m0 v (ts_txs s t) (ts_marks s t)"
  obtains v' where "vstep lock_of L v v'" "vinv lock_of L m0 v'" "rest_sim L m0 s v' t" "vph v' t = PBody"
    "body_locks v' t (ts_txs s t)" "at_end L m0 v' (ts_txs s t) (ts_marks s t)" "vver v' = vver v"
proof -
  have st: "vstep lock_of L v (v\<lparr>vph := (vph v)(t := PBody)\<rparr>)" by (rule v_drop [OF ph])
  then show ?thesis
    using that [OF st vinv_step [OF lay st inv] rest_phase [OF lay inv rest st]] at_end_step [OF lay inv st ok(2)] ok(1) by simp
qed

lemma sim_rd_lock:
  assumes lay: "layout_ok L" and inv: "vinv lock_of L m0 v" and sim: "tiny_sim L m0 s v" and pc: "ts_pcs s t = RdLock a sz"
  shows "tiny_simulated L m0 v (ts_failed s) (tiny_run E t s)"
proof -
  note S = sim_at [OF sim pc] and R = restD [OF sim_at(1) [OF sim pc]]
  have "ts_id (ts_txs s t) \<noteq> 0" using R(3) S(2) by (simp add: tx_ok_def pcsim_def)
  then have "\<not> is_locked_by (ts_table s (lock_of a)) (ts_id (ts_txs s t))"
    using word_mine [OF R(1)] S(2) by (auto simp: pcsim_def body_locks_def)
  then have "tiny_run E t s = ts_set_pc t (RdLoop a sz (ts_table s (lock_of a)) 0) s" using pc by (simp add: tiny_run_def Let_def)
  then show ?thesis using sim_to_loop [OF lay inv S(1)] S(2) by (simp add: pcsim_def)
qed

lemma sim_rd_loop:
  assumes lay: "layout_ok L" and inv: "vinv lock_of L m0 v" and sim: "tiny_sim L m0 s v" and pc: "ts_pcs s t = RdLoop a sz l n"
  shows "tiny_simulated L m0 v (ts_failed s) (tiny_run E t s)"
proof (cases "is_locked l")
  note S = sim_at [OF sim pc]
  case True
  then have ph: "vph v t = PBody" using S(2) by (simp add: pcsim_def rd_phase_def)
  show ?thesis
  proof (cases "n + 1 > 5000")
    case t: True
    have "tiny_run E t s = ts_abort t s" using pc True t by (simp add: tiny_run_def Let_def owned_and)
    then show ?thesis
      using sim_ts_abort [OF lay inv S(1)] S(2) ph by (simp add: pcsim_def body_locks_def)
  next
    case False
    then have "tiny_run E t s = ts_set_pc t (RdLoop a sz (ts_table s (lock_of a)) (n + 1)) s"
      using pc True by (simp add: tiny_run_def Let_def owned_and)
    then show ?thesis using sim_to_loop [OF lay inv S(1) ph] S(2) by (simp add: pcsim_def)
  qed
next
  note S = sim_at [OF sim pc]
  case False
  have "tiny_sim L m0 (ts_set_pc t (RdVal a sz l n 0 0) s) v"
    by (rule sim_set_pc [OF S(1)]) (use S(2) False in \<open>simp add: pcsim_def rd_phase_def\<close>)
  moreover have "tiny_run E t s = ts_set_pc t (RdVal a sz l n 0 0) s" using pc False by (simp add: tiny_run_def Let_def owned_and)
  ultimately show ?thesis using tiny_simulated_same by simp
qed

lemma read_ok_in: "vinv idx L m0 v \<Longrightarrow> r \<in> set (vreads v t) \<Longrightarrow> read_ok idx L v r"
  unfolding vinv_def inv_reads_def by blast

lemma sim_rd_done:
  assumes lay: "layout_ok L" "word_cells L = L" and inv: "vinv lock_of L m0 v" and sim: "tiny_sim L m0 s v"
    and pc: "ts_pcs s t = RdVal a sz l n (type_size sz) w" and l: "l = ts_table s (lock_of a)" and ver: "get_version l \<le> ts_end (ts_txs s t)"
  shows "tiny_simulated L m0 v (ts_failed s) (tiny_run E t s)"
proof -
  note S = sim_at [OF sim pc] and R = restD [OF sim_at(1) [OF sim pc]]
  let ?tx = "ts_txs s t" and ?ms = "ts_marks s t" and ?e = "\<lparr>rl_type = sz, rl_addr = a, rl_version = get_version l, rl_val = w\<rparr>"
  let ?tx' = "?tx\<lparr>ts_reads := ts_reads ?tx @ [?e]\<rparr>" and ?ps = "ts_ops s t @ [Rd a sz (return_any_type sz w)]"
  let ?r = "\<lparr>vr_addr = a, vr_type = sz, vr_ver = unat (get_version l), vr_val = w\<rparr>"
  let ?v = "v\<lparr>vph := (vph v)(t := PBody), vreads := (vreads v)(t := vreads v t @ [?r])\<rparr>"
    and ?s = "ts_set_ops t ?ps (ts_set_marks t (?ms @ [True]) (ts_set_tx t ?tx' s))"
  have ph: "vph v t = PRead a sz (unat (get_version l)) (type_size sz) w" and body: "body_locks v t ?tx" "at_end L m0 v ?tx ?ms"
    and rd: "reading L ?tx a sz" and nl: "\<not> is_locked l" and act: "ts_active ?tx"
    using S(2) by (simp_all add: pcsim_def)
  have st: "vstep lock_of L v ?v" by (rule v_read_done [OF ph refl])
  note g = grows_step [OF lay(1) inv st]
  have T: "length ?ms = length (ts_reads ?tx)" "vreads v t = marked_reads (ts_reads ?tx) ?ms" "ts_ok (word_cells L) (ts_writes ?tx)"
    "explains (read_cells (marked_reads (ts_reads ?tx) ?ms)) (ts_effect (ts_writes ?tx)) (ts_ops s t)" "unat (ts_end ?tx) \<le> vclock v"
    using R(3) by (simp_all add: tx_ok_def)
  have mr: "marked_reads (ts_reads ?tx') (?ms @ [True]) = marked_reads (ts_reads ?tx) ?ms @ [?r]"
    using marked_snoc [OF T(1)] by (simp add: read_entry_def)
  have le: "unat (get_version l) \<le> unat (ts_end ?tx)" using ver by (simp add: word_le_nat_alt)
  have "explains (read_cells (marked_reads (ts_reads ?tx) ?ms) @ [(a, sz, w)]) (ts_effect (ts_writes ?tx)) ?ps"
    by (rule tiny_log.explains_miss [OF _ T(3) _ _ T(4)]) (use lay rd in \<open>simp_all add: reading_def\<close>)
  then have "tx_ok L ?v t ?tx' (?ms @ [True]) ?ps"
    unfolding tx_ok_def mr using R(3) act le by (auto simp: tx_ok_def read_cells_def)
  then have "rest_sim L m0 ?s ?v t"
  proof (intro restI [OF S(1) g])
    show "shared_sim ?s ?v" by (rule shared_frame [OF R(1)]) (simp_all add: ts_upd)
  qed (simp_all add: ts_upd same_thread_def)
  moreover have "at_end L m0 ?v ?tx' (?ms @ [True])"
  proof -
    have inv': "vinv lock_of L m0 ?v" by (rule vinv_step [OF lay(1) st inv])
    have ok: "read_ok lock_of L ?v ?r" by (rule read_ok_in [OF inv', of _ t]) simp
    have "vowner v (lock_of a) = None" using word_locked [OF R(1), of "lock_of a"] nl l by simp
    then have "snap lock_of L m0 ?v (Suc (unat (ts_end ?tx))) ?r"
      using word_version [OF R(1), of "lock_of a"] l le T(5) by (intro snap_now [OF lay(1) inv' ok]) simp_all
    moreover have "at_end L m0 ?v ?tx ?ms" by (rule at_end_grows [OF g body(2)])
    ultimately show ?thesis unfolding at_end_def snaps_def mr by auto
  qed
  ultimately have "tiny_sim L m0 (ts_set_pc t TsIdle ?s) ?v"
    by (intro sim_set_pc) (use body act in \<open>simp_all add: pcsim_def body_locks_def ts_upd\<close>)
  moreover have "tiny_run E t s = ts_set_pc t TsIdle ?s" using pc l ver by (simp add: tiny_run_def Let_def)
  ultimately show ?thesis using tiny_simulated_step [OF st tiny_simulated_same] by simp
qed

lemma sim_rd_val:
  assumes lay: "layout_ok L" "word_cells L = L" and inv: "vinv lock_of L m0 v" and sim: "tiny_sim L m0 s v" and pc: "ts_pcs s t = RdVal a sz l n i w"
  shows "tiny_simulated L m0 v (ts_failed s) (tiny_run E t s)"
proof -
  note S = sim_at [OF sim pc] and R = restD [OF sim_at(1) [OF sim pc]]
  let ?tx = "ts_txs s t"
  have ph: "vph v t = PRead a sz (unat (get_version l)) i w" and body: "body_locks v t ?tx" "at_end L m0 v ?tx (ts_marks s t)"
    and rd: "reading L ?tx a sz" and nl: "\<not> is_locked l" "i \<le> type_size sz" and act: "ts_active ?tx"
    using S(2) by (simp_all add: pcsim_def)
  consider "i < type_size sz" | "i = type_size sz" "l \<noteq> ts_table s (lock_of a)"
    | "i = type_size sz" "l = ts_table s (lock_of a)" "get_version l > ts_end ?tx"
    | "i = type_size sz" "l = ts_table s (lock_of a)" "get_version l \<le> ts_end ?tx" using nl(2) by fastforce
  then show ?thesis
  proof cases
    case 1
    have st: "vstep lock_of L v (v\<lparr>vph := (vph v)(t := PRead a sz (unat (get_version l)) (Suc i) (add_byte (vmem v) a i w))\<rparr>)"
      using ph 1 by (rule v_byte)
    have "vmem v = ts_mem s" using R(1) by (simp add: shared_sim_def)
    then have "tiny_simulated L m0 v (ts_failed s) (ts_set_pc t (RdVal a sz l n (Suc i) (add_byte (ts_mem s) a i w)) s)"
      using body act rd nl 1 at_end_step [OF lay(1) inv st body(2)] by (intro sim_phase [OF lay(1) inv S(1) st]) (simp add: pcsim_def)
    then show ?thesis using pc 1 by (simp add: tiny_run_def)
  next
    case 2
    obtain v' where v': "vstep lock_of L v v'" "vinv lock_of L m0 v'" "rest_sim L m0 s v' t" "vph v' t = PBody"
      "body_locks v' t ?tx" "at_end L m0 v' ?tx (ts_marks s t)" "vver v' = vver v"
      using drop_read [OF lay(1) inv S(1) ph body] by blast
    have "tiny_run E t s = ts_set_pc t (RdLoop a sz (ts_table s (lock_of a)) n) s" using pc 2 by (simp add: tiny_run_def Let_def)
    then show ?thesis using tiny_simulated_step [OF v'(1) sim_to_loop [OF lay(1) v'(2-6) rd act]] by simp
  next
    case 3
    obtain v' where v': "vstep lock_of L v v'" "vinv lock_of L m0 v'" "rest_sim L m0 s v' t" "vph v' t = PBody"
      "body_locks v' t ?tx" "at_end L m0 v' ?tx (ts_marks s t)" "vver v' = vver v"
      using drop_read [OF lay(1) inv S(1) ph body] by blast
    have "tiny_run E t s = ts_set_pc t (ExtClock (XRead a sz l n)) s" using pc 3 by (simp add: tiny_run_def Let_def)
    moreover have "tiny_simulated L m0 v' (ts_failed s) (ts_set_pc t (ExtClock (XRead a sz l n)) s)"
      by (rule sim_to_read [OF lay(1) v'(2-4,6)])
        (use rd v'(5,7) act nl 3 word_version [OF R(1), of "lock_of a"] in \<open>auto simp: reading_def pcsim_def rd_phase_def body_locks_def\<close>)
    ultimately show ?thesis using tiny_simulated_step [OF v'(1)] by simp
  next
    case 4
    then show ?thesis using sim_rd_done [OF lay inv sim] pc by simp
  qed
qed

subsection \<open>Writes\<close>

lemma sim_wr_lock:
  assumes sim: "tiny_sim L m0 s v" and pc: "ts_pcs s t = WrLock a val sz"
  shows "tiny_simulated L m0 v (ts_failed s) (tiny_run E t s)"
proof -
  note S = sim_at [OF sim pc] and R = restD [OF sim_at(1) [OF sim pc]]
  let ?l = "ts_table s (lock_of a)" and ?tx = "ts_txs s t"
  have id: "ts_id ?tx \<noteq> 0" using R(3) S(2) by (simp add: tx_ok_def pcsim_def)
  have no: "get_owner ?l \<noteq> ts_id ?tx" using word_owner [OF R(1) id] S(2) by (auto simp: pcsim_def body_locks_def)
  show ?thesis
  proof (cases "is_locked ?l")
    case True
    then have "tiny_run E t s = ts_set_pc t (ValLoop (XSpin a val sz) None (ts_reads ?tx)) s"
      using pc no by (simp add: tiny_run_def Let_def owned_and)
    then show ?thesis using sim_stay [OF S(1)] S(2) by (simp add: pcsim_def ext_sim_def)
  next
    case False
    then have "tiny_run E t s = ts_set_pc t (WrCheck a val sz ?l) s"
      using pc no by (simp add: tiny_run_def Let_def owned_and)
    then show ?thesis using sim_stay [OF S(1)] S(2) by (simp add: pcsim_def)
  qed
qed

lemma sim_wr_check:
  assumes lay: "layout_ok L" "word_cells L = L" and sim: "tiny_sim L m0 s v" and pc: "ts_pcs s t = WrCheck a val sz l"
  shows "tiny_simulated L m0 v (ts_failed s) (tiny_run E t s)"
proof -
  note S = sim_at [OF sim pc] and R = restD [OF sim_at(1) [OF sim pc]]
  let ?l = "ts_table s (lock_of a)" and ?tx = "ts_txs s t" and ?ms = "ts_marks s t"
  have P: "vph v t = PBody" "body_locks v t ?tx" "at_end L m0 v ?tx ?ms" "writing L ?tx a val sz" "ts_active ?tx"
    using S(2) by (simp_all add: pcsim_def)
  consider "l \<noteq> ?l" | "l = ?l" "get_version ?l > ts_end ?tx" | "l = ?l" "get_version ?l \<le> ts_end ?tx" by fastforce
  then show ?thesis
  proof cases
    case 1
    then have "tiny_run E t s = ts_set_pc t (WrLock a val sz) s" using pc by (simp add: tiny_run_def Let_def)
    then show ?thesis using sim_stay [OF S(1)] P by (simp add: pcsim_def)
  next
    case 2
    then have "tiny_run E t s = ts_set_pc t (ExtClock (XWrite a val sz)) s" using pc by (simp add: tiny_run_def Let_def)
    then show ?thesis using sim_stay [OF S(1)] P by (simp add: pcsim_def)
  next
    case 3
    let ?w = "ctl_insert (ts_writes ?tx) a val sz (get_version ?l)"
    let ?tx' = "?tx\<lparr>ts_writes := ?w, ts_reads := ts_reads ?tx @ [\<lparr>rl_type = sz, rl_addr = a, rl_version = get_version ?l, rl_val = val\<rparr>]\<rparr>"
      and ?ps = "ts_ops s t @ [Wr a sz val]"
    let ?s = "ts_set_ops t ?ps (ts_set_marks t (?ms @ [False]) (ts_set_tx t ?tx' s))"
    have T: "length ?ms = length (ts_reads ?tx)" "ts_ok (word_cells L) (ts_writes ?tx)"
      "explains (read_cells (marked_reads (ts_reads ?tx) ?ms)) (ts_effect (ts_writes ?tx)) (ts_ops s t)"
      using R(3) by (simp_all add: tx_ok_def)
    have lw: "layout_ok (word_cells L)" "word_cells L a sz" using lay P(4) by (simp_all add: writing_def)
    have mr: "marked_reads (ts_reads ?tx') (?ms @ [False]) = marked_reads (ts_reads ?tx) ?ms" using marked_snoc [OF T(1)] by simp
    have "ctl_write_log (get_version ?l) (ts_writes ?tx) a val sz = ?w" using P(4) by (simp add: ctl_write_log_def writing_def)
    then have "ts_ok (word_cells L) ?w" "explains (read_cells (marked_reads (ts_reads ?tx) ?ms)) (ts_effect ?w) ?ps"
      using tiny_log.write_invar [OF lw(1) T(2) lw(2)] tiny_log.explains_write [OF lw(1) T(2) lw(2) _ T(3)] by metis+
    then have "tx_ok L v t ?tx' (?ms @ [False]) ?ps"
      unfolding tx_ok_def mr using R(3) P by (simp add: tx_ok_def writing_def)
    then have "rest_sim L m0 ?s v t"
    proof (intro restI [OF S(1) grows_refl])
      show "shared_sim ?s v" by (rule shared_frame [OF R(1)]) (simp_all add: ts_upd)
    qed (simp_all add: ts_upd same_thread_def)
    moreover have "at_end L m0 v ?tx' (?ms @ [False])" using P(3) unfolding at_end_def mr by simp
    ultimately have "tiny_sim L m0 (ts_set_pc t TsIdle ?s) v"
      by (intro sim_set_pc) (use P in \<open>simp_all add: pcsim_def body_locks_def ts_upd\<close>)
    moreover have "tiny_run E t s = ts_set_pc t TsIdle ?s" using pc 3 by (simp add: tiny_run_def Let_def)
    ultimately show ?thesis using tiny_simulated_same by simp
  qed
qed

end
