(* ===== verification/TM_TinySTM_Commit.thy ===== *)
theory TM_TinySTM_Commit
  imports TM_TinySTM_Access
begin

text \<open>
  Validation, the spin token and the commit of TinySTM are matched by the versioned-lock protocol.
\<close>

section \<open>Validation\<close>

lemma cont_locks: "cont_sim L m0 v t tx ms k \<Longrightarrow> own_locks v t = set (ts_locks tx) \<and> distinct (ts_locks tx)"
  by (cases k) (auto simp: body_locks_def lock_sim_def all_locked_def commit_locks_def)

lemma cont_phase_live:
  "cont_phase k n = PBody \<or> (\<exists>a sz v0 i w. cont_phase k n = PRead a sz v0 i w) \<or> cont_phase k n = PLock \<or> (\<exists>m. cont_phase k n = PVal m)"
  by (cases k) (auto simp: rd_phase_def)

lemma sim_cont_abort:
  assumes "layout_ok L" "vinv lock_of L m0 v" "rest_sim L m0 s v t" "ts_active (ts_txs s t)" "vph v t = cont_phase k n"
    and "cont_sim L m0 v t (ts_txs s t) (ts_marks s t) k"
  shows "tiny_simulated L m0 v (ts_failed s) (ts_abort t s)"
  using sim_ts_abort [OF assms(1-4)] cont_phase_live [of k n] cont_locks [OF assms(6)] assms(5) by simp

lemma sim_ext_clock:
  assumes sim: "tiny_sim L m0 s v" and pc: "ts_pcs s t = ExtClock k"
  shows "tiny_simulated L m0 v (ts_failed s) (tiny_run E t s)"
proof (cases "ts_clock s \<ge> VERSION_BITS_MASK")
  case True
  then show ?thesis using tiny_simulated_same [OF sim] pc by (simp add: tiny_run_def)
next
  case False
  note S = sim_at [OF sim pc] and R = restD [OF sim_at(1) [OF sim pc]]
  have c: "vclock v = unat (ts_clock s)" using R(1) by (simp add: shared_sim_def)
  have "unat (ts_end (ts_txs s t)) \<le> unat (ts_clock s)" using R(3) c by (simp add: tx_ok_def)
  then have "ext_sim L m0 v (ts_txs s t) (ts_marks s t) k (Some (ts_clock s)) (ts_reads (ts_txs s t))"
    using S(2) c by (cases k) (simp_all add: pcsim_def ext_sim_def snaps_def)
  then have "tiny_simulated L m0 v (ts_failed s) (ts_set_pc t (ValLoop k (Some (ts_clock s)) (ts_reads (ts_txs s t))) s)"
    using S(2) by (intro sim_stay [OF S(1)]) (simp add: pcsim_def)
  then show ?thesis using False pc by (simp add: tiny_run_def)
qed

text \<open>A read that passes the test of a validation belongs to the snapshot of every later clock value.\<close>

lemma snap_entry:
  assumes lay: "layout_ok L" and inv: "vinv lock_of L m0 v" and r: "r \<in> set (vreads v t)" "vver v (lock_of (vr_addr r)) \<le> vr_ver r"
    and c: "vr_ver r \<le> c" "c \<le> vclock v" and o: "vowner v (lock_of (vr_addr r)) = None \<or> vowner v (lock_of (vr_addr r)) = Some t"
    and p: "\<not> iswb (vph v t)" "\<not> isval (vph v t)"
  shows "snap lock_of L m0 v (Suc c) r"
proof -
  have ok: "read_ok lock_of L v r" by (rule read_ok_in [OF inv r(1)])
  then show ?thesis using r(2) c o p by (intro snap_now [OF lay inv ok]) (auto simp: read_ok_def)
qed

lemma sim_val_cons:
  assumes lay: "layout_ok L" and inv: "vinv lock_of L m0 v" and sim: "tiny_sim L m0 s v" and pc: "ts_pcs s t = ValLoop k lv (r # rs)"
  shows "tiny_simulated L m0 v (ts_failed s) (tiny_run E t s)"
proof -
  note S = sim_at [OF sim pc] and R = restD [OF sim_at(1) [OF sim pc]]
  let ?tx = "ts_txs s t" and ?ms = "ts_marks s t"
  have ph: "vph v t = cont_phase k (length (passed ?tx ?ms (r # rs)))" and act: "ts_active ?tx" and co: "cont_sim L m0 v t ?tx ?ms k"
    and suf: "suffix_of (r # rs) (ts_reads ?tx) UNIV" and ext: "ext_sim L m0 v ?tx ?ms k lv (r # rs)"
    using S(2) by (simp_all add: pcsim_def)
  have T: "length ?ms = length (ts_reads ?tx)" "vreads v t = marked_reads (ts_reads ?tx) ?ms" "ts_id ?tx \<noteq> 0"
    "\<forall>q \<in> set (vreads v t). vr_ver q \<le> unat (ts_end ?tx)" using R(3) act by (auto simp: tx_ok_def)
  obtain ds where ds: "ts_reads ?tx = ds @ r # rs" using suf by (auto simp: suffix_of_def)
  note pas = passed_Cons [OF ds T(1)]
  let ?q = "read_entry r" and ?m = "?ms ! length ds"
  have vr: "vreads v t = marked_reads ds ?ms @ (if ?m then [?q] else []) @ marked_reads rs (drop (Suc (length ds)) ?ms)"
    using T(2) marked_split(1) [of ?ms ds r rs] T(1) ds by simp
  have suf': "suffix_of rs (ts_reads ?tx) UNIV" using suffix_of_Cons [OF suf] by simp
  show ?thesis
  proof (cases "entry_valid (ts_id ?tx) r (ts_table s (lock_of (rl_addr r)))")
    case True
    then have ok: "vowner v (lock_of (vr_addr ?q)) = None \<or> vowner v (lock_of (vr_addr ?q)) = Some t" "vver v (lock_of (vr_addr ?q)) \<le> vr_ver ?q"
      using entry_valid_iff [OF R(1) T(3)] by (simp_all add: read_entry_def)
    have run: "tiny_run E t s = ts_set_pc t (ValLoop k lv rs) s" using pc True by (simp add: tiny_run_def)
    show ?thesis
    proof (cases "\<exists>cv. k = XCommit cv")
      case com: True
      then have ext': "ext_sim L m0 v ?tx ?ms k lv rs" using ext by (auto simp: ext_sim_def split: option.splits)
      show ?thesis
      proof (cases ?m)
        case m: True
        have n: "length (marked_reads ds ?ms) < length (vreads v t)" "vreads v t ! length (marked_reads ds ?ms) = ?q"
          using vr m by (simp_all add: nth_append)
        have "vr_ver ?q \<le> vver v (lock_of (vr_addr ?q))"
          using read_ok_in [OF inv, of ?q t] n nth_mem [OF n(1)] by (simp add: read_ok_def)
        then have st: "vstep lock_of L v (v\<lparr>vph := (vph v)(t := PVal (Suc (length (marked_reads ds ?ms))))\<rparr>)"
          using ok ph com n pas(1) by (intro v_validate [OF _ n(1) n(2) [symmetric]]) auto
        show ?thesis unfolding run
          by (rule sim_phase [OF lay inv S(1) st])
            (use com act co suf' ext' pas m in \<open>auto simp: pcsim_def ext_sim_def split: option.splits\<close>)
      next
        case False
        then have "pcsim L m0 v t ?tx ?ms (ValLoop k lv rs)" using ph act co suf' ext' pas by (simp add: pcsim_def)
        then show ?thesis unfolding run by (rule sim_stay [OF S(1)])
      qed
    next
      case False
      have ext': "ext_sim L m0 v ?tx ?ms k lv rs"
      proof (cases "lv = None \<or> (\<exists>cv. k = XGap cv)")
        case True
        then show ?thesis using ext by (auto simp: ext_sim_def split: option.splits)
      next
        case nt: False
        then obtain c where c: "lv = Some c" by auto
        have e: "unat (ts_end ?tx) \<le> unat c" "unat c \<le> vclock v" "snaps L m0 v (Suc (unat c)) (passed ?tx ?ms (r # rs))"
          using ext c nt by (auto simp: ext_sim_def split: ts_cont.splits)
        have "snap lock_of L m0 v (Suc (unat c)) ?q" if ?m
        proof (rule snap_entry [OF lay inv _ ok(2) _ e(2) ok(1)])
          show "?q \<in> set (vreads v t)" using vr that by simp
          then show "vr_ver ?q \<le> unat c" using T(4) e(1) by fastforce
        qed (use ph False nt in \<open>cases k; simp add: rd_phase_def\<close>)+
        then have "snaps L m0 v (Suc (unat c)) (passed ?tx ?ms rs)" using e(3) pas by (auto simp: snaps_def)
        then show ?thesis using ext c by (cases k) (simp_all add: ext_sim_def)
      qed
      have "cont_phase k n = cont_phase k m" for n m using False by (cases k) simp_all
      then have "pcsim L m0 v t ?tx ?ms (ValLoop k lv rs)" using ph act co suf' ext' by (simp add: pcsim_def)
      then show ?thesis unfolding run by (rule sim_stay [OF S(1)])
    qed
  next
    case False
    then have run: "tiny_run E t s = invalid_to t k s" using pc by (simp add: tiny_run_def)
    show ?thesis unfolding run
      using sim_cont_abort [OF lay inv S(1) act ph co] sim_stay [OF S(1), of "SpinCheck k"] ph act co
      by (cases k) (simp_all add: pcsim_def)
  qed
qed

lemma sim_validated:
  assumes lay: "layout_ok L" and inv: "vinv lock_of L m0 v" and rest: "rest_sim L m0 s v t" and act: "ts_active (ts_txs s t)"
    and ph: "vph v t = cont_phase k n" and co: "cont_sim L m0 v t (ts_txs s t) (ts_marks s t) k" and k: "\<And>cv. k \<noteq> XCommit cv"
  shows "tiny_simulated L m0 v (ts_failed s) (validated_to E t k s)"
proof (cases k)
  case (XRead a sz l spin)
  then show ?thesis using sim_stay [OF rest, of "RdLoop a sz l spin"] act ph co by (simp add: pcsim_def)
next
  case (XWrite a val sz)
  then show ?thesis using sim_stay [OF rest, of "WrLock a val sz"] act ph co by (simp add: pcsim_def)
next
  case (XSpin a val sz)
  then show ?thesis using sim_stay [OF rest, of "WrLock a val sz"] act ph co by (simp add: pcsim_def)
next
  case (XLock a as m)
  then show ?thesis using sim_stay [OF rest, of "CmTry a as (m + 1)"] sim_cont_abort [OF lay inv rest act ph co] act ph co by (simp add: pcsim_def)
next
  case (XGap cv)
  then show ?thesis using sim_stay [OF rest, of "ValLoop (XCommit cv) None (ts_reads (ts_txs s t))"] act ph co by (simp add: pcsim_def ext_sim_def)
qed (use k in simp)

text \<open>The end of an extension.\<close>

lemma sim_extended:
  assumes lay: "layout_ok L" and inv: "vinv lock_of L m0 v" and sim: "tiny_sim L m0 s v" and pc: "ts_pcs s t = ValLoop k (Some c) []"
  shows "tiny_simulated L m0 v (ts_failed s) (tiny_run E t s)"
proof -
  note S = sim_at [OF sim pc] and R = restD [OF sim_at(1) [OF sim pc]]
  let ?tx = "ts_txs s t" and ?ms = "ts_marks s t"
  let ?s = "ts_set_tx t (?tx\<lparr>ts_end := c\<rparr>) s"
  have ph: "vph v t = cont_phase k (length (passed ?tx ?ms []))" and act: "ts_active ?tx" and co: "cont_sim L m0 v t ?tx ?ms k"
    and ext: "ext_sim L m0 v ?tx ?ms k (Some c) []" using S(2) by (simp_all add: pcsim_def)
  have e: "unat (ts_end ?tx) \<le> unat c" "unat c \<le> vclock v" "\<And>cv. k \<noteq> XCommit cv" using ext by (auto simp: ext_sim_def)
  have "vr_ver r \<le> unat c" if "r \<in> set (marked_reads (ts_reads ?tx) ?ms)" for r
    using R(3) that e(1) by (meson order_trans tx_ok_def)
  then have "tx_ok L v t (?tx\<lparr>ts_end := c\<rparr>) ?ms (ts_ops s t)" using R(3) e by (simp add: tx_ok_def)
  then have rest: "rest_sim L m0 ?s v t"
  proof (intro restI [OF S(1) grows_refl])
    show "shared_sim ?s v" by (rule shared_frame [OF R(1)]) (simp_all add: ts_upd)
  qed (simp_all add: ts_upd same_thread_def)
  have "cont_sim L m0 v t (?tx\<lparr>ts_end := c\<rparr>) ?ms k"
    using co ext by (cases k) (simp_all add: ext_sim_def at_end_def body_locks_def reading_def writing_def lock_sim_def commit_locks_def all_locked_def)
  then have "tiny_simulated L m0 v (ts_failed ?s) (validated_to E t k ?s)"
    using act ph e(3) by (intro sim_validated [OF lay inv rest]) (simp_all add: ts_upd)
  then show ?thesis using pc by (simp add: tiny_run_def)
qed

section \<open>The spin token\<close>

lemma rest_token: "rest_sim L m0 (s\<lparr>ts_token := k\<rparr>) v t = rest_sim L m0 s v t"
  by (simp add: rest_sim_def shared_sim_def ids_ok_def ro_sim_def)

lemma sim_spin_check:
  assumes lay: "layout_ok L" and inv: "vinv lock_of L m0 v" and sim: "tiny_sim L m0 s v" and pc: "ts_pcs s t = SpinCheck k"
  shows "tiny_simulated L m0 v (ts_failed s) (tiny_run E t s)"
proof -
  note S = sim_at [OF sim pc]
  have P: "vph v t = cont_phase k 0" "ts_active (ts_txs s t)" "cont_sim L m0 v t (ts_txs s t) (ts_marks s t) k" using S(2) by (simp_all add: pcsim_def)
  have "tiny_simulated L m0 v (ts_failed s) (ts_set_pc t (SpinTok k) s)" using S(2) by (intro sim_stay [OF S(1)]) (simp add: pcsim_def)
  then show ?thesis using sim_cont_abort [OF lay inv S(1) P(2,1,3)] pc by (simp add: tiny_run_def)
qed

lemma sim_spin_tok:
  assumes lay: "layout_ok L" and inv: "vinv lock_of L m0 v" and sim: "tiny_sim L m0 s v" and pc: "ts_pcs s t = SpinTok k"
  shows "tiny_simulated L m0 v (ts_failed s) (tiny_run E t s)"
proof -
  note S = sim_at [OF sim pc]
  have P: "vph v t = cont_phase k 0" "ts_active (ts_txs s t)" "cont_sim L m0 v t (ts_txs s t) (ts_marks s t) k" using S(2) by (simp_all add: pcsim_def)
  obtain b tk where tk: "tm_token_try_acquire (uint (ts_id (ts_txs s t))) (ts_token s) = (b, tk)" by fastforce
  let ?s = "s\<lparr>ts_token := tk\<rparr>"
  have r: "rest_sim L m0 ?s v t" using S(1) by (simp add: rest_token)
  then have "tiny_simulated L m0 v (ts_failed ?s) (spin_to t k ?s)"
    using S(2) sim_stay [OF r] by (cases k) (simp_all add: pcsim_def)
  then show ?thesis using sim_cont_abort [OF lay inv S(1) P(2,1,3)] pc tk by (simp add: tiny_run_def)
qed

section \<open>Commit\<close>

subsection \<open>The start and the locks\<close>

lemma sim_commit_done:
  assumes lay: "layout_ok L" and inv: "vinv lock_of L m0 v" and rest: "rest_sim L m0 s v t" and own: "own_locks v t = {}"
    and ph: "vph v t = PBody \<or> vph v t = PRel"
  shows "tiny_simulated L m0 v (ts_failed s) (commit_done t cv s)"
proof -
  note R = restD [OF rest]
  let ?v = "v\<lparr>vph := (vph v)(t := PBody), vreads := (vreads v)(t := [])\<rparr>"
  have st: "vstep lock_of L v ?v"
  proof (cases "vph v t = PBody")
    case True
    then have "vstep lock_of L v (v\<lparr>vreads := (vreads v)(t := [])\<rparr>)" by (rule v_reset)
    then show ?thesis using vph_triv [OF True] by simp
  next
    case False
    then show ?thesis using ph own by (intro v_undone) auto
  qed
  define s1 where "s1 = ts_set_marks t [] (ts_set_ops t []
      (ts_set_tx t (ts_reset ((ts_txs s t)\<lparr>ts_commit := cv\<rparr>)) (s\<lparr>ts_token := tm_token_release (ts_token s)\<rparr>)))"
  have "rest_sim L m0 s1 ?v t"
  proof (rule restI [OF rest grows_step [OF lay inv st]])
    show "shared_sim s1 ?v" by (rule shared_frame [OF R(1)]) (simp_all add: s1_def ts_upd ts_reset_def ts_clear_def)
    show "tx_ok L ?v t (ts_txs s1 t) (ts_marks s1 t) (ts_ops s1 t)"
      using explains_none ts_ok_empty by (simp add: tx_ok_def s1_def ts_upd ts_reset_def ts_clear_def ts_empty_def)
  qed (auto simp: s1_def ts_upd same_thread_def)
  then have "tiny_sim L m0 (ts_set_pc t TsIdle s1) ?v"
    by (rule sim_set_pc) (use own in \<open>simp add: pcsim_def body_locks_def s1_def ts_upd ts_reset_def ts_clear_def\<close>)
  moreover have "commit_done t cv s = ts_set_pc t TsIdle s1" by (simp add: commit_done_def s1_def)
  ultimately show ?thesis using tiny_simulated_step [OF st tiny_simulated_same] by (simp add: s1_def ts_upd)
qed

lemma sim_cm_clock:
  assumes lay: "layout_ok L" "word_cells L = L" and inv: "vinv lock_of L m0 v" and sim: "tiny_sim L m0 s v" and pc: "ts_pcs s t = CmClock"
  shows "tiny_simulated L m0 v (ts_failed s) (tiny_run E t s)"
proof (cases "ts_clock s \<ge> VERSION_BITS_MASK")
  case True
  then show ?thesis using tiny_simulated_same [OF sim] pc by (simp add: tiny_run_def Let_def)
next
  case False
  note S = sim_at [OF sim pc] and R = restD [OF sim_at(1) [OF sim pc]]
  let ?tx = "ts_txs s t" and ?ms = "ts_marks s t"
  have P: "vph v t = PBody" "body_locks v t ?tx" "at_end L m0 v ?tx ?ms" "ts_active ?tx" using S(2) by (simp_all add: pcsim_def)
  let ?ws = "ts_write_set (ts_writes ?tx)"
  show ?thesis
  proof (cases "ts_read_only ?tx")
    case True
    let ?s = "s\<lparr>ts_ro := ts_ro s @ [(unat (ts_end ?tx), marked_reads (ts_reads ?tx) ?ms, ts_ops s t)]\<rparr>"
    have "ts_effect (ts_writes ?tx) = (\<lambda>m. m)" using R(3) True by (auto simp: tx_ok_def ts_effect_def)
    then have "explains (read_cells (marked_reads (ts_reads ?tx) ?ms)) (\<lambda>m. m) (ts_ops s t)" "unat (ts_end ?tx) \<le> vclock v"
      using R(3) by (simp_all add: tx_ok_def)
    then have "ro_sim L m0 ?s v" using R(2) P(3) by (auto simp: ro_sim_def at_end_def)
    moreover have "shared_sim ?s v" by (rule shared_frame [OF R(1)]) simp_all
    ultimately have "rest_sim L m0 ?s v t" using S(1) by (simp add: rest_sim_def)
    then have "tiny_simulated L m0 v (ts_failed ?s) (commit_done t (ts_clock s) ?s)"
      by (rule sim_commit_done [OF lay(1) inv]) (use P in \<open>simp_all add: body_locks_def\<close>)
    then show ?thesis using pc False True by (simp add: tiny_run_def Let_def)
  next
    case w: False
    let ?v = "v\<lparr>vph := (vph v)(t := PLock), vcells := (vcells v)(t := map ts_cell ?ws)\<rparr>"
    have "cells_ok L (map ts_cell ?ws)" using R(3) lay(2) by (simp add: tx_ok_def ts_ok_def)
    then have st: "vstep lock_of L v ?v" by (rule v_start [OF P(1)])
    note g = grows_step [OF lay(1) inv st]
    have "rest_sim L m0 s ?v t"
    proof (rule restI [OF S(1) g])
      show "shared_sim s ?v" by (rule shared_frame [OF R(1)]) simp_all
    qed (use R(3) in \<open>simp_all add: tx_ok_def same_thread_def\<close>)
    then have "tiny_sim L m0 (ts_set_pc t (CmLock (sort (map fst ?ws))) s) ?v"
      by (rule sim_set_pc)
        (use P w at_end_grows [OF g P(3)] in \<open>simp add: pcsim_def lock_sim_def commit_locks_def body_locks_def\<close>)
    moreover have "tiny_run E t s = ts_set_pc t (CmLock (sort (map fst ?ws))) s" using pc False w by (simp add: tiny_run_def Let_def)
    ultimately show ?thesis using tiny_simulated_step [OF st tiny_simulated_same] by simp
  qed
qed

lemma ws_addr_high:
  assumes "layout_ok L" "word_cells L = L" "ts_ok (word_cells L) w" "a \<in> fst ` set (ts_write_set w)"
  shows "\<not> a < 0x100000"
proof -
  obtain e where "(a, e) \<in> set (ts_write_set w)" using assms(4) by auto
  then have "L a (wl_type e)" using assms(2,3) by (fastforce simp: ts_ok_def cells_ok_def ts_cell_def)
  then have "0x100000 \<le> a" by (rule layout_okD(1) [OF assms(1)])
  then show ?thesis by simp
qed

lemma lock_sim_head:
  assumes "lock_sim v t tx (a # as)"
  shows "a \<in> fst ` set (ts_write_set (ts_writes tx))" "commit_locks v t tx"
    "vowner v (lock_of a) = Some t \<Longrightarrow> lock_sim v t tx as"
proof -
  obtain ds where "sort (map fst (ts_write_set (ts_writes tx))) = ds @ a # as" using assms by (auto simp: lock_sim_def suffix_of_def)
  then have "a \<in> set (sort (map fst (ts_write_set (ts_writes tx))))" by simp
  then show "a \<in> fst ` set (ts_write_set (ts_writes tx))" by simp
  show "commit_locks v t tx" using assms by (simp add: lock_sim_def)
  show "vowner v (lock_of a) = Some t \<Longrightarrow> lock_sim v t tx as" using assms suffix_of_Cons by (fastforce simp: lock_sim_def)
qed

lemma sim_cm_lock:
  assumes lay: "layout_ok L" "word_cells L = L" and sim: "tiny_sim L m0 s v" and pc: "ts_pcs s t = CmLock (a # as)"
  shows "tiny_simulated L m0 v (ts_failed s) (tiny_run E t s)"
proof -
  note S = sim_at [OF sim pc] and R = restD [OF sim_at(1) [OF sim pc]]
  let ?tx = "ts_txs s t" and ?l = "ts_table s (lock_of a)"
  have P: "lock_sim v t ?tx (a # as)" "ts_active ?tx" using S(2) by (simp_all add: pcsim_def)
  have "ts_ok (word_cells L) (ts_writes ?tx)" and id: "ts_id ?tx \<noteq> 0" using R(3) P(2) by (simp_all add: tx_ok_def)
  then have hi: "\<not> a < 0x100000" using ws_addr_high [OF lay] lock_sim_head(1) [OF P(1)] by blast
  show ?thesis
  proof (cases "vowner v (lock_of a) = Some t")
    case True
    then have "get_owner ?l = ts_id ?tx" "is_locked ?l" using word_owner [OF R(1) id] word_locked [OF R(1)] by auto
    then have "tiny_run E t s = ts_set_pc t (CmLock as) s" using pc hi by (simp add: tiny_run_def Let_def)
    then show ?thesis using sim_stay [OF S(1), of "CmLock as"] S(2) lock_sim_head(3) [OF P(1) True] by (simp add: pcsim_def)
  next
    case False
    then have "get_owner ?l \<noteq> ts_id ?tx" using word_owner [OF R(1) id] by blast
    then have "tiny_run E t s = ts_set_pc t (CmTry a as 0) s" using pc hi by (simp add: tiny_run_def Let_def)
    then show ?thesis using sim_stay [OF S(1), of "CmTry a as 0"] S(2) by (simp add: pcsim_def)
  qed
qed

lemma unlocked_and: "\<not> is_locked l \<Longrightarrow> l AND NOT OWNED_MASK = l"
  by (auto simp: masks(1) bit_mask_iff bit_is_locked bit_and_iff bit_not_iff less_2_cases_iff dest: u64_bit_less intro!: u64_eqI gr0I)

lemma sim_cm_try:
  assumes sim: "tiny_sim L m0 s v" and pc: "ts_pcs s t = CmTry a as n" and b: "unat (ts_thr_counter s) \<le> 8192"
  shows "tiny_simulated L m0 v (ts_failed s) (tiny_run E t s)"
proof -
  note S = sim_at [OF sim pc] and R = restD [OF sim_at(1) [OF sim pc]]
  let ?tx = "ts_txs s t" and ?l = "ts_table s (lock_of a)"
  show ?thesis
  proof (cases "is_locked ?l")
    case True
    then have "tiny_run E t s = ts_set_pc t (ExtClock (XLock a as n)) s" using pc by (simp add: tiny_run_def Let_def try_lock_load_def owned_and)
    then show ?thesis using sim_stay [OF S(1), of "ExtClock (XLock a as n)"] S(2) by (simp add: pcsim_def)
  next
    case False
    have "unat (ts_id ?tx) < unat (ts_thr_counter s)" using R(1) by (simp add: shared_sim_def ids_ok_def)
    then have "get_owner (lock_word (ts_id ?tx) ?l) = ts_id ?tx" using b by simp
    moreover have "get_owner ?l = 0" using shared_word [OF R(1), of "lock_of a"] False by (auto simp: word_sim_def split: option.splits)
    ultimately have "try_lock_load (ts_id ?tx) ?l = Inr (Some (lock_word (ts_id ?tx) ?l))"
      using False by (simp add: try_lock_load_def owned_and unlocked_and)
    then have "tiny_run E t s = ts_set_pc t (CmCas ?l (lock_word (ts_id ?tx) ?l) a as n) s"
      using pc False by (simp add: tiny_run_def Let_def unlocked_and)
    then show ?thesis using sim_stay [OF S(1), of "CmCas ?l (lock_word (ts_id ?tx) ?l) a as n"] S(2) False by (simp add: pcsim_def)
  qed
qed

lemma sim_cm_cas:
  assumes lay: "layout_ok L" and inv: "vinv lock_of L m0 v" and sim: "tiny_sim L m0 s v" and pc: "ts_pcs s t = CmCas ex d a as n"
    and b: "unat (ts_thr_counter s) \<le> 8192"
  shows "tiny_simulated L m0 v (ts_failed s) (tiny_run E t s)"
proof -
  note S = sim_at [OF sim pc] and R = restD [OF sim_at(1) [OF sim pc]]
  let ?tx = "ts_txs s t" and ?g = "lock_of a"
  have P: "vph v t = PLock" "lock_sim v t ?tx (a # as)" "at_end L m0 v ?tx (ts_marks s t)" "\<not> ts_read_only ?tx" "\<not> is_locked ex"
    "d = lock_word (ts_id ?tx) ex" "ts_active ?tx" using S(2) by (simp_all add: pcsim_def)
  show ?thesis
  proof (cases "ts_table s ?g = ex")
    case False
    then have "tiny_run E t s = ts_set_pc t (ExtClock (XLock a as n)) s" using pc by (simp add: tiny_run_def Let_def)
    then show ?thesis using sim_stay [OF S(1), of "ExtClock (XLock a as n)"] S(2) by (simp add: pcsim_def)
  next
    case True
    let ?v = "v\<lparr>vowner := (vowner v)(?g := Some t)\<rparr>" and ?tx' = "?tx\<lparr>ts_locks := ts_locks ?tx @ [?g]\<rparr>"
    let ?s = "ts_set_tx t ?tx' (ts_set_lock ?g d s)"
    have id: "ts_id ?tx \<noteq> 0" using R(3) P(7) by (simp add: tx_ok_def)
    have "unat (ts_id ?tx) < unat (ts_thr_counter s)" using R(1) by (simp add: shared_sim_def ids_ok_def)
    then have d: "is_locked d" "get_owner d = ts_id ?tx" using b P(6) by simp_all
    have free: "vowner v ?g = None" using word_locked [OF R(1), of ?g] True P(5) by simp
    have st: "vstep lock_of L v ?v" by (rule v_lock [OF P(1) free])
    note g = grows_step [OF lay inv st]
    have "shared_sim (ts_set_lock ?g d s) ?v"
      using shared_word [OF R(1), of ?g] True P(6) d id by (intro table_set [OF R(1)]) (simp_all add: word_sim_def)
    then have "shared_sim ?s ?v" by (rule shared_frame) (simp_all add: ts_upd)
    then have rest: "rest_sim L m0 ?s ?v t"
      by (rule restI [OF S(1) g]) (use R(3) free in \<open>auto simp: ts_upd tx_ok_def same_thread_def\<close>)
    have cl: "commit_locks v t ?tx" and aw: "a \<in> fst ` set (ts_write_set (ts_writes ?tx))" using lock_sim_head [OF P(2)] by blast+
    have own: "own_locks ?v t = insert ?g (own_locks v t)" by auto
    have "?g \<notin> set (ts_locks ?tx)" using cl free by (force simp: commit_locks_def)
    then have "commit_locks ?v t ?tx'" using cl aw unfolding commit_locks_def own by auto
    moreover have "suffix_of as (sort (map fst (ts_write_set (ts_writes ?tx)))) {b. vowner ?v (lock_of b) = Some t}"
    proof (rule suffix_of_Cons [OF suffix_of_mono])
      show "suffix_of (a # as) (sort (map fst (ts_write_set (ts_writes ?tx)))) {b. vowner v (lock_of b) = Some t}" using P(2) by (simp add: lock_sim_def)
    qed auto
    ultimately have "lock_sim ?v t ?tx' as" by (simp add: lock_sim_def)
    moreover have "at_end L m0 ?v ?tx' (ts_marks s t)" using at_end_grows [OF g P(3)] by (simp add: at_end_def)
    ultimately have "tiny_sim L m0 (ts_set_pc t (CmLock as) ?s) ?v"
      by (intro sim_set_pc [OF rest]) (use P in \<open>simp add: pcsim_def ts_upd\<close>)
    moreover have "tiny_run E t s = ts_set_pc t (CmLock as) ?s" using pc True d by (simp add: tiny_run_def Let_def)
    ultimately show ?thesis using tiny_simulated_step [OF st tiny_simulated_same] by simp
  qed
qed

subsection \<open>The commit version\<close>

lemma version_mask: "VERSION_BITS_MASK = 0x3FFFFFFFFFFF"
  by (simp add: masks mask_eq_exp_minus_1)

lemma commit_version_cases:
  assumes "P (ts_abort t s)" "P (ts_set_pc t (ExtClock (XGap cv)) s)" "P (ts_set_pc t (ValLoop (XCommit cv) None (ts_reads (ts_txs s t))) s)"
  shows "P (commit_version_known t cv s)"
  using assms by (auto simp: commit_version_known_def Let_def)

lemma sim_cm_inc:
  assumes lay: "layout_ok L" and inv: "vinv lock_of L m0 v" and sim: "tiny_sim L m0 s v" and pc: "ts_pcs s t = CmLock []"
    and b: "unat (ts_clock s) < 2 ^ 45"
  shows "tiny_simulated L m0 v (ts_failed s) (tiny_run E t s)"
proof -
  note S = sim_at [OF sim pc] and R = restD [OF sim_at(1) [OF sim pc]]
  let ?tx = "ts_txs s t" and ?ms = "ts_marks s t"
  let ?cv = "ts_clock s + 1"
  let ?s = "s\<lparr>ts_clock := ?cv\<rparr>" and ?v = "v\<lparr>vclock := Suc (vclock v), vcv := (vcv v)(t := Suc (vclock v)), vph := (vph v)(t := PVal 0)\<rparr>"
  have P: "vph v t = PLock" "lock_sim v t ?tx []" "ts_active ?tx" using S(2) by (simp_all add: pcsim_def)
  have u: "unat ?cv = Suc (unat (ts_clock s))" using b by (simp add: unat_word_ariths)
  have c: "vclock v = unat (ts_clock s)" using R(1) by (simp add: shared_sim_def)
  have lk: "vowner v (lock_of a) = Some t" if "a \<in> fst ` set (ts_write_set (ts_writes ?tx))" for a
    using P(2) that by (auto simp: lock_sim_def)
  have cl: "commit_locks v t ?tx" using P(2) by (simp add: lock_sim_def)
  then have "\<forall>c \<in> set (vcells v t). vowner v (lock_of (fst c)) = Some t" using lk by (auto simp: commit_locks_def ts_cell_def)
  then have st: "vstep lock_of L v ?v" by (rule v_inc [OF P(1)])
  note g = grows_step [OF lay inv st] and inv' = vinv_step [OF lay st inv]
  have al: "all_locked ?v t ?tx ?cv" using cl lk u c b by (simp add: all_locked_def commit_locks_def)
  have rest: "rest_sim L m0 ?s ?v t"
  proof (rule restI [OF S(1) g])
    have "word_sim (ts_txs s) (ts_table s h) (vver v h) (vowner v h)" for h by (rule shared_word [OF R(1)])
    then show "shared_sim ?s ?v" using R(1) u c by (simp add: shared_sim_def ids_ok_def)
  qed (use R(3) in \<open>auto simp: tx_ok_def same_thread_def\<close>)
  have ext: "tiny_simulated L m0 ?v (ts_failed ?s) (ts_set_pc t (ExtClock (XGap ?cv)) ?s)"
    by (rule sim_stay [OF rest]) (use P al in \<open>simp add: pcsim_def\<close>)
  have val: "tiny_simulated L m0 ?v (ts_failed ?s) (ts_set_pc t (ValLoop (XCommit ?cv) None (ts_reads (ts_txs ?s t))) ?s)"
    by (rule sim_stay [OF rest]) (use P al in \<open>simp add: pcsim_def ext_sim_def\<close>)
  have ab: "tiny_simulated L m0 ?v (ts_failed ?s) (ts_abort t ?s)"
    by (rule sim_ts_abort [OF lay inv' rest]) (use P al in \<open>simp_all add: all_locked_def commit_locks_def\<close>)
  have "\<not> ?cv \<ge> VERSION_BITS_MASK" using u b by (simp add: version_mask word_le_nat_alt)
  then have "tiny_run E t s = commit_version_known t ?cv ?s" using pc by (simp add: tiny_run_def Let_def)
  moreover have "tiny_simulated L m0 ?v (ts_failed ?s) (commit_version_known t ?cv ?s)"
    by (rule commit_version_cases [where P = "tiny_simulated L m0 ?v (ts_failed ?s)", OF ab ext val])
  ultimately show ?thesis using tiny_simulated_step [OF st] by simp
qed

subsection \<open>The commit point\<close>

lemma wb_bytes_cells:
  assumes "\<forall>(a, e) \<in> set ws. \<not> wb_skip E t a"
  shows "wb_bytes E t ws = cell_bytes (map ts_cell ws)"
  using assms by (induction ws) (auto simp: wb_bytes_def cell_bytes_def ts_cell_def)

lemma sim_commit_point:
  assumes lay: "layout_ok L" "word_cells L = L" "\<forall>a sz. L a sz \<longrightarrow> \<not> wb_skip E t a"
    and inv: "vinv lock_of L m0 v" and sim: "tiny_sim L m0 s v" and pc: "ts_pcs s t = ValLoop (XCommit cv) lv []"
  shows "tiny_simulated L m0 v (ts_failed s) (tiny_run E t s)"
proof -
  note S = sim_at [OF sim pc] and R = restD [OF sim_at(1) [OF sim pc]]
  let ?tx = "ts_txs s t" and ?ms = "ts_marks s t"
  let ?ws = "ts_write_set (ts_writes ?tx)"
  let ?d = "\<lparr>ve_ver = unat cv, ve_reads = read_cells (marked_reads (ts_reads ?tx) ?ms), ve_cells = map ts_cell ?ws, ve_info = ts_ops s t\<rparr>"
  let ?s = "s\<lparr>ts_log := ts_log s @ [?d]\<rparr>" and ?v = "v\<lparr>vph := (vph v)(t := PWB (cell_bytes (map ts_cell ?ws))), vlog := log_insert ?d (vlog v)\<rparr>"
  have P: "vph v t = PVal (length (marked_reads (ts_reads ?tx) ?ms))" "all_locked v t ?tx cv" "ts_active ?tx" "lv = None"
    using S(2) by (auto simp: pcsim_def ext_sim_def split: option.splits)
  have T: "vreads v t = marked_reads (ts_reads ?tx) ?ms" "ts_ok L (ts_writes ?tx)"
    "explains (read_cells (marked_reads (ts_reads ?tx) ?ms)) (ts_effect (ts_writes ?tx)) (ts_ops s t)"
    using R(3) lay(2) by (simp_all add: tx_ok_def)
  have A: "vcv v t = unat cv" "vcells v t = map ts_cell ?ws" using P(2) by (simp_all add: all_locked_def commit_locks_def)
  have st: "vstep lock_of L v ?v" using v_commit [of v t _ lock_of L "ts_ops s t", OF P(1)] T(1) A by simp
  have "vlog v = sort_key ve_ver (ts_log s)" using R(1) by (simp add: shared_sim_def)
  moreover have "isval (vph v t)" using P(1) by simp
  then have "\<forall>d \<in> set (ts_log s). ve_ver d \<noteq> unat cv"
    using vinvD(3) [OF inv] A(1) calculation unfolding inv_unique_def by (metis set_sort)
  ultimately have srt: "sort_key ve_ver (ts_log s @ [?d]) = log_insert ?d (vlog v)" using sort_log_insert [of "ts_log s" ?d] by simp
  have "explains (ve_reads ?d) (apply_cells (ve_cells ?d)) (ve_info ?d)" using T(3) by (simp add: ts_effect_def [abs_def])
  then have "shared_sim ?s ?v" using R(1) srt by (simp add: shared_sim_def ids_ok_def)
  then have "rest_sim L m0 ?s ?v t"
    by (rule restI [OF S(1) grows_step [OF lay(1) inv st]]) (use R(3) in \<open>auto simp: tx_ok_def same_thread_def\<close>)
  moreover have "wb_bytes E t ?ws = cell_bytes (map ts_cell ?ws)"
    using T(2) lay(3) by (intro wb_bytes_cells) (force simp: ts_ok_def cells_ok_def ts_cell_def)
  ultimately have "tiny_sim L m0 (ts_set_pc t (CmWB cv (wb_bytes E t ?ws)) ?s) ?v"
    by (intro sim_set_pc) (use P in \<open>simp_all add: pcsim_def all_locked_def commit_locks_def\<close>)
  moreover have "(\<lambda>(a, e). (a, wl_type e, wl_new_val e)) = ts_cell" by (auto simp: ts_cell_def fun_eq_iff)
  then have "tiny_run E t s = ts_set_pc t (CmWB cv (wb_bytes E t ?ws)) ?s" using pc P(4) by (simp add: tiny_run_def Let_def)
  ultimately show ?thesis using tiny_simulated_step [OF st tiny_simulated_same] by simp
qed

subsection \<open>Write-back and release\<close>

lemma sim_cm_wb:
  assumes lay: "layout_ok L" and inv: "vinv lock_of L m0 v" and sim: "tiny_sim L m0 s v" and pc: "ts_pcs s t = CmWB cv bs"
  shows "tiny_simulated L m0 v (ts_failed s) (tiny_run E t s)"
proof (cases bs)
  note S = sim_at [OF sim pc] and R = restD [OF sim_at(1) [OF sim pc]]
  have P: "vph v t = PWB bs" "all_locked v t (ts_txs s t) cv" "ts_active (ts_txs s t)" using S(2) by (simp_all add: pcsim_def)
  {
    case Nil
    have st: "vstep lock_of L v (v\<lparr>vph := (vph v)(t := PRel)\<rparr>)" by (rule v_written) (use P(1) Nil in simp)
    have "own_locks v t \<subseteq> lock_of ` fst ` set (ts_write_set (ts_writes (ts_txs s t)))" using P(2) by (auto simp: all_locked_def commit_locks_def)
    then have "tiny_simulated L m0 v (ts_failed s) (ts_set_pc t (CmRel cv (ts_write_set (ts_writes (ts_txs s t)))) s)"
      using P by (intro sim_phase [OF lay inv S(1) st]) (simp add: pcsim_def all_locked_def)
    then show ?thesis using pc Nil by (simp add: tiny_run_def)
  next
    case (Cons ab bs')
    obtain a b where ab: "ab = (a, b)" by (cases ab)
    let ?v = "v\<lparr>vmem := (vmem v)(a := b), vph := (vph v)(t := PWB bs')\<rparr>" and ?s = "s\<lparr>ts_mem := (ts_mem s)(a := b)\<rparr>"
    have st: "vstep lock_of L v ?v" using P(1) Cons ab by (intro v_write) simp
    have "shared_sim ?s ?v" using R(1) by (simp add: shared_sim_def ids_ok_def)
    then have "rest_sim L m0 ?s ?v t"
      by (rule restI [OF S(1) grows_step [OF lay inv st]]) (use R(3) in \<open>auto simp: tx_ok_def same_thread_def\<close>)
    then have "tiny_sim L m0 (ts_set_pc t (CmWB cv bs') ?s) ?v"
      by (rule sim_set_pc) (use P in \<open>simp add: pcsim_def all_locked_def commit_locks_def\<close>)
    moreover have "tiny_run E t s = ts_set_pc t (CmWB cv bs') ?s" using pc Cons ab by (simp add: tiny_run_def)
    ultimately show ?thesis using tiny_simulated_step [OF st tiny_simulated_same] by simp
  }
qed

lemma sim_cm_rel:
  assumes lay: "layout_ok L" "word_cells L = L" and inv: "vinv lock_of L m0 v" and sim: "tiny_sim L m0 s v" and pc: "ts_pcs s t = CmRel cv es"
  shows "tiny_simulated L m0 v (ts_failed s) (tiny_run E t s)"
proof (cases es)
  note S = sim_at [OF sim pc] and R = restD [OF sim_at(1) [OF sim pc]]
  let ?tx = "ts_txs s t"
  have P: "vph v t = PRel" "suffix_of es (ts_write_set (ts_writes ?tx)) UNIV" "own_locks v t \<subseteq> lock_of ` fst ` set es" "vcv v t = unat cv"
    "unat cv < 2 ^ 46" "ts_active ?tx" using S(2) by (simp_all add: pcsim_def)
  {
    case Nil
    then show ?thesis using sim_commit_done [OF lay(1) inv S(1)] P pc by (simp add: tiny_run_def)
  next
    case (Cons ae es')
    obtain a e where ae: "ae = (a, e)" by (cases ae)
    let ?g = "lock_of a" and ?l = "ts_table s (lock_of a)"
    have "(a, e) \<in> set (ts_write_set (ts_writes ?tx))" using P(2) Cons ae by (auto simp: suffix_of_def)
    then have "a \<in> fst ` set (ts_write_set (ts_writes ?tx))" by (rule image_eqI [rotated]) simp
    moreover have "ts_ok (word_cells L) (ts_writes ?tx)" and id: "ts_id ?tx \<noteq> 0" using R(3) P(6) by (simp_all add: tx_ok_def)
    ultimately have hi: "\<not> a < 0x100000" using ws_addr_high [OF lay] by blast
    have suf: "suffix_of es' (ts_write_set (ts_writes ?tx)) UNIV" using suffix_of_Cons [OF P(2) [unfolded Cons]] by simp
    show ?thesis
    proof (cases "vowner v ?g = Some t")
      case False
      then have "own_locks v t \<subseteq> lock_of ` fst ` set es'" using P(3) Cons ae by auto
      moreover have "tiny_run E t s = ts_set_pc t (CmRel cv es') s"
        using pc Cons ae word_mine [OF R(1) id, of ?g] False by (simp add: tiny_run_def Let_def)
      ultimately show ?thesis using sim_stay [OF S(1), of "CmRel cv es'"] P suf by (simp add: pcsim_def)
    next
      case True
      let ?v = "v\<lparr>vowner := (vowner v)(?g := None), vver := (vver v)(?g := vcv v t)\<rparr>" and ?s = "ts_set_lock ?g (version_word cv) s"
      have st: "vstep lock_of L v ?v" by (rule v_release [OF P(1) True])
      have mine: "is_locked_by ?l (ts_id ?tx)" using word_mine [OF R(1) id] True by blast
      have "iswb (vph v t)" using P(1) by simp
      then have "vver v ?g < vcv v t" using vinvD(2) [OF inv] True unfolding inv_owner_def by blast
      then have "\<not> get_version ?l > cv" using word_version [OF R(1), of ?g] P(4) by (simp add: word_less_nat_alt)
      moreover have "unlock_with_version (ts_id ?tx) cv ?l = Inr (version_word cv)"
        using mine by (simp add: unlock_with_version_def is_locked_by_alt)
      moreover have "get_version (version_word cv) = cv" using P(5) by simp
      ultimately have run: "tiny_run E t s = ts_set_pc t (CmRel cv es') ?s"
        using pc Cons ae hi mine by (simp add: tiny_run_def Let_def)
      have "shared_sim ?s ?v" using P(4,5) by (intro table_set [OF R(1)]) (simp_all add: word_sim_def)
      then have "rest_sim L m0 ?s ?v t"
        by (rule restI [OF S(1) grows_step [OF lay(1) inv st]]) (use R(3) True in \<open>auto simp: ts_upd tx_ok_def same_thread_def\<close>)
      moreover have "own_locks ?v t \<subseteq> lock_of ` fst ` set es'" using P(3) Cons ae by auto
      ultimately have "tiny_sim L m0 (ts_set_pc t (CmRel cv es') ?s) ?v"
        by (intro sim_set_pc) (use P suf in \<open>simp_all add: pcsim_def ts_upd\<close>)
      then show ?thesis using tiny_simulated_step [OF st tiny_simulated_same] run by simp
    qed
  }
qed

end
