(* ===== verification/TM_TinySTM_Safety.thy ===== *)
theory TM_TinySTM_Safety
  imports TM_TinySTM_Commit
begin

text \<open>
  The theorems on TinySTM with commit-time locking: every execution is matched by the versioned-lock protocol, its
  commits are serializable, running and read-only transactions see the snapshot of their \<open>end_version\<close>, and the
  assertions inside the operations hold.
\<close>

section \<open>Every execution is simulated\<close>

lemma sim_ts_commit_call:
  assumes sim: "tiny_sim L m0 s v" and pc: "ts_pcs s t = TsIdle"
  shows "\<exists>f. tiny_simulated L m0 v f (ts_commit_call t s)"
proof (cases "ts_id (ts_txs s t) = 0 \<or> \<not> ts_active (ts_txs s t)")
  case True
  then have "ts_commit_call t s = ts_fail s" by (auto simp: ts_commit_call_def)
  then show ?thesis using call_failed [OF sim] by simp
next
  case False
  note S = sim_at [OF sim pc]
  have "tiny_simulated L m0 v (ts_failed s) (ts_set_pc t CmClock s)" by (rule sim_stay [OF S(1)]) (use S(2) False in \<open>simp add: pcsim_def\<close>)
  then show ?thesis using False by (auto simp: ts_commit_call_def)
qed

lemma sim_ts_abort_call:
  assumes lay: "layout_ok L" and inv: "vinv lock_of L m0 v" and sim: "tiny_sim L m0 s v" and pc: "ts_pcs s t = TsIdle"
  shows "\<exists>f. tiny_simulated L m0 v f (ts_abort t s)"
proof (cases "ts_active (ts_txs s t)")
  case False
  then have "ts_abort t s = ts_fail s" by (simp add: ts_abort_def)
  then show ?thesis using call_failed [OF sim] by simp
next
  case True
  note S = sim_at [OF sim pc]
  have "tiny_simulated L m0 v (ts_failed s) (ts_abort t s)"
    by (rule sim_ts_abort [OF lay inv S(1) True]) (use S(2) in \<open>simp_all add: pcsim_def body_locks_def\<close>)
  then show ?thesis by blast
qed

lemma sim_serialize: "tiny_sim L m0 s v \<Longrightarrow> \<exists>f. tiny_simulated L m0 v f (s\<lparr>ts_serialize := q\<rparr>)"
proof -
  assume s: "tiny_sim L m0 s v"
  then have "shared_sim s v" by (simp add: tiny_sim_def)
  then have "shared_sim (s\<lparr>ts_serialize := q\<rparr>) v" by (rule shared_frame) simp_all
  then have "tiny_sim L m0 (s\<lparr>ts_serialize := q\<rparr>) v" using s by (simp add: tiny_sim_def ro_sim_def)
  then show ?thesis using tiny_simulated_same by blast
qed

text \<open>What the theorems assume of the cells of the program and of the process.\<close>

definition tiny_layout :: "ts_env \<Rightarrow> (addr \<Rightarrow> ValueType \<Rightarrow> bool) \<Rightarrow> bool" where
  "tiny_layout E L \<longleftrightarrow> layout_ok L \<and> word_cells L = L \<and> (\<forall>t a sz. L a sz \<longrightarrow> \<not> wb_skip E t a)"

lemma sim_call:
  assumes lay: "tiny_layout E L" and inv: "vinv lock_of L m0 v" and sim: "tiny_sim L m0 s v" and pc: "ts_pcs s t = TsIdle"
    and c: "ts_call_ok L c" "tiny_call t c s = Some s'" and b: "unat (ts_thr_counter s) \<le> 8192"
  shows "\<exists>f. tiny_simulated L m0 v f s'"
proof -
  have l: "layout_ok L" "word_cells L = L" using lay by (simp_all add: tiny_layout_def)
  have b': "unat (ts_thr_counter s) < 2 ^ 63" using b by simp
  show ?thesis
    using c sim_init_thread [OF l(1) inv sim pc b'] sim_exit_thread [OF l(1) inv sim pc] sim_begin_call [OF sim pc]
      sim_ts_read [OF l sim pc] sim_ts_write [OF l sim pc] sim_ts_commit_call [OF sim pc] sim_ts_abort_call [OF l(1) inv sim pc] sim_serialize [OF sim]
    by (cases c) auto
qed

lemma sim_run:
  assumes lay: "tiny_layout E L" and inv: "vinv lock_of L m0 v" and sim: "tiny_sim L m0 s v" and pc: "ts_pcs s t \<noteq> TsIdle"
    and b: "unat (ts_clock s) < 2 ^ 45" "unat (ts_thr_counter s) \<le> 8192"
  shows "tiny_simulated L m0 v (ts_failed s) (tiny_run E t s)"
proof -
  have l: "layout_ok L" "word_cells L = L" "\<forall>a sz. L a sz \<longrightarrow> \<not> wb_skip E t a" using lay by (simp_all add: tiny_layout_def)
  have ok: "pc_ok L m0 v t (ts_txs s t) (ts_marks s t) (ts_pcs s t)" using sim_at(2) [OF sim refl, of t] by (simp add: pcsim_def)
  show ?thesis
  proof (cases "ts_pcs s t")
    case (ValLoop k lv rs)
    show ?thesis
    proof (cases rs)
      case Nil
      show ?thesis
      proof (cases lv)
        case None
        show ?thesis
        proof (cases "\<exists>cv. k = XCommit cv")
          case True
          then show ?thesis using sim_commit_point [OF l inv sim] ValLoop Nil by blast
        next
          case False
          note S = sim_at [OF sim, of t]
          have "tiny_simulated L m0 v (ts_failed s) (validated_to E t k s)"
            by (rule sim_validated [OF l(1) inv S(1) [OF refl]]) (use S(2) [OF ValLoop] False in \<open>auto simp: pcsim_def\<close>)
          then show ?thesis using ValLoop Nil None by (simp add: tiny_run_def)
        qed
      qed (use sim_extended [OF l(1) inv sim] ValLoop Nil in simp)
    qed (use sim_val_cons [OF l(1) inv sim] ValLoop in simp)
  next
    case (CmLock as)
    then show ?thesis using sim_cm_lock [OF l(1,2) sim] sim_cm_inc [OF l(1) inv sim _ b(1)] by (cases as) simp_all
  qed (use pc ok sim_begin_run [OF sim] sim_rd_lock [OF l(1) inv sim] sim_rd_loop [OF l(1) inv sim] sim_rd_val [OF l(1,2) inv sim]
      sim_wr_lock [OF sim] sim_wr_check [OF l(1,2) sim] sim_ext_clock [OF sim] sim_spin_check [OF l(1) inv sim] sim_spin_tok [OF l(1) inv sim]
      sim_cm_clock [OF l(1,2) inv sim] sim_cm_try [OF sim _ b(2)] sim_cm_cas [OF l(1) inv sim _ b(2)] sim_cm_wb [OF l(1) inv sim]
      sim_cm_rel [OF l(1,2) inv sim] sim_unlock [OF l(1) inv sim] in simp_all)
qed

subsection \<open>Bounds\<close>

fun is_init :: "ts_event \<Rightarrow> bool" where
  "is_init (TsCall t TInit) \<longleftrightarrow> True"
| "is_init _ \<longleftrightarrow> False"

lemma ts_set_simps [simp]:
  "ts_clock (ts_set_pc t pc s) = ts_clock s" "ts_clock (ts_set_tx t tx s) = ts_clock s" "ts_clock (ts_set_ops t ps s) = ts_clock s"
  "ts_clock (ts_set_marks t ms s) = ts_clock s" "ts_clock (ts_set_lock g l s) = ts_clock s" "ts_clock (ts_fail s) = ts_clock s"
  "ts_thr_counter (ts_set_pc t pc s) = ts_thr_counter s" "ts_thr_counter (ts_set_tx t tx s) = ts_thr_counter s"
  "ts_thr_counter (ts_set_ops t ps s) = ts_thr_counter s" "ts_thr_counter (ts_set_marks t ms s) = ts_thr_counter s"
  "ts_thr_counter (ts_set_lock g l s) = ts_thr_counter s" "ts_thr_counter (ts_fail s) = ts_thr_counter s"
  "ts_clock (ts_abort t s) = ts_clock s" "ts_thr_counter (ts_abort t s) = ts_thr_counter s"
  "ts_clock (commit_done t cv s) = ts_clock s" "ts_thr_counter (commit_done t cv s) = ts_thr_counter s"
  "ts_clock (commit_version_known t cv s) = ts_clock s" "ts_thr_counter (commit_version_known t cv s) = ts_thr_counter s"
  by (simp_all add: ts_upd ts_fail_def ts_abort_def commit_done_def commit_version_known_def Let_def)

lemma cont_simps [simp]:
  "ts_clock (validated_to E t k s) = ts_clock s" "ts_thr_counter (validated_to E t k s) = ts_thr_counter s"
  "ts_clock (invalid_to t k s) = ts_clock s" "ts_thr_counter (invalid_to t k s) = ts_thr_counter s"
  "ts_clock (spin_to t k s) = ts_clock s" "ts_thr_counter (spin_to t k s) = ts_thr_counter s"
  by (cases k; simp add: Let_def)+

lemma run_clock: "ts_clock (tiny_run E t s) \<in> {ts_clock s, ts_clock s + 1, 1} \<and> ts_thr_counter (tiny_run E t s) = ts_thr_counter s"
proof (cases "ts_pcs s t")
  case (ValLoop k lv rs)
  then show ?thesis by (cases rs; cases lv) (simp_all add: tiny_run_def)
next
  case (CmLock as)
  then show ?thesis by (cases as) (simp_all add: tiny_run_def Let_def)
next
  case (CmWB cv bs)
  then show ?thesis by (cases bs; cases "hd bs") (simp_all add: tiny_run_def)
next
  case (CmRel cv es)
  then show ?thesis by (cases es; cases "hd es") (simp_all add: tiny_run_def Let_def split: sum.splits)
next
  case (AbUnlock gs)
  then show ?thesis by (cases gs) (simp_all add: tiny_run_def Let_def split: sum.splits)
qed (simp_all add: tiny_run_def Let_def split: sum.splits option.splits prod.splits)

lemma call_clock:
  "tiny_call t c s = Some s' \<Longrightarrow> ts_clock s' = ts_clock s \<and> ts_thr_counter s' = (if c = TInit \<and> ts_id (ts_txs s t) = 0 then ts_thr_counter s + 1 else ts_thr_counter s)"
  by (cases c) (auto simp: ts_init_thread_def ts_exit_thread_def ts_begin_def ts_read_def ts_write_def ts_commit_call_def Let_def
      split: ws_result.splits ws_write_result.splits)

lemma step_bounds:
  assumes "tiny_step E L s ev = Some s'" "unat (ts_clock s) < 2 ^ 45" "unat (ts_thr_counter s) \<le> 8192"
  shows "unat (ts_clock s') \<le> Suc (unat (ts_clock s))" "unat (ts_thr_counter s') \<le> unat (ts_thr_counter s) + (if is_init ev then 1 else 0)"
proof -
  have c: "unat (ts_clock s + 1) = Suc (unat (ts_clock s))" "unat (ts_thr_counter s + 1) = Suc (unat (ts_thr_counter s))"
    using assms(2,3) by (simp_all add: unat_word_ariths)
  have "unat (ts_clock s') \<le> Suc (unat (ts_clock s)) \<and> unat (ts_thr_counter s') \<le> unat (ts_thr_counter s) + (if is_init ev then 1 else 0)"
  proof (cases ev)
    case (TsCall t k)
    then have "tiny_call t k s = Some s'" using assms(1) by (simp split: if_splits)
    then show ?thesis using call_clock [of t k s s'] c TsCall by auto
  next
    case (TsRun t)
    then have "s' = tiny_run E t s" using assms(1) by (simp split: if_splits)
    then show ?thesis using run_clock [of E t s] c TsRun by auto
  qed
  then show "unat (ts_clock s') \<le> Suc (unat (ts_clock s))" "unat (ts_thr_counter s') \<le> unat (ts_thr_counter s) + (if is_init ev then 1 else 0)" by blast+
qed

subsection \<open>Executions\<close>

lemma sim_tiny_step:
  assumes "tiny_layout E L" "vinv lock_of L m0 v" "tiny_sim L m0 s v" "tiny_step E L s ev = Some s'"
    and "unat (ts_clock s) < 2 ^ 45" "unat (ts_thr_counter s) \<le> 8192"
  shows "\<exists>v'. (vstep lock_of L)\<^sup>*\<^sup>* v v' \<and> tiny_sim L m0 s' v'"
  using sim_call [OF assms(1-3)] sim_run [OF assms(1-3)] assms(4-)
  by (cases ev) (fastforce simp: tiny_simulated_def split: if_splits)+

lemma tiny_init_sim: "tiny_sim L m (tiny_init m) (vinit m 1)"
proof -
  have "get_version 0 = 0" "get_incarnation 0 = 0" "\<not> is_locked 0" "get_owner 0 = 0"
    by (simp_all add: get_version_def get_incarnation_def is_locked_def get_owner_def)
  then show ?thesis
    using explains_none [of "[]"] ts_ok_empty [of "word_cells L"]
    by (simp add: tiny_sim_def shared_sim_def word_sim_def ids_ok_def ro_sim_def tx_ok_def pcsim_def body_locks_def
        tiny_init_def vinit_def ts_null_def ts_empty_def)
qed

lemma exec_tiny_sim:
  assumes lay: "tiny_layout E L"
  shows "tiny_exec E L evs s = Some s' \<Longrightarrow> tiny_sim L m0 s v \<Longrightarrow> vinv lock_of L m0 v \<Longrightarrow>
    unat (ts_clock s) + length evs < 2 ^ 45 \<Longrightarrow> unat (ts_thr_counter s) + length (filter is_init evs) \<le> 8192 \<Longrightarrow>
    (\<exists>v'. (vstep lock_of L)\<^sup>*\<^sup>* v v' \<and> tiny_sim L m0 s' v' \<and> vinv lock_of L m0 v') \<and> unat (ts_clock s') \<le> unat (ts_clock s) + length evs \<and> unat (ts_thr_counter s') \<le> 8192"
proof (induction evs arbitrary: s v)
  case (Cons ev evs)
  have l: "layout_ok L" using lay by (simp add: tiny_layout_def)
  obtain s1 where s1: "tiny_step E L s ev = Some s1" "tiny_exec E L evs s1 = Some s'"
    using Cons.prems(1) by (auto split: option.splits)
  have b: "unat (ts_clock s) < 2 ^ 45" "unat (ts_thr_counter s) \<le> 8192" using Cons.prems(4,5) by simp_all
  obtain v1 where v1: "(vstep lock_of L)\<^sup>*\<^sup>* v v1" "tiny_sim L m0 s1 v1" using sim_tiny_step [OF lay Cons.prems(3,2) s1(1) b] by blast
  have "vinv lock_of L m0 v1" by (rule vinv_steps [OF l v1(1) Cons.prems(3)])
  moreover have "unat (ts_clock s1) + length evs < 2 ^ 45" using step_bounds(1) [OF s1(1) b] Cons.prems(4) by simp
  moreover have "unat (ts_thr_counter s1) + length (filter is_init evs) \<le> 8192"
    using step_bounds(2) [OF s1(1) b] Cons.prems(5) by (simp split: if_splits)
  ultimately have "(\<exists>v'. (vstep lock_of L)\<^sup>*\<^sup>* v1 v' \<and> tiny_sim L m0 s' v' \<and> vinv lock_of L m0 v') \<and> unat (ts_clock s') \<le> unat (ts_clock s1) + length evs \<and> unat (ts_thr_counter s') \<le> 8192"
    by (rule Cons.IH [OF s1(2) v1(2)])
  then show ?case using step_bounds(1) [OF s1(1) b] v1(1) by (auto intro: rtranclp_trans)
qed auto

text \<open>The executions of the theorems: fewer than \<open>2^44\<close> steps, so that the clock stays below its overflow, and at most 8191 threads, the number of owners a lock word can name.\<close>

definition tiny_reaches :: "ts_env \<Rightarrow> (addr \<Rightarrow> ValueType \<Rightarrow> bool) \<Rightarrow> mem \<Rightarrow> ts_event list \<Rightarrow> ts_state \<Rightarrow> bool" where
  "tiny_reaches E L m evs s \<longleftrightarrow> tiny_exec E L evs (tiny_init m) = Some s \<and> length evs < 2 ^ 44 \<and> length (filter is_init evs) < 8192"

lemma tiny_reached:
  assumes "tiny_layout E L" "tiny_reaches E L m evs s"
  obtains v where "(vstep lock_of L)\<^sup>*\<^sup>* (vinit m 1) v" "tiny_sim L m s v" "vinv lock_of L m v"
    "unat (ts_clock s) \<le> 2 ^ 44" "unat (ts_thr_counter s) \<le> 8192"
  using exec_tiny_sim [OF assms(1) _ tiny_init_sim vinv_init, of evs m s] assms(2) by (auto simp: tiny_reaches_def tiny_init_def)

section \<open>A concrete run\<close>

definition tiny_cells :: "addr \<Rightarrow> ValueType \<Rightarrow> bool" where
  "tiny_cells a t \<longleftrightarrow> (a = 0x200000 \<or> a = 0x200008) \<and> t = UINT8"

definition tiny_env :: ts_env where
  "tiny_env = \<lparr>env_tm = (\<lambda>_. True), env_expli = (\<lambda>_. False), env_marker = (\<lambda>_. 0)\<rparr>"

lemma tiny_cells_layout: "tiny_layout tiny_env tiny_cells"
proof -
  have "layout_ok tiny_cells" by (simp add: layout_ok_def tiny_cells_def disjoint_range_def)
  moreover have "word_cells tiny_cells = tiny_cells" by (auto simp: word_cells_def tiny_cells_def fun_eq_iff)
  ultimately show ?thesis by (auto simp: tiny_layout_def tiny_cells_def wb_skip_def tiny_env_def Let_def)
qed

text \<open>
  Thread 1 reads; thread 0 commits writes to both cells; the next read of thread 1 cannot extend its snapshot and aborts it;
  thread 0 commits a read-only transaction and is in the middle of another one at the end.
\<close>

definition tiny_trace :: "ts_event list" where
  "tiny_trace =
    [TsCall 0 TInit, TsCall 1 TInit, TsCall 1 TBegin, TsRun 1, TsCall 1 (TRead 0x200000 UINT8)] @ replicate 4 (TsRun 1) @
    [TsCall 0 TBegin, TsRun 0, TsCall 0 (TWrite 0x200000 1 UINT8), TsRun 0, TsRun 0, TsCall 0 (TWrite 0x200008 1 UINT8), TsRun 0, TsRun 0,
     TsCall 0 TCommit] @ replicate 17 (TsRun 0) @
    [TsCall 1 (TRead 0x200008 UINT8)] @ replicate 8 (TsRun 1) @
    [TsCall 0 TBegin, TsRun 0, TsCall 0 (TRead 0x200000 UINT8)] @ replicate 4 (TsRun 0) @ [TsCall 0 TCommit, TsRun 0] @
    [TsCall 0 TBegin, TsRun 0, TsCall 0 (TRead 0x200000 UINT8)] @ replicate 4 (TsRun 0)"

definition tiny_demo :: ts_state where
  "tiny_demo = the (tiny_exec tiny_env tiny_cells tiny_trace (tiny_init (\<lambda>_. 0)))"

lemma tiny_demo_runs:
  "case tiny_exec tiny_env tiny_cells tiny_trace (tiny_init (\<lambda>_. 0)) of None \<Rightarrow> False
   | Some s \<Rightarrow> map ve_ver (ts_log s) = [2] \<and> \<not> is_locked (ts_table s (lock_of 0x200000)) \<and>
       map (\<lambda>(e, rs, ps). (e, ps)) (ts_ro s) = [(2, [Rd 0x200000 UINT8 1])] \<and> ts_pcs s 0 = TsIdle \<and>
       ts_ops s 0 = [Rd 0x200000 UINT8 1] \<and> ts_end (ts_txs s 0) = 2 \<and> ts_abort_count s = 1"
  by code_simp

lemma tiny_trace_bounds: "length tiny_trace < 2 ^ 44" "length (filter is_init tiny_trace) < 8192"
  by (simp_all add: tiny_trace_def)

lemma tiny_demo_props:
  "tiny_reaches tiny_env tiny_cells (\<lambda>_. 0) tiny_trace tiny_demo" "map ve_ver (ts_log tiny_demo) = [2]"
  "\<not> is_locked (ts_table tiny_demo (lock_of 0x200000))" "map (\<lambda>(e, rs, ps). (e, ps)) (ts_ro tiny_demo) = [(2, [Rd 0x200000 UINT8 1])]"
  "ts_pcs tiny_demo 0 = TsIdle" "ts_ops tiny_demo 0 = [Rd 0x200000 UINT8 1]" "ts_end (ts_txs tiny_demo 0) = 2"
  using tiny_demo_runs tiny_trace_bounds by (auto simp: tiny_demo_def tiny_reaches_def split: option.splits)

text \<open>A thread in the middle of its commit, holding the lock of its only write.\<close>

definition tiny_commit_trace :: "ts_event list" where
  "tiny_commit_trace = [TsCall 0 TInit, TsCall 0 TBegin, TsRun 0, TsCall 0 (TWrite 0x200000 1 UINT8), TsRun 0, TsRun 0, TsCall 0 TCommit] @ replicate 4 (TsRun 0)"

definition tiny_mid :: ts_state where
  "tiny_mid = the (tiny_exec tiny_env tiny_cells tiny_commit_trace (tiny_init (\<lambda>_. 0)))"

lemma tiny_mid_runs:
  "case tiny_exec tiny_env tiny_cells tiny_commit_trace (tiny_init (\<lambda>_. 0)) of None \<Rightarrow> False
   | Some s \<Rightarrow> ts_pcs s 0 = CmLock [] \<and> is_locked (ts_table s (lock_of 0x200000)) \<and> \<not> ts_failed s"
  by code_simp

lemma tiny_mid_props:
  "tiny_reaches tiny_env tiny_cells (\<lambda>_. 0) tiny_commit_trace tiny_mid" "ts_pcs tiny_mid 0 = CmLock []"
  "is_locked (ts_table tiny_mid (lock_of 0x200000))" "\<not> ts_failed tiny_mid"
proof -
  have "length tiny_commit_trace < 2 ^ 44" "length (filter is_init tiny_commit_trace) < 8192" by (simp_all add: tiny_commit_trace_def)
  then show "tiny_reaches tiny_env tiny_cells (\<lambda>_. 0) tiny_commit_trace tiny_mid" "ts_pcs tiny_mid 0 = CmLock []"
    "is_locked (ts_table tiny_mid (lock_of 0x200000))" "\<not> ts_failed tiny_mid"
    using tiny_mid_runs by (auto simp: tiny_mid_def tiny_reaches_def split: option.splits)
qed

section \<open>Theorems\<close>

text \<open>
  C9. TinySTM with commit-time locking is serializable for update transactions. Take any interleaving of at most 8191 threads at the
  granularity of single accesses to the clock, the lock words, the spin token and the data bytes. The committed update
  transactions, run one after the other in the order of their commit versions on the initial memory, return to the program exactly
  the values it read, and they leave in every cell whose lock is free the value that shared memory holds.
\<close>

theorem tiny_serializable:
  assumes "tiny_layout E L" and "tiny_reaches E L m evs s"
  shows "\<exists>m'. seq_run (concat (map ve_info (sort_key ve_ver (ts_log s)))) m = Some m' \<and>
    (\<forall>a sz. L a sz \<and> \<not> is_locked (ts_table s (lock_of a)) \<longrightarrow> read_value_from_addr (ts_mem s) a sz = read_value_from_addr m' a sz)"
proof -
  obtain v where v: "tiny_sim L m s v" "vinv lock_of L m v" using tiny_reached [OF assms] by blast
  have S: "shared_sim s v" using v(1) by (simp add: tiny_sim_def)
  note D = vinvD [OF v(2)]
  let ?l = "sort_key ve_ver (ts_log s)"
  have l: "vlog v = ?l" using S by (simp add: shared_sim_def)
  have "seq_run (concat (map ve_info ?l)) m = Some (final_mem m ?l)"
    using serial_run [of m ?l "\<lambda>ps. ps"] D(11) S l by (simp add: shared_sim_def)
  moreover have "read_value_from_addr (ts_mem s) a sz = read_value_from_addr (final_mem m ?l) a sz"
    if "L a sz" "\<not> is_locked (ts_table s (lock_of a))" for a sz
  proof -
    have "vowner v (lock_of a) = None" using word_locked [OF S] that(2) by blast
    then have "quiet v (lock_of a)" by (simp add: quiet_def)
    then show ?thesis using D(9) that(1) S l by (simp add: inv_mem_def shared_sim_def)
  qed
  ultimately show ?thesis by blast
qed

theorem tiny_serializable_witness:
  "\<exists>m'. seq_run (concat (map ve_info (sort_key ve_ver (ts_log tiny_demo)))) (\<lambda>_. 0) = Some m' \<and>
     read_value_from_addr (ts_mem tiny_demo) 0x200000 UINT8 = read_value_from_addr m' 0x200000 UINT8 \<and> length (ts_log tiny_demo) = 1"
proof -
  have "length (ts_log tiny_demo) = 1" using arg_cong [OF tiny_demo_props(2), of length] by simp
  then show ?thesis using tiny_serializable [OF tiny_cells_layout tiny_demo_props(1)] tiny_demo_props(3) by (auto simp: tiny_cells_def)
qed

lemma serial_before:
  assumes "serial m l" "\<forall>d \<in> set l. explains (ve_reads d) (apply_cells (ve_cells d)) (ve_info d)" "sorted (map ve_ver l)"
  shows "seq_run (concat (map ve_info (filter (\<lambda>d. ve_ver d \<le> e) l))) m = Some (final_mem m (before (Suc e) l))"
proof -
  have "filter (\<lambda>d. ve_ver d \<le> e) l = takeWhile (\<lambda>d. ve_ver d \<le> e) l"
    using assms(3)
  proof (induction l)
    case (Cons a l)
    have "filter (\<lambda>d. ve_ver d \<le> e) l = []" if "\<not> ve_ver a \<le> e" using that Cons.prems by (fastforce simp: filter_empty_conv)
    then show ?case using Cons by simp
  qed simp
  moreover have "serial m (takeWhile (\<lambda>d. ve_ver d \<le> e) l)"
    using assms(1) serial_append [of m "takeWhile (\<lambda>d. ve_ver d \<le> e) l" "dropWhile (\<lambda>d. ve_ver d \<le> e) l"] by simp
  moreover have "before (Suc e) l = filter (\<lambda>d. ve_ver d \<le> e) l" by (simp add: before_def less_Suc_eq_le)
  ultimately show ?thesis
    using serial_run [of m "takeWhile (\<lambda>d. ve_ver d \<le> e) l" "\<lambda>ps. ps"] assms(2) by (auto dest: set_takeWhileD)
qed

text \<open>
  C10. TinySTM with commit-time locking is opaque. Whenever a thread is between two operations of a running transaction, and
  for every committed read-only transaction, the values read so far are those of a serial execution: run the update transactions
  committed with versions up to the transaction's \<open>end_version\<close>, then the operations of the transaction itself.
\<close>

theorem tiny_opaque:
  assumes "tiny_layout E L" and "tiny_reaches E L m evs s"
    and "(ts_pcs s t = TsIdle \<and> e = unat (ts_end (ts_txs s t)) \<and> ps = ts_ops s t) \<or> (\<exists>rs. (e, rs, ps) \<in> set (ts_ro s))"
  shows "\<exists>m1 m2. seq_run (concat (map ve_info (filter (\<lambda>d. ve_ver d \<le> e) (sort_key ve_ver (ts_log s))))) m = Some m1 \<and> seq_run ps m1 = Some m2"
proof -
  obtain v where v: "tiny_sim L m s v" "vinv lock_of L m v" using tiny_reached [OF assms(1,2)] by blast
  let ?l = "sort_key ve_ver (ts_log s)"
  have l: "vlog v = ?l" and ex: "\<forall>d \<in> set ?l. explains (ve_reads d) (apply_cells (ve_cells d)) (ve_info d)"
    using v(1) by (simp_all add: tiny_sim_def shared_sim_def)
  have "seq_run (concat (map ve_info (filter (\<lambda>d. ve_ver d \<le> e) ?l))) m = Some (final_mem m (before (Suc e) ?l))"
    using serial_before [OF _ ex] vinvD(11) [OF v(2)] l by simp
  moreover have "\<exists>rs f. snaps L m v (Suc e) rs \<and> explains (read_cells rs) f ps"
    using assms(3)
  proof (elim disjE exE conjE)
    assume "ts_pcs s t = TsIdle" "e = unat (ts_end (ts_txs s t))" "ps = ts_ops s t"
    then show ?thesis using restD(3) [OF sim_at(1) [OF v(1)]] sim_at(2) [OF v(1)] by (fastforce simp: pcsim_def at_end_def tx_ok_def)
  next
    fix rs assume "(e, rs, ps) \<in> set (ts_ro s)"
    then show ?thesis using v(1) by (fastforce simp: tiny_sim_def ro_sim_def)
  qed
  then obtain rs f where r: "snaps L m v (Suc e) rs" "explains (read_cells rs) f ps" by blast
  have "agrees (read_cells rs) (final_mem m (before (Suc e) ?l))" using snap_agrees [of rs lock_of L m v "Suc e"] r(1) l by (simp add: snaps_def)
  ultimately show ?thesis using r(2) by (auto simp: explains_def)
qed

theorem tiny_opaque_witness:
  "\<exists>m1 m2. seq_run (concat (map ve_info (filter (\<lambda>d. ve_ver d \<le> 2) (sort_key ve_ver (ts_log tiny_demo))))) (\<lambda>_. 0) = Some m1 \<and>
    seq_run [Rd 0x200000 UINT8 1] m1 = Some m2 \<and> length (ts_log tiny_demo) = 1"
proof -
  have "length (ts_log tiny_demo) = 1" using arg_cong [OF tiny_demo_props(2), of length] by simp
  then show ?thesis
    using tiny_opaque [OF tiny_cells_layout tiny_demo_props(1), of 0 2 "[Rd 0x200000 UINT8 1]"] tiny_demo_props(5-7) by auto
qed



text \<open>
  C13. The lock words of TinySTM are well formed: the version field never exceeds the clock, the incarnation field is not used by this
  design, an unlocked word names no owner, and a locked one names the identifier of exactly one thread, which is inside a transaction.
\<close>

theorem tiny_lock_words:
  assumes "tiny_layout E L" and "tiny_reaches E L m evs s"
  shows "get_version (ts_table s g) \<le> ts_clock s \<and> get_incarnation (ts_table s g) = 0 \<and>
    (if is_locked (ts_table s g)
     then \<exists>t. ts_active (ts_txs s t) \<and> (\<forall>u. get_owner (ts_table s g) = ts_id (ts_txs s u) \<longleftrightarrow> u = t)
     else get_owner (ts_table s g) = 0)"
proof -
  obtain v where v: "tiny_sim L m s v" "vinv lock_of L m v" using tiny_reached [OF assms] by blast
  have S: "shared_sim s v" using v(1) by (simp add: tiny_sim_def)
  note W = shared_word [OF S, of g]
  have "vver v g \<le> vclock v" using vinvD(1) [OF v(2)] by (simp add: inv_clock_def)
  then have "get_version (ts_table s g) \<le> ts_clock s" using word_version [OF S, of g] S by (simp add: word_le_nat_alt shared_sim_def)
  moreover have "\<exists>t. ts_active (ts_txs s t) \<and> (\<forall>u. get_owner (ts_table s g) = ts_id (ts_txs s u) \<longleftrightarrow> u = t)" if lk: "is_locked (ts_table s g)"
  proof -
    obtain t where t: "vowner v g = Some t" using word_locked [OF S, of g] lk by blast
    then have o: "get_owner (ts_table s g) = ts_id (ts_txs s t)" "ts_id (ts_txs s t) \<noteq> 0" using W by (simp_all add: word_sim_def)
    have "get_owner (ts_table s g) = ts_id (ts_txs s u) \<longleftrightarrow> u = t" for u
      using word_owner [OF S, of u g] o t by (cases "ts_id (ts_txs s u) = 0") auto
    moreover have "vph v t \<in> {PLock, PUndo} \<or> isval (vph v t) \<or> iswb (vph v t)"
      using vinvD(2) [OF v(2)] t unfolding inv_owner_def by blast
    then have "vph v t \<noteq> PBody" by auto
    then have "ts_active (ts_txs s t)" using sim_at(2) [OF v(1) refl, of t] by (cases "ts_pcs s t") (simp_all add: pcsim_def)
    ultimately show ?thesis by blast
  qed
  moreover have "get_owner (ts_table s g) = 0" if "\<not> is_locked (ts_table s g)"
    using W that by (auto simp: word_sim_def split: option.splits)
  moreover have "get_incarnation (ts_table s g) = 0" using W by (simp add: word_sim_def)
  ultimately show ?thesis by presburger
qed

theorem tiny_lock_words_witness:
  "\<exists>t. ts_active (ts_txs tiny_mid t) \<and> get_owner (ts_table tiny_mid (lock_of 0x200000)) = ts_id (ts_txs tiny_mid t)"
  using tiny_lock_words [OF tiny_cells_layout tiny_mid_props(1), of "lock_of 0x200000"] tiny_mid_props(3) by auto

end
