(* ===== verification/TM_TinySTM_Progress.thy ===== *)
theory TM_TinySTM_Progress
  imports TM_TinySTM_Safety
begin

text \<open>
  Progress of TinySTM: a commit that runs without interference ends, and it ends in success when the locks of its
  writes are free and its reads are still valid.
\<close>

section \<open>Running alone\<close>

definition on_track :: "(addr \<Rightarrow> ValueType \<Rightarrow> bool) \<Rightarrow> mem \<Rightarrow> ts_state \<Rightarrow> bool" where
  "on_track L m s \<longleftrightarrow> (\<exists>v. tiny_sim L m s v \<and> vinv lock_of L m v) \<and> \<not> ts_failed s \<and> unat (ts_thr_counter s) \<le> 8192 \<and> unat (ts_clock s) < 2 ^ 45"

lemma on_track_run:
  assumes lay: "tiny_layout E L" and on: "on_track L m s" and pc: "ts_pcs s t \<noteq> TsIdle" and c: "unat (ts_clock (tiny_run E t s)) < 2 ^ 45"
  shows "on_track L m (tiny_run E t s)"
proof -
  obtain v where v: "tiny_sim L m s v" "vinv lock_of L m v" using on by (auto simp: on_track_def)
  have b: "unat (ts_clock s) < 2 ^ 45" "unat (ts_thr_counter s) \<le> 8192" "\<not> ts_failed s" using on by (simp_all add: on_track_def)
  obtain v' where "ts_failed (tiny_run E t s) = ts_failed s" "(vstep lock_of L)\<^sup>*\<^sup>* v v'" "tiny_sim L m (tiny_run E t s) v'"
    using sim_run [OF lay v(2,1) pc b(1,2)] by (auto simp: tiny_simulated_def)
  moreover have "vinv lock_of L m v'" by (rule vinv_steps [OF _ calculation(2) v(2)]) (use lay in \<open>simp add: tiny_layout_def\<close>)
  ultimately show ?thesis using b c run_clock [of E t s] by (auto simp: on_track_def)
qed

text \<open>Running alone, the thread ends its commit, with \<open>k\<close> transactions committed in all.\<close>

definition commits :: "ts_env \<Rightarrow> (addr \<Rightarrow> ValueType \<Rightarrow> bool) \<Rightarrow> nat \<Rightarrow> nat \<Rightarrow> ts_state \<Rightarrow> bool" where
  "commits E L t k s \<longleftrightarrow> (\<exists>n s'. tiny_exec E L (replicate n (TsRun t)) s = Some s' \<and> ts_pcs s' t = TsIdle \<and> \<not> ts_failed s' \<and>
    \<not> ts_active (ts_txs s' t) \<and> length (ts_log s') + length (ts_ro s') = k)"

lemma commits_step: "\<not> ts_failed s \<Longrightarrow> ts_pcs s t \<noteq> TsIdle \<Longrightarrow> commits E L t k (tiny_run E t s) \<Longrightarrow> commits E L t k s"
  unfolding commits_def by (metis replicate_Suc tiny_exec.simps(2) tiny_step.simps(2) option.simps(5))

lemma commits_done: "ts_pcs s t = TsIdle \<Longrightarrow> \<not> ts_failed s \<Longrightarrow> \<not> ts_active (ts_txs s t) \<Longrightarrow> commits E L t (length (ts_log s) + length (ts_ro s)) s"
  unfolding commits_def by (rule exI [of _ 0]) simp

abbreviation (input) ended :: "ts_state \<Rightarrow> nat" where
  "ended s \<equiv> length (ts_log s) + length (ts_ro s)"

text \<open>One step of a commit that stays on its way.\<close>

lemma commits_next:
  assumes "tiny_layout E L" "on_track L m s" "ts_pcs s t \<noteq> TsIdle" "ts_clock (tiny_run E t s) = ts_clock s"
    and "on_track L m (tiny_run E t s) \<Longrightarrow> commits E L t k (tiny_run E t s)"
  shows "commits E L t k s"
  using commits_step [OF _ assms(3)] on_track_run [OF assms(1-3)] assms(2,4,5) by (simp add: on_track_def)

section \<open>The phases of a commit, from the end\<close>

lemma commits_rel:
  assumes lay: "tiny_layout E L"
  shows "on_track L m s \<Longrightarrow> ts_pcs s t = CmRel cv es \<Longrightarrow> commits E L t (ended s) s"
proof (induction es arbitrary: s)
  case Nil
  let ?s = "tiny_run E t s"
  have r: "?s = commit_done t cv s" using Nil by (simp add: tiny_run_def)
  then have e: "ended ?s = ended s" "ts_pcs ?s t = TsIdle" "\<not> ts_active (ts_txs ?s t)" "ts_clock ?s = ts_clock s"
    by (simp_all add: commit_done_def ts_upd ts_reset_def ts_clear_def)
  show ?case
    by (rule commits_next [OF lay Nil(1)]) (use Nil e commits_done [OF e(2) _ e(3), of E L] in \<open>simp_all add: on_track_def\<close>)
next
  case (Cons ae es)
  obtain a e where ae: "ae = (a, e)" by (cases ae)
  let ?s = "tiny_run E t s"
  have pc: "ts_pcs ?s t = CmRel cv es" "ended ?s = ended s" "ts_clock ?s = ts_clock s" if "\<not> ts_failed ?s"
    using that Cons.prems ae by (auto simp: tiny_run_def Let_def ts_upd ts_fail_def split: sum.splits if_splits)
  have "on_track L m ?s" by (rule on_track_run [OF lay Cons.prems(1)]) (use Cons.prems ae in \<open>auto simp: tiny_run_def Let_def on_track_def split: sum.splits\<close>)
  moreover from this have nf: "\<not> ts_failed ?s" by (simp add: on_track_def)
  ultimately have "commits E L t (ended s) ?s" using Cons.IH [of ?s] pc [OF nf] by simp
  then show ?case using commits_step Cons.prems by (simp add: on_track_def)
qed

lemma commits_wb:
  assumes lay: "tiny_layout E L"
  shows "on_track L m s \<Longrightarrow> ts_pcs s t = CmWB cv bs \<Longrightarrow> commits E L t (ended s) s"
proof (induction bs arbitrary: s)
  case Nil
  let ?s = "tiny_run E t s"
  have r: "?s = ts_set_pc t (CmRel cv (ts_write_set (ts_writes (ts_txs s t)))) s" using Nil by (simp add: tiny_run_def)
  show ?case by (rule commits_next [OF lay Nil(1)]) (use commits_rel [OF lay, of m ?s t] Nil r in \<open>simp_all add: ts_upd\<close>)
next
  case (Cons ab bs)
  obtain a b where ab: "ab = (a, b)" by (cases ab)
  let ?s = "tiny_run E t s"
  have r: "?s = ts_set_pc t (CmWB cv bs) (s\<lparr>ts_mem := (ts_mem s)(a := b)\<rparr>)" using Cons.prems ab by (simp add: tiny_run_def)
  show ?case by (rule commits_next [OF lay Cons.prems(1)]) (use Cons.IH [of ?s] Cons.prems r in \<open>simp_all add: ts_upd\<close>)
qed

text \<open>The reads of the thread pass validation.\<close>

definition reads_valid :: "nat \<Rightarrow> ts_state \<Rightarrow> bool" where
  "reads_valid t s \<longleftrightarrow> (\<forall>r \<in> set (ts_reads (ts_txs s t)). entry_valid (ts_id (ts_txs s t)) r (ts_table s (lock_of (rl_addr r))))"

lemma commits_validate:
  assumes lay: "tiny_layout E L"
  shows "on_track L m s \<Longrightarrow> ts_pcs s t = ValLoop (XCommit cv) None rs \<Longrightarrow> reads_valid t s \<Longrightarrow> set rs \<subseteq> set (ts_reads (ts_txs s t)) \<Longrightarrow>
    commits E L t (Suc (ended s)) s"
proof (induction rs arbitrary: s)
  case Nil
  let ?s = "tiny_run E t s"
  have r: "ts_pcs ?s t = CmWB cv (wb_bytes E t (ts_write_set (ts_writes (ts_txs s t))))" "ended ?s = Suc (ended s)" "ts_clock ?s = ts_clock s"
    using Nil by (simp_all add: tiny_run_def Let_def ts_upd)
  show ?case by (rule commits_next [OF lay Nil(1)]) (use commits_wb [OF lay, of m ?s t] Nil r in simp_all)
next
  case (Cons x rs)
  let ?s = "tiny_run E t s"
  have r: "?s = ts_set_pc t (ValLoop (XCommit cv) None rs) s" using Cons.prems by (simp add: tiny_run_def reads_valid_def)
  show ?case by (rule commits_next [OF lay Cons.prems(1)]) (use Cons.IH [of ?s] Cons.prems r in \<open>simp_all add: ts_upd reads_valid_def\<close>)
qed

lemma commits_gap:
  assumes lay: "tiny_layout E L"
  shows "on_track L m s \<Longrightarrow> ts_pcs s t = ValLoop (XGap cv) (Some c) rs \<Longrightarrow> reads_valid t s \<Longrightarrow> set rs \<subseteq> set (ts_reads (ts_txs s t)) \<Longrightarrow>
    commits E L t (Suc (ended s)) s"
proof (induction rs arbitrary: s)
  case Nil
  let ?s = "tiny_run E t s"
  have r: "?s = ts_set_pc t (ValLoop (XCommit cv) None (ts_reads (ts_txs s t))) (ts_set_tx t ((ts_txs s t)\<lparr>ts_end := c\<rparr>) s)"
    using Nil by (simp add: tiny_run_def ts_upd)
  show ?case by (rule commits_next [OF lay Nil(1)]) (use commits_validate [OF lay, of m ?s t] Nil r in \<open>simp_all add: ts_upd reads_valid_def\<close>)
next
  case (Cons x rs)
  let ?s = "tiny_run E t s"
  have r: "?s = ts_set_pc t (ValLoop (XGap cv) (Some c) rs) s" using Cons.prems by (simp add: tiny_run_def reads_valid_def)
  show ?case by (rule commits_next [OF lay Cons.prems(1)]) (use Cons.IH [of ?s] Cons.prems r in \<open>simp_all add: ts_upd reads_valid_def\<close>)
qed

lemma small_clock: "unat c < 2 ^ 45 \<Longrightarrow> \<not> VERSION_BITS_MASK \<le> c"
  by (simp add: version_mask word_le_nat_alt)

lemma commits_extend:
  assumes lay: "tiny_layout E L" and on: "on_track L m s" and pc: "ts_pcs s t = ExtClock (XGap cv)" and v: "reads_valid t s"
  shows "commits E L t (Suc (ended s)) s"
proof -
  let ?s = "tiny_run E t s"
  have "\<not> VERSION_BITS_MASK \<le> ts_clock s" using on small_clock by (simp add: on_track_def)
  then have r: "?s = ts_set_pc t (ValLoop (XGap cv) (Some (ts_clock s)) (ts_reads (ts_txs s t))) s" using pc by (simp add: tiny_run_def)
  show ?thesis by (rule commits_next [OF lay on]) (use commits_gap [OF lay, of m ?s t] pc v r in \<open>simp_all add: ts_upd reads_valid_def\<close>)
qed

lemma commits_inc:
  assumes lay: "tiny_layout E L" and on: "on_track L m s" and pc: "ts_pcs s t = CmLock []" and v: "reads_valid t s"
    and c: "unat (ts_clock s) + 1 < 2 ^ 45"
  shows "commits E L t (Suc (ended s)) s"
proof -
  let ?s = "tiny_run E t s" and ?cv = "ts_clock s + 1"
  have u: "unat ?cv = Suc (unat (ts_clock s))" using c by (simp add: unat_word_ariths)
  obtain w where w: "tiny_sim L m s w" using on by (auto simp: on_track_def)
  have "unat (ts_end (ts_txs s t)) \<le> unat (ts_clock s)"
    using restD [OF sim_at(1) [OF w pc]] by (simp add: tx_ok_def shared_sim_def)
  then have n: "\<not> ?cv < ts_end (ts_txs s t)" using u by (simp add: word_less_nat_alt)
  have k: "\<not> VERSION_BITS_MASK \<le> ?cv" using u c by (intro small_clock) simp
  then have "ts_clock ?s = ?cv" using pc by (simp add: tiny_run_def Let_def)
  then have on': "on_track L m ?s" using u c by (intro on_track_run [OF lay on]) (simp_all add: pc)
  consider "?s = ts_set_pc t (ExtClock (XGap ?cv)) (s\<lparr>ts_clock := ?cv\<rparr>)"
    | "?s = ts_set_pc t (ValLoop (XCommit ?cv) None (ts_reads (ts_txs s t))) (s\<lparr>ts_clock := ?cv\<rparr>)"
    using pc n k by (cases "ts_clock s = ts_end (ts_txs s t)") (auto simp: tiny_run_def commit_version_known_def Let_def)
  then have "commits E L t (Suc (ended s)) ?s"
  proof cases
    case 1
    then show ?thesis using commits_extend [OF lay on', of t ?cv] v by (simp add: ts_upd reads_valid_def)
  next
    case 2
    then show ?thesis using commits_validate [OF lay on', of t ?cv] v by (simp add: ts_upd reads_valid_def)
  qed
  then show ?thesis using commits_step on pc by (simp add: on_track_def)
qed

text \<open>The locks of the addresses the thread wrote are free, or its own.\<close>

definition writes_free :: "nat \<Rightarrow> ts_state \<Rightarrow> bool" where
  "writes_free t s \<longleftrightarrow> (\<forall>(a, e) \<in> set (ts_write_set (ts_writes (ts_txs s t))).
     is_locked (ts_table s (lock_of a)) \<longrightarrow> get_owner (ts_table s (lock_of a)) = ts_id (ts_txs s t))"

lemma entry_valid_lock:
  assumes "unat i < 2 ^ 13" "entry_valid i r l"
  shows "entry_valid i r (lock_word i l)"
  using assms by (simp add: entry_valid_def owned_and)

lemma commits_lock:
  assumes lay: "tiny_layout E L"
  shows "on_track L m s \<Longrightarrow> ts_pcs s t = CmLock as \<Longrightarrow> reads_valid t s \<Longrightarrow> writes_free t s \<Longrightarrow>
    set as \<subseteq> fst ` set (ts_write_set (ts_writes (ts_txs s t))) \<Longrightarrow> unat (ts_clock s) + 1 < 2 ^ 45 \<Longrightarrow> commits E L t (Suc (ended s)) s"
proof (induction as arbitrary: s)
  case Nil
  then show ?case using commits_inc [OF lay] by simp
next
  case (Cons a as)
  let ?s = "tiny_run E t s" and ?tx = "ts_txs s t" and ?l = "ts_table s (lock_of a)"
  note P = Cons.prems
  have on': "on_track L m (tiny_run E t q)" if "on_track L m q" "ts_pcs q t \<noteq> TsIdle" "ts_clock (tiny_run E t q) = ts_clock q" for q
    using on_track_run [OF lay that(1,2)] that by (simp add: on_track_def)
  have nf: "\<not> ts_failed ?s" using on' [OF P(1)] P(2) by (simp add: on_track_def tiny_run_def Let_def)
  have bad: "\<not> (\<not> a < 0x100000 \<and> get_owner ?l = ts_id ?tx \<and> \<not> is_locked ?l)" 
  proof
    assume "\<not> a < 0x100000 \<and> get_owner ?l = ts_id ?tx \<and> \<not> is_locked ?l"
    then have "?s = ts_fail s" using P(2) by (simp add: tiny_run_def Let_def)
    then show False using nf by (simp add: ts_fail_def)
  qed
  show ?case
  proof (cases "a < 0x100000 \<or> get_owner ?l = ts_id ?tx")
    case True
    then have r: "?s = ts_set_pc t (CmLock as) s" using P(2) bad by (auto simp: tiny_run_def Let_def)
    show ?thesis by (rule commits_next [OF lay P(1)]) (use Cons.IH [of ?s] P r in \<open>simp_all add: ts_upd reads_valid_def writes_free_def\<close>)
  next
    case False
    then have o: "get_owner ?l \<noteq> ts_id ?tx" and r: "?s = ts_set_pc t (CmTry a as 0) s"
      using P(2) by (auto simp: tiny_run_def Let_def)
    obtain e where "(a, e) \<in> set (ts_write_set (ts_writes ?tx))" using P(5) by auto
    then have nl: "\<not> is_locked ?l" using P(4) o by (auto simp: writes_free_def)
    have on1: "on_track L m ?s" using on' [OF P(1)] P(2) r by simp
    define s2 where "s2 = tiny_run E t ?s"
    have "ts_clock s2 = ts_clock ?s" using r by (simp add: s2_def tiny_run_def Let_def ts_upd try_lock_load_def ts_fail_def)
    then have on2: "on_track L m s2" using on' [OF on1] r by (simp add: s2_def ts_upd)
    obtain d where d: "try_lock_load (ts_id ?tx) ?l = Inr (Some d)" "s2 = ts_set_pc t (CmCas (?l AND NOT OWNED_MASK) d a as 0) s"
    proof (cases "try_lock_load (ts_id ?tx) ?l")
      case (Inl err)
      then have "ts_failed s2" using r by (simp add: s2_def tiny_run_def Let_def ts_upd ts_fail_def)
      then show ?thesis using on2 by (simp add: on_track_def)
    next
      case (Inr x)
      then have "x \<noteq> None" using nl by (auto simp: try_lock_load_def owned_and split: if_splits)
      then show ?thesis using that Inr r by (auto simp: s2_def tiny_run_def Let_def ts_upd)
    qed
    have dl: "d = lock_word (ts_id ?tx) ?l" using d(1) nl by (auto simp: try_lock_load_def owned_and split: if_splits)
    obtain w where w: "tiny_sim L m s w" using P(1) by (auto simp: on_track_def)
    have "ids_ok s" using w by (simp add: tiny_sim_def shared_sim_def)
    then have "unat (ts_id ?tx) < unat (ts_thr_counter s)" unfolding ids_ok_def by blast
    then have id: "unat (ts_id ?tx) < 2 ^ 13" using P(1) by (simp add: on_track_def)
    then have own: "get_owner d = ts_id ?tx" "is_locked d" using dl by simp_all
    define s3 where "s3 = tiny_run E t s2"
    have r3: "s3 = ts_set_pc t (CmLock as) (ts_set_tx t (?tx\<lparr>ts_locks := ts_locks ?tx @ [lock_of a]\<rparr>) (ts_set_lock (lock_of a) d s))"
      using d(2) own nl by (simp add: s3_def tiny_run_def Let_def ts_upd unlocked_and)
    have on3: "on_track L m s3" using on' [OF on2] d(2) r3 by (simp add: s3_def ts_upd)
    have "reads_valid t s3" using P(3) entry_valid_lock [OF id] r3 dl by (auto simp: reads_valid_def ts_upd)
    moreover have "writes_free t s3" using P(4) r3 own by (fastforce simp: writes_free_def ts_upd)
    ultimately have "commits E L t (Suc (ended s3)) s3" using Cons.IH [of s3] on3 P(5,6) r3 by (simp add: ts_upd)
    then have "commits E L t (Suc (ended s)) s3" using r3 by (simp add: ts_upd)
    then have "commits E L t (Suc (ended s)) s2" using commits_step on2 d(2) by (simp add: s3_def on_track_def ts_upd)
    then have "commits E L t (Suc (ended s)) ?s" using commits_step [of ?s] on1 r by (simp add: s2_def on_track_def ts_upd)
    then show ?thesis using commits_step P(1,2) by (simp add: on_track_def)
  qed
qed

section \<open>The theorem\<close>

text \<open>A transaction with one write, about to commit.\<close>

definition tiny_write_trace :: "ts_event list" where
  "tiny_write_trace = [TsCall 0 TInit, TsCall 0 TBegin, TsRun 0, TsCall 0 (TWrite 0x200000 1 UINT8), TsRun 0, TsRun 0]"

definition tiny_ready :: ts_state where
  "tiny_ready = the (tiny_exec tiny_env tiny_cells tiny_write_trace (tiny_init (\<lambda>_. 0)))"

lemma tiny_ready_runs:
  "case tiny_exec tiny_env tiny_cells tiny_write_trace (tiny_init (\<lambda>_. 0)) of None \<Rightarrow> False
   | Some s \<Rightarrow> ts_pcs s 0 = TsIdle \<and> ts_active (ts_txs s 0) \<and> \<not> ts_failed s \<and> reads_valid 0 s \<and> writes_free 0 s \<and>
       ts_log s = [] \<and> ts_ro s = []"
  by code_simp

lemma tiny_ready_props:
  "tiny_reaches tiny_env tiny_cells (\<lambda>_. 0) tiny_write_trace tiny_ready" "ts_pcs tiny_ready 0 = TsIdle" "ts_active (ts_txs tiny_ready 0)"
  "\<not> ts_failed tiny_ready" "reads_valid 0 tiny_ready" "writes_free 0 tiny_ready" "ts_log tiny_ready = []" "ts_ro tiny_ready = []"
proof -
  have "length tiny_write_trace < 2 ^ 44" "length (filter is_init tiny_write_trace) < 8192" by (simp_all add: tiny_write_trace_def)
  then show "tiny_reaches tiny_env tiny_cells (\<lambda>_. 0) tiny_write_trace tiny_ready" "ts_pcs tiny_ready 0 = TsIdle" "ts_active (ts_txs tiny_ready 0)"
    "\<not> ts_failed tiny_ready" "reads_valid 0 tiny_ready" "writes_free 0 tiny_ready" "ts_log tiny_ready = []" "ts_ro tiny_ready = []"
    using tiny_ready_runs by (auto simp: tiny_ready_def tiny_reaches_def split: option.splits)
qed

text \<open>
  C11. A commit of TinySTM that runs alone succeeds: from any reachable state in which the thread has a running transaction, the
  locks of the addresses it wrote are free and its read set is valid, the call of \<open>commit\<close> followed by enough steps of the same
  thread ends, with exactly one more committed transaction and no failed assertion.
\<close>

theorem tiny_commits_alone:
  assumes "tiny_layout E L" and "tiny_reaches E L m evs s" and "\<not> ts_failed s" and "ts_pcs s t = TsIdle" and "ts_active (ts_txs s t)"
    and "reads_valid t s" and "writes_free t s"
  shows "\<exists>n s'. tiny_exec E L (TsCall t TCommit # replicate n (TsRun t)) s = Some s' \<and> ts_pcs s' t = TsIdle \<and> \<not> ts_failed s' \<and>
    \<not> ts_active (ts_txs s' t) \<and> length (ts_log s') + length (ts_ro s') = Suc (length (ts_log s) + length (ts_ro s))"
proof -
  obtain v where v: "tiny_sim L m s v" "vinv lock_of L m v" "unat (ts_clock s) \<le> 2 ^ 44" "unat (ts_thr_counter s) \<le> 8192"
    using tiny_reached [OF assms(1,2)] by blast
  let ?s = "ts_set_pc t CmClock s" and ?tx = "ts_txs s t"
  have id: "ts_id ?tx \<noteq> 0" using restD(3) [OF sim_at(1) [OF v(1) assms(4)]] assms(5) by (simp add: tx_ok_def)
  then have call: "tiny_step E L s (TsCall t TCommit) = Some ?s" using assms(3-5) by (simp add: ts_commit_call_def)
  obtain v' where v': "(vstep lock_of L)\<^sup>*\<^sup>* v v'" "tiny_sim L m ?s v'"
    using sim_tiny_step [OF assms(1) v(2,1) call _ v(4)] v(3) by auto
  have "vinv lock_of L m v'" by (rule vinv_steps [OF _ v'(1) v(2)]) (use assms(1) in \<open>simp add: tiny_layout_def\<close>)
  then have on: "on_track L m ?s" using v' v(3,4) assms(3) by (auto simp: on_track_def)
  have k: "\<not> VERSION_BITS_MASK \<le> ts_clock s" using v(3) by (intro small_clock) simp
  let ?r = "tiny_run E t ?s"
  have "commits E L t (Suc (ended s)) ?s"
  proof (cases "ts_read_only ?tx")
    case True
    have r: "ts_pcs ?r t = TsIdle" "\<not> ts_active (ts_txs ?r t)" "ended ?r = Suc (ended s)" "ts_clock ?r = ts_clock s"
      using True k by (simp_all add: tiny_run_def Let_def ts_upd commit_done_def ts_reset_def ts_clear_def)
    show ?thesis
      by (rule commits_next [OF assms(1) on]) (use r commits_done [OF r(1) _ r(2), of E L] in \<open>simp_all add: ts_upd on_track_def\<close>)
  next
    case False
    have r: "?r = ts_set_pc t (CmLock (sort (map fst (ts_write_set (ts_writes ?tx))))) s"
      using False k by (simp add: tiny_run_def Let_def ts_upd)
    show ?thesis
      by (rule commits_next [OF assms(1) on])
        (use r commits_lock [OF assms(1), of m ?r t] assms(6,7) v(3) in \<open>simp_all add: ts_upd reads_valid_def writes_free_def\<close>)
  qed
  then obtain n s' where "tiny_exec E L (replicate n (TsRun t)) ?s = Some s'" "ts_pcs s' t = TsIdle" "\<not> ts_failed s'" "\<not> ts_active (ts_txs s' t)"
    "length (ts_log s') + length (ts_ro s') = Suc (ended s)" by (auto simp: commits_def)
  then show ?thesis using call by (intro exI [of _ n] exI [of _ s']) simp
qed

theorem tiny_commits_alone_witness:
  "\<exists>n s'. tiny_exec tiny_env tiny_cells (TsCall 0 TCommit # replicate n (TsRun 0)) tiny_ready = Some s' \<and> length (ts_log s') + length (ts_ro s') = 1"
proof -
  obtain n s' where e: "tiny_exec tiny_env tiny_cells (TsCall 0 TCommit # replicate n (TsRun 0)) tiny_ready = Some s'"
    "length (ts_log s') + length (ts_ro s') = Suc (length (ts_log tiny_ready) + length (ts_ro tiny_ready))"
    using tiny_commits_alone [OF tiny_cells_layout tiny_ready_props(1,4,2,3,5,6)] by blast
  have "length (ts_log s') + length (ts_ro s') = 1" using e(2) tiny_ready_props(7,8) by simp
  with e(1) show ?thesis by blast
qed

end
