(* ===== verification/TM_Romulus.thy ===== *)
theory TM_Romulus
  imports TM_VersionedLocks "HOL-Library.AList"
begin

text \<open>
  The data of the Romulus backend, \<open>romulus/romulus.hpp\<close>: the version table with a lock bit in every
  entry, the transaction descriptor and its write set. The write set is an \<open>unordered_map\<close> keyed by
  the exact address; it is an association list here, and the code never depends on its iteration
  order, since \<open>commit\<close> sorts the addresses first.
\<close>

section \<open>Version-table entries\<close>

definition VERSION_TABLE_SIZE :: u64 where
  "VERSION_TABLE_SIZE = push_bit 20 1"

definition version_index :: "addr \<Rightarrow> nat" where
  "version_index a = unat (drop_bit 3 a AND (VERSION_TABLE_SIZE - 1))"

definition VERSION_LOCK_BIT :: u64 where
  "VERSION_LOCK_BIT = 1"

definition make_version_entry :: "u64 \<Rightarrow> u64" where
  "make_version_entry ver = push_bit 1 ver"

definition read_version :: "u64 \<Rightarrow> u64" where
  "read_version e = drop_bit 1 e"

definition entry_locked :: "u64 \<Rightarrow> bool" where
  "entry_locked e \<longleftrightarrow> e AND VERSION_LOCK_BIT \<noteq> 0"

section \<open>Transactions\<close>

record Romulus_ReadEntry =
  rr_addr :: addr
  rr_version :: u64

record Romulus_WriteEntry =
  rw_type :: ValueType
  rw_addr :: addr
  rw_new_val :: any_type_t

type_synonym romulus_ws = "(addr \<times> Romulus_WriteEntry) list"

record Romulus_Transaction =
  rm_id :: u64
  rm_timestamp :: u64
  rm_active :: bool
  rm_read_only :: bool
  rm_abort_count :: int
  rm_is_retry :: bool
  rm_write_set :: romulus_ws
  rm_read_set :: "Romulus_ReadEntry list"

definition rm_clear :: "Romulus_Transaction \<Rightarrow> Romulus_Transaction" where
  "rm_clear tx = tx\<lparr>rm_write_set := [], rm_read_set := []\<rparr>"

definition rm_reset :: "Romulus_Transaction \<Rightarrow> Romulus_Transaction" where
  "rm_reset tx = rm_clear (tx\<lparr>rm_timestamp := 0, rm_active := False, rm_read_only := True,
     rm_abort_count := 0, rm_is_retry := False\<rparr>)"

text \<open>\<open>new Transaction()\<close>: the member initialisers.\<close>

definition rm_new :: Romulus_Transaction where
  "rm_new = \<lparr>rm_id = 0, rm_timestamp = 0, rm_active = False, rm_read_only = True, rm_abort_count = 0,
     rm_is_retry = False, rm_write_set = [], rm_read_set = []\<rparr>"

section \<open>The write set\<close>

text \<open>The search of \<open>read_word\<close>, the entry \<open>write_word\<close> stores, and the sorted addresses of \<open>commit\<close>.\<close>

definition rm_lookup :: "romulus_ws \<Rightarrow> addr \<Rightarrow> ValueType \<Rightarrow> ws_result" where
  "rm_lookup ws a sz = (case map_of ws a of Some e \<Rightarrow> Hit (rw_new_val e) | None \<Rightarrow> Miss)"

definition rm_write :: "romulus_ws \<Rightarrow> addr \<Rightarrow> any_type_t \<Rightarrow> ValueType \<Rightarrow> romulus_ws" where
  "rm_write ws a val sz = AList.update a \<lparr>rw_type = sz, rw_addr = a, rw_new_val = val\<rparr> ws"

definition rm_addrs :: "romulus_ws \<Rightarrow> addr list" where
  "rm_addrs ws = sort (map fst ws)"

text \<open>The write-back loop: the entries in the order of their addresses, and the bytes they store.\<close>

definition rm_cells :: "romulus_ws \<Rightarrow> cell list" where
  "rm_cells ws = map (\<lambda>a. let w = the (map_of ws a) in (a, rw_type w, rw_new_val w)) (rm_addrs ws)"

definition rm_bytes :: "romulus_ws \<Rightarrow> (addr \<times> u8) list" where
  "rm_bytes ws = cell_bytes (rm_cells ws)"

section \<open>The write set is a redo log\<close>

definition rm_cell :: "addr \<times> Romulus_WriteEntry \<Rightarrow> cell" where
  "rm_cell = (\<lambda>(a, w). (a, rw_type w, rw_new_val w))"

definition rm_ok :: "(addr \<Rightarrow> ValueType \<Rightarrow> bool) \<Rightarrow> romulus_ws \<Rightarrow> bool" where
  "rm_ok L ws \<longleftrightarrow> cells_ok L (map rm_cell ws)"

lemma rm_cell_keys [simp]: "map fst (map rm_cell ws) = map fst ws" "fst ` set (map rm_cell ws) = fst ` set ws"
  by (induction ws) (auto simp: rm_cell_def)

lemma rm_ok_distinct: "rm_ok L ws \<Longrightarrow> distinct (map fst ws)"
  by (simp only: rm_ok_def cells_ok_def rm_cell_keys)

lemma rm_addrs_set [simp]: "set (rm_addrs ws) = fst ` set ws"
  by (simp add: rm_addrs_def)

lemma rm_cells_fst [simp]: "map fst (rm_cells ws) = rm_addrs ws"
  by (simp add: rm_cells_def comp_def Let_def)

lemma rm_cells_mset:
  assumes "distinct (map fst ws)"
  shows "mset (rm_cells ws) = mset (map rm_cell ws)"
proof -
  let ?f = "\<lambda>a. let w = the (map_of ws a) in (a, rw_type w, rw_new_val w)"
  have "map ?f (map fst ws) = map rm_cell ws"
    using assms by (auto simp: rm_cell_def Let_def split: prod.split)
  moreover have "mset (rm_cells ws) = mset (map ?f (map fst ws))"
    by (simp only: rm_cells_def rm_addrs_def mset_map mset_sort)
  ultimately show ?thesis by (simp only:)
qed

lemma rm_cells_ok: "rm_ok L ws \<Longrightarrow> cells_ok L (rm_cells ws)"
  using cells_ok_mset [OF rm_cells_mset] rm_ok_distinct by (auto simp: rm_ok_def)

lemma rm_effect_cells:
  assumes "layout_ok L" "rm_ok L ws"
  shows "apply_cells (rm_cells ws) m = apply_cells (map rm_cell ws) m"
  by (rule apply_cells_perm [OF assms(1) rm_cells_ok [OF assms(2)] rm_cells_mset [OF rm_ok_distinct [OF assms(2)]]])

lemma update_new: "a \<notin> fst ` set ws \<Longrightarrow> AList.update a e ws = ws @ [(a, e)]"
  by (induction ws) auto

lemma update_old: "a \<in> fst ` set ws \<Longrightarrow> \<exists>xs old ys. ws = xs @ (a, old) # ys \<and> AList.update a e ws = xs @ (a, e) # ys"
proof (induction ws)
  case (Cons p ws)
  obtain b w where p: "p = (b, w)" by (cases p)
  show ?case
  proof (cases "b = a")
    case True
    then show ?thesis using p by (intro exI [of _ "[]"]) simp
  next
    case False
    then obtain xs old ys where "ws = xs @ (a, old) # ys" "AList.update a e ws = xs @ (a, e) # ys"
      using Cons p by auto
    then show ?thesis using p False by (intro exI [of _ "p # xs"]) simp
  qed
qed simp

lemma rm_write_log:
  assumes lay: "layout_ok L" and ok: "rm_ok L ws" and L: "L a sz"
  shows "rm_ok L (rm_write ws a v sz)"
    and "apply_cells (map rm_cell (rm_write ws a v sz)) m = write_value_to_addr (apply_cells (map rm_cell ws) m) a v sz"
proof -
  let ?e = "\<lparr>rw_type = sz, rw_addr = a, rw_new_val = v\<rparr>"
  have "rm_ok L (rm_write ws a v sz) \<and>
    apply_cells (map rm_cell (rm_write ws a v sz)) m = write_value_to_addr (apply_cells (map rm_cell ws) m) a v sz"
  proof (cases "a \<in> fst ` set ws")
    case True
    from update_old [OF this, of ?e] obtain xs old ys
      where ws: "ws = xs @ (a, old) # ys" "rm_write ws a v sz = xs @ (a, ?e) # ys" by (auto simp: rm_write_def)
    have "cells_ok L (map rm_cell xs @ (a, rw_type old, rw_new_val old) # map rm_cell ys)"
      using ok ws by (simp add: rm_ok_def rm_cell_def)
    from apply_cells_update [OF lay this L, of v] show ?thesis
      using ok L ws by (auto simp: rm_ok_def cells_ok_def rm_cell_def)
  next
    case False
    from update_new [OF this, of ?e] show ?thesis
      using ok L False by (auto simp: rm_ok_def cells_ok_def rm_write_def rm_cell_def image_iff)
  qed
  then show "rm_ok L (rm_write ws a v sz)"
    "apply_cells (map rm_cell (rm_write ws a v sz)) m = write_value_to_addr (apply_cells (map rm_cell ws) m) a v sz" by auto
qed

lemma rm_lookup_cell: "rm_lookup ws a sz = Hit v \<Longrightarrow> \<exists>t. (a, t, v) \<in> set (map rm_cell ws)"
  by (force simp: rm_lookup_def rm_cell_def split: option.splits dest: map_of_SomeD)

lemma rm_lookup_miss: "rm_lookup ws a sz = Miss \<longleftrightarrow> a \<notin> fst ` set ws"
  by (simp add: rm_lookup_def map_of_eq_None_iff [symmetric] split: option.splits)

interpretation romulus_ws: redo_log "[]" rm_lookup "\<lambda>ws a v sz. Some (rm_write ws a v sz)" "\<lambda>ws. apply_cells (rm_cells ws)" L "rm_ok L" for L
proof (unfold_locales, goal_cases)
  case (3 ws a sz v m)
  then obtain t where "(a, t, v) \<in> set (map rm_cell ws)" using rm_lookup_cell by blast
  then show ?case using apply_cells_hit [OF 3(1) _ 3(3)] 3(2) by (simp add: rm_effect_cells [OF 3(1,2)] rm_ok_def)
next
  case (4 ws a sz m)
  have "a \<notin> fst ` set (map rm_cell ws)" using 4(4) by (simp only: rm_lookup_miss rm_cell_keys not_False_eq_True)
  then show ?case using apply_cells_other [OF 4(1) _ 4(3)] 4(2) by (simp add: rm_effect_cells [OF 4(1,2)] rm_ok_def)
next
  case (5 ws a sz v ws')
  then show ?case using rm_write_log(1) [OF 5(1-3)] by auto
next
  case (6 ws a sz v ws' m)
  then show ?case using rm_write_log [OF 6(1-3)] by (auto simp: rm_effect_cells [OF 6(1)])
qed (simp_all add: rm_ok_def cells_ok_def rm_cells_def rm_addrs_def)

end
