(* ===== verification/TM_Romulus_Steps.thy ===== *)
theory TM_Romulus_Steps
  imports TM_Romulus TM_SpinToken
begin

text \<open>
  Threads running the operations of \<open>romulus/romulus.hpp\<close>. A state holds the shared memory, the clock,
  the version table, the commit lock, the spin token and, per thread, the descriptor and a program
  counter. \<open>romulus_call\<close> starts an operation, \<open>romulus_run\<close> is its next shared access. A
  \<open>siglongjmp\<close> ends the operation: the thread is idle with an inactive transaction. The fields
  \<open>rm_vals\<close> (type and value of every logged read), \<open>rm_ops\<close>, \<open>rm_log\<close> (the update
  transactions in the order of their clock increments) and \<open>rm_ro\<close> are ghost.
\<close>

section \<open>State\<close>

datatype romulus_pc =
    RIdle
  | REntry addr ValueType
  | RData addr ValueType u64 nat any_type_t
  | RCheck addr ValueType u64 any_type_t
  | RSpin
  | RExchange
  | RWrites "addr list"
  | RReads "Romulus_ReadEntry list"
  | RInvalid
  | RBits "addr list"
  | RWriteBack u64 "(addr \<times> u8) list"
  | RPublish u64 "addr list"
  | RDone
  | RToken
  | RCount

datatype romulus_op = MInit | MExit | MBegin | MRead addr ValueType | MWrite addr any_type_t ValueType | MCommit

record romulus_state =
  rm_mem :: mem
  g_global_clock :: u64
  rm_thr_counter :: u64
  g_version_table :: "nat \<Rightarrow> u64"
  g_commit_lock :: u64
  g_tx_token :: int
  rm_tm_abort_count :: u64
  rm_live :: "nat \<Rightarrow> bool"
  rm_txs :: "nat \<Rightarrow> Romulus_Transaction"
  rm_pcs :: "nat \<Rightarrow> romulus_pc"
  rm_failed :: bool
  rm_vals :: "nat \<Rightarrow> (ValueType \<times> u64) list"
  rm_ops :: "nat \<Rightarrow> op list"
  rm_log :: "op list ventry list"
  rm_ro :: "op list list"

definition rm_set_tx :: "nat \<Rightarrow> Romulus_Transaction \<Rightarrow> romulus_state \<Rightarrow> romulus_state" where
  "rm_set_tx t tx s = s\<lparr>rm_txs := (rm_txs s)(t := tx)\<rparr>"

definition rm_set_pc :: "nat \<Rightarrow> romulus_pc \<Rightarrow> romulus_state \<Rightarrow> romulus_state" where
  "rm_set_pc t pc s = s\<lparr>rm_pcs := (rm_pcs s)(t := pc)\<rparr>"

definition rm_add_op :: "nat \<Rightarrow> op \<Rightarrow> romulus_state \<Rightarrow> romulus_state" where
  "rm_add_op t p s = s\<lparr>rm_ops := (rm_ops s)(t := rm_ops s t @ [p])\<rparr>"

text \<open>\<open>init\<close>, on the memory the program set up before.\<close>

definition romulus_init :: "mem \<Rightarrow> romulus_state" where
  "romulus_init m = \<lparr>rm_mem = m, g_global_clock = 1, rm_thr_counter = 1, g_version_table = (\<lambda>_. make_version_entry 0),
     g_commit_lock = 0, g_tx_token = -1, rm_tm_abort_count = 0, rm_live = (\<lambda>_. False), rm_txs = (\<lambda>_. rm_new),
     rm_pcs = (\<lambda>_. RIdle), rm_failed = False, rm_vals = (\<lambda>_. []), rm_ops = (\<lambda>_. []), rm_log = [], rm_ro = []\<rparr>"

section \<open>Calls\<close>

definition rm_init_thread :: "nat \<Rightarrow> romulus_state \<Rightarrow> romulus_state" where
  "rm_init_thread t s =
    (if rm_live s t then rm_set_tx t (rm_reset (rm_txs s t)) s
     else rm_set_tx t (rm_reset (rm_new\<lparr>rm_id := rm_thr_counter s\<rparr>))
       (s\<lparr>rm_live := (rm_live s)(t := True), rm_thr_counter := rm_thr_counter s + 1\<rparr>))"

text \<open>After \<open>exit_thread\<close> the descriptor is gone; the fields of a dead thread are those of a fresh one.\<close>

definition rm_exit_thread :: "nat \<Rightarrow> romulus_state \<Rightarrow> romulus_state" where
  "rm_exit_thread t s = rm_set_tx t rm_new (s\<lparr>rm_live := (rm_live s)(t := False)\<rparr>)"

definition rm_begin :: "nat \<Rightarrow> romulus_state \<Rightarrow> romulus_state" where
  "rm_begin t s =
    (let tx = rm_txs s t
     in if rm_active tx then s
        else rm_set_tx t ((rm_clear tx)\<lparr>rm_timestamp := g_global_clock s, rm_active := True, rm_read_only := True,
               rm_abort_count := (if rm_is_retry tx then rm_abort_count tx else 0), rm_is_retry := False\<rparr>)
             (s\<lparr>rm_vals := (rm_vals s)(t := []), rm_ops := (rm_ops s)(t := [])\<rparr>))"

text \<open>
  \<open>tm_read\<close> and the local part of \<open>read_word\<close>. \<open>tracked\<close> stands for \<open>isTMAddress\<close> or
  \<open>isTMGlobal\<close>; other addresses are read directly, while writes to them are buffered like all others.
\<close>

definition rm_read_call :: "(addr \<Rightarrow> bool) \<Rightarrow> nat \<Rightarrow> addr \<Rightarrow> ValueType \<Rightarrow> romulus_state \<Rightarrow> romulus_state" where
  "rm_read_call tracked t a sz s =
    (let tx = rm_txs s t
     in if \<not> rm_active tx then s\<lparr>rm_failed := True\<rparr>
        else (case rm_lookup (rm_write_set tx) a sz of
                Hit v \<Rightarrow> rm_add_op t (Rd a sz (return_any_type sz v)) s
              | _ \<Rightarrow> if \<not> tracked a
                     then rm_add_op t (Rd a sz (return_any_type sz (read_value_from_addr (rm_mem s) a sz))) s
                     else rm_set_pc t (REntry a sz) s))"

definition rm_write_call :: "nat \<Rightarrow> addr \<Rightarrow> any_type_t \<Rightarrow> ValueType \<Rightarrow> romulus_state \<Rightarrow> romulus_state" where
  "rm_write_call t a val sz s =
    (let tx = rm_txs s t
     in rm_add_op t (Wr a sz val)
          (rm_set_tx t (tx\<lparr>rm_read_only := False, rm_write_set := rm_write (rm_write_set tx) a val sz\<rparr>) s))"

text \<open>\<open>commit\<close> up to the commit lock, or up to the release of the token where nothing is to be written.\<close>

definition rm_commit_call :: "nat \<Rightarrow> romulus_state \<Rightarrow> romulus_state" where
  "rm_commit_call t s =
    (let tx = rm_txs s t
     in if \<not> rm_active tx then s
        else if \<not> rm_read_only tx \<and> rm_write_set tx \<noteq> [] then rm_set_pc t RSpin s
        else rm_set_pc t RDone (s\<lparr>rm_ro := rm_ro s @ [rm_ops s t]\<rparr>))"

fun romulus_call :: "(addr \<Rightarrow> bool) \<Rightarrow> nat \<Rightarrow> romulus_op \<Rightarrow> romulus_state \<Rightarrow> romulus_state" where
  "romulus_call tracked t MInit s = rm_init_thread t s"
| "romulus_call tracked t MExit s = rm_exit_thread t s"
| "romulus_call tracked t MBegin s = rm_begin t s"
| "romulus_call tracked t (MRead a sz) s = rm_read_call tracked t a sz s"
| "romulus_call tracked t (MWrite a val sz) s = rm_write_call t a val sz s"
| "romulus_call tracked t MCommit s = rm_commit_call t s"

section \<open>Steps of the operations\<close>

text \<open>\<open>read_word\<close> after the write set: the entry, the data, the entry again.\<close>

fun rm_read_step :: "nat \<Rightarrow> romulus_pc \<Rightarrow> romulus_state \<Rightarrow> romulus_state" where
  "rm_read_step t (REntry a sz) s =
    (let entry_before = g_version_table s (version_index a)
     in if entry_locked entry_before then rm_set_pc t RToken s
        else rm_set_pc t (RData a sz entry_before 0 0) s)"
| "rm_read_step t (RData a sz entry_before i v) s =
    (if i < type_size sz then rm_set_pc t (RData a sz entry_before (Suc i) (add_byte (rm_mem s) a i v)) s
     else rm_set_pc t (RCheck a sz entry_before v) s)"
| "rm_read_step t (RCheck a sz entry_before v) s =
    (let tx = rm_txs s t; entry_after = g_version_table s (version_index a)
     in if entry_before \<noteq> entry_after then rm_set_pc t RToken s
        else rm_set_pc t RIdle (rm_add_op t (Rd a sz (return_any_type sz v))
          (rm_set_tx t (tx\<lparr>rm_read_set := rm_read_set tx @ [\<lparr>rr_addr = a, rr_version = read_version entry_before\<rparr>]\<rparr>)
            (s\<lparr>rm_vals := (rm_vals s)(t := rm_vals s t @ [(sz, v)])\<rparr>))))"
| "rm_read_step t _ s = s"

text \<open>Phases 1 and 2 of \<open>commit\<close>: the commit lock, the validation of the write set and of the read set.\<close>

fun rm_validate_step :: "nat \<Rightarrow> romulus_pc \<Rightarrow> romulus_state \<Rightarrow> romulus_state" where
  "rm_validate_step t RSpin s = (if g_commit_lock s \<noteq> 0 then s else rm_set_pc t RExchange s)"
| "rm_validate_step t RExchange s =
    (if g_commit_lock s \<noteq> 0 then rm_set_pc t RSpin (s\<lparr>g_commit_lock := 1\<rparr>)
     else rm_set_pc t (RWrites (rm_addrs (rm_write_set (rm_txs s t)))) (s\<lparr>g_commit_lock := 1\<rparr>))"
| "rm_validate_step t (RWrites (a # as)) s =
    (let entry = g_version_table s (version_index a)
     in if entry_locked entry then rm_set_pc t RInvalid s
        else if read_version entry > rm_timestamp (rm_txs s t) then rm_set_pc t RInvalid s
        else rm_set_pc t (RWrites as) s)"
| "rm_validate_step t (RWrites []) s = rm_set_pc t (RReads (rm_read_set (rm_txs s t))) s"
| "rm_validate_step t (RReads (re # rs)) s =
    (let entry = g_version_table s (version_index (rr_addr re))
     in if entry_locked entry then rm_set_pc t RInvalid s
        else if read_version entry \<noteq> rr_version re then rm_set_pc t RInvalid s
        else rm_set_pc t (RReads rs) s)"
| "rm_validate_step t (RReads []) s = rm_set_pc t (RBits (rm_addrs (rm_write_set (rm_txs s t)))) s"
| "rm_validate_step t RInvalid s = rm_set_pc t RToken (s\<lparr>g_commit_lock := 0\<rparr>)"
| "rm_validate_step t _ s = s"

text \<open>Phases 3 to 6: the lock bits, the clock, the write-back, the new versions, and the commit lock.\<close>

fun rm_write_step :: "nat \<Rightarrow> romulus_pc \<Rightarrow> romulus_state \<Rightarrow> romulus_state" where
  "rm_write_step t (RBits (a # as)) s =
    (let idx = version_index a
     in rm_set_pc t (RBits as) (s\<lparr>g_version_table := (g_version_table s)(idx := g_version_table s idx OR VERSION_LOCK_BIT)\<rparr>))"
| "rm_write_step t (RBits []) s =
    (let tx = rm_txs s t; commit_ts = g_global_clock s + 1
     in rm_set_pc t (RWriteBack commit_ts (rm_bytes (rm_write_set tx)))
          (s\<lparr>g_global_clock := commit_ts,
             rm_log := rm_log s @ [\<lparr>ve_ver = unat commit_ts,
               ve_reads = map2 (\<lambda>re (sz, v). (rr_addr re, sz, v)) (rm_read_set tx) (rm_vals s t),
               ve_cells = rm_cells (rm_write_set tx), ve_info = rm_ops s t\<rparr>]\<rparr>))"
| "rm_write_step t (RWriteBack commit_ts ((a, b) # bs)) s =
    rm_set_pc t (RWriteBack commit_ts bs) (s\<lparr>rm_mem := (rm_mem s)(a := b)\<rparr>)"
| "rm_write_step t (RWriteBack commit_ts []) s =
    rm_set_pc t (RPublish commit_ts (rm_addrs (rm_write_set (rm_txs s t)))) s"
| "rm_write_step t (RPublish commit_ts (a # as)) s =
    rm_set_pc t (RPublish commit_ts as)
      (s\<lparr>g_version_table := (g_version_table s)(version_index a := make_version_entry commit_ts)\<rparr>)"
| "rm_write_step t (RPublish commit_ts []) s = rm_set_pc t RDone (s\<lparr>g_commit_lock := 0\<rparr>)"
| "rm_write_step t _ s = s"

text \<open>The end of \<open>commit\<close>, and \<open>abort_tx\<close> with the token and the global counter.\<close>

fun rm_end_step :: "nat \<Rightarrow> romulus_pc \<Rightarrow> romulus_state \<Rightarrow> romulus_state" where
  "rm_end_step t RDone s =
    rm_set_pc t RIdle (rm_set_tx t (rm_reset (rm_txs s t)) (s\<lparr>g_tx_token := tm_token_release (g_tx_token s)\<rparr>))"
| "rm_end_step t RToken s =
    (let tx = rm_txs s t
     in rm_set_pc t RCount
          (rm_set_tx t ((rm_clear tx)\<lparr>rm_abort_count := rm_abort_count tx + 1, rm_is_retry := True, rm_active := False\<rparr>)
            (s\<lparr>g_tx_token := tm_token_release_if_held (sint (rm_id tx)) (g_tx_token s)\<rparr>)))"
| "rm_end_step t RCount s = rm_set_pc t RIdle (s\<lparr>rm_tm_abort_count := rm_tm_abort_count s + 1\<rparr>)"
| "rm_end_step t _ s = s"

definition romulus_run :: "nat \<Rightarrow> romulus_state \<Rightarrow> romulus_state" where
  "romulus_run t s =
    (case rm_pcs s t of
       RIdle \<Rightarrow> s
     | REntry a sz \<Rightarrow> rm_read_step t (rm_pcs s t) s
     | RData a sz e i v \<Rightarrow> rm_read_step t (rm_pcs s t) s
     | RCheck a sz e v \<Rightarrow> rm_read_step t (rm_pcs s t) s
     | RBits as \<Rightarrow> rm_write_step t (rm_pcs s t) s
     | RWriteBack c bs \<Rightarrow> rm_write_step t (rm_pcs s t) s
     | RPublish c as \<Rightarrow> rm_write_step t (rm_pcs s t) s
     | RDone \<Rightarrow> rm_end_step t (rm_pcs s t) s
     | RToken \<Rightarrow> rm_end_step t (rm_pcs s t) s
     | RCount \<Rightarrow> rm_end_step t (rm_pcs s t) s
     | _ \<Rightarrow> rm_validate_step t (rm_pcs s t) s)"

section \<open>Executions\<close>

datatype romulus_event = MCall nat romulus_op | MRun nat

text \<open>Only \<open>init_thread\<close> may be called by a thread without a descriptor.\<close>

fun rm_call_ok :: "(addr \<Rightarrow> ValueType \<Rightarrow> bool) \<Rightarrow> bool \<Rightarrow> romulus_op \<Rightarrow> bool" where
  "rm_call_ok L live MInit \<longleftrightarrow> True"
| "rm_call_ok L live (MRead a sz) \<longleftrightarrow> live \<and> L a sz"
| "rm_call_ok L live (MWrite a val sz) \<longleftrightarrow> live \<and> L a sz"
| "rm_call_ok L live _ \<longleftrightarrow> live"

fun romulus_step :: "(addr \<Rightarrow> bool) \<Rightarrow> (addr \<Rightarrow> ValueType \<Rightarrow> bool) \<Rightarrow> romulus_state \<Rightarrow> romulus_event \<Rightarrow> romulus_state option" where
  "romulus_step tracked L s (MCall t c) =
    (if \<not> rm_failed s \<and> rm_pcs s t = RIdle \<and> rm_call_ok L (rm_live s t) c then Some (romulus_call tracked t c s) else None)"
| "romulus_step tracked L s (MRun t) =
    (if \<not> rm_failed s \<and> rm_pcs s t \<noteq> RIdle then Some (romulus_run t s) else None)"

fun romulus_exec :: "(addr \<Rightarrow> bool) \<Rightarrow> (addr \<Rightarrow> ValueType \<Rightarrow> bool) \<Rightarrow> romulus_event list \<Rightarrow> romulus_state \<Rightarrow> romulus_state option" where
  "romulus_exec tracked L [] s = Some s"
| "romulus_exec tracked L (ev # evs) s =
    (case romulus_step tracked L s ev of None \<Rightarrow> None | Some s' \<Rightarrow> romulus_exec tracked L evs s')"

end
