(* ===== verification/TM_Romulus_Safety.thy ===== *)
theory TM_Romulus_Safety
  imports TM_Romulus_Steps
begin

text \<open>
  Romulus refines the versioned-lock protocol. Its commit validates before it sets the lock bits, and
  only then takes a clock value; the commit lock keeps every other commit out in the meantime, so
  that the validation still holds at the clock increment. There the protocol takes its clock value,
  validates and commits in one go.
\<close>

section \<open>Entries\<close>

lemma entry_locked_bit: "entry_locked e \<longleftrightarrow> bit e 0"
  by (simp add: entry_locked_def VERSION_LOCK_BIT_def and_one_eq bit_0 odd_iff_mod_2_eq_one)

lemma entry_lock_simps [simp]:
  "entry_locked (e OR VERSION_LOCK_BIT)" "read_version (e OR VERSION_LOCK_BIT) = read_version e"
  "entry_locked e \<Longrightarrow> e OR VERSION_LOCK_BIT = e"
proof -
  have b: "bit VERSION_LOCK_BIT k \<longleftrightarrow> k = 0" for k by (simp add: VERSION_LOCK_BIT_def bit_1_iff)
  show "entry_locked (e OR VERSION_LOCK_BIT)" by (simp add: entry_locked_bit bit_or_iff b)
  show "read_version (e OR VERSION_LOCK_BIT) = read_version e"
    by (rule u64_eqI) (simp add: read_version_def bit_drop_bit_eq bit_or_iff b)
  show "entry_locked e \<Longrightarrow> e OR VERSION_LOCK_BIT = e"
    by (rule u64_eqI) (auto simp: entry_locked_bit bit_or_iff b)
qed

lemma make_entry_simps [simp]:
  "\<not> entry_locked (make_version_entry c)" "unat c < 2 ^ 63 \<Longrightarrow> read_version (make_version_entry c) = c"
proof -
  show "\<not> entry_locked (make_version_entry c)" unfolding entry_locked_bit make_version_entry_def bit_push_bit_iff by simp
  assume "unat c < 2 ^ 63"
  then have "\<not> bit (unat c) 63" by (simp add: bit_iff_odd)
  then have nb: "\<not> bit c 63" by (simp add: bit_unsigned_iff)
  have "bit (read_version (make_version_entry c)) k = bit c k" if "k < 64" for k
  proof -
    have "k = 63 \<or> k < 63" using that by linarith
    then show ?thesis
      using nb unfolding read_version_def make_version_entry_def bit_drop_bit_eq o_apply bit_push_bit_iff by auto
  qed
  then show "read_version (make_version_entry c) = c" by (rule u64_eqI)
qed

section \<open>Simulation\<close>

definition rm_read_of :: "Romulus_ReadEntry \<Rightarrow> ValueType \<times> u64 \<Rightarrow> vread" where
  "rm_read_of re sv = \<lparr>vr_addr = rr_addr re, vr_type = fst sv, vr_ver = unat (rr_version re), vr_val = snd sv\<rparr>"

definition rm_logged :: "Romulus_Transaction \<Rightarrow> (ValueType \<times> u64) list \<Rightarrow> (addr \<times> ValueType \<times> u64) list" where
  "rm_logged tx vals = map2 (\<lambda>re (sz, v). (rr_addr re, sz, v)) (rm_read_set tx) vals"

lemma read_cells_rm: "read_cells (map2 rm_read_of (rm_read_set tx) vals) = rm_logged tx vals"
  by (simp add: read_cells_def rm_read_of_def rm_logged_def comp_def split_beta)

text \<open>The program counters between the acquisition and the release of the commit lock, and those after the end.\<close>

fun rm_holds :: "romulus_pc \<Rightarrow> bool" where
  "rm_holds (RWrites as) \<longleftrightarrow> True"
| "rm_holds (RReads rs) \<longleftrightarrow> True"
| "rm_holds RInvalid \<longleftrightarrow> True"
| "rm_holds (RBits as) \<longleftrightarrow> True"
| "rm_holds (RWriteBack c bs) \<longleftrightarrow> True"
| "rm_holds (RPublish c as) \<longleftrightarrow> True"
| "rm_holds _ \<longleftrightarrow> False"

fun rm_over :: "romulus_pc \<Rightarrow> bool" where
  "rm_over RDone \<longleftrightarrow> True"
| "rm_over RToken \<longleftrightarrow> True"
| "rm_over RCount \<longleftrightarrow> True"
| "rm_over _ \<longleftrightarrow> False"

definition rm_committing :: "romulus_pc \<Rightarrow> bool" where
  "rm_committing pc \<longleftrightarrow> pc = RSpin \<or> pc = RExchange \<or> rm_holds pc"

fun rm_phase :: "romulus_pc \<Rightarrow> vphase" where
  "rm_phase (RData a sz e i v) = PRead a sz (unat (read_version e)) i v"
| "rm_phase (RCheck a sz e v) = PRead a sz (unat (read_version e)) (type_size sz) v"
| "rm_phase RSpin = PLock"
| "rm_phase RExchange = PLock"
| "rm_phase (RWrites as) = PLock"
| "rm_phase (RReads rs) = PLock"
| "rm_phase RInvalid = PLock"
| "rm_phase (RBits as) = PLock"
| "rm_phase (RWriteBack c bs) = PWB bs"
| "rm_phase (RPublish c as) = PRel"
| "rm_phase _ = PBody"

definition rm_valid :: "(nat \<Rightarrow> u64) \<Rightarrow> Romulus_ReadEntry list \<Rightarrow> bool" where
  "rm_valid vt rs \<longleftrightarrow> (\<forall>re \<in> set rs. read_version (vt (version_index (rr_addr re))) = rr_version re)"

text \<open>What is known at each program counter of the table \<open>vt\<close> and of the set \<open>own\<close> of locked entries.\<close>

fun rm_pc_sim :: "(addr \<Rightarrow> ValueType \<Rightarrow> bool) \<Rightarrow> (nat \<Rightarrow> u64) \<Rightarrow> Romulus_Transaction \<Rightarrow> nat \<Rightarrow> nat set \<Rightarrow> romulus_pc \<Rightarrow> bool" where
  "rm_pc_sim L vt tx cv own (REntry a sz) \<longleftrightarrow> own = {} \<and> L a sz \<and> rm_lookup (rm_write_set tx) a sz = Miss"
| "rm_pc_sim L vt tx cv own (RData a sz e i v) \<longleftrightarrow>
    own = {} \<and> L a sz \<and> rm_lookup (rm_write_set tx) a sz = Miss \<and> i \<le> type_size sz"
| "rm_pc_sim L vt tx cv own (RCheck a sz e v) \<longleftrightarrow> own = {} \<and> L a sz \<and> rm_lookup (rm_write_set tx) a sz = Miss"
| "rm_pc_sim L vt tx cv own (RReads rs) \<longleftrightarrow> own = {} \<and> (\<exists>ds. rm_read_set tx = ds @ rs \<and> rm_valid vt ds)"
| "rm_pc_sim L vt tx cv own (RBits as) \<longleftrightarrow> rm_valid vt (rm_read_set tx) \<and>
    (\<exists>ds. rm_addrs (rm_write_set tx) = ds @ as \<and> own = version_index ` set ds)"
| "rm_pc_sim L vt tx cv own (RWriteBack c bs) \<longleftrightarrow> cv = unat c \<and> cv < 2 ^ 63 \<and>
    own = version_index ` set (rm_addrs (rm_write_set tx))"
| "rm_pc_sim L vt tx cv own (RPublish c as) \<longleftrightarrow> cv = unat c \<and> cv < 2 ^ 63 \<and>
    (\<exists>ds. rm_addrs (rm_write_set tx) = ds @ as \<and> (\<forall>a \<in> set ds. vt (version_index a) = make_version_entry c) \<and>
      own = version_index ` set (ds @ as) - version_index ` set ds)"
| "rm_pc_sim L vt tx cv own RCount \<longleftrightarrow> own = {} \<and> \<not> rm_active tx"
| "rm_pc_sim L vt tx cv own _ \<longleftrightarrow> own = {}"

definition rm_tsim :: "(addr \<Rightarrow> ValueType \<Rightarrow> bool) \<Rightarrow> (nat \<Rightarrow> u64) \<Rightarrow> Romulus_Transaction \<Rightarrow> romulus_pc \<Rightarrow> (ValueType \<times> u64) list \<Rightarrow> op list \<Rightarrow>
    vphase \<Rightarrow> vread list \<Rightarrow> cell list \<Rightarrow> nat \<Rightarrow> nat set \<Rightarrow> bool" where
  "rm_tsim L vt tx pc vals ps ph rds cells cv own \<longleftrightarrow>
    ph = rm_phase pc \<and> rm_pc_sim L vt tx cv own pc \<and> (pc \<noteq> RIdle \<and> \<not> rm_over pc \<longrightarrow> rm_active tx) \<and>
    rds = (if rm_active tx \<and> \<not> rm_over pc then map2 rm_read_of (rm_read_set tx) vals else []) \<and>
    (rm_committing pc \<longrightarrow> cells = rm_cells (rm_write_set tx)) \<and>
    (rm_active tx \<and> \<not> rm_over pc \<longrightarrow> length vals = length (rm_read_set tx) \<and> rm_ok L (rm_write_set tx) \<and>
      explains (rm_logged tx vals) (apply_cells (rm_cells (rm_write_set tx))) ps)"

definition rm_gsim :: "romulus_state \<Rightarrow> op list vstate \<Rightarrow> bool" where
  "rm_gsim s v \<longleftrightarrow> vmem v = rm_mem s \<and> vclock v = unat (g_global_clock s) \<and> vlog v = rm_log s \<and>
    (\<forall>g. vver v g = unat (read_version (g_version_table s g))) \<and>
    (\<forall>g. entry_locked (g_version_table s g) \<longleftrightarrow> vowner v g \<noteq> None) \<and>
    (\<forall>d \<in> set (rm_log s). explains (ve_reads d) (apply_cells (ve_cells d)) (ve_info d))"

text \<open>The commit lock excludes.\<close>

definition rm_excl :: "romulus_state \<Rightarrow> bool" where
  "rm_excl s \<longleftrightarrow> (\<forall>t. rm_holds (rm_pcs s t) \<longrightarrow> g_commit_lock s \<noteq> 0) \<and>
    (\<forall>t u. rm_holds (rm_pcs s t) \<longrightarrow> rm_holds (rm_pcs s u) \<longrightarrow> t = u)"

definition rm_tsims :: "(addr \<Rightarrow> ValueType \<Rightarrow> bool) \<Rightarrow> romulus_state \<Rightarrow> op list vstate \<Rightarrow> nat \<Rightarrow> bool" where
  "rm_tsims L s v t \<longleftrightarrow> rm_tsim L (g_version_table s) (rm_txs s t) (rm_pcs s t) (rm_vals s t) (rm_ops s t)
     (vph v t) (vreads v t) (vcells v t) (vcv v t) {g. vowner v g = Some t}"

definition rm_sim :: "(addr \<Rightarrow> ValueType \<Rightarrow> bool) \<Rightarrow> romulus_state \<Rightarrow> op list vstate \<Rightarrow> bool" where
  "rm_sim L s v \<longleftrightarrow> rm_gsim s v \<and> rm_excl s \<and> (\<forall>t. rm_tsims L s v t)"

lemma rm_pc_sim_table: "\<not> rm_holds pc \<Longrightarrow> rm_pc_sim L vt tx cv own pc = rm_pc_sim L vt' tx cv own pc"
  by (cases pc) simp_all

text \<open>A step of thread \<open>t\<close>: it changes nothing of the other threads, and the table only under the commit lock.\<close>

lemma rm_simI:
  assumes sim: "rm_sim L s v" and "rm_gsim s' v'" and "rm_tsims L s' v' t"
    and oth: "\<And>u. u \<noteq> t \<Longrightarrow> rm_txs s' u = rm_txs s u \<and> rm_pcs s' u = rm_pcs s u \<and> rm_vals s' u = rm_vals s u \<and>
      rm_ops s' u = rm_ops s u \<and> vph v' u = vph v u \<and> vreads v' u = vreads v u \<and> vcells v' u = vcells v u \<and> vcv v' u = vcv v u"
    and own: "\<And>u g. u \<noteq> t \<Longrightarrow> (vowner v' g = Some u) = (vowner v g = Some u)"
    and tab: "g_version_table s' = g_version_table s \<or> rm_holds (rm_pcs s t)"
    and lock: "rm_holds (rm_pcs s' t) \<longrightarrow> (rm_holds (rm_pcs s t) \<or> g_commit_lock s = 0) \<and> g_commit_lock s' \<noteq> 0"
      "g_commit_lock s' = 0 \<longrightarrow> g_commit_lock s = 0 \<or> rm_holds (rm_pcs s t)"
  shows "rm_sim L s' v'"
proof -
  have ex: "rm_excl s" and ts: "rm_tsims L s v u" for u using sim by (simp_all add: rm_sim_def)
  have "rm_tsims L s' v' u" for u
  proof (cases "u = t")
    case False
    have "rm_pc_sim L (g_version_table s') (rm_txs s u) (vcv v u) {g. vowner v g = Some u} (rm_pcs s u)"
    proof (cases "g_version_table s' = g_version_table s")
      case True
      then show ?thesis using ts [of u] by (simp add: rm_tsims_def rm_tsim_def)
    next
      case no: False
      then have "\<not> rm_holds (rm_pcs s u)" using tab ex False by (auto simp: rm_excl_def)
      from rm_pc_sim_table [OF this, of L "g_version_table s'" _ _ _ "g_version_table s"] show ?thesis
        using ts [of u] by (simp add: rm_tsims_def rm_tsim_def)
    qed
    then show ?thesis using ts [of u] oth [OF False] own [OF False] by (simp add: rm_tsims_def rm_tsim_def)
  qed (use assms(3) in simp)
  moreover have "rm_excl s'"
  proof -
    have pcs: "rm_pcs s' u = rm_pcs s u" if "u \<noteq> t" for u using oth [OF that] by blast
    have "g_commit_lock s' \<noteq> 0" if "rm_holds (rm_pcs s' u)" for u
      using ex lock pcs [of u] that by (cases "u = t") (auto simp: rm_excl_def)
    moreover have "u = w" if h: "rm_holds (rm_pcs s' u)" "rm_holds (rm_pcs s' w)" for u w
      using ex lock(1) pcs h unfolding rm_excl_def by (cases "u = t"; cases "w = t") metis+
    ultimately show ?thesis by (auto simp: rm_excl_def)
  qed
  ultimately show ?thesis using assms(2) by (simp add: rm_sim_def)
qed

lemma rm_simD:
  assumes "rm_sim L s v"
  shows "rm_gsim s v" "rm_excl s" "rm_tsim L (g_version_table s) (rm_txs s t) (rm_pcs s t) (rm_vals s t) (rm_ops s t)
     (vph v t) (vreads v t) (vcells v t) (vcv v t) {g. vowner v g = Some t}"
  using assms by (simp_all add: rm_sim_def rm_tsims_def)

definition rm_simulated :: "(addr \<Rightarrow> ValueType \<Rightarrow> bool) \<Rightarrow> op list vstate \<Rightarrow> romulus_state \<Rightarrow> bool" where
  "rm_simulated L v s' \<longleftrightarrow> (\<exists>v'. (vstep version_index L)\<^sup>*\<^sup>* v v' \<and> rm_sim L s' v')"

lemma rm_simulated_same: "rm_sim L s' v \<Longrightarrow> rm_simulated L v s'"
  by (auto simp: rm_simulated_def)

lemma rm_simulated_step: "vstep version_index L v v' \<Longrightarrow> rm_sim L s' v' \<Longrightarrow> rm_simulated L v s'"
  by (auto simp: rm_simulated_def)

lemma rm_simulated_two: "vstep version_index L v v1 \<Longrightarrow> vstep version_index L v1 v' \<Longrightarrow> rm_sim L s' v' \<Longrightarrow> rm_simulated L v s'"
  by (auto simp: rm_simulated_def intro: converse_rtranclp_into_rtranclp)

lemmas rm_upd = rm_set_pc_def rm_set_tx_def rm_add_op_def
lemmas rm_sims = rm_upd rm_gsim_def rm_tsims_def rm_tsim_def rm_committing_def

text \<open>Whoever owns an entry holds the commit lock.\<close>

lemma rm_owner_holds:
  assumes "rm_sim L s v" "vowner v g = Some u"
  shows "rm_holds (rm_pcs s u)"
  using rm_simD(3) [OF assms(1), of u] assms(2) by (cases "rm_pcs s u") (auto simp: rm_tsim_def)

lemma rm_lock_held: "rm_sim L s v \<Longrightarrow> rm_holds (rm_pcs s t) \<Longrightarrow> g_commit_lock s \<noteq> 0"
  using rm_simD(2) unfolding rm_excl_def by blast

lemma rm_owner_self:
  assumes "rm_sim L s v" "rm_holds (rm_pcs s t)" "vowner v g \<noteq> None"
  shows "vowner v g = Some t"
  using assms(2,3) rm_owner_holds [OF assms(1)] rm_simD(2) [OF assms(1)] unfolding rm_excl_def by blast

subsection \<open>Calls\<close>

lemma rm_sim_reset:
  assumes sim: "rm_sim L s v" and pc: "rm_pcs s t = RIdle" and tx: "\<not> rm_active tx"
  shows "rm_simulated L v (rm_set_tx t tx (s\<lparr>rm_live := lv, rm_thr_counter := n\<rparr>))"
proof (rule rm_simulated_step)
  note T = rm_simD(3) [OF sim, of t] and G = rm_simD(1) [OF sim]
  have ph: "vph v t = PBody" using T pc by (simp add: rm_tsim_def)
  let ?v = "v\<lparr>vreads := (vreads v)(t := [])\<rparr>"
  show "vstep version_index L v ?v" using v_reset [OF ph] .
  show "rm_sim L (rm_set_tx t tx (s\<lparr>rm_live := lv, rm_thr_counter := n\<rparr>)) ?v"
    by (intro rm_simI [OF sim, of _ _ t]) (use T G pc tx in \<open>simp_all add: rm_sims\<close>)
qed

lemma rm_reset_inactive [simp]: "\<not> rm_active (rm_reset tx)" "\<not> rm_active rm_new" "rm_read_set (rm_reset tx) = []"
  by (simp_all add: rm_reset_def rm_clear_def rm_new_def)

lemma rm_sim_threads:
  assumes sim: "rm_sim L s v" and pc: "rm_pcs s t = RIdle"
  shows "rm_simulated L v (rm_init_thread t s)" "rm_simulated L v (rm_exit_thread t s)"
proof -
  note R = rm_sim_reset [OF sim pc]
  show "rm_simulated L v (rm_init_thread t s)"
    using R [where tx = "rm_reset (rm_txs s t)" and lv = "rm_live s" and n = "rm_thr_counter s"]
      R [where tx = "rm_reset (rm_new\<lparr>rm_id := rm_thr_counter s\<rparr>)" and lv = "(rm_live s)(t := True)" and n = "rm_thr_counter s + 1"]
    by (simp add: rm_init_thread_def)
  show "rm_simulated L v (rm_exit_thread t s)"
    using R [where tx = rm_new and lv = "(rm_live s)(t := False)" and n = "rm_thr_counter s"] by (simp add: rm_exit_thread_def)
qed

lemma rm_sim_begin:
  assumes sim: "rm_sim L s v" and pc: "rm_pcs s t = RIdle"
  shows "rm_sim L (rm_begin t s) v"
proof (cases "rm_active (rm_txs s t)")
  case False
  note T = rm_simD(3) [OF sim, of t] and G = rm_simD(1) [OF sim]
  show ?thesis
    by (intro rm_simI [OF sim, of _ _ t])
      (use T G pc False romulus_ws.explains_empty romulus_ws.empty_log in
        \<open>simp_all add: rm_begin_def rm_clear_def rm_sims rm_logged_def Let_def\<close>)
qed (use sim in \<open>simp add: rm_begin_def\<close>)

lemma rm_sim_fail: "rm_sim L s v \<Longrightarrow> rm_sim L (s\<lparr>rm_failed := True\<rparr>) v"
  by (simp add: rm_sim_def rm_gsim_def rm_tsims_def rm_excl_def)

lemma rm_sim_read_call:
  assumes lay: "layout_ok L" and sim: "rm_sim L s v" and pc: "rm_pcs s t = RIdle" and L: "L a sz" and tr: "tracked a"
  shows "rm_sim L (rm_read_call tracked t a sz s) v"
proof (cases "rm_active (rm_txs s t)")
  case True
  note T = rm_simD(3) [OF sim, of t] and G = rm_simD(1) [OF sim]
  let ?ws = "rm_write_set (rm_txs s t)"
  have ok: "rm_ok L ?ws" and ex: "explains (rm_logged (rm_txs s t) (rm_vals s t)) (apply_cells (rm_cells ?ws)) (rm_ops s t)"
    using T True pc by (simp_all add: rm_tsim_def)
  show ?thesis
  proof (cases "rm_lookup ?ws a sz")
    case (Hit w)
    have r: "rm_read_call tracked t a sz s = rm_add_op t (Rd a sz (return_any_type sz w)) s"
      using True Hit by (simp add: rm_read_call_def)
    show ?thesis
      unfolding r by (intro rm_simI [OF sim, of _ _ t])
        (use T G pc romulus_ws.explains_hit [OF lay ok L Hit ex] in \<open>simp_all add: rm_sims\<close>)
  next
    case Miss
    then have r: "rm_read_call tracked t a sz s = rm_set_pc t (REntry a sz) s" using True tr by (simp add: rm_read_call_def)
    show ?thesis
      unfolding r by (intro rm_simI [OF sim, of _ _ t]) (use T G pc L Miss True in \<open>simp_all add: rm_sims\<close>)
  qed (simp add: rm_lookup_def split: option.splits)
qed (use rm_sim_fail [OF sim] in \<open>simp add: rm_read_call_def\<close>)

lemma rm_sim_write_call:
  assumes lay: "layout_ok L" and sim: "rm_sim L s v" and pc: "rm_pcs s t = RIdle" and L: "L a sz"
  shows "rm_sim L (rm_write_call t a val sz s) v"
proof -
  note T = rm_simD(3) [OF sim, of t] and G = rm_simD(1) [OF sim]
  let ?ws = "rm_write_set (rm_txs s t)"
  have "rm_ok L (rm_write ?ws a val sz)"
    and "explains (rm_logged (rm_txs s t) (rm_vals s t)) (apply_cells (rm_cells (rm_write ?ws a val sz))) (rm_ops s t @ [Wr a sz val])"
    if "rm_active (rm_txs s t)"
    using T pc that romulus_ws.write_invar [OF lay _ L, of ?ws val] romulus_ws.explains_write [OF lay _ L, of ?ws val]
    by (simp_all add: rm_tsim_def)
  then show ?thesis
    by (intro rm_simI [OF sim, of _ _ t])
      (use T G pc in \<open>simp_all add: rm_write_call_def rm_sims rm_logged_def Let_def\<close>)
qed

lemma rm_sim_commit_call:
  assumes sim: "rm_sim L s v" and pc: "rm_pcs s t = RIdle"
  shows "rm_simulated L v (rm_commit_call t s)"
proof -
  note T = rm_simD(3) [OF sim, of t] and G = rm_simD(1) [OF sim]
  let ?tx = "rm_txs s t"
  have ph: "vph v t = PBody" using T pc by (simp add: rm_tsim_def)
  consider "\<not> rm_active ?tx" | "rm_active ?tx" "\<not> rm_read_only ?tx \<and> rm_write_set ?tx \<noteq> []"
    | "rm_active ?tx" "\<not> (\<not> rm_read_only ?tx \<and> rm_write_set ?tx \<noteq> [])" by blast
  then show ?thesis
  proof cases
    case 1
    then show ?thesis using rm_simulated_same [OF sim] by (simp add: rm_commit_call_def)
  next
    case 2
    have r: "rm_commit_call t s = rm_set_pc t RSpin s" using 2 by (simp add: rm_commit_call_def)
    have "rm_ok L (rm_write_set ?tx)" using T pc 2 by (simp add: rm_tsim_def)
    from v_start [OF ph rm_cells_ok [OF this]] show ?thesis
    proof (rule rm_simulated_step)
      show "rm_sim L (rm_commit_call t s) (v\<lparr>vph := (vph v)(t := PLock), vcells := (vcells v)(t := rm_cells (rm_write_set ?tx))\<rparr>)"
        unfolding r by (intro rm_simI [OF sim, of _ _ t]) (use T G pc 2 in \<open>simp_all add: rm_sims\<close>)
    qed
  next
    case 3
    have r: "rm_commit_call t s = rm_set_pc t RDone (s\<lparr>rm_ro := rm_ro s @ [rm_ops s t]\<rparr>)"
      using 3 by (auto simp: rm_commit_call_def Let_def)
    from v_reset [OF ph] show ?thesis
    proof (rule rm_simulated_step)
      show "rm_sim L (rm_commit_call t s) (v\<lparr>vreads := (vreads v)(t := [])\<rparr>)"
        unfolding r by (intro rm_simI [OF sim, of _ _ t]) (use T G pc 3 in \<open>simp_all add: rm_sims\<close>)
    qed
  qed
qed

subsection \<open>Reads\<close>

lemma rm_sim_entry:
  assumes sim: "rm_sim L s v" and pc: "rm_pcs s t = REntry a sz"
  shows "rm_simulated L v (romulus_run t s)"
proof -
  note T = rm_simD(3) [OF sim, of t] and G = rm_simD(1) [OF sim]
  let ?e = "g_version_table s (version_index a)"
  have ph: "vph v t = PBody" and L: "L a sz" using T pc by (simp_all add: rm_tsim_def)
  show ?thesis
  proof (cases "entry_locked ?e")
    case True
    have "rm_sim L (romulus_run t s) (v\<lparr>vreads := (vreads v)(t := [])\<rparr>)"
      by (intro rm_simI [OF sim, of _ _ t]) (use T G pc True in \<open>simp_all add: romulus_run_def rm_sims Let_def\<close>)
    then show ?thesis by (rule rm_simulated_step [OF v_reset [OF ph]])
  next
    case False
    have "rm_sim L (romulus_run t s) (v\<lparr>vph := (vph v)(t := PRead a sz (vver v (version_index a)) 0 0)\<rparr>)"
      by (intro rm_simI [OF sim, of _ _ t]) (use T G pc False in \<open>simp_all add: romulus_run_def rm_sims Let_def\<close>)
    then show ?thesis by (rule rm_simulated_step [OF v_read [where idx = version_index and L = L, OF ph L]])
  qed
qed

lemma rm_sim_data:
  assumes sim: "rm_sim L s v" and pc: "rm_pcs s t = RData a sz e i w"
  shows "rm_simulated L v (romulus_run t s)"
proof -
  note T = rm_simD(3) [OF sim, of t] and G = rm_simD(1) [OF sim]
  have ph: "vph v t = PRead a sz (unat (read_version e)) i w" and i: "i \<le> type_size sz"
    using T pc by (simp_all add: rm_tsim_def)
  show ?thesis
  proof (cases "i < type_size sz")
    case True
    have "rm_sim L (romulus_run t s) (v\<lparr>vph := (vph v)(t := PRead a sz (unat (read_version e)) (Suc i) (add_byte (vmem v) a i w))\<rparr>)"
      by (intro rm_simI [OF sim, of _ _ t]) (use T G pc True in \<open>simp_all add: romulus_run_def rm_sims\<close>)
    then show ?thesis by (rule rm_simulated_step [OF v_byte [OF ph True]])
  next
    case False
    have "rm_sim L (romulus_run t s) v"
      by (intro rm_simI [OF sim, of _ _ t]) (use T G pc False i in \<open>simp_all add: romulus_run_def rm_sims\<close>)
    then show ?thesis by (rule rm_simulated_same)
  qed
qed

lemma rm_sim_check:
  assumes lay: "layout_ok L" and sim: "rm_sim L s v" and pc: "rm_pcs s t = RCheck a sz e w"
  shows "rm_simulated L v (romulus_run t s)"
proof -
  note T = rm_simD(3) [OF sim, of t] and G = rm_simD(1) [OF sim]
  let ?tx = "rm_txs s t"
  have ph: "vph v t = PRead a sz (unat (read_version e)) (type_size sz) w" using T pc by (simp add: rm_tsim_def)
  show ?thesis
  proof (cases "g_version_table s (version_index a) = e")
    case False
    then have r: "romulus_run t s = rm_set_pc t RToken s" using pc by (auto simp: romulus_run_def Let_def)
    let ?v = "v\<lparr>vph := (vph v)(t := PBody)\<rparr>"
    have "vstep version_index L ?v (?v\<lparr>vreads := (vreads ?v)(t := [])\<rparr>)" by (rule v_reset) simp
    moreover have "rm_sim L (romulus_run t s) (?v\<lparr>vreads := (vreads ?v)(t := [])\<rparr>)"
      unfolding r by (intro rm_simI [OF sim, of _ _ t]) (use T G pc in \<open>simp_all add: rm_sims\<close>)
    ultimately show ?thesis by (rule rm_simulated_two [OF v_drop [OF ph]])
  next
    case True
    let ?re = "\<lparr>rr_addr = a, rr_version = read_version e\<rparr>"
    have r: "romulus_run t s = rm_set_pc t RIdle (rm_add_op t (Rd a sz (return_any_type sz w))
          (rm_set_tx t (?tx\<lparr>rm_read_set := rm_read_set ?tx @ [?re]\<rparr>) (s\<lparr>rm_vals := (rm_vals s)(t := rm_vals s t @ [(sz, w)])\<rparr>)))"
      using pc True by (simp add: romulus_run_def Let_def)
    have L: "L a sz" and ok: "rm_ok L (rm_write_set ?tx)" and miss: "rm_lookup (rm_write_set ?tx) a sz = Miss" and act: "rm_active ?tx"
      and len: "length (rm_vals s t) = length (rm_read_set ?tx)"
      and ex: "explains (rm_logged ?tx (rm_vals s t)) (apply_cells (rm_cells (rm_write_set ?tx))) (rm_ops s t)"
      using T pc by (simp_all add: rm_tsim_def)
    let ?v = "v\<lparr>vph := (vph v)(t := PBody), vreads := (vreads v)(t := vreads v t @
        [\<lparr>vr_addr = a, vr_type = sz, vr_ver = unat (read_version e), vr_val = w\<rparr>])\<rparr>"
    have "rm_logged (?tx\<lparr>rm_read_set := rm_read_set ?tx @ [?re]\<rparr>) (rm_vals s t @ [(sz, w)]) = rm_logged ?tx (rm_vals s t) @ [(a, sz, w)]"
      using len by (simp add: rm_logged_def)
    with romulus_ws.explains_miss [OF lay ok L miss ex, of w]
    have "rm_sim L (romulus_run t s) ?v"
      unfolding r by (intro rm_simI [OF sim, of _ _ t]) (use T G pc act in \<open>simp_all add: rm_sims rm_read_of_def\<close>)
    then show ?thesis by (rule rm_simulated_step [OF v_read_done [OF ph refl]])
  qed
qed

subsection \<open>Lock and validation\<close>

lemma rm_sim_lock:
  assumes sim: "rm_sim L s v" and pc: "rm_pcs s t = RSpin \<or> rm_pcs s t = RExchange"
  shows "rm_sim L (romulus_run t s) v"
proof -
  note T = rm_simD(3) [OF sim, of t] and G = rm_simD(1) [OF sim]
  from pc show ?thesis
  proof
    assume "rm_pcs s t = RSpin"
    then show ?thesis
      by (cases "g_commit_lock s = 0"; intro rm_simI [OF sim, of _ _ t])
        (use T G in \<open>simp_all add: romulus_run_def rm_sims\<close>)
  next
    assume "rm_pcs s t = RExchange"
    then show ?thesis
      by (cases "g_commit_lock s = 0"; intro rm_simI [OF sim, of _ _ t])
        (use T G in \<open>simp_all add: romulus_run_def rm_sims\<close>)
  qed
qed

lemma rm_sim_writes:
  assumes sim: "rm_sim L s v" and pc: "rm_pcs s t = RWrites as"
  shows "rm_sim L (romulus_run t s) v"
proof -
  note T = rm_simD(3) [OF sim, of t] and G = rm_simD(1) [OF sim]
  have h: "g_commit_lock s \<noteq> 0" using rm_lock_held [OF sim, of t] pc by simp
  have "rm_sim L (rm_set_pc t RInvalid s) v" "rm_sim L (rm_set_pc t (RWrites bs) s) v" "rm_sim L (rm_set_pc t (RReads (rm_read_set (rm_txs s t))) s) v" for bs
    by (intro rm_simI [OF sim, of _ _ t]; (use T G pc h in \<open>simp add: rm_sims rm_valid_def\<close>))+
  then show ?thesis using pc by (cases as) (simp_all add: romulus_run_def Let_def)
qed

lemma rm_sim_reads:
  assumes sim: "rm_sim L s v" and pc: "rm_pcs s t = RReads rs"
  shows "rm_sim L (romulus_run t s) v"
proof -
  note T = rm_simD(3) [OF sim, of t] and G = rm_simD(1) [OF sim]
  have h: "g_commit_lock s \<noteq> 0" using rm_lock_held [OF sim, of t] pc by simp
  obtain ds where ds: "rm_read_set (rm_txs s t) = ds @ rs" "rm_valid (g_version_table s) ds" using T pc by (auto simp: rm_tsim_def)
  show ?thesis
  proof (cases rs)
    case Nil
    then have r: "romulus_run t s = rm_set_pc t (RBits (rm_addrs (rm_write_set (rm_txs s t)))) s" using pc by (simp add: romulus_run_def)
    show ?thesis unfolding r by (intro rm_simI [OF sim, of _ _ t]) (use T G pc h ds Nil in \<open>simp_all add: rm_sims\<close>)
  next
    case (Cons re rs')
    have bad: "rm_sim L (rm_set_pc t RInvalid s) v"
      by (intro rm_simI [OF sim, of _ _ t]) (use T G pc h in \<open>simp_all add: rm_sims\<close>)
    have "rm_sim L (rm_set_pc t (RReads rs') s) v"
      if "read_version (g_version_table s (version_index (rr_addr re))) = rr_version re"
    proof -
      have "\<exists>ds. rm_read_set (rm_txs s t) = ds @ rs' \<and> rm_valid (g_version_table s) ds"
        using ds Cons that by (intro exI [of _ "ds @ [re]"]) (simp add: rm_valid_def ball_Un)
      then show ?thesis by (intro rm_simI [OF sim, of _ _ t]) (use T G pc h in \<open>simp_all add: rm_sims\<close>)
    qed
    then show ?thesis using pc Cons bad by (simp add: romulus_run_def Let_def)
  qed
qed

lemma rm_sim_invalid:
  assumes sim: "rm_sim L s v" and pc: "rm_pcs s t = RInvalid"
  shows "rm_simulated L v (romulus_run t s)"
proof -
  note T = rm_simD(3) [OF sim, of t] and G = rm_simD(1) [OF sim]
  have ph: "vph v t = PLock" and none: "\<forall>g. vowner v g \<noteq> Some t" using T pc by (auto simp: rm_tsim_def)
  let ?v = "v\<lparr>vph := (vph v)(t := PUndo)\<rparr>"
  have "vstep version_index L ?v (?v\<lparr>vph := (vph ?v)(t := PBody), vreads := (vreads ?v)(t := [])\<rparr>)"
    using none by (intro v_undone) simp_all
  moreover have "rm_sim L (romulus_run t s) (?v\<lparr>vph := (vph ?v)(t := PBody), vreads := (vreads ?v)(t := [])\<rparr>)"
    by (intro rm_simI [OF sim, of _ _ t]) (use T G pc in \<open>simp_all add: romulus_run_def rm_sims\<close>)
  ultimately show ?thesis by (rule rm_simulated_two [OF v_fail [OF disjI1 [OF ph]]])
qed

lemma rm_sim_end:
  assumes sim: "rm_sim L s v" and pc: "rm_over (rm_pcs s t)"
  shows "rm_sim L (romulus_run t s) v"
  by (cases "rm_pcs s t"; intro rm_simI [OF sim, of _ _ t])
    (use rm_simD(3) [OF sim, of t] rm_simD(1) [OF sim] pc in
      \<open>simp_all add: romulus_run_def rm_sims rm_clear_def Let_def\<close>)

subsection \<open>Lock bits, clock, write-back and release\<close>

lemma rm_sim_bits:
  assumes sim: "rm_sim L s v" and pc: "rm_pcs s t = RBits (a # as)"
  shows "rm_simulated L v (romulus_run t s)"
proof -
  note T = rm_simD(3) [OF sim, of t] and G = rm_simD(1) [OF sim]
  let ?g = "version_index a" and ?tx = "rm_txs s t"
  have h: "g_commit_lock s \<noteq> 0" using rm_lock_held [OF sim, of t] pc by simp
  have ph: "vph v t = PLock" and val: "rm_valid (g_version_table s) (rm_read_set ?tx)" using T pc by (simp_all add: rm_tsim_def)
  obtain ds where ds: "rm_addrs (rm_write_set ?tx) = ds @ a # as" "{g. vowner v g = Some t} = version_index ` set ds"
    using T pc by (auto simp: rm_tsim_def)
  have r: "romulus_run t s = rm_set_pc t (RBits as)
      (s\<lparr>g_version_table := (g_version_table s)(?g := g_version_table s ?g OR VERSION_LOCK_BIT)\<rparr>)"
    using pc by (simp add: romulus_run_def Let_def)
  have val': "rm_valid ((g_version_table s)(?g := g_version_table s ?g OR VERSION_LOCK_BIT)) (rm_read_set ?tx)"
    using val by (auto simp: rm_valid_def)
  show ?thesis
  proof (cases "vowner v ?g = None")
    case True
    let ?v = "v\<lparr>vowner := (vowner v)(?g := Some t)\<rparr>"
    have "\<exists>ds'. ds @ a # as = ds' @ as \<and> {g. vowner ?v g = Some t} = version_index ` set ds'"
      using ds(2) by (intro exI [of _ "ds @ [a]"]) auto
    then have "rm_sim L (romulus_run t s) ?v"
      unfolding r by (intro rm_simI [OF sim, of _ _ t]) (use T G pc h ds True val' in \<open>auto simp: rm_sims\<close>)
    then show ?thesis by (rule rm_simulated_step [OF v_lock [OF ph True]])
  next
    case False
    then have o: "vowner v ?g = Some t" and lk: "entry_locked (g_version_table s ?g)"
      using rm_owner_self [OF sim, of t] pc G by (simp_all add: rm_gsim_def)
    have "\<exists>ds'. ds @ a # as = ds' @ as \<and> {g. vowner v g = Some t} = version_index ` set ds'"
      using ds(2) o by (intro exI [of _ "ds @ [a]"]) auto
    then have "rm_sim L (romulus_run t s) v"
      unfolding r by (intro rm_simI [OF sim, of _ _ t]) (use T G pc h ds val' lk in \<open>simp_all add: rm_sims\<close>)
    then show ?thesis by (rule rm_simulated_same)
  qed
qed

text \<open>The protocol validates all reads at once where nothing stands against it.\<close>

lemma v_validate_all:
  assumes "vph v t = PVal 0"
    and "\<forall>r \<in> set (vreads v t). vver v (idx (vr_addr r)) = vr_ver r \<and> (vowner v (idx (vr_addr r)) = None \<or> vowner v (idx (vr_addr r)) = Some t)"
  shows "n \<le> length (vreads v t) \<Longrightarrow> (vstep idx L)\<^sup>*\<^sup>* v (v\<lparr>vph := (vph v)(t := PVal n)\<rparr>)"
proof (induction n)
  case 0
  have "v\<lparr>vph := (vph v)(t := PVal 0)\<rparr> = v" using assms(1) by (intro vstate.equality) (simp_all add: fun_upd_idem)
  then show ?case by (simp only: rtranclp.rtrancl_refl)
next
  case (Suc n)
  let ?v = "v\<lparr>vph := (vph v)(t := PVal n)\<rparr>"
  have "vreads v t ! n \<in> set (vreads v t)" using Suc.prems by simp
  then have "vstep idx L ?v (?v\<lparr>vph := (vph ?v)(t := PVal (Suc n))\<rparr>)"
    using Suc.prems assms(2) by (intro v_validate [where r = "vreads v t ! n"]) auto
  moreover have "?v\<lparr>vph := (vph ?v)(t := PVal (Suc n))\<rparr> = v\<lparr>vph := (vph v)(t := PVal (Suc n))\<rparr>" by simp
  ultimately show ?case using Suc by (metis Suc_leD rtranclp.rtrancl_into_rtrancl)
qed

lemma log_insert_last: "\<forall>d \<in> set l. ve_ver d < ve_ver c \<Longrightarrow> log_insert c l = l @ [c]"
  by (auto simp: log_insert_def filter_id_conv filter_empty_conv)

lemma rm_sim_clock:
  assumes sim: "rm_sim L s v" and inv: "vinv version_index L m0 v" and pc: "rm_pcs s t = RBits []"
    and b: "unat (g_global_clock s) + 1 < 2 ^ 63"
  shows "rm_simulated L v (romulus_run t s)"
proof -
  note T = rm_simD(3) [OF sim, of t] and G = rm_simD(1) [OF sim]
  let ?tx = "rm_txs s t" and ?ts = "g_global_clock s + 1"
  let ?c = "\<lparr>ve_ver = unat ?ts, ve_reads = rm_logged ?tx (rm_vals s t), ve_cells = rm_cells (rm_write_set ?tx), ve_info = rm_ops s t\<rparr>"
  let ?v1 = "v\<lparr>vclock := Suc (vclock v), vcv := (vcv v)(t := Suc (vclock v)), vph := (vph v)(t := PVal 0)\<rparr>"
  let ?v2 = "?v1\<lparr>vph := (vph ?v1)(t := PVal (length (vreads ?v1 t)))\<rparr>"
  let ?v3 = "?v2\<lparr>vph := (vph ?v2)(t := PWB (cell_bytes (vcells ?v2 t))),
      vlog := log_insert \<lparr>ve_ver = vcv ?v2 t, ve_reads = read_cells (vreads ?v2 t), ve_cells = vcells ?v2 t, ve_info = rm_ops s t\<rparr> (vlog ?v2)\<rparr>"
  have h: "g_commit_lock s \<noteq> 0" using rm_lock_held [OF sim, of t] pc by simp
  have t: "vph v t = PLock" "vcells v t = rm_cells (rm_write_set ?tx)" "vreads v t = map2 rm_read_of (rm_read_set ?tx) (rm_vals s t)"
    "length (rm_vals s t) = length (rm_read_set ?tx)" "rm_valid (g_version_table s) (rm_read_set ?tx)"
    and own: "{g. vowner v g = Some t} = version_index ` set (rm_addrs (rm_write_set ?tx))" and act: "rm_active ?tx"
    and ex: "explains (rm_logged ?tx (rm_vals s t)) (apply_cells (rm_cells (rm_write_set ?tx))) (rm_ops s t)"
    using T pc by (simp_all add: rm_tsim_def rm_committing_def)
  have u: "unat ?ts = Suc (unat (g_global_clock s))" using b by (simp add: unat_word_ariths)
  have "vowner v (version_index (fst c)) = Some t" if "c \<in> set (rm_cells (rm_write_set ?tx))" for c
  proof -
    have "fst c \<in> set (map fst (rm_cells (rm_write_set ?tx)))" using that unfolding set_map by (rule imageI)
    then have "version_index (fst c) \<in> {g. vowner v g = Some t}" unfolding own rm_cells_fst by (rule imageI)
    then show ?thesis by simp
  qed
  then have "\<forall>c \<in> set (vcells v t). vowner v (version_index (fst c)) = Some t" using t(2) by simp
  from v_inc [OF t(1) this] have 1: "vstep version_index L v ?v1" .
  have "\<forall>r \<in> set (vreads v t). vver v (version_index (vr_addr r)) = vr_ver r"
    using t(3,5) G by (auto simp: rm_read_of_def rm_gsim_def rm_valid_def dest!: set_zip_leftD)
  moreover have "vowner v g = None \<or> vowner v g = Some t" for g
    using rm_owner_self [OF sim, of t g] pc by (cases "vowner v g = None") simp_all
  ultimately have 2: "(vstep version_index L)\<^sup>*\<^sup>* ?v1 ?v2" by (intro v_validate_all) simp_all
  have 3: "vstep version_index L ?v2 ?v3" by (rule v_commit) simp_all
  have "\<forall>d \<in> set (rm_log s). ve_ver d < ve_ver ?c"
    using vinvD(1) [OF inv] G u by (auto simp: inv_clock_def rm_gsim_def less_Suc_eq_le)
  then have lg: "vlog ?v3 = rm_log s @ [?c]"
    using G u t by (simp add: rm_gsim_def read_cells_rm log_insert_last)
  have r: "romulus_run t s = rm_set_pc t (RWriteBack ?ts (rm_bytes (rm_write_set ?tx))) (s\<lparr>g_global_clock := ?ts, rm_log := rm_log s @ [?c]\<rparr>)"
    using pc by (simp add: romulus_run_def Let_def rm_logged_def)
  have "rm_sim L (romulus_run t s) ?v3"
  proof (rule rm_simI [OF sim, of _ _ t])
    show "rm_gsim (romulus_run t s) ?v3" using G u ex lg unfolding r by (simp add: rm_gsim_def rm_upd)
    show "rm_tsims L (romulus_run t s) ?v3 t"
      using T G t own act u b pc unfolding r by (simp add: rm_sims rm_bytes_def)
  qed (use pc h in \<open>simp_all add: r rm_upd\<close>)
  moreover have "(vstep version_index L)\<^sup>*\<^sup>* v ?v3"
    using 1 2 3 by (meson converse_rtranclp_into_rtranclp rtranclp.rtrancl_into_rtrancl)
  ultimately show ?thesis unfolding rm_simulated_def by blast
qed

lemma rm_sim_write_back:
  assumes sim: "rm_sim L s v" and pc: "rm_pcs s t = RWriteBack c bs"
  shows "rm_simulated L v (romulus_run t s)"
proof (cases bs)
  note T = rm_simD(3) [OF sim, of t] and G = rm_simD(1) [OF sim]
  have h: "g_commit_lock s \<noteq> 0" using rm_lock_held [OF sim, of t] pc by simp
  have ph: "vph v t = PWB bs" using T pc by (simp add: rm_tsim_def)
  {
    case Nil
    have "rm_sim L (romulus_run t s) (v\<lparr>vph := (vph v)(t := PRel)\<rparr>)"
      by (intro rm_simI [OF sim, of _ _ t]) (use T G pc h Nil in \<open>simp_all add: romulus_run_def rm_sims\<close>)
    then show ?thesis by (rule rm_simulated_step [OF v_written [OF ph [unfolded Nil]]])
  next
    case (Cons p bs')
    obtain a b where p: "p = (a, b)" by (cases p)
    have "rm_sim L (romulus_run t s) (v\<lparr>vmem := (vmem v)(a := b), vph := (vph v)(t := PWB bs')\<rparr>)"
      by (intro rm_simI [OF sim, of _ _ t]) (use T G pc h Cons p in \<open>simp_all add: romulus_run_def rm_sims\<close>)
    then show ?thesis by (rule rm_simulated_step [OF v_write [OF ph [unfolded Cons p]]])
  }
qed

lemma rm_sim_publish:
  assumes sim: "rm_sim L s v" and pc: "rm_pcs s t = RPublish c as"
  shows "rm_simulated L v (romulus_run t s)"
proof (cases as)
  note T = rm_simD(3) [OF sim, of t] and G = rm_simD(1) [OF sim]
  let ?tx = "rm_txs s t"
  have h: "g_commit_lock s \<noteq> 0" using rm_lock_held [OF sim, of t] pc by simp
  have ph: "vph v t = PRel" and cv: "vcv v t = unat c" "unat c < 2 ^ 63" using T pc by (auto simp: rm_tsim_def)
  obtain ds where ds: "rm_addrs (rm_write_set ?tx) = ds @ as" "\<forall>a \<in> set ds. g_version_table s (version_index a) = make_version_entry c"
    "{g. vowner v g = Some t} = version_index ` set (ds @ as) - version_index ` set ds"
    using T pc by (auto simp: rm_tsim_def)
  {
    case Nil
    have none: "\<forall>g. vowner v g \<noteq> Some t" using ds(3) Nil by auto
    have "vstep version_index L v (v\<lparr>vph := (vph v)(t := PBody), vreads := (vreads v)(t := [])\<rparr>)"
      using none ph by (intro v_undone) simp_all
    moreover have "rm_sim L (romulus_run t s) (v\<lparr>vph := (vph v)(t := PBody), vreads := (vreads v)(t := [])\<rparr>)"
      by (intro rm_simI [OF sim, of _ _ t]) (use T G pc Nil none in \<open>simp_all add: romulus_run_def rm_sims\<close>)
    ultimately show ?thesis by (rule rm_simulated_step)
  next
    case (Cons a as')
    let ?g = "version_index a"
    let ?vt = "(g_version_table s)(?g := make_version_entry c)"
    have r: "romulus_run t s = rm_set_pc t (RPublish c as') (s\<lparr>g_version_table := ?vt\<rparr>)"
      using pc Cons by (simp add: romulus_run_def)
    have vt: "\<forall>b \<in> set (ds @ [a]). ?vt (version_index b) = make_version_entry c" using ds(2) by auto
    show ?thesis
    proof (cases "?g \<in> version_index ` set ds")
      case True
      then have same: "?vt = g_version_table s" using ds(2) by (intro ext) auto
      have "version_index ` set (ds @ as) - version_index ` set ds = version_index ` set ((ds @ [a]) @ as') - version_index ` set (ds @ [a])"
        using True Cons by auto
      then have "\<exists>ds'. ds @ as = ds' @ as' \<and> (\<forall>b \<in> set ds'. g_version_table s (version_index b) = make_version_entry c) \<and>
          {g. vowner v g = Some t} = version_index ` set (ds' @ as') - version_index ` set ds'"
        using ds(3) Cons vt same by (intro exI [of _ "ds @ [a]"]) simp
      then have "rm_sim L (romulus_run t s) v"
        unfolding r same by (intro rm_simI [OF sim, of _ _ t]) (use T G pc h cv ds(1) in \<open>simp_all add: rm_sims\<close>)
      then show ?thesis by (rule rm_simulated_same)
    next
      case False
      then have o: "vowner v ?g = Some t" using ds(3) Cons by auto
      let ?v = "v\<lparr>vowner := (vowner v)(?g := None), vver := (vver v)(?g := vcv v t)\<rparr>"
      have "{g. vowner ?v g = Some t} = {g. vowner v g = Some t} - {?g}" by auto
      then have "{g. vowner ?v g = Some t} = version_index ` set ((ds @ [a]) @ as') - version_index ` set (ds @ [a])"
        using ds(3) Cons by auto
      then have ex: "\<exists>ds'. ds @ as = ds' @ as' \<and> (\<forall>b \<in> set ds'. ?vt (version_index b) = make_version_entry c) \<and>
          {g. vowner ?v g = Some t} = version_index ` set (ds' @ as') - version_index ` set ds'"
        using Cons vt by (intro exI [of _ "ds @ [a]"]) simp
      have "rm_sim L (romulus_run t s) ?v"
      proof (rule rm_simI [OF sim, of _ _ t])
        show "rm_gsim (romulus_run t s) ?v" using G cv unfolding r by (simp add: rm_gsim_def rm_upd)
        show "rm_tsims L (romulus_run t s) ?v t" using T pc cv ds(1) ex unfolding r by (simp add: rm_sims)
      qed (use o pc h in \<open>simp_all add: r rm_upd\<close>)
      then show ?thesis by (rule rm_simulated_step [OF v_release [OF ph o]])
    qed
  }
qed

section \<open>Every execution is simulated\<close>

lemma rm_sim_step:
  assumes lay: "layout_ok L" and tr: "\<forall>a sz. L a sz \<longrightarrow> tracked a" and sim: "rm_sim L s v" and inv: "vinv version_index L m0 v"
    and st: "romulus_step tracked L s ev = Some s'" and b: "unat (g_global_clock s) + 1 < 2 ^ 63"
  shows "rm_simulated L v s'"
proof (cases ev)
  case (MCall t c)
  have pc: "rm_pcs s t = RIdle" and ok: "rm_call_ok L (rm_live s t) c" and s': "s' = romulus_call tracked t c s"
    using st MCall by (auto split: if_splits)
  show ?thesis
  proof (cases c)
    case (MRead a sz)
    then show ?thesis using rm_simulated_same [OF rm_sim_read_call [OF lay sim pc, of a sz tracked]] ok tr s' by auto
  next
    case (MWrite a val sz)
    then show ?thesis using rm_simulated_same [OF rm_sim_write_call [OF lay sim pc, of a sz val]] ok s' by auto
  qed (use rm_sim_threads [OF sim pc] rm_simulated_same [OF rm_sim_begin [OF sim pc]] rm_sim_commit_call [OF sim pc] in \<open>simp_all add: s'\<close>)
next
  case (MRun t)
  have pc: "rm_pcs s t \<noteq> RIdle" and s': "s' = romulus_run t s" using st MRun by (auto split: if_splits)
  show ?thesis
  proof (cases "rm_pcs s t")
    case (RBits as)
    then show ?thesis using rm_sim_bits [OF sim] rm_sim_clock [OF sim inv _ b] by (cases as) (simp_all add: s')
  qed (use pc rm_sim_entry [OF sim] rm_sim_data [OF sim] rm_sim_check [OF lay sim] rm_simulated_same [OF rm_sim_lock [OF sim]]
      rm_simulated_same [OF rm_sim_writes [OF sim]] rm_simulated_same [OF rm_sim_reads [OF sim]] rm_sim_invalid [OF sim]
      rm_sim_write_back [OF sim] rm_sim_publish [OF sim] rm_simulated_same [OF rm_sim_end [OF sim, of t]] in \<open>simp_all add: s'\<close>)
qed

lemma rm_sim_init: "rm_sim L (romulus_init m) (vinit m 1)"
  by (simp add: rm_sim_def rm_gsim_def rm_excl_def rm_tsims_def rm_tsim_def rm_committing_def romulus_init_def vinit_def)

lemma rm_clock_step: "romulus_step tracked L s ev = Some s' \<Longrightarrow> unat (g_global_clock s') \<le> Suc (unat (g_global_clock s))"
proof -
  have "unat (c + 1) \<le> Suc (unat c)" for c :: u64 by (simp add: unat_word_ariths)
  moreover have "g_global_clock (romulus_call tracked t c s) = g_global_clock s" for t c
    by (cases c) (auto simp: rm_init_thread_def rm_exit_thread_def rm_begin_def rm_read_call_def rm_write_call_def rm_commit_call_def
        rm_upd Let_def split: ws_result.split)
  moreover have "g_global_clock (rm_read_step t pc s) = g_global_clock s" for t pc
    by (cases "(t, pc, s)" rule: rm_read_step.cases) (simp_all add: rm_upd Let_def)
  moreover have "g_global_clock (rm_validate_step t pc s) = g_global_clock s" for t pc
    by (cases "(t, pc, s)" rule: rm_validate_step.cases) (simp_all add: rm_upd Let_def)
  moreover have "g_global_clock (rm_write_step t pc s) = g_global_clock s \<or> g_global_clock (rm_write_step t pc s) = g_global_clock s + 1" for t pc
    by (cases "(t, pc, s)" rule: rm_write_step.cases) (simp_all add: rm_upd Let_def)
  moreover have "g_global_clock (rm_end_step t pc s) = g_global_clock s" for t pc
    by (cases "(t, pc, s)" rule: rm_end_step.cases) (simp_all add: rm_upd Let_def)
  moreover have "romulus_run t s \<in> {s, rm_read_step t (rm_pcs s t) s, rm_validate_step t (rm_pcs s t) s,
      rm_write_step t (rm_pcs s t) s, rm_end_step t (rm_pcs s t) s}" for t
    unfolding romulus_run_def by (cases "rm_pcs s t") simp_all
  ultimately have "g_global_clock (romulus_run t s) = g_global_clock s \<or> g_global_clock (romulus_run t s) = g_global_clock s + 1" for t
    by (metis insert_iff empty_iff)
  then show "romulus_step tracked L s ev = Some s' \<Longrightarrow> ?thesis"
    using \<open>\<And>c. unat (c + 1) \<le> Suc (unat c)\<close> \<open>\<And>t c. g_global_clock (romulus_call tracked t c s) = g_global_clock s\<close>
    by (cases ev) (auto split: if_splits, metis le_SucI order_refl)
qed

lemma rm_exec_sim:
  assumes lay: "layout_ok L" and tr: "\<forall>a sz. L a sz \<longrightarrow> tracked a"
  shows "romulus_exec tracked L evs s = Some s' \<Longrightarrow> rm_sim L s v \<Longrightarrow> vinv version_index L m0 v \<Longrightarrow>
    unat (g_global_clock s) + length evs < 2 ^ 63 \<Longrightarrow> \<exists>v'. (vstep version_index L)\<^sup>*\<^sup>* v v' \<and> rm_sim L s' v'"
proof (induction evs arbitrary: s v)
  case (Cons ev evs)
  obtain s1 where s1: "romulus_step tracked L s ev = Some s1" "romulus_exec tracked L evs s1 = Some s'"
    using Cons.prems(1) by (auto split: option.splits)
  obtain v1 where v1: "(vstep version_index L)\<^sup>*\<^sup>* v v1" "rm_sim L s1 v1"
    using rm_sim_step [OF lay tr Cons.prems(2,3) s1(1)] Cons.prems(4) by (auto simp: rm_simulated_def)
  have "vinv version_index L m0 v1" using vinv_steps [OF lay v1(1) Cons.prems(3)] .
  then obtain v' where "(vstep version_index L)\<^sup>*\<^sup>* v1 v'" "rm_sim L s' v'"
    using Cons.IH [OF s1(2) v1(2)] Cons.prems(4) rm_clock_step [OF s1(1)] by auto
  then show ?case using v1(1) rtranclp_trans by metis
qed auto

lemma rm_exec_init_sim:
  assumes "layout_ok L" "\<forall>a sz. L a sz \<longrightarrow> tracked a" "romulus_exec tracked L evs (romulus_init m) = Some s" "length evs < 2 ^ 62"
  shows "\<exists>v. (vstep version_index L)\<^sup>*\<^sup>* (vinit m 1) v \<and> rm_sim L s v \<and> vinv version_index L m v"
proof -
  have "\<exists>v. (vstep version_index L)\<^sup>*\<^sup>* (vinit m 1) v \<and> rm_sim L s v"
    by (rule rm_exec_sim [OF assms(1,2,3) rm_sim_init vinv_init]) (use assms(4) in \<open>simp add: romulus_init_def\<close>)
  then show ?thesis using vinv_steps [OF assms(1) _ vinv_init] by blast
qed

section \<open>Concrete runs\<close>

definition rm_two_cells :: "addr \<Rightarrow> ValueType \<Rightarrow> bool" where
  "rm_two_cells a t \<longleftrightarrow> (a = 0x800000 \<or> a = 0x800008) \<and> t = UINT8"

lemma rm_two_cells_ok: "layout_ok rm_two_cells"
  by (simp add: layout_ok_def rm_two_cells_def disjoint_range_def)

text \<open>Thread 0 writes both cells and commits; thread 1, which had read before, fails its commit and repeats.\<close>

definition romulus_trace :: "romulus_event list" where
  "romulus_trace =
    [MCall 1 MInit, MCall 0 MInit, MCall 1 MBegin, MCall 1 (MRead 0x800000 UINT8)] @ replicate 4 (MRun 1) @
    [MCall 1 (MWrite 0x800000 1 UINT8), MCall 0 MBegin, MCall 0 (MRead 0x800008 UINT8)] @ replicate 4 (MRun 0) @
    [MCall 0 (MWrite 0x800008 1 UINT8), MCall 0 (MWrite 0x800000 1 UINT8), MCall 0 MCommit] @ replicate 17 (MRun 0) @
    [MCall 1 MCommit] @ replicate 6 (MRun 1) @
    [MCall 1 MBegin, MCall 1 (MRead 0x800000 UINT8)] @ replicate 4 (MRun 1) @
    [MCall 1 (MWrite 0x800000 2 UINT8), MCall 1 MCommit] @ replicate 13 (MRun 1)"

definition romulus_demo :: romulus_state where
  "romulus_demo = the (romulus_exec (\<lambda>_. True) rm_two_cells romulus_trace (romulus_init (\<lambda>_. 0)))"

lemma romulus_demo_runs:
  "case romulus_exec (\<lambda>_. True) rm_two_cells romulus_trace (romulus_init (\<lambda>_. 0)) of None \<Rightarrow> False
   | Some s \<Rightarrow> map ve_ver (rm_log s) = [2, 3] \<and> rm_mem s 0x800000 = 2 \<and> rm_mem s 0x800008 = 1 \<and>
       \<not> entry_locked (g_version_table s (version_index 0x800000)) \<and> rm_tm_abort_count s = 1"
  by code_simp

lemma romulus_demo_props:
  "romulus_exec (\<lambda>_. True) rm_two_cells romulus_trace (romulus_init (\<lambda>_. 0)) = Some romulus_demo"
  "map ve_ver (rm_log romulus_demo) = [2, 3]" "\<not> entry_locked (g_version_table romulus_demo (version_index 0x800000))"
  using romulus_demo_runs by (auto simp: romulus_demo_def split: option.splits)

lemma romulus_trace_length: "length romulus_trace < 2 ^ 62"
  by (simp add: romulus_trace_def)

text \<open>A reader between whose two reads a writer commits.\<close>

definition romulus_skew :: "romulus_event list" where
  "romulus_skew =
    [MCall 1 MInit, MCall 0 MInit, MCall 1 MBegin, MCall 1 (MRead 0x800000 UINT8)] @ replicate 4 (MRun 1) @
    [MCall 0 MBegin, MCall 0 (MWrite 0x800000 1 UINT8), MCall 0 (MWrite 0x800008 1 UINT8), MCall 0 MCommit] @ replicate 16 (MRun 0) @
    [MCall 1 (MRead 0x800008 UINT8)] @ replicate 4 (MRun 1) @ [MCall 1 MCommit, MRun 1]"

section \<open>Theorems\<close>

text \<open>
  C14. Romulus is serializable for update transactions. Take any interleaving of any number of threads at the
  granularity of single accesses to the clock, the version table, the commit lock and the data bytes.
  The committed update transactions, run one after the other in the order in which they
  incremented the clock, return to the program exactly the values it read, and they leave in every cell
  whose table entry is unlocked the value that shared memory holds. (For programs that keep the
  layout discipline and executions of fewer than \<open>2^62\<close> steps, so that versions fit their 63 bits.)
\<close>

theorem romulus_serializable:
  assumes "layout_ok L" and "\<forall>a sz. L a sz \<longrightarrow> tracked a"
    and "romulus_exec tracked L evs (romulus_init m) = Some s" and "length evs < 2 ^ 62"
  shows "\<exists>m'. seq_run (concat (map ve_info (rm_log s))) m = Some m' \<and>
    (\<forall>a sz. L a sz \<and> \<not> entry_locked (g_version_table s (version_index a)) \<longrightarrow>
      read_value_from_addr (rm_mem s) a sz = read_value_from_addr m' a sz)"
proof -
  obtain v where v: "rm_sim L s v" "vinv version_index L m v" using rm_exec_init_sim [OF assms] by blast
  note G = rm_simD(1) [OF v(1)] and D = vinvD [OF v(2)]
  have l: "vlog v = rm_log s" using G by (simp add: rm_gsim_def)
  have "seq_run (concat (map ve_info (rm_log s))) m = Some (final_mem m (rm_log s))"
    using serial_run [of m "rm_log s" "\<lambda>ps. ps"] D(11) G l by (simp add: rm_gsim_def)
  moreover have "read_value_from_addr (rm_mem s) a sz = read_value_from_addr (final_mem m (rm_log s)) a sz"
    if "L a sz" "\<not> entry_locked (g_version_table s (version_index a))" for a sz
  proof -
    have "vowner v (version_index a) = None" using G that(2) by (simp add: rm_gsim_def)
    then have "quiet v (version_index a)" by (simp add: quiet_def)
    then show ?thesis using D(9) that(1) G l by (simp add: inv_mem_def rm_gsim_def)
  qed
  ultimately show ?thesis by blast
qed

theorem romulus_serializable_witness:
  "\<exists>m'. seq_run (concat (map ve_info (rm_log romulus_demo))) (\<lambda>_. 0) = Some m' \<and>
     read_value_from_addr (rm_mem romulus_demo) 0x800000 UINT8 = read_value_from_addr m' 0x800000 UINT8 \<and>
     length (rm_log romulus_demo) = 2"
proof -
  have "length (rm_log romulus_demo) = 2" using arg_cong [OF romulus_demo_props(2), of length] by simp
  then show ?thesis
    using romulus_serializable [OF rm_two_cells_ok _ romulus_demo_props(1) romulus_trace_length] romulus_demo_props(3)
    by (auto simp: rm_two_cells_def)
qed

text \<open>
  C15. The commit lock of Romulus excludes: between its acquisition and its release no other thread is in that
  part of \<open>commit\<close>, the lock is then set, and a table entry carries its lock bit only while some
  thread is there.
\<close>

theorem romulus_commit_lock:
  assumes "layout_ok L" and "\<forall>a sz. L a sz \<longrightarrow> tracked a"
    and "romulus_exec tracked L evs (romulus_init m) = Some s" and "length evs < 2 ^ 62"
  shows "(rm_holds (rm_pcs s t) \<longrightarrow> g_commit_lock s \<noteq> 0 \<and> (\<forall>u. rm_holds (rm_pcs s u) \<longrightarrow> u = t)) \<and>
    (entry_locked (g_version_table s g) \<longrightarrow> (\<exists>u. rm_holds (rm_pcs s u)))"
proof -
  obtain v where v: "rm_sim L s v" using rm_exec_init_sim [OF assms] by blast
  have "\<exists>u. rm_holds (rm_pcs s u)" if "entry_locked (g_version_table s g)"
    using rm_owner_holds [OF v] rm_simD(1) [OF v] that by (auto simp: rm_gsim_def)
  then show ?thesis using rm_simD(2) [OF v] unfolding rm_excl_def by metis
qed

theorem romulus_commit_lock_witness:
  "case romulus_exec (\<lambda>_. True) rm_two_cells (take 24 romulus_trace) (romulus_init (\<lambda>_. 0)) of None \<Rightarrow> False
   | Some s \<Rightarrow> rm_holds (rm_pcs s 0) \<and> g_commit_lock s \<noteq> 0 \<and> \<not> rm_holds (rm_pcs s 1)"
proof -
  let ?x = "romulus_exec (\<lambda>_. True) rm_two_cells (take 24 romulus_trace) (romulus_init (\<lambda>_. 0))"
  have r: "case ?x of None \<Rightarrow> False | Some s \<Rightarrow> rm_holds (rm_pcs s 0)" by code_simp
  then obtain s where s: "?x = Some s" "rm_holds (rm_pcs s 0)" by (cases ?x) simp_all
  have "length (take 24 romulus_trace) < 2 ^ 62" by simp
  from romulus_commit_lock [OF rm_two_cells_ok _ s(1) this, of 0] s show ?thesis by auto
qed

text \<open>
  Romulus commits read-only transactions without validation, and a read compares the version of its cell
  only with itself, not with the timestamp of the transaction. So they are not serializable: here the
  only writer sets both cells to 1, and a read-only transaction commits having seen the first cell before
  the writer and the second after it.
\<close>

theorem romulus_read_only_skew:
  "case romulus_exec (\<lambda>_. True) rm_two_cells romulus_skew (romulus_init (\<lambda>_. 0)) of None \<Rightarrow> False
   | Some s \<Rightarrow> rm_ro s = [[Rd 0x800000 UINT8 0, Rd 0x800008 UINT8 1]] \<and>
       map ve_info (rm_log s) = [[Wr 0x800000 UINT8 1, Wr 0x800008 UINT8 1]] \<and> rm_tm_abort_count s = 0"
  by code_simp

end
