(* ===== verification/TM_TscTM.thy ===== *)
theory TM_TscTM
  imports TM_TL2_Safety
begin

text \<open>
  The TSC-TM backend, \<open>tsc_tm/tsc_tm.hpp\<close>: TL2 with the cycle counter of the processor in place of
  the global clock. The data structures, the write set and its search are the text of \<open>tl2.hpp\<close>
  and are the definitions of that backend here; what differs is the state (no clock, the versions
  seen at the acquisition of the guards), the time stamp of a commit, the release of the guards and \<open>abort_tx\<close>,
  which here releases guards. What \<open>tm_timestamp\<close> returns is part of the events, so that nothing is
  assumed of the counters of different cores. The ghost field \<open>sc_turn\<close> counts the time stamps
  taken by commits, \<open>sc_turn_of\<close> is the number of the stamp of a thread.
\<close>

section \<open>State\<close>

datatype tsc_pc = SPc tl2_pc | SAbort "WriteSetEntry list"

record tsc_state =
  sc_mem :: mem
  sc_guards :: "nat \<Rightarrow> u64"
  sc_abort_count :: u64
  sc_txs :: "nat \<Rightarrow> TL2_Transaction"
  sc_held :: "nat \<Rightarrow> nat \<Rightarrow> bool"
  sc_acq_version :: "nat \<Rightarrow> nat \<Rightarrow> u64"
  sc_released :: "nat \<Rightarrow> nat \<Rightarrow> bool"
  sc_pcs :: "nat \<Rightarrow> tsc_pc"
  sc_failed :: bool
  sc_turn :: nat
  sc_turn_of :: "nat \<Rightarrow> nat"
  sc_vals :: "nat \<Rightarrow> u64 list"
  sc_ops :: "nat \<Rightarrow> op list"
  sc_log :: "op list ventry list"
  sc_ro :: "op list list"

definition sc_set_tx :: "nat \<Rightarrow> TL2_Transaction \<Rightarrow> tsc_state \<Rightarrow> tsc_state" where
  "sc_set_tx t tx s = s\<lparr>sc_txs := (sc_txs s)(t := tx)\<rparr>"

definition sc_goto :: "nat \<Rightarrow> tsc_pc \<Rightarrow> tsc_state \<Rightarrow> tsc_state" where
  "sc_goto t pc s = s\<lparr>sc_pcs := (sc_pcs s)(t := pc)\<rparr>"

definition sc_set_pc :: "nat \<Rightarrow> tl2_pc \<Rightarrow> tsc_state \<Rightarrow> tsc_state" where
  "sc_set_pc t pc s = sc_goto t (SPc pc) s"

definition sc_add_op :: "nat \<Rightarrow> op \<Rightarrow> tsc_state \<Rightarrow> tsc_state" where
  "sc_add_op t p s = s\<lparr>sc_ops := (sc_ops s)(t := sc_ops s t @ [p])\<rparr>"

definition tsc_init :: "mem \<Rightarrow> tsc_state" where
  "tsc_init m = \<lparr>sc_mem = m, sc_guards = (\<lambda>_. 0), sc_abort_count = 0, sc_txs = (\<lambda>_. tl_fresh),
     sc_held = (\<lambda>_ _. False), sc_acq_version = (\<lambda>_ _. 0), sc_released = (\<lambda>_ _. False), sc_pcs = (\<lambda>_. SPc TIdle),
     sc_failed = False, sc_turn = 1, sc_turn_of = (\<lambda>_. 0), sc_vals = (\<lambda>_. []), sc_ops = (\<lambda>_. []), sc_log = [], sc_ro = []\<rparr>"

text \<open>The writes and the search for own writes, the text of \<open>tl2.hpp\<close>.\<close>

definition tsc_write_impl :: "WriteSetEntry list \<times> u64 \<Rightarrow> addr \<Rightarrow> any_type_t \<Rightarrow> DataType \<Rightarrow> WriteSetEntry list \<times> u64" where
  "tsc_write_impl = write_impl"

definition tsc_lookup :: "WriteSetEntry list \<times> u64 \<Rightarrow> addr \<Rightarrow> DataType \<Rightarrow> ws_result" where
  "tsc_lookup = tl_lookup"

definition release_version :: "u64 \<Rightarrow> u64 \<Rightarrow> u64" where
  "release_version commit_ts acq_version = (if commit_ts > acq_version + 1 then commit_ts else acq_version + 1)"

section \<open>Calls\<close>

definition sc_begin :: "nat \<Rightarrow> u64 \<Rightarrow> tsc_state \<Rightarrow> tsc_state" where
  "sc_begin t ts s =
    sc_set_tx t ((sc_txs s t)\<lparr>start_version := ts, tl_active := True, tl_aborted := False,
        tl_write_set := [], tl_read_set := [], bloom_filter := 0\<rparr>)
      (s\<lparr>sc_vals := (sc_vals s)(t := []), sc_ops := (sc_ops s)(t := [])\<rparr>)"

definition sc_read_call :: "(addr \<Rightarrow> bool) \<Rightarrow> nat \<Rightarrow> addr \<Rightarrow> DataType \<Rightarrow> tsc_state \<Rightarrow> tsc_state" where
  "sc_read_call tracked t a dt s =
    (let tx = sc_txs s t
     in if \<not> tl_active tx then s\<lparr>sc_failed := True\<rparr>
        else if \<not> tracked a then sc_add_op t (Rd a dt (read_value_from_addr (sc_mem s) a dt)) s
        else (case tsc_lookup (tl_write_set tx, bloom_filter tx) a dt of
                Hit v \<Rightarrow> sc_add_op t (Rd a dt v) s
              | _ \<Rightarrow> sc_set_pc t (TGuard a dt) s))"

definition sc_write_call :: "(addr \<Rightarrow> bool) \<Rightarrow> nat \<Rightarrow> addr \<Rightarrow> any_type_t \<Rightarrow> DataType \<Rightarrow> tsc_state \<Rightarrow> tsc_state" where
  "sc_write_call tracked t a val dt s =
    (let tx = sc_txs s t
     in if \<not> tl_active tx then s\<lparr>sc_failed := True\<rparr>
        else if \<not> tracked a
        then sc_add_op t (Wr a dt val) (s\<lparr>sc_mem := write_value_to_addr (sc_mem s) a val dt\<rparr>)
        else (case tsc_write_impl (tl_write_set tx, bloom_filter tx) a val dt of
                (ws, bf) \<Rightarrow> sc_add_op t (Wr a dt val) (sc_set_tx t (tx\<lparr>tl_write_set := ws, bloom_filter := bf\<rparr>) s)))"

definition sc_commit_call :: "nat \<Rightarrow> tsc_state \<Rightarrow> tsc_state" where
  "sc_commit_call t s =
    (let tx = sc_txs s t; ws = sorted_ws (tl_write_set tx)
     in if \<not> tl_active tx then s
        else if tl_write_set tx = []
        then sc_set_tx t (tx\<lparr>tl_active := False\<rparr>) (s\<lparr>sc_ro := sc_ro s @ [sc_ops s t]\<rparr>)
        else sc_set_pc t (TLock ws) (sc_set_tx t (tx\<lparr>tl_write_set := ws\<rparr>)
          (s\<lparr>sc_held := (sc_held s)(t := \<lambda>_. False), sc_acq_version := (sc_acq_version s)(t := \<lambda>_. 0)\<rparr>)))"

text \<open>\<open>abort_tx\<close>: the counter, then \<open>release_guard\<close> for every entry of the write set.\<close>

definition sc_abort_call :: "nat \<Rightarrow> tsc_state \<Rightarrow> tsc_state" where
  "sc_abort_call t s = sc_goto t (SAbort (tl_write_set (sc_txs s t))) (s\<lparr>sc_abort_count := sc_abort_count s + 1\<rparr>)"

fun sc_abort_step :: "nat \<Rightarrow> WriteSetEntry list \<Rightarrow> tsc_state \<Rightarrow> tsc_state" where
  "sc_abort_step t (e # es) s =
    (let idx = get_guard_idx (e_addr e)
     in sc_goto t (SAbort es) (s\<lparr>sc_guards := (sc_guards s)(idx := guard_unlock (sc_guards s idx))\<rparr>))"
| "sc_abort_step t [] s =
    sc_set_pc t TIdle (sc_set_tx t ((sc_txs s t)\<lparr>tl_active := False, tl_aborted := True\<rparr>) s)"

fun tsc_call :: "(addr \<Rightarrow> bool) \<Rightarrow> nat \<Rightarrow> tl2_op \<Rightarrow> u64 \<Rightarrow> tsc_state \<Rightarrow> tsc_state" where
  "tsc_call tracked t LBegin ts s = sc_begin t ts s"
| "tsc_call tracked t (LRead a dt) ts s = sc_read_call tracked t a dt s"
| "tsc_call tracked t (LWrite a val dt) ts s = sc_write_call tracked t a val dt s"
| "tsc_call tracked t LCommit ts s = sc_commit_call t s"
| "tsc_call tracked t LAbort ts s = sc_abort_call t s"

section \<open>Steps of the operations\<close>

fun sc_read_step :: "nat \<Rightarrow> tl2_pc \<Rightarrow> tsc_state \<Rightarrow> tsc_state" where
  "sc_read_step t (TGuard a dt) s =
    (let tx = sc_txs s t; idx = get_guard_idx a; guard = sc_guards s idx
     in sc_set_pc t (TData a dt 0 0)
          (sc_set_tx t (tx\<lparr>tl_read_set := tl_read_set tx @ [\<lparr>guard_addr = idx, data_addr = a,
             re_version = guard_version guard, re_dtype = dt, locked_by_me = guard_locked guard\<rparr>]\<rparr>) s))"
| "sc_read_step t (TData a dt i v) s =
    (if i < type_size dt then sc_set_pc t (TData a dt (Suc i) (add_byte (sc_mem s) a i v)) s
     else sc_set_pc t TIdle (sc_add_op t (Rd a dt (from_word dt (to_word dt v)))
       (s\<lparr>sc_vals := (sc_vals s)(t := sc_vals s t @ [v])\<rparr>)))"
| "sc_read_step t _ s = s"

text \<open>
  The lock loop with \<open>try_acquire_guard\<close>, which notes the version it saw, the time stamp, and the loop
  that gives the guards back after a failure. \<open>kTscWaitCycles\<close> is 0, so there is no wait after the
  time stamp.
\<close>

fun sc_lock_step :: "nat \<Rightarrow> u64 \<Rightarrow> tl2_pc \<Rightarrow> tsc_state \<Rightarrow> tsc_state" where
  "sc_lock_step t ts (TLock (e # es)) s =
    (let idx = get_guard_idx (e_addr e); guard = sc_guards s idx
     in if sc_held s t idx then sc_set_pc t (TLock es) s
        else if guard_locked guard then sc_set_pc t (TUndo (tl_write_set (sc_txs s t))) s
        else sc_set_pc t (TCas guard (e # es)) s)"
| "sc_lock_step t ts (TCas guard (e # es)) s =
    (let idx = get_guard_idx (e_addr e)
     in if sc_guards s idx = guard
        then sc_set_pc t (TLock es) (s\<lparr>sc_guards := (sc_guards s)(idx := guard_lock guard),
          sc_held := (sc_held s)(t := (sc_held s t)(idx := True)),
          sc_acq_version := (sc_acq_version s)(t := (sc_acq_version s t)(idx := guard_version guard))\<rparr>)
        else if guard_locked (sc_guards s idx) then sc_set_pc t (TUndo (tl_write_set (sc_txs s t))) s
        else sc_set_pc t (TCas (sc_guards s idx) (e # es)) s)"
| "sc_lock_step t ts (TLock []) s =
    (let tx = sc_txs s t
     in sc_set_pc t (TValidate (tl_read_set tx)) (sc_set_tx t (tx\<lparr>commit_version := ts\<rparr>)
          (s\<lparr>sc_turn := Suc (sc_turn s), sc_turn_of := (sc_turn_of s)(t := Suc (sc_turn s))\<rparr>)))"
| "sc_lock_step t ts (TUndo (e # es)) s =
    (let idx = get_guard_idx (e_addr e)
     in if sc_held s t idx
        then sc_set_pc t (TUndo es) (s\<lparr>sc_guards := (sc_guards s)(idx := guard_unlock (sc_guards s idx)),
          sc_held := (sc_held s)(t := (sc_held s t)(idx := False))\<rparr>)
        else sc_set_pc t (TUndo es) s)"
| "sc_lock_step t ts (TUndo []) s =
    sc_set_pc t TIdle (sc_set_tx t ((sc_txs s t)\<lparr>tl_active := False, tl_aborted := True\<rparr>) s)"
| "sc_lock_step t ts _ s = s"

fun sc_validate_step :: "nat \<Rightarrow> tl2_pc \<Rightarrow> tsc_state \<Rightarrow> tsc_state" where
  "sc_validate_step t (TValidate (re # rs)) s =
    (let current_guard = sc_guards s (guard_addr re); our_lock = sc_held s t (guard_addr re)
     in if guard_locked current_guard \<and> \<not> our_lock \<or> guard_version current_guard \<noteq> re_version re
        then sc_set_pc t (TUndo (tl_write_set (sc_txs s t))) s
        else sc_set_pc t (TValidate rs) s)"
| "sc_validate_step t (TValidate []) s =
    (let tx = sc_txs s t
     in sc_set_pc t (TWriteBack (tl_bytes (tl_write_set tx)))
          (s\<lparr>sc_log := sc_log s @ [\<lparr>ve_ver = sc_turn_of s t,
             ve_reads = map2 (\<lambda>re v. (data_addr re, re_dtype re, v)) (tl_read_set tx) (sc_vals s t),
             ve_cells = map cell_of (tl_write_set tx), ve_info = sc_ops s t\<rparr>]\<rparr>))"
| "sc_validate_step t _ s = s"

text \<open>Write-back, and \<open>release_guard_with_version\<close> once for each guard.\<close>

fun sc_write_step :: "nat \<Rightarrow> tl2_pc \<Rightarrow> tsc_state \<Rightarrow> tsc_state" where
  "sc_write_step t (TWriteBack ((a, b) # bs)) s =
    sc_set_pc t (TWriteBack bs) (s\<lparr>sc_mem := (sc_mem s)(a := b)\<rparr>)"
| "sc_write_step t (TWriteBack []) s =
    sc_set_pc t (TRelease (tl_write_set (sc_txs s t))) (s\<lparr>sc_released := (sc_released s)(t := \<lambda>_. False)\<rparr>)"
| "sc_write_step t (TRelease (e # es)) s =
    (let idx = get_guard_idx (e_addr e)
     in if sc_released s t idx then sc_set_pc t (TRelease es) s
        else sc_set_pc t (TRelease es)
          (s\<lparr>sc_released := (sc_released s)(t := (sc_released s t)(idx := True)),
             sc_guards := (sc_guards s)(idx := versioned_guard (release_version (commit_version (sc_txs s t)) (sc_acq_version s t idx)))\<rparr>))"
| "sc_write_step t (TRelease []) s =
    sc_set_pc t TIdle (sc_set_tx t ((sc_txs s t)\<lparr>tl_active := False\<rparr>) s)"
| "sc_write_step t _ s = s"

definition tsc_run_pc :: "nat \<Rightarrow> u64 \<Rightarrow> tl2_pc \<Rightarrow> tsc_state \<Rightarrow> tsc_state" where
  "tsc_run_pc t ts pc s =
    (case pc of
       TIdle \<Rightarrow> s
     | TGuard a dt \<Rightarrow> sc_read_step t pc s
     | TData a dt i v \<Rightarrow> sc_read_step t pc s
     | TValidate rs \<Rightarrow> sc_validate_step t pc s
     | TWriteBack bs \<Rightarrow> sc_write_step t pc s
     | TRelease es \<Rightarrow> sc_write_step t pc s
     | _ \<Rightarrow> sc_lock_step t ts pc s)"

definition tsc_run :: "nat \<Rightarrow> u64 \<Rightarrow> tsc_state \<Rightarrow> tsc_state" where
  "tsc_run t ts s = (case sc_pcs s t of SPc pc \<Rightarrow> tsc_run_pc t ts pc s | SAbort es \<Rightarrow> sc_abort_step t es s)"

section \<open>Executions\<close>

text \<open>An event carries the value \<open>tm_timestamp\<close> returns in it.\<close>

datatype tsc_event = SCall nat tl2_op u64 | SRun nat u64

fun tsc_step :: "(addr \<Rightarrow> bool) \<Rightarrow> (addr \<Rightarrow> ValueType \<Rightarrow> bool) \<Rightarrow> tsc_state \<Rightarrow> tsc_event \<Rightarrow> tsc_state option" where
  "tsc_step tracked L s (SCall t c ts) =
    (if \<not> sc_failed s \<and> sc_pcs s t = SPc TIdle \<and> tl_call_ok L c then Some (tsc_call tracked t c ts s) else None)"
| "tsc_step tracked L s (SRun t ts) =
    (if \<not> sc_failed s \<and> sc_pcs s t \<noteq> SPc TIdle then Some (tsc_run t ts s) else None)"

fun tsc_exec :: "(addr \<Rightarrow> bool) \<Rightarrow> (addr \<Rightarrow> ValueType \<Rightarrow> bool) \<Rightarrow> tsc_event list \<Rightarrow> tsc_state \<Rightarrow> tsc_state option" where
  "tsc_exec tracked L [] s = Some s"
| "tsc_exec tracked L (ev # evs) s =
    (case tsc_step tracked L s ev of None \<Rightarrow> None | Some s' \<Rightarrow> tsc_exec tracked L evs s')"

end
