(* ===== verification/TM_TscTM_Safety.thy ===== *)
theory TM_TscTM_Safety
  imports TM_TscTM
begin

text \<open>
  As long as no transaction is aborted from outside, TSC-TM runs in lockstep with TL2: at every moment
  the two differ only in the versions of the guards, and a version that TSC-TM noted is the current
  one of its guard exactly when the one that TL2 noted is. So TSC-TM is serializable whatever
  the cycle counters return. An abort releases guards of other transactions and breaks this.
\<close>

section \<open>Versions of the two backends\<close>

abbreviation (input) gv :: "(nat \<Rightarrow> u64) \<Rightarrow> nat \<Rightarrow> u64" where
  "gv gs g \<equiv> guard_version (gs g)"

text \<open>Versions noted of guard \<open>g\<close>, \<open>c\<close> by TSC-TM and \<open>d\<close> by TL2.\<close>

definition noted :: "(nat \<Rightarrow> u64) \<Rightarrow> (nat \<Rightarrow> u64) \<Rightarrow> nat \<Rightarrow> u64 \<Rightarrow> u64 \<Rightarrow> bool" where
  "noted gs us g c d \<longleftrightarrow> c \<le> gv gs g \<and> d \<le> gv us g \<and> (c = gv gs g \<longleftrightarrow> d = gv us g)"

text \<open>The guards change: each keeps its version or gets a larger one, in both backends alike.\<close>

definition both_grow :: "(nat \<Rightarrow> u64) \<Rightarrow> (nat \<Rightarrow> u64) \<Rightarrow> (nat \<Rightarrow> u64) \<Rightarrow> (nat \<Rightarrow> u64) \<Rightarrow> bool" where
  "both_grow gs us gs' us' \<longleftrightarrow>
    (\<forall>g. gv gs' g = gv gs g \<and> gv us' g = gv us g \<or> gv gs g < gv gs' g \<and> gv us g < gv us' g)"

lemma noted_now [simp]: "noted gs us g (gv gs g) (gv us g)"
  by (simp add: noted_def)

lemma noted_grow:
  assumes "both_grow gs us gs' us'" "noted gs us g c d"
  shows "noted gs' us' g c d"
proof -
  consider "gv gs' g = gv gs g" "gv us' g = gv us g" | "gv gs g < gv gs' g" "gv us g < gv us' g"
    using assms(1) unfolding both_grow_def by blast
  then show ?thesis
  proof cases
    case 2
    then have "c < gv gs' g" "d < gv us' g" using assms(2) unfolding noted_def by (auto intro: le_less_trans)
    then show ?thesis unfolding noted_def by (auto intro: less_imp_le)
  qed (use assms(2) in \<open>simp add: noted_def\<close>)
qed

lemma both_grow_same [simp]: "both_grow gs us gs us"
  by (simp add: both_grow_def)

lemma guard_word_eqI: "guard_version g = guard_version h \<Longrightarrow> guard_locked g = guard_locked h \<Longrightarrow> g = h"
proof (rule u64_eqI)
  fix k :: nat
  assume v: "guard_version g = guard_version h" and l: "guard_locked g = guard_locked h"
  show "bit g k = bit h k"
  proof (cases k)
    case (Suc j)
    have "bit (guard_version g) j = bit (guard_version h) j" using v by simp
    then show ?thesis using Suc by (simp add: guard_version_drop bit_drop_bit_eq)
  qed (use l in \<open>simp add: guard_locked_bit\<close>)
qed

section \<open>States of the two backends\<close>

definition re_tied :: "(nat \<Rightarrow> u64) \<Rightarrow> (nat \<Rightarrow> u64) \<Rightarrow> ReadSetEntry \<Rightarrow> ReadSetEntry \<Rightarrow> bool" where
  "re_tied gs us re ru \<longleftrightarrow> guard_addr re = guard_addr ru \<and> data_addr re = data_addr ru \<and> re_dtype re = re_dtype ru \<and>
    noted gs us (guard_addr re) (re_version re) (re_version ru)"

definition tx_tied :: "(nat \<Rightarrow> u64) \<Rightarrow> (nat \<Rightarrow> u64) \<Rightarrow> TL2_Transaction \<Rightarrow> TL2_Transaction \<Rightarrow> bool" where
  "tx_tied gs us tx ux \<longleftrightarrow> tl_active tx = tl_active ux \<and> tl_write_set tx = tl_write_set ux \<and>
    bloom_filter tx = bloom_filter ux \<and> list_all2 (re_tied gs us) (tl_read_set tx) (tl_read_set ux)"

fun pc_tied :: "(nat \<Rightarrow> u64) \<Rightarrow> (nat \<Rightarrow> u64) \<Rightarrow> tl2_pc \<Rightarrow> tl2_pc \<Rightarrow> bool" where
  "pc_tied gs us (TValidate rs) pu \<longleftrightarrow> (\<exists>ru. pu = TValidate ru \<and> list_all2 (re_tied gs us) rs ru)"
| "pc_tied gs us (TCas c es) pu \<longleftrightarrow> (\<exists>d e es'. es = e # es' \<and> pu = TCas d es \<and> \<not> guard_locked c \<and> \<not> guard_locked d \<and>
    noted gs us (gidx e) (guard_version c) (guard_version d))"
| "pc_tied gs us pc pu \<longleftrightarrow> pu = pc"

fun stamped :: "tl2_pc \<Rightarrow> bool" where
  "stamped (TValidate rs) \<longleftrightarrow> True"
| "stamped (TWriteBack bs) \<longleftrightarrow> True"
| "stamped (TRelease es) \<longleftrightarrow> True"
| "stamped _ \<longleftrightarrow> False"

text \<open>The versions of TSC-TM after \<open>b\<close> steps, and its time stamps, stay small.\<close>

definition below :: "nat \<Rightarrow> (nat \<Rightarrow> u64) \<Rightarrow> bool" where
  "below b gs \<longleftrightarrow> (\<forall>g. unat (gv gs g) < 2 ^ 62 + b)"

definition stamp_ok :: "u64 \<Rightarrow> bool" where
  "stamp_ok ts \<longleftrightarrow> unat ts < 2 ^ 62"

definition thread_tied :: "tsc_state \<Rightarrow> tl2_state \<Rightarrow> nat \<Rightarrow> bool" where
  "thread_tied s u t \<longleftrightarrow> tx_tied (sc_guards s) (g_guards u) (sc_txs s t) (tl_txs u t) \<and>
    (\<exists>pc. sc_pcs s t = SPc pc \<and> pc_tied (sc_guards s) (g_guards u) pc (tl_pcs u t)) \<and>
    tl_vals u t = sc_vals s t \<and> tl_ops u t = sc_ops s t \<and> held_guard u t = sc_held s t \<and> released_guard u t = sc_released s t \<and>
    (stamped (tl_pcs u t) \<longrightarrow> sc_turn_of s t = unat (commit_version (tl_txs u t))) \<and>
    (\<forall>g. owns (sc_held s t) (sc_released s t) (tl_pcs u t) g \<longrightarrow> sc_acq_version s t g = gv (sc_guards s) g) \<and>
    stamp_ok (commit_version (sc_txs s t))"

definition shared_tied :: "nat \<Rightarrow> tsc_state \<Rightarrow> tl2_state \<Rightarrow> bool" where
  "shared_tied b s u \<longleftrightarrow> tmem u = sc_mem s \<and> unat (g_clock u) = sc_turn s \<and> tl_log u = sc_log s \<and> tl_failed u = sc_failed s \<and>
    (\<forall>g. guard_locked (g_guards u g) = guard_locked (sc_guards s g)) \<and> below b (sc_guards s)"

definition tied :: "nat \<Rightarrow> tsc_state \<Rightarrow> tl2_state \<Rightarrow> bool" where
  "tied b s u \<longleftrightarrow> shared_tied b s u \<and> (\<forall>t. thread_tied s u t)"

lemma re_tied_grow: "both_grow gs us gs' us' \<Longrightarrow> re_tied gs us re ru \<Longrightarrow> re_tied gs' us' re ru"
  unfolding re_tied_def using noted_grow by metis

lemma reads_tied_grow: "both_grow gs us gs' us' \<Longrightarrow> list_all2 (re_tied gs us) rs ru \<Longrightarrow> list_all2 (re_tied gs' us') rs ru"
  by (erule list_all2_mono) (rule re_tied_grow)

lemma tx_tied_grow: "both_grow gs us gs' us' \<Longrightarrow> tx_tied gs us tx ux \<Longrightarrow> tx_tied gs' us' tx ux"
  using reads_tied_grow by (simp add: tx_tied_def)

lemma pc_tied_grow: "both_grow gs us gs' us' \<Longrightarrow> pc_tied gs us pc pu \<Longrightarrow> pc_tied gs' us' pc pu"
  by (cases pc) (auto intro: reads_tied_grow noted_grow)

text \<open>A step of thread \<open>t\<close> in both backends.\<close>

lemma tiedI:
  assumes tied: "tied b s u" and "shared_tied (Suc b) s' u'" and "thread_tied s' u' t"
    and grow: "both_grow (sc_guards s) (g_guards u) (sc_guards s') (g_guards u')"
    and oth: "\<And>r. r \<noteq> t \<Longrightarrow> sc_txs s' r = sc_txs s r \<and> sc_pcs s' r = sc_pcs s r \<and> sc_vals s' r = sc_vals s r \<and> sc_ops s' r = sc_ops s r \<and>
      sc_held s' r = sc_held s r \<and> sc_released s' r = sc_released s r \<and> sc_acq_version s' r = sc_acq_version s r \<and> sc_turn_of s' r = sc_turn_of s r \<and>
      tl_txs u' r = tl_txs u r \<and> tl_pcs u' r = tl_pcs u r \<and> tl_vals u' r = tl_vals u r \<and> tl_ops u' r = tl_ops u r \<and>
      held_guard u' r = held_guard u r \<and> released_guard u' r = released_guard u r"
    and own: "\<And>r g. r \<noteq> t \<Longrightarrow> owns (sc_held s r) (sc_released s r) (tl_pcs u r) g \<Longrightarrow> gv (sc_guards s') g = gv (sc_guards s) g"
  shows "tied (Suc b) s' u'"
proof -
  have "thread_tied s' u' r" for r
  proof (cases "r = t")
    case False
    have "thread_tied s u r" using tied by (simp add: tied_def)
    then show ?thesis
      using oth [OF False] own [OF False] tx_tied_grow [OF grow] pc_tied_grow [OF grow] by (auto simp: thread_tied_def)
  qed (use assms(3) in simp)
  then show ?thesis using assms(2) by (simp add: tied_def)
qed

lemma tiedD:
  assumes "tied b s u"
  shows "shared_tied b s u" "tx_tied (sc_guards s) (g_guards u) (sc_txs s t) (tl_txs u t)"
    "tl_vals u t = sc_vals s t" "tl_ops u t = sc_ops s t" "held_guard u t = sc_held s t" "released_guard u t = sc_released s t"
    "stamped (tl_pcs u t) \<Longrightarrow> sc_turn_of s t = unat (commit_version (tl_txs u t))"
    "owns (sc_held s t) (sc_released s t) (tl_pcs u t) g \<Longrightarrow> sc_acq_version s t g = gv (sc_guards s) g"
    "stamp_ok (commit_version (sc_txs s t))"
    "sc_pcs s t = SPc pc \<Longrightarrow> pc_tied (sc_guards s) (g_guards u) pc (tl_pcs u t)" "\<exists>pc. sc_pcs s t = SPc pc"
proof -
  have t: "shared_tied b s u" "thread_tied s u t" using assms by (simp_all add: tied_def)
  show "shared_tied b s u" by (rule t(1))
  show "sc_pcs s t = SPc pc \<Longrightarrow> pc_tied (sc_guards s) (g_guards u) pc (tl_pcs u t)" using t(2) by (auto simp: thread_tied_def)
  show "tx_tied (sc_guards s) (g_guards u) (sc_txs s t) (tl_txs u t)"
    "tl_vals u t = sc_vals s t" "tl_ops u t = sc_ops s t" "held_guard u t = sc_held s t" "released_guard u t = sc_released s t"
    "stamped (tl_pcs u t) \<Longrightarrow> sc_turn_of s t = unat (commit_version (tl_txs u t))"
    "owns (sc_held s t) (sc_released s t) (tl_pcs u t) g \<Longrightarrow> sc_acq_version s t g = gv (sc_guards s) g"
    "stamp_ok (commit_version (sc_txs s t))" "\<exists>pc. sc_pcs s t = SPc pc"
    using t(2) unfolding thread_tied_def by blast+
qed

lemma tied_idle: "tied b s u \<Longrightarrow> sc_pcs s t = SPc TIdle \<Longrightarrow> tl_pcs u t = TIdle"
  using tiedD(10) [of b s u t TIdle] by simp

lemmas sc_upd = sc_set_pc_def sc_set_tx_def sc_add_op_def sc_goto_def
lemmas tied_simps = sc_upd tl_upd shared_tied_def thread_tied_def

section \<open>Calls in lockstep\<close>

lemma below_Suc: "below b gs \<Longrightarrow> below (Suc b) gs"
  unfolding below_def by (metis add_Suc_right less_SucI)

lemma shared_tied_Suc: "shared_tied b s u \<Longrightarrow> shared_tied (Suc b) s u"
  using below_Suc by (simp add: shared_tied_def)

lemma tied_begin:
  assumes tied: "tied b s u" and pc: "sc_pcs s t = SPc TIdle"
  shows "tied (Suc b) (sc_begin t ts s) (tl_begin t u)"
proof (rule tiedI [OF tied, of _ _ t])
  note D = tiedD [OF tied]
  show "shared_tied (Suc b) (sc_begin t ts s) (tl_begin t u)"
    using shared_tied_Suc [OF D(1)] by (simp add: sc_begin_def tl_begin_def sc_upd tl_upd shared_tied_def)
  show "thread_tied (sc_begin t ts s) (tl_begin t u) t"
    using D(2,5,6,9) [of t] D(10) [OF pc] pc by (simp add: sc_begin_def tl_begin_def sc_upd tl_upd thread_tied_def tx_tied_def)
qed (simp_all add: sc_begin_def tl_begin_def sc_upd tl_upd)

lemma tied_fail: "tied b s u \<Longrightarrow> tied (Suc b) (s\<lparr>sc_failed := True\<rparr>) (u\<lparr>tl_failed := True\<rparr>)"
  using below_Suc by (simp add: tied_def thread_tied_def shared_tied_def)

lemma tied_stay: "tied b s u \<Longrightarrow> tied (Suc b) s u"
  using shared_tied_Suc by (simp add: tied_def)

lemma tied_add_op:
  assumes tied: "tied b s u"
  shows "tied (Suc b) (sc_add_op t p s) (tl_add_op t p u)"
proof (rule tiedI [OF tied, of _ _ t])
  note D = tiedD [OF tied]
  show "shared_tied (Suc b) (sc_add_op t p s) (tl_add_op t p u)"
    using shared_tied_Suc [OF D(1)] by (simp add: sc_upd tl_upd shared_tied_def)
  have "thread_tied s u t" using tied by (simp add: tied_def)
  then show "thread_tied (sc_add_op t p s) (tl_add_op t p u) t" by (simp add: sc_upd tl_upd thread_tied_def)
qed (simp_all add: sc_upd tl_upd)

lemma tied_goto:
  assumes tied: "tied b s u" and pt: "pc_tied (sc_guards s) (g_guards u) pc pu"
    and st: "stamped pu \<Longrightarrow> stamped (tl_pcs u t)"
    and ow: "\<And>g. owns (sc_held s t) (sc_released s t) pu g \<Longrightarrow> owns (sc_held s t) (sc_released s t) (tl_pcs u t) g"
  shows "tied (Suc b) (sc_set_pc t pc s) (tl_set_pc t pu u)"
proof (rule tiedI [OF tied, of _ _ t])
  note D = tiedD [OF tied]
  show "shared_tied (Suc b) (sc_set_pc t pc s) (tl_set_pc t pu u)"
    using shared_tied_Suc [OF D(1)] by (simp add: sc_upd tl_upd shared_tied_def)
  have "thread_tied s u t" using tied by (simp add: tied_def)
  then show "thread_tied (sc_set_pc t pc s) (tl_set_pc t pu u) t"
    using pt st ow by (simp add: sc_upd tl_upd thread_tied_def)
qed (simp_all add: sc_upd tl_upd)

lemma tied_read_call:
  assumes tied: "tied b s u" and pc: "sc_pcs s t = SPc TIdle" and tr: "tracked a"
  shows "tied (Suc b) (sc_read_call tracked t a dt s) (tl_read_call tracked t a dt u)"
proof -
  have x: "tx_tied (sc_guards s) (g_guards u) (sc_txs s t) (tl_txs u t)" and p: "tl_pcs u t = TIdle"
    using tiedD(2) [OF tied] tied_idle [OF tied pc] by auto
  then have e: "tl_active (tl_txs u t) = tl_active (sc_txs s t)" "tl_write_set (tl_txs u t) = tl_write_set (sc_txs s t)"
    "bloom_filter (tl_txs u t) = bloom_filter (sc_txs s t)" by (simp_all add: tx_tied_def)
  have g: "tied (Suc b) (sc_set_pc t (TGuard a dt) s) (tl_set_pc t (TGuard a dt) u)"
    using p by (intro tied_goto [OF tied]) simp_all
  show ?thesis
    using tied_fail [OF tied] tied_add_op [OF tied] g tr
    by (auto simp: sc_read_call_def tl_read_call_def e tsc_lookup_def Let_def split: ws_result.split)
qed

lemma tied_write_call:
  assumes tied: "tied b s u" and pc: "sc_pcs s t = SPc TIdle" and tr: "tracked a"
  shows "tied (Suc b) (sc_write_call tracked t a val dt s) (tl_write_call tracked t a val dt u)"
proof -
  note D = tiedD [OF tied]
  have x: "tx_tied (sc_guards s) (g_guards u) (sc_txs s t) (tl_txs u t)" and p: "tl_pcs u t = TIdle"
    using D(2) tied_idle [OF tied pc] by auto
  then have e: "tl_active (tl_txs u t) = tl_active (sc_txs s t)" "tl_write_set (tl_txs u t) = tl_write_set (sc_txs s t)"
    "bloom_filter (tl_txs u t) = bloom_filter (sc_txs s t)" by (simp_all add: tx_tied_def)
  have t: "thread_tied s u t" using tied by (simp add: tied_def)
  have "tied (Suc b) (sc_add_op t q (sc_set_tx t ((sc_txs s t)\<lparr>tl_write_set := ws, bloom_filter := bf\<rparr>) s))
      (tl_add_op t q (tl_set_tx t ((tl_txs u t)\<lparr>tl_write_set := ws, bloom_filter := bf\<rparr>) u))" for q ws bf
  proof (rule tiedI [OF tied, of _ _ t], goal_cases)
    case 1
    show ?case using shared_tied_Suc [OF D(1)] by (simp add: sc_upd tl_upd shared_tied_def)
  next
    case 2
    show ?case using t p by (simp add: sc_upd tl_upd thread_tied_def tx_tied_def)
  qed (simp_all add: sc_upd tl_upd)
  then show ?thesis
    using tied_fail [OF tied] tr by (auto simp: sc_write_call_def tl_write_call_def e tsc_write_impl_def Let_def split: prod.split)
qed

lemma tied_commit_call:
  assumes tied: "tied b s u" and pc: "sc_pcs s t = SPc TIdle"
  shows "tied (Suc b) (sc_commit_call t s) (tl_commit_call t u)"
proof -
  note D = tiedD [OF tied]
  have x: "tx_tied (sc_guards s) (g_guards u) (sc_txs s t) (tl_txs u t)" and p: "tl_pcs u t = TIdle"
    using D(2) tied_idle [OF tied pc] by auto
  then have e: "tl_active (tl_txs u t) = tl_active (sc_txs s t)" "tl_write_set (tl_txs u t) = tl_write_set (sc_txs s t)"
    by (simp_all add: tx_tied_def)
  have t: "thread_tied s u t" using tied by (simp add: tied_def)
  let ?ws = "sorted_ws (tl_write_set (sc_txs s t))"
  have 1: "tied (Suc b) (sc_set_tx t ((sc_txs s t)\<lparr>tl_active := False\<rparr>) (s\<lparr>sc_ro := sc_ro s @ [sc_ops s t]\<rparr>))
      (tl_set_tx t ((tl_txs u t)\<lparr>tl_active := False\<rparr>) (u\<lparr>tl_ro := tl_ro u @ [tl_ops u t]\<rparr>))"
    by (rule tiedI [OF tied, of _ _ t])
      (use shared_tied_Suc [OF D(1)] t p in \<open>simp_all add: tied_simps tx_tied_def\<close>)
  have 2: "tied (Suc b) (sc_set_pc t (TLock ?ws) (sc_set_tx t ((sc_txs s t)\<lparr>tl_write_set := ?ws\<rparr>)
          (s\<lparr>sc_held := (sc_held s)(t := \<lambda>_. False), sc_acq_version := (sc_acq_version s)(t := \<lambda>_. 0)\<rparr>)))
      (tl_set_pc t (TLock ?ws) (tl_set_tx t ((tl_txs u t)\<lparr>tl_write_set := ?ws\<rparr>) (u\<lparr>held_guard := (held_guard u)(t := \<lambda>_. False)\<rparr>)))"
    by (rule tiedI [OF tied, of _ _ t])
      (use shared_tied_Suc [OF D(1)] t p in \<open>simp_all add: tied_simps tx_tied_def\<close>)
  show ?thesis using 1 2 tied_stay [OF tied] by (simp add: sc_commit_call_def tl_commit_call_def e Let_def)
qed

section \<open>Steps in lockstep\<close>

lemma tsc_run_at: "sc_pcs s t = SPc pc \<Longrightarrow> tsc_run t ts s = tsc_run_pc t ts pc s"
  by (simp add: tsc_run_def)

lemma tied_guard:
  assumes tied: "tied b s u" and pc: "sc_pcs s t = SPc (TGuard a dt)"
  shows "tied (Suc b) (tsc_run t ts s) (tl2_run t u)"
proof (rule tiedI [OF tied, of _ _ t])
  note D = tiedD [OF tied]
  have p: "tl_pcs u t = TGuard a dt" using D(10) [OF pc] by simp
  note r = tsc_run_at [OF pc] tsc_run_pc_def tl2_run_def p sc_upd tl_upd Let_def
  have t: "thread_tied s u t" using tied by (simp add: tied_def)
  show "shared_tied (Suc b) (tsc_run t ts s) (tl2_run t u)"
    using shared_tied_Suc [OF D(1)] by (simp add: r shared_tied_def)
  show "thread_tied (tsc_run t ts s) (tl2_run t u) t"
    using t p by (simp add: r thread_tied_def tx_tied_def list_all2_appendI re_tied_def)
qed (use tiedD(10) [OF tied pc] in \<open>simp_all add: tsc_run_at [OF pc] tsc_run_pc_def tl2_run_def sc_upd tl_upd Let_def\<close>)

lemma tied_data:
  assumes tied: "tied b s u" and pc: "sc_pcs s t = SPc (TData a dt i v)"
  shows "tied (Suc b) (tsc_run t ts s) (tl2_run t u)"
proof -
  note D = tiedD [OF tied]
  have p: "tl_pcs u t = TData a dt i v" using D(10) [OF pc] by simp
  have m: "tmem u = sc_mem s" using D(1) by (simp add: shared_tied_def)
  have t: "thread_tied s u t" using tied by (simp add: tied_def)
  show ?thesis
  proof (cases "i < type_size dt")
    case True
    have "tied (Suc b) (sc_set_pc t (TData a dt (Suc i) (add_byte (sc_mem s) a i v)) s) (tl_set_pc t (TData a dt (Suc i) (add_byte (sc_mem s) a i v)) u)"
      using p by (intro tied_goto [OF tied]) simp_all
    then show ?thesis using True by (simp add: tsc_run_at [OF pc] tsc_run_pc_def tl2_run_def p m)
  next
    case False
    show ?thesis
      by (rule tiedI [OF tied, of _ _ t])
        (use False shared_tied_Suc [OF D(1)] t p in \<open>simp_all add: tsc_run_at [OF pc] tsc_run_pc_def tl2_run_def tied_simps\<close>)
  qed
qed

lemma tied_lock:
  assumes tied: "tied b s u" and pc: "sc_pcs s t = SPc (TLock (e # es))"
  shows "tied (Suc b) (tsc_run t ts s) (tl2_run t u)"
proof -
  note D = tiedD [OF tied]
  have p: "tl_pcs u t = TLock (e # es)" using D(10) [OF pc] by simp
  have eq: "held_guard u t = sc_held s t" "guard_locked (g_guards u (gidx e)) = guard_locked (sc_guards s (gidx e))"
    "tl_write_set (tl_txs u t) = tl_write_set (sc_txs s t)"
    using D(1) D(2,5) [of t] by (auto simp: shared_tied_def tx_tied_def)
  have "tied (Suc b) (sc_set_pc t (TLock es) s) (tl_set_pc t (TLock es) u)"
    "tied (Suc b) (sc_set_pc t (TUndo ws) s) (tl_set_pc t (TUndo ws) u)" for ws
    using p by (intro tied_goto [OF tied]; simp)+
  moreover have "tied (Suc b) (sc_set_pc t (TCas (sc_guards s (gidx e)) (e # es)) s) (tl_set_pc t (TCas (g_guards u (gidx e)) (e # es)) u)"
    if "\<not> guard_locked (sc_guards s (gidx e))" using p that eq by (intro tied_goto [OF tied]) simp_all
  ultimately show ?thesis by (simp add: tsc_run_at [OF pc] tsc_run_pc_def tl2_run_def p eq Let_def)
qed

lemma tied_cas:
  assumes tied: "tied b s u" and pc: "sc_pcs s t = SPc (TCas c es)"
  shows "tied (Suc b) (tsc_run t ts s) (tl2_run t u)"
proof -
  note D = tiedD [OF tied]
  obtain d e es' where es: "es = e # es'" and p: "tl_pcs u t = TCas d es" and un: "\<not> guard_locked c" "\<not> guard_locked d"
    and n: "noted (sc_guards s) (g_guards u) (gidx e) (guard_version c) (guard_version d)" using D(10) [OF pc] by auto
  let ?g = "gidx e"
  have eq: "guard_locked (g_guards u ?g) = guard_locked (sc_guards s ?g)" "tl_write_set (tl_txs u t) = tl_write_set (sc_txs s t)"
    using D(1) D(2) [of t] by (auto simp: shared_tied_def tx_tied_def)
  have same: "sc_guards s ?g = c \<longleftrightarrow> g_guards u ?g = d"
    using n un eq(1) guard_word_eqI unfolding noted_def by metis
  have t: "thread_tied s u t" using tied by (simp add: tied_def)
  note r = tsc_run_at [OF pc] tsc_run_pc_def tl2_run_def p es Let_def
  show ?thesis
  proof (cases "sc_guards s ?g = c")
    case True
    then have d: "g_guards u ?g = d" using same by simp
    let ?gs = "(sc_guards s)(?g := guard_lock c)" and ?us = "(g_guards u)(?g := guard_lock d)"
    have grow: "both_grow (sc_guards s) (g_guards u) ?gs ?us" using True d by (auto simp: both_grow_def)
    have "tx_tied ?gs ?us (sc_txs s t) (tl_txs u t)" using t by (intro tx_tied_grow [OF grow]) (simp add: thread_tied_def)
    then have tt: "thread_tied (tsc_run t ts s) (tl2_run t u) t"
      using t True d p un es by (auto simp: r sc_upd tl_upd thread_tied_def)
    show ?thesis
    proof (rule tiedI [OF tied _ tt])
      show "shared_tied (Suc b) (tsc_run t ts s) (tl2_run t u)"
        using shared_tied_Suc [OF D(1)] True d by (auto simp: r sc_upd tl_upd shared_tied_def below_def)
    qed (use True d grow in \<open>auto simp: r sc_upd tl_upd\<close>)
  next
    case False
    then have d: "g_guards u ?g \<noteq> d" using same by simp
    have "tied (Suc b) (sc_set_pc t (TUndo ws) s) (tl_set_pc t (TUndo ws) u)" for ws
      using p by (intro tied_goto [OF tied]; simp)
    moreover have "tied (Suc b) (sc_set_pc t (TCas (sc_guards s ?g) (e # es')) s) (tl_set_pc t (TCas (g_guards u ?g) (e # es')) u)"
      if "\<not> guard_locked (sc_guards s ?g)" using p that eq by (intro tied_goto [OF tied]) simp_all
    ultimately show ?thesis using False d by (simp add: r eq)
  qed
qed

lemma tied_stamp:
  assumes tied: "tied b s u" and pc: "sc_pcs s t = SPc (TLock [])" and ts: "stamp_ok ts" and c: "unat (g_clock u) + 1 < 2 ^ 63"
  shows "tied (Suc b) (tsc_run t ts s) (tl2_run t u)"
proof -
  note D = tiedD [OF tied]
  have p: "tl_pcs u t = TLock []" using D(10) [OF pc] by simp
  have w: "unat (g_clock u + 1) = Suc (unat (g_clock u))" using c by (simp add: unat_word_ariths)
  have t: "thread_tied s u t" using tied by (simp add: tied_def)
  show ?thesis
    by (rule tiedI [OF tied, of _ _ t])
      (use shared_tied_Suc [OF D(1)] t p w ts in \<open>simp_all add: tsc_run_at [OF pc] tsc_run_pc_def tl2_run_def tied_simps tx_tied_def Let_def\<close>)
qed

lemma tied_undo:
  assumes tied: "tied b s u" and pc: "sc_pcs s t = SPc (TUndo es)"
  shows "tied (Suc b) (tsc_run t ts s) (tl2_run t u)"
proof (cases es)
  note D = tiedD [OF tied]
  have p: "tl_pcs u t = TUndo es" using D(10) [OF pc] by simp
  have t: "thread_tied s u t" using tied by (simp add: tied_def)
  {
    case Nil
    then show ?thesis
      by (intro tiedI [OF tied, of _ _ t])
        (use shared_tied_Suc [OF D(1)] t p in \<open>simp_all add: tsc_run_at [OF pc] tsc_run_pc_def tl2_run_def tied_simps tx_tied_def\<close>)
  next
    case (Cons e es')
    let ?g = "gidx e"
    note r = tsc_run_at [OF pc] tsc_run_pc_def tl2_run_def p Cons Let_def
    have h: "held_guard u t = sc_held s t" by (rule D(5))
    show ?thesis
    proof (cases "sc_held s t ?g")
      case True
      let ?gs = "(sc_guards s)(?g := guard_unlock (sc_guards s ?g))" and ?us = "(g_guards u)(?g := guard_unlock (g_guards u ?g))"
      have grow: "both_grow (sc_guards s) (g_guards u) ?gs ?us" by (auto simp: both_grow_def)
      have "tx_tied ?gs ?us (sc_txs s t) (tl_txs u t)" using t by (intro tx_tied_grow [OF grow]) (simp add: thread_tied_def)
      then have tt: "thread_tied (tsc_run t ts s) (tl2_run t u) t"
        using t True h p Cons by (auto simp: r sc_upd tl_upd thread_tied_def)
      show ?thesis
      proof (rule tiedI [OF tied _ tt])
        show "shared_tied (Suc b) (tsc_run t ts s) (tl2_run t u)"
          using shared_tied_Suc [OF D(1)] True h by (auto simp: r sc_upd tl_upd shared_tied_def below_def)
      qed (use True h grow in \<open>auto simp: r sc_upd tl_upd\<close>)
    next
      case False
      have "tied (Suc b) (sc_set_pc t (TUndo es') s) (tl_set_pc t (TUndo es') u)" using p by (intro tied_goto [OF tied]; simp)
      then show ?thesis using False h by (simp add: r)
    qed
  }
qed

lemma tied_validate:
  assumes tied: "tied b s u" and pc: "sc_pcs s t = SPc (TValidate rs)"
  shows "tied (Suc b) (tsc_run t ts s) (tl2_run t u)"
proof -
  note D = tiedD [OF tied]
  obtain ru where p: "tl_pcs u t = TValidate ru" and rs: "list_all2 (re_tied (sc_guards s) (g_guards u)) rs ru" using D(10) [OF pc] by auto
  have t: "thread_tied s u t" using tied by (simp add: tied_def)
  note r = tsc_run_at [OF pc] tsc_run_pc_def tl2_run_def p Let_def
  show ?thesis
  proof (cases rs)
    case Nil
    then have ru: "ru = []" using rs by simp
    have rd: "list_all2 (re_tied (sc_guards s) (g_guards u)) (tl_read_set (sc_txs s t)) (tl_read_set (tl_txs u t))"
      using D(2) [of t] by (simp add: tx_tied_def)
    have "map2 (\<lambda>re v. (data_addr re, re_dtype re, v)) xs vs = map2 (\<lambda>re v. (data_addr re, re_dtype re, v)) ys vs"
      if "list_all2 (re_tied gs us) xs ys" for xs ys vs gs us
      using that by (induction xs ys arbitrary: vs rule: list_all2_induct) (simp, case_tac vs, auto simp: re_tied_def)
    note mp = this [OF rd, of "sc_vals s t"]
    have turn: "sc_turn_of s t = unat (commit_version (tl_txs u t))" using D(7) [of t] p by simp
    have eq: "tl_write_set (tl_txs u t) = tl_write_set (sc_txs s t)" using D(2) [of t] by (simp add: tx_tied_def)
    show ?thesis
    proof (rule tiedI [OF tied, of _ _ t])
      show "shared_tied (Suc b) (tsc_run t ts s) (tl2_run t u)"
        using shared_tied_Suc [OF D(1)] by (simp add: r ru Nil tied_simps eq turn mp D(3,4))
      show "thread_tied (tsc_run t ts s) (tl2_run t u) t" using t p by (simp add: r ru Nil tied_simps eq)
    qed (simp_all add: r ru Nil sc_upd tl_upd)
  next
    case (Cons re rs')
    then obtain rv ru' where ru: "ru = rv # ru'" and re: "re_tied (sc_guards s) (g_guards u) re rv"
      and rs': "list_all2 (re_tied (sc_guards s) (g_guards u)) rs' ru'" using rs by (auto simp: list_all2_Cons1)
    have eq: "held_guard u t = sc_held s t" "guard_locked (g_guards u (guard_addr re)) = guard_locked (sc_guards s (guard_addr re))"
      "tl_write_set (tl_txs u t) = tl_write_set (sc_txs s t)" "guard_addr rv = guard_addr re"
      using D(1) D(2,5) [of t] re by (auto simp: shared_tied_def tx_tied_def re_tied_def)
    have ver: "gv (sc_guards s) (guard_addr re) = re_version re \<longleftrightarrow> gv (g_guards u) (guard_addr re) = re_version rv"
      using re unfolding re_tied_def noted_def by metis
    have "tied (Suc b) (sc_set_pc t (TUndo ws) s) (tl_set_pc t (TUndo ws) u)" for ws
      using p by (intro tied_goto [OF tied]; simp)
    moreover have "tied (Suc b) (sc_set_pc t (TValidate rs') s) (tl_set_pc t (TValidate ru') u)"
      using p rs' by (intro tied_goto [OF tied]) simp_all
    ultimately show ?thesis using ver by (simp add: r Cons ru eq)
  qed
qed

lemma tied_write_back:
  assumes tied: "tied b s u" and pc: "sc_pcs s t = SPc (TWriteBack bs)"
  shows "tied (Suc b) (tsc_run t ts s) (tl2_run t u)"
proof -
  note D = tiedD [OF tied]
  have p: "tl_pcs u t = TWriteBack bs" using D(10) [OF pc] by simp
  have t: "thread_tied s u t" using tied by (simp add: tied_def)
  show ?thesis
  proof (cases bs)
    case Nil
    then show ?thesis
      by (intro tiedI [OF tied, of _ _ t])
        (use shared_tied_Suc [OF D(1)] t p in \<open>simp_all add: tsc_run_at [OF pc] tsc_run_pc_def tl2_run_def tied_simps tx_tied_def\<close>)
  next
    case (Cons q bs')
    then show ?thesis
      by (cases q; intro tiedI [OF tied, of _ _ t])
        (use shared_tied_Suc [OF D(1)] t p in \<open>simp_all add: tsc_run_at [OF pc] tsc_run_pc_def tl2_run_def tied_simps\<close>)
  qed
qed

text \<open>The release: the new version is larger in both backends.\<close>

lemma release_version_grows:
  assumes "stamp_ok ts" "unat c + 1 < 2 ^ 63"
  shows "c < release_version ts c" "unat (release_version ts c) < 2 ^ 63" "unat (release_version ts c) < max (2 ^ 62) (unat c + 2)"
proof -
  have u: "unat (c + 1) = Suc (unat c)" using assms(2) by (simp add: unat_word_ariths)
  show "c < release_version ts c" using u by (auto simp: release_version_def word_less_nat_alt)
  show "unat (release_version ts c) < 2 ^ 63" using u assms by (auto simp: release_version_def stamp_ok_def)
  show "unat (release_version ts c) < max (2 ^ 62) (unat c + 2)" using u assms by (auto simp: release_version_def stamp_ok_def)
qed

lemma tied_release:
  assumes tied: "tied b s u" and pc: "sc_pcs s t = SPc (TRelease es)" and b: "b < 2 ^ 61"
    and sim: "sim L u v" and inv: "vinv get_guard_idx L m0 v"
  shows "tied (Suc b) (tsc_run t ts s) (tl2_run t u)"
proof (cases es)
  note D = tiedD [OF tied]
  have p: "tl_pcs u t = TRelease es" using D(10) [OF pc] by simp
  have t: "thread_tied s u t" using tied by (simp add: tied_def)
  {
    case Nil
    then show ?thesis
      by (intro tiedI [OF tied, of _ _ t])
        (use shared_tied_Suc [OF D(1)] t p in \<open>simp_all add: tsc_run_at [OF pc] tsc_run_pc_def tl2_run_def tied_simps tx_tied_def\<close>)
  next
    case (Cons e es')
    let ?g = "gidx e"
    note r = tsc_run_at [OF pc] tsc_run_pc_def tl2_run_def p Cons Let_def
    have h: "released_guard u t = sc_released s t" "held_guard u t = sc_held s t" by (rule D(6), rule D(5))
    show ?thesis
    proof (cases "sc_released s t ?g")
      case True
      have "tied (Suc b) (sc_set_pc t (TRelease es') s) (tl_set_pc t (TRelease es') u)" using p by (intro tied_goto [OF tied]; simp)
      then show ?thesis using True h by (simp add: r)
    next
      case False
      let ?c = "release_version (commit_version (sc_txs s t)) (sc_acq_version s t ?g)" and ?d = "commit_version (tl_txs u t)"
      let ?gs = "(sc_guards s)(?g := versioned_guard ?c)" and ?us = "(g_guards u)(?g := versioned_guard ?d)"
      note T = simD(2) [OF sim, of t] and G = simD(1) [OF sim]
      have "suffix_of (e # es') (tl_write_set (tl_txs u t)) {e. released_guard u t (gidx e)}"
        "set (tl_write_set (tl_txs u t)) \<subseteq> {e. held_guard u t (gidx e)}" and cv: "vcv v t = unat ?d" "unat ?d < 2 ^ 63"
        and ph: "vph v t = PRel" using T p Cons by (simp_all add: tsim_def)
      then have own: "owns (held_guard u t) (released_guard u t) (tl_pcs u t) ?g" using False h p by (auto simp: suffix_of_def)
      then have vo: "vowner v ?g = Some t" using own_iff [OF sim] by simp
      then have "vver v ?g < vcv v t" using vinvD(2) [OF inv] ph unfolding inv_owner_def by (metis iswb.simps(2))
      then have d: "gv (g_guards u) ?g < ?d" using G cv by (simp add: gsim_def word_less_nat_alt)
      have acq: "sc_acq_version s t ?g = gv (sc_guards s) ?g" using D(8) [of t ?g] own h by simp
      have bnd: "unat (gv (sc_guards s) ?g) < 2 ^ 62 + b" using D(1) by (simp add: shared_tied_def below_def)
      have "unat (gv (sc_guards s) ?g) + 1 < 2 ^ 63" using bnd b by simp
      note c = release_version_grows [OF D(9) this, of t, folded acq]
      have grow: "both_grow (sc_guards s) (g_guards u) ?gs ?us" using c(1,2) d cv(2) acq by (auto simp: both_grow_def)
      have "tx_tied ?gs ?us (sc_txs s t) (tl_txs u t)" using t by (intro tx_tied_grow [OF grow]) (simp add: thread_tied_def)
      then have tt: "thread_tied (tsc_run t ts s) (tl2_run t u) t"
        using t False h p Cons by (auto simp: r sc_upd tl_upd thread_tied_def)
      have new: "unat ?c < 2 ^ 62 + Suc b" using c(3) bnd by (simp add: acq)
      have "below b (sc_guards s)" using D(1) by (simp add: shared_tied_def)
      from below_Suc [OF this] have "below (Suc b) ?gs" using new c(2) by (simp add: below_def)
      then have st: "shared_tied (Suc b) (tsc_run t ts s) (tl2_run t u)"
        using D(1) False h by (simp add: r sc_upd tl_upd shared_tied_def)
      show ?thesis
      proof (rule tiedI [OF tied st tt])
        fix q g
        assume q: "q \<noteq> t" "owns (sc_held s q) (sc_released s q) (tl_pcs u q) g"
        then have "vowner v g = Some q" using own_iff [OF sim, of g q] D(5,6) [of q] by simp
        then have "g \<noteq> ?g" using vo q(1) by auto
        then show "gv (sc_guards (tsc_run t ts s)) g = gv (sc_guards s) g" using False by (simp add: r sc_upd)
      qed (use False h grow in \<open>auto simp: r sc_upd tl_upd\<close>)
    qed
  }
qed

section \<open>Executions in lockstep\<close>

fun tl2_event_of :: "tsc_event \<Rightarrow> tl2_event" where
  "tl2_event_of (SCall t c ts) = LCall t c"
| "tl2_event_of (SRun t ts) = LRun t"

fun stamp_of :: "tsc_event \<Rightarrow> u64" where
  "stamp_of (SCall t c ts) = ts"
| "stamp_of (SRun t ts) = ts"

definition is_abort :: "tsc_event \<Rightarrow> bool" where
  "is_abort ev \<longleftrightarrow> (\<exists>t ts. ev = SCall t LAbort ts)"

lemma tied_init: "tied 0 (tsc_init m) (tl2_init m)"
  by (simp add: tied_def shared_tied_def thread_tied_def tsc_init_def tl2_init_def tx_tied_def tl_fresh_def below_def stamp_ok_def guard_version_def)

lemma tied_step:
  assumes tr: "\<forall>a dt. L a dt \<longrightarrow> tracked a" and tied: "tied b s u" and st: "tsc_step tracked L s ev = Some s'"
    and b: "b < 2 ^ 61" and c: "unat (g_clock u) + 1 < 2 ^ 63" and ts: "stamp_ok (stamp_of ev)" and na: "\<not> is_abort ev"
    and sim: "sim L u v" and inv: "vinv get_guard_idx L m0 v"
  shows "\<exists>u'. tl2_step tracked L u (tl2_event_of ev) = Some u' \<and> tied (Suc b) s' u'"
proof (cases ev)
  case (SCall t cl w)
  have pc: "sc_pcs s t = SPc TIdle" and ok: "tl_call_ok L cl" "\<not> sc_failed s" and s': "s' = tsc_call tracked t cl w s"
    using st SCall by (auto split: if_splits)
  have fl: "tl_failed u = sc_failed s" using tiedD(1) [OF tied] by (simp add: shared_tied_def)
  have "tied (Suc b) s' (tl2_call tracked t cl u)"
    using tied_begin [OF tied pc] tied_read_call [OF tied pc] tied_write_call [OF tied pc] tied_commit_call [OF tied pc] na SCall ok tr s'
    by (cases cl) (auto simp: is_abort_def)
  then show ?thesis using SCall ok fl tied_idle [OF tied pc] by simp
next
  case (SRun t w)
  have run: "sc_pcs s t \<noteq> SPc TIdle" "\<not> sc_failed s" and s': "s' = tsc_run t w s" using st SRun by (auto split: if_splits)
  have fl: "tl_failed u = sc_failed s" using tiedD(1) [OF tied] by (simp add: shared_tied_def)
  obtain pc where pc: "sc_pcs s t = SPc pc" using tiedD(11) [OF tied] by blast
  have w: "stamp_ok w" using ts SRun by simp
  have "tied (Suc b) s' (tl2_run t u)"
  proof (cases pc)
    case (TLock es)
    then show ?thesis using tied_lock [OF tied] tied_stamp [OF tied _ w c] pc by (cases es) (simp_all add: s')
  qed (use run pc tied_guard [OF tied] tied_data [OF tied] tied_cas [OF tied] tied_undo [OF tied] tied_validate [OF tied] tied_write_back [OF tied]
      tied_release [OF tied _ b sim inv] in \<open>simp_all add: s'\<close>)
  moreover have "tl_pcs u t \<noteq> TIdle" using tiedD(10) [OF tied pc] run pc by (cases pc) auto
  ultimately show ?thesis using SRun run fl by simp
qed

lemma tsc_exec_snoc: "tsc_exec tracked L (evs @ [ev]) s = (case tsc_exec tracked L evs s of None \<Rightarrow> None | Some s' \<Rightarrow> tsc_step tracked L s' ev)"
  by (induction evs arbitrary: s) (auto split: option.splits)

lemma tl2_exec_snoc: "tl2_exec tracked L (evs @ [ev]) s = (case tl2_exec tracked L evs s of None \<Rightarrow> None | Some s' \<Rightarrow> tl2_step tracked L s' ev)"
  by (induction evs arbitrary: s) (auto split: option.splits)

lemma tied_exec:
  assumes lay: "layout_ok L" and tr: "\<forall>a dt. L a dt \<longrightarrow> tracked a"
  shows "tsc_exec tracked L evs (tsc_init m) = Some s \<Longrightarrow> length evs < 2 ^ 61 \<Longrightarrow>
    \<forall>ev \<in> set evs. stamp_ok (stamp_of ev) \<and> \<not> is_abort ev \<Longrightarrow>
    \<exists>u. tl2_exec tracked L (map tl2_event_of evs) (tl2_init m) = Some u \<and> tied (length evs) s u \<and> unat (g_clock u) \<le> Suc (length evs)"
proof (induction evs arbitrary: s rule: rev_induct)
  case Nil
  then show ?case using tied_init [of m] by (simp add: tl2_init_def)
next
  case (snoc ev evs)
  obtain s1 where s1: "tsc_exec tracked L evs (tsc_init m) = Some s1" "tsc_step tracked L s1 ev = Some s"
    using snoc.prems(1) by (auto simp: tsc_exec_snoc split: option.splits)
  obtain u1 where u1: "tl2_exec tracked L (map tl2_event_of evs) (tl2_init m) = Some u1" "tied (length evs) s1 u1"
    "unat (g_clock u1) \<le> Suc (length evs)"
    using snoc.IH [OF s1(1)] snoc.prems(2,3) by auto
  obtain v where v: "sim L u1 v" "vinv get_guard_idx L m v"
    using exec_init_sim [OF lay tr u1(1)] snoc.prems(2) by auto
  obtain u where u: "tl2_step tracked L u1 (tl2_event_of ev) = Some u" "tied (Suc (length evs)) s u"
    using tied_step [OF tr u1(2) s1(2) _ _ _ _ v] snoc.prems(2,3) u1(3) by auto
  obtain v' where v': "(vstep get_guard_idx L)\<^sup>=\<^sup>= v v'" "sim L u v'"
    using sim_step [OF lay tr v u(1)] u1(3) snoc.prems(2) by (auto simp: simulated_def)
  have "vclock v' \<le> Suc (vclock v)" using v'(1) vclock_step by auto
  then have "unat (g_clock u) \<le> Suc (unat (g_clock u1))" using simD(1) [OF v'(2)] simD(1) [OF v(1)] by (simp add: gsim_def)
  then show ?case using u u1 by (auto simp: tl2_exec_snoc)
qed

section \<open>Concrete runs\<close>

text \<open>The run of two conflicting updates of TL2, on cores whose counters disagree: thread 1 commits last with the smaller time stamp.\<close>

definition tsc_trace :: "tsc_event list" where
  "tsc_trace = map (\<lambda>ev. case ev of LCall t c \<Rightarrow> SCall t c (if t = 0 then 9 else 3) | LRun t \<Rightarrow> SRun t (if t = 0 then 9 else 3)) tl2_trace"

definition tsc_demo :: tsc_state where
  "tsc_demo = the (tsc_exec (\<lambda>_. True) two_cells tsc_trace (tsc_init (\<lambda>_. 0)))"

lemma tsc_demo_runs:
  "case tsc_exec (\<lambda>_. True) two_cells tsc_trace (tsc_init (\<lambda>_. 0)) of None \<Rightarrow> False
   | Some s \<Rightarrow> map ve_ver (sc_log s) = [2, 4] \<and> sc_mem s 0x200000 = 2 \<and>
       guard_version (sc_guards s (get_guard_idx 0x200000)) = 10 \<and> \<not> guard_locked (sc_guards s (get_guard_idx 0x200000))"
  by code_simp

lemma tsc_demo_props:
  "tsc_exec (\<lambda>_. True) two_cells tsc_trace (tsc_init (\<lambda>_. 0)) = Some tsc_demo"
  "map ve_ver (sc_log tsc_demo) = [2, 4]" "\<not> guard_locked (sc_guards tsc_demo (get_guard_idx 0x200000))"
  using tsc_demo_runs by (auto simp: tsc_demo_def split: option.splits)

lemma tsc_trace_ok: "length tsc_trace < 2 ^ 61" "\<forall>ev \<in> set tsc_trace. stamp_ok (stamp_of ev) \<and> \<not> is_abort ev"
  by (simp_all add: tsc_trace_def tl2_trace_def stamp_ok_def is_abort_def)

text \<open>
  Threads 0 and 1 increment the same cell. While thread 0 is about to write back, thread 2, which has written
  the cell too, aborts.
\<close>

definition tsc_steal :: "tsc_event list" where
  "tsc_steal =
    [SCall 0 LBegin 1, SCall 0 (LRead 0x200000 UINT8) 1] @ replicate 3 (SRun 0 2) @
    [SCall 0 (LWrite 0x200000 1 UINT8) 3, SCall 0 LCommit 3] @ replicate 5 (SRun 0 4) @
    [SCall 2 LBegin 5, SCall 2 (LWrite 0x200000 9 UINT8) 5, SCall 2 LAbort 5, SRun 2 5, SRun 2 5] @
    [SCall 1 LBegin 6, SCall 1 (LRead 0x200000 UINT8) 6] @ replicate 3 (SRun 1 6) @
    [SCall 1 (LWrite 0x200000 1 UINT8) 7, SCall 1 LCommit 7] @ replicate 9 (SRun 1 8) @ replicate 4 (SRun 0 9)"

section \<open>Theorems\<close>

text \<open>
  C16. TSC-TM is serializable for update transactions whatever the cycle counters return: the values of
  \<open>tm_timestamp\<close> may repeat or run backwards from one core to the other. The committed update transactions,
  run one after the other in the order in which they took their time stamps, return to the program
  exactly the values it read, and they leave in every cell whose guard is free the value that shared
  memory holds. (For programs that keep the layout discipline and do not abort transactions
  explicitly, executions of fewer than \<open>2^61\<close> steps and time stamps below \<open>2^62\<close>, so that versions fit
  their 63 bits.)
\<close>

theorem tsc_serializable:
  assumes "layout_ok L" and "\<forall>a dt. L a dt \<longrightarrow> tracked a"
    and "tsc_exec tracked L evs (tsc_init m) = Some s" and "length evs < 2 ^ 61"
    and "\<forall>ev \<in> set evs. stamp_ok (stamp_of ev) \<and> \<not> is_abort ev"
  shows "\<exists>m'. seq_run (concat (map ve_info (sort_key ve_ver (sc_log s)))) m = Some m' \<and>
    (\<forall>a dt. L a dt \<and> \<not> guard_locked (sc_guards s (get_guard_idx a)) \<longrightarrow>
      read_value_from_addr (sc_mem s) a dt = read_value_from_addr m' a dt)"
proof -
  obtain u where u: "tl2_exec tracked L (map tl2_event_of evs) (tl2_init m) = Some u" "tied (length evs) s u"
    using tied_exec [OF assms] by blast
  have e: "tl_log u = sc_log s" "tmem u = sc_mem s" "guard_locked (g_guards u g) = guard_locked (sc_guards s g)" for g
    using tiedD(1) [OF u(2)] by (simp_all add: shared_tied_def)
  obtain v where v: "sim L u v" "vinv get_guard_idx L m v" using exec_init_sim [OF assms(1,2) u(1)] assms(4) by auto
  note G = simD(1) [OF v(1)] and D = vinvD [OF v(2)]
  let ?l = "sort_key ve_ver (sc_log s)"
  have l: "vlog v = ?l" using G e by (simp add: gsim_def)
  have "seq_run (concat (map ve_info ?l)) m = Some (final_mem m ?l)"
    using serial_run [of m ?l "\<lambda>ps. ps"] D(11) G l e by (simp add: gsim_def)
  moreover have "read_value_from_addr (sc_mem s) a dt = read_value_from_addr (final_mem m ?l) a dt"
    if "L a dt" "\<not> guard_locked (sc_guards s (get_guard_idx a))" for a dt
  proof -
    have "vowner v (get_guard_idx a) = None" using G that(2) e by (simp add: gsim_def)
    then have "quiet v (get_guard_idx a)" by (simp add: quiet_def)
    then show ?thesis using D(9) that(1) G l e by (simp add: inv_mem_def gsim_def)
  qed
  ultimately show ?thesis by blast
qed

theorem tsc_serializable_witness:
  "\<exists>m'. seq_run (concat (map ve_info (sort_key ve_ver (sc_log tsc_demo)))) (\<lambda>_. 0) = Some m' \<and>
     read_value_from_addr (sc_mem tsc_demo) 0x200000 UINT8 = read_value_from_addr m' 0x200000 UINT8 \<and>
     length (sc_log tsc_demo) = 2"
proof -
  have "length (sc_log tsc_demo) = 2" using arg_cong [OF tsc_demo_props(2), of length] by simp
  then show ?thesis
    using tsc_serializable [OF two_cells_ok _ tsc_demo_props(1) tsc_trace_ok] tsc_demo_props(3)
    by (auto simp: two_cells_def)
qed


end
