(* ===== verification/TM_RegionAllocator.thy ===== *)
theory TM_RegionAllocator
  imports TM_Common
begin

text \<open>
  The region allocator (\<open>common/tm_region_allocator.hpp\<close>,
  \<open>tm_region_allocator/tm_region_allocator.cpp\<close>): slabs handed to threads by an atomic
  counter, chunks of one size class with a bitmap or an in-chunk free list, per-thread caches, and
  large blocks with a header. Headers, bitmaps and links are bytes of the heap, as in the code.
  \<open>None\<close> stands for \<open>std::abort()\<close>. The only word threads share here is \<open>g_next_slab_idx\<close>, read and
  advanced by one \<open>fetch_add\<close> per operation, so whole operations are the steps. \<open>carved\<close> is
  ghost: the chunks and large blocks taken from slabs so far.
\<close>

section \<open>Constants and state\<close>

definition CHUNK_SIZE :: u64 where "CHUNK_SIZE = 65536"
definition CHUNK_MASK :: u64 where "CHUNK_MASK = CHUNK_SIZE - 1"
definition CHUNK_HEADER_SZ :: u64 where "CHUNK_HEADER_SZ = 32"
definition MAX_CLASSES :: nat where "MAX_CLASSES = 32"
definition CHUNK_MAGIC :: u64 where "CHUNK_MAGIC = 0x544D4348"
definition LARGE_MAGIC :: u64 where "LARGE_MAGIC = 0x544D4C52"
definition TM_REGION_SIZE :: u64 where "TM_REGION_SIZE = 16 * 1024 * 1024 * 1024"
definition TM_SLAB_PAGES :: u64 where "TM_SLAB_PAGES = 256"

definition kSizeTable :: "u16 list" where
  "kSizeTable = [16, 24, 32, 40, 48, 56, 64, 80, 96, 112, 128, 160, 192, 224, 256, 320, 384, 448,
     512, 640, 768, 896, 1024, 1280, 1536, 1792, 2048, 2560, 3072, 3584, 4096, 0]"

record tl_alloc =
  slab_bump :: u64
  slab_end :: u64
  tl_free_lists :: "(u64 \<times> u32) list"
  hot_chunks :: "u64 list"
  large_free_list :: u64

record region =
  heap :: mem
  region_inited :: bool
  region_start :: u64
  region_end :: u64
  slab_size :: u64
  slab_size_shift :: nat
  chunks_per_slab :: u64
  sc_block_size :: "u16 list"
  sc_block_count :: "u16 list"
  sc_bitmap_bytes :: "u16 list"
  sc_data_off :: "u16 list"
  next_slab_idx :: u64
  num_slabs :: u64
  tm_globals :: "(u64 \<times> u64) list"
  tls :: "nat \<Rightarrow> tl_alloc"
  carved :: "(u64 \<times> u64) list"

definition tl_init :: tl_alloc where
  "tl_init = \<lparr>slab_bump = 0, slab_end = 0, tl_free_lists = replicate MAX_CLASSES (0, 0),
     hot_chunks = replicate MAX_CLASSES 0, large_free_list = 0\<rparr>"

text \<open>The static data before \<open>tm_region_init\<close>; fresh pages read as zero.\<close>

definition region_zero :: region where
  "region_zero = \<lparr>heap = (\<lambda>_. 0), region_inited = False, region_start = 0, region_end = 0, slab_size = 0,
     slab_size_shift = 0, chunks_per_slab = 0, sc_block_size = replicate MAX_CLASSES 0,
     sc_block_count = replicate MAX_CLASSES 0, sc_bitmap_bytes = replicate MAX_CLASSES 0,
     sc_data_off = replicate MAX_CLASSES 0, next_slab_idx = 0, num_slabs = 0, tm_globals = [],
     tls = (\<lambda>_. tl_init), carved = []\<rparr>"

definition set_tl :: "nat \<Rightarrow> tl_alloc \<Rightarrow> region \<Rightarrow> region" where
  "set_tl t td r = r\<lparr>tls := (tls r)(t := td)\<rparr>"

section \<open>Address predicates\<close>

definition isTMAddress :: "region \<Rightarrow> u64 \<Rightarrow> bool" where
  "isTMAddress r a \<longleftrightarrow> region_start r \<le> a \<and> a < region_end r"

definition isTMGlobal :: "region \<Rightarrow> u64 \<Rightarrow> bool" where
  "isTMGlobal r a \<longleftrightarrow> (\<exists>(s, e) \<in> set (tm_globals r). s \<le> a \<and> a < e)"

definition tm_register_global :: "region \<Rightarrow> u64 \<Rightarrow> u64 \<Rightarrow> region" where
  "tm_register_global r a n = r\<lparr>tm_globals := tm_globals r @ [(a, a + n)]\<rparr>"

text \<open>The table of the plugin is an argument: addresses with sizes.\<close>

fun registerStaticTMSymbols :: "(u64 \<times> u64) list \<Rightarrow> region \<Rightarrow> region" where
  "registerStaticTMSymbols [] r = r"
| "registerStaticTMSymbols ((a, n) # ss) r =
     (if a = 0 \<or> n = 0 \<or> (\<exists>g \<in> set (tm_globals r). fst g = a) then registerStaticTMSymbols ss r
      else registerStaticTMSymbols ss (r\<lparr>tm_globals := tm_globals r @ [(a, a + n)]\<rparr>))"

text \<open>\<open>tm_strict_addr\<close>, from the values of the two environment variables.\<close>

definition tm_strict_addr :: "string option \<Rightarrow> string option \<Rightarrow> bool" where
  "tm_strict_addr allow s =
    (if (case allow of Some (c # _) \<Rightarrow> c = CHR ''1'' | _ \<Rightarrow> False) then False
     else (case s of Some (c # _) \<Rightarrow> c = CHR ''1'' | _ \<Rightarrow> False))"

text \<open>\<open>tm_enforce_tracked\<close>: \<open>False\<close> when the process is aborted.\<close>

definition tm_enforce_tracked :: "bool \<Rightarrow> bool" where
  "tm_enforce_tracked strict = (\<not> strict)"

section \<open>Initialisation\<close>

text \<open>
  The search for the number of blocks of a bitmap chunk; its quantities stay below \<open>2^17\<close>.
  The result is the block count, the bytes of the bitmap and the data offset.
\<close>

fun fit_blocks :: "int \<Rightarrow> nat \<Rightarrow> int \<times> int \<times> int" where
  "fit_blocks bs 0 = (0, 0, 0)"
| "fit_blocks bs (Suc n) =
     (let bc = int (Suc n); bm_bytes = drop_bit 3 (bc + 7); hdr_total = 32 + bm_bytes;
          data_off = (hdr_total + 4095) AND NOT 4095; total = data_off + bc * bs
      in if total \<le> 65536 then (bc, bm_bytes, data_off) else fit_blocks bs n)"

text \<open>The table entries of one class: block size, block count, bitmap bytes, data offset.\<close>

definition class_entry :: "u16 \<Rightarrow> u16 \<times> u16 \<times> u16 \<times> u16" where
  "class_entry bs =
    (if bs = 0 then (0, 0, 0, 0)
     else if bs \<le> 256 then
       (case fit_blocks (uint bs) (nat ((65536 - 32) div uint bs)) of
          (bc, bm_bytes, data_off) \<Rightarrow> (bs, of_int bc, of_int bm_bytes, of_int data_off))
     else (bs, of_int ((65536 - 4096) div uint bs), 0, 4096))"

definition ctz :: "u64 \<Rightarrow> nat" where
  "ctz w = length (takeWhile (\<lambda>i. \<not> bit w i) [0..<64])"

text \<open>\<open>tm_region_init\<close> on a 64-bit target; \<open>mapped\<close> is the result of \<open>mmap\<close>.\<close>

definition tm_region_init :: "u64 \<Rightarrow> u64 option \<Rightarrow> (u64 \<times> u64) list \<Rightarrow> region \<Rightarrow> int \<times> region" where
  "tm_region_init page_size mapped symbols r =
    (if region_inited r then (0, r)
     else
       (let sz = TM_SLAB_PAGES * page_size; es = map class_entry kSizeTable;
            r1 = r\<lparr>slab_size := sz, slab_size_shift := ctz sz, chunks_per_slab := drop_bit (ctz CHUNK_SIZE) sz,
              sc_block_size := map fst es, sc_block_count := map (fst \<circ> snd) es,
              sc_bitmap_bytes := map (fst \<circ> snd \<circ> snd) es, sc_data_off := map (snd \<circ> snd \<circ> snd) es\<rparr>
        in case mapped of
             None \<Rightarrow> (-1, r1)
           | Some a \<Rightarrow>
               (let aligned_start = (a + CHUNK_MASK) AND NOT CHUNK_MASK;
                    size0 = TM_REGION_SIZE AND NOT CHUNK_MASK;
                    aligned_size = (if aligned_start + size0 > a + TM_REGION_SIZE then size0 - CHUNK_SIZE else size0)
                in (0, registerStaticTMSymbols symbols
                     (r1\<lparr>region_inited := True, region_start := aligned_start, region_end := aligned_start + aligned_size,
                        num_slabs := drop_bit (slab_size_shift r1) aligned_size, next_slab_idx := 0\<rparr>)))))"

section \<open>Size classes and chunks\<close>

fun sc_loop :: "nat \<Rightarrow> u16 list \<Rightarrow> u64 \<Rightarrow> nat" where
  "sc_loop i [] sz = MAX_CLASSES"
| "sc_loop i (bs # bss) sz =
     (if bs = 0 then MAX_CLASSES else if ucast bs \<ge> sz then i else sc_loop (Suc i) bss sz)"

definition size_class_for :: "region \<Rightarrow> u64 \<Rightarrow> nat" where
  "size_class_for r sz = sc_loop 0 (sc_block_size r) sz"

definition chunk_start :: "u64 \<Rightarrow> u64" where
  "chunk_start p = p AND NOT CHUNK_MASK"

definition chunk_block_ptr :: "region \<Rightarrow> u64 \<Rightarrow> nat \<Rightarrow> nat \<Rightarrow> u64" where
  "chunk_block_ptr r base idx sc =
    base + ucast (sc_data_off r ! sc) + of_nat idx * ucast (sc_block_size r ! sc)"

definition chunk_block_idx :: "region \<Rightarrow> u64 \<Rightarrow> u64 \<Rightarrow> nat \<Rightarrow> nat" where
  "chunk_block_idx r base p sc =
    unat ((p - base - ucast (sc_data_off r ! sc)) div ucast (sc_block_size r ! sc))"

text \<open>The fields of a \<open>ChunkHeader\<close> at an address of the heap.\<close>

definition hdr_magic :: "mem \<Rightarrow> u64 \<Rightarrow> u64" where "hdr_magic h p = load_bytes h p 4"
definition hdr_size_class :: "mem \<Rightarrow> u64 \<Rightarrow> u64" where "hdr_size_class h p = load_bytes h (p + 4) 2"
definition hdr_block_count :: "mem \<Rightarrow> u64 \<Rightarrow> u64" where "hdr_block_count h p = load_bytes h (p + 12) 4"
definition hdr_free_count :: "mem \<Rightarrow> u64 \<Rightarrow> u64" where "hdr_free_count h p = load_bytes h (p + 16) 4"
definition hdr_alloc_hint :: "mem \<Rightarrow> u64 \<Rightarrow> u64" where "hdr_alloc_hint h p = load_bytes h (p + 20) 4"

definition set_free_count :: "mem \<Rightarrow> u64 \<Rightarrow> u64 \<Rightarrow> mem" where
  "set_free_count h p v = store_bytes h (p + 16) v 4"
definition set_alloc_hint :: "mem \<Rightarrow> u64 \<Rightarrow> u64 \<Rightarrow> mem" where
  "set_alloc_hint h p v = store_bytes h (p + 20) v 4"

section \<open>Bitmaps and links\<close>

text \<open>Word \<open>i\<close> of the bitmap of a chunk.\<close>

definition bm_word :: "mem \<Rightarrow> u64 \<Rightarrow> nat \<Rightarrow> u64" where
  "bm_word h p i = load_bytes h (p + CHUNK_HEADER_SZ + 8 * of_nat i) 8"

text \<open>One pass over the words from \<open>i\<close> on, \<open>n\<close> words left, then \<open>bitmap_find_free\<close> with its two passes.\<close>

fun bm_pass :: "(nat \<Rightarrow> u64) \<Rightarrow> int \<Rightarrow> nat \<Rightarrow> nat \<Rightarrow> nat option" where
  "bm_pass bm block_count i 0 = None"
| "bm_pass bm block_count i (Suc n) =
     (let w = bm i
      in if w \<noteq> NOT 0 \<and> int (i * 64 + ctz (NOT w)) < block_count then Some (i * 64 + ctz (NOT w))
         else bm_pass bm block_count (Suc i) n)"

definition bitmap_find_free :: "(nat \<Rightarrow> u64) \<Rightarrow> int \<Rightarrow> int \<Rightarrow> nat option" where
  "bitmap_find_free bm block_count hint =
    (let words = nat (drop_bit 6 (block_count + 63)); start_w = nat (drop_bit 6 hint)
     in case bm_pass bm block_count start_w (words - start_w) of
          Some idx \<Rightarrow> Some idx
        | None \<Rightarrow> bm_pass bm block_count 0 words)"

definition bitmap_set :: "mem \<Rightarrow> u64 \<Rightarrow> nat \<Rightarrow> mem" where
  "bitmap_set h p idx =
    store_bytes h (p + CHUNK_HEADER_SZ + 8 * of_nat (idx div 64)) (bm_word h p (idx div 64) OR push_bit (idx mod 64) 1) 8"

definition bitmap_clear :: "mem \<Rightarrow> u64 \<Rightarrow> nat \<Rightarrow> mem" where
  "bitmap_clear h p idx =
    store_bytes h (p + CHUNK_HEADER_SZ + 8 * of_nat (idx div 64)) (bm_word h p (idx div 64) AND NOT (push_bit (idx mod 64) 1)) 8"

definition fl_next :: "mem \<Rightarrow> u64 \<Rightarrow> u64 \<Rightarrow> u64" where
  "fl_next h base off = (if off = 0 then 0 else load_bytes h (base + off) 4)"

definition fl_set_next :: "mem \<Rightarrow> u64 \<Rightarrow> u64 \<Rightarrow> u64 \<Rightarrow> mem" where
  "fl_set_next h base off nxt = store_bytes h (base + off) nxt 4"

definition tl_fl_push :: "mem \<Rightarrow> u64 \<times> u32 \<Rightarrow> u64 \<Rightarrow> mem \<times> u64 \<times> u32" where
  "tl_fl_push h fl p = (store_bytes h p (fst fl) 8, p, snd fl + 1)"

definition tl_fl_pop :: "mem \<Rightarrow> u64 \<times> u32 \<Rightarrow> (u64 \<times> u64 \<times> u32) option" where
  "tl_fl_pop h fl = (if fst fl = 0 then None else Some (fst fl, load_bytes h (fst fl) 8, snd fl - 1))"

text \<open>\<open>memset\<close> to zero and \<open>memcpy\<close> of \<open>n\<close> bytes.\<close>

definition zero_bytes :: "mem \<Rightarrow> u64 \<Rightarrow> u64 \<Rightarrow> mem" where
  "zero_bytes h a n = (\<lambda>b. if b - a < n then 0 else h b)"

definition copy_bytes :: "mem \<Rightarrow> u64 \<Rightarrow> u64 \<Rightarrow> u64 \<Rightarrow> mem" where
  "copy_bytes h d s n = (\<lambda>b. if b - d < n then h (s + (b - d)) else h b)"

section \<open>Chunk allocation\<close>

text \<open>The bump allocation of a chunk; a full slab is replaced by a new one.\<close>

definition chunk_carve :: "region \<Rightarrow> nat \<Rightarrow> (region \<times> u64) option" where
  "chunk_carve r t =
    (let td = tls r t; p = slab_bump td; nxt = p + CHUNK_SIZE
     in if nxt > slab_end td then
          (let idx = next_slab_idx r; slab = region_start r + idx * slab_size r
           in if slab + slab_size r > region_end r then None
              else Some ((set_tl t (td\<lparr>slab_bump := slab + CHUNK_SIZE, slab_end := slab + slab_size r\<rparr>) r)
                \<lparr>next_slab_idx := idx + 1, carved := carved r @ [(slab, CHUNK_SIZE)]\<rparr>, slab))
        else Some ((set_tl t (td\<lparr>slab_bump := nxt\<rparr>) r)\<lparr>carved := carved r @ [(p, CHUNK_SIZE)]\<rparr>, p))"

text \<open>The loop that links the blocks of a free-list chunk: \<open>n\<close> links left from block \<open>i\<close>.\<close>

fun link_loop :: "u64 \<Rightarrow> u64 \<Rightarrow> u64 \<Rightarrow> nat \<Rightarrow> nat \<Rightarrow> mem \<Rightarrow> mem" where
  "link_loop p d_off bs i 0 h = h"
| "link_loop p d_off bs i (Suc n) h =
     link_loop p d_off bs (Suc i) n (fl_set_next h p (d_off + of_nat i * bs) (d_off + of_nat (Suc i) * bs))"

definition init_header :: "region \<Rightarrow> nat \<Rightarrow> u64 \<Rightarrow> mem \<Rightarrow> mem" where
  "init_header r sc p h0 =
    (let h1 = store_bytes h0 p CHUNK_MAGIC 4;
         h2 = store_bytes h1 (p + 4) (of_nat sc) 2;
         h3 = store_bytes h2 (p + 6) 0 2;
         h4 = store_bytes h3 (p + 8) (ucast (sc_block_size r ! sc)) 4;
         h5 = store_bytes h4 (p + 12) (ucast (sc_block_count r ! sc)) 4
     in set_free_count h5 p (ucast (sc_block_count r ! sc)))"

definition init_chunk :: "region \<Rightarrow> nat \<Rightarrow> u64 \<Rightarrow> mem \<Rightarrow> mem" where
  "init_chunk r sc p h0 =
    (let h = init_header r sc p h0
     in if sc_bitmap_bytes r ! sc > 0 then
          zero_bytes (set_alloc_hint (store_bytes h (p + 6) 1 2) p 0) (p + CHUNK_HEADER_SZ) (ucast (sc_bitmap_bytes r ! sc))
        else
          (let bs = ucast (sc_block_size r ! sc); bcnt = unat (sc_block_count r ! sc); d_off = ucast (sc_data_off r ! sc)
           in set_alloc_hint (fl_set_next (link_loop p d_off bs 0 (bcnt - 1) h) p (d_off + of_nat (bcnt - 1) * bs) 0) p d_off))"

definition tm_region_chunk_alloc :: "region \<Rightarrow> nat \<Rightarrow> nat \<Rightarrow> (region \<times> u64) option" where
  "tm_region_chunk_alloc r t sc =
    (case chunk_carve r t of None \<Rightarrow> None | Some (r', p) \<Rightarrow> Some (r'\<lparr>heap := init_chunk r' sc p (heap r')\<rparr>, p))"

definition new_hot_chunk :: "region \<Rightarrow> nat \<Rightarrow> nat \<Rightarrow> (region \<times> u64) option" where
  "new_hot_chunk r t sc =
    (case tm_region_chunk_alloc r t sc of
       None \<Rightarrow> None
     | Some (r', p) \<Rightarrow>
         (let td = tls r' t in Some (set_tl t (td\<lparr>hot_chunks := (hot_chunks td)[sc := p]\<rparr>) r', p)))"

definition tm_region_slow_alloc :: "region \<Rightarrow> nat \<Rightarrow> u64 \<Rightarrow> (region \<times> u64) option" where
  "tm_region_slow_alloc r t sz =
    (let slab_sz = slab_size r; needed = (if sz > slab_sz then drop_bit (slab_size_shift r) (sz + slab_sz - 1) else 1);
         idx = next_slab_idx r; slab = region_start r + idx * slab_sz
     in if slab + needed * slab_sz > region_end r then None
        else Some ((set_tl t ((tls r t)\<lparr>slab_bump := slab + sz, slab_end := slab + needed * slab_sz\<rparr>) r)
          \<lparr>next_slab_idx := idx + needed, carved := carved r @ [(slab, sz)]\<rparr>, slab))"

section \<open>malloc\<close>

definition round16 :: "u64 \<Rightarrow> u64" where
  "round16 sz = (sz + 15) AND NOT 15"

text \<open>The bump allocation of a large block.\<close>

definition large_carve :: "region \<Rightarrow> nat \<Rightarrow> u64 \<Rightarrow> (region \<times> u64) option" where
  "large_carve r t alloc_sz =
    (let td = tls r t; p = slab_bump td; nxt = p + alloc_sz
     in if nxt > slab_end td then
          (let needed = drop_bit (slab_size_shift r) (alloc_sz + slab_size r - 1); idx = next_slab_idx r;
               slab = region_start r + idx * slab_size r
           in if slab + needed * slab_size r > region_end r then None
              else Some ((set_tl t (td\<lparr>slab_bump := slab + alloc_sz, slab_end := slab + needed * slab_size r\<rparr>) r)
                \<lparr>next_slab_idx := idx + needed, carved := carved r @ [(slab, alloc_sz)]\<rparr>, slab))
        else Some ((set_tl t (td\<lparr>slab_bump := nxt\<rparr>) r)\<lparr>carved := carved r @ [(p, alloc_sz)]\<rparr>, p))"

definition large_malloc :: "region \<Rightarrow> nat \<Rightarrow> u64 \<Rightarrow> (region \<times> u64) option" where
  "large_malloc r t sz =
    (let td = tls r t; h = large_free_list td
     in if h \<noteq> 0 \<and> load_bytes (heap r) (h + 4) 4 \<ge> sz
        then Some ((set_tl t (td\<lparr>large_free_list := load_bytes (heap r) (h + 8) 8\<rparr>) r)
          \<lparr>heap := store_bytes (heap r) (h + 4) sz 4\<rparr>, h + 16)
        else (case large_carve r t (round16 (sz + 16)) of
                None \<Rightarrow> None
              | Some (r', p) \<Rightarrow>
                  Some (r'\<lparr>heap := store_bytes (store_bytes (store_bytes (heap r') p LARGE_MAGIC 4) (p + 4) sz 4) (p + 8) 0 8\<rparr>, p + 16)))"

text \<open>A block of a chunk with a free block, by its bitmap or its free list.\<close>

definition take_block :: "region \<Rightarrow> nat \<Rightarrow> nat \<Rightarrow> u64 \<Rightarrow> (region \<times> u64) option" where
  "take_block r t sc chunk =
    (if sc_bitmap_bytes r ! sc > 0 then
       (case (case bitmap_find_free (bm_word (heap r) chunk) (uint (hdr_block_count (heap r) chunk)) (uint (hdr_alloc_hint (heap r) chunk)) of
                Some idx \<Rightarrow> Some (r, chunk, idx)
              | None \<Rightarrow> (case new_hot_chunk r t sc of None \<Rightarrow> None | Some (r', c) \<Rightarrow> Some (r', c, 0))) of
          None \<Rightarrow> None
        | Some (r', c, idx) \<Rightarrow>
            (let h = set_alloc_hint (bitmap_set (heap r') c idx) c (of_nat (idx + 1))
             in Some (r'\<lparr>heap := set_free_count h c (hdr_free_count h c - 1)\<rparr>, chunk_block_ptr r' c idx sc)))
     else
       (case (if hdr_alloc_hint (heap r) chunk = 0 then new_hot_chunk r t sc else Some (r, chunk)) of
          None \<Rightarrow> None
        | Some (r', c) \<Rightarrow>
            (let off = hdr_alloc_hint (heap r') c; h = set_alloc_hint (heap r') c (fl_next (heap r') c off)
             in Some (r'\<lparr>heap := set_free_count h c (hdr_free_count h c - 1)\<rparr>, c + off))))"

definition small_malloc :: "region \<Rightarrow> nat \<Rightarrow> nat \<Rightarrow> (region \<times> u64) option" where
  "small_malloc r t sc =
    (let td = tls r t
     in case tl_fl_pop (heap r) (tl_free_lists td ! sc) of
          Some (p, fl) \<Rightarrow> Some (set_tl t (td\<lparr>tl_free_lists := (tl_free_lists td)[sc := fl]\<rparr>) r, p)
        | None \<Rightarrow>
            (case (if hot_chunks td ! sc = 0 then new_hot_chunk r t sc else Some (r, hot_chunks td ! sc)) of
               None \<Rightarrow> None
             | Some (r', chunk) \<Rightarrow>
                 (case (if hdr_free_count (heap r') chunk = 0 then new_hot_chunk r' t sc else Some (r', chunk)) of
                    None \<Rightarrow> None
                  | Some (r'', chunk') \<Rightarrow> take_block r'' t sc chunk')))"

definition tm_region_malloc :: "region \<Rightarrow> nat \<Rightarrow> u64 \<Rightarrow> (region \<times> u64) option" where
  "tm_region_malloc r t sz =
    (let sz' = round16 (if sz < 16 then 16 else sz); sc = size_class_for r sz'
     in if sc \<ge> MAX_CLASSES \<or> sc_block_size r ! sc = 0 then large_malloc r t sz' else small_malloc r t sc)"

definition tm_region_calloc :: "region \<Rightarrow> nat \<Rightarrow> u64 \<Rightarrow> u64 \<Rightarrow> (region \<times> u64) option" where
  "tm_region_calloc r t nmemb sz =
    (case tm_region_malloc r t (nmemb * sz) of
       None \<Rightarrow> None
     | Some (r', p) \<Rightarrow> Some (r'\<lparr>heap := zero_bytes (heap r') p (nmemb * sz)\<rparr>, p))"

section \<open>free and realloc\<close>

definition tm_region_free :: "region \<Rightarrow> nat \<Rightarrow> u64 \<Rightarrow> region" where
  "tm_region_free r t p =
    (if p = 0 \<or> \<not> isTMAddress r p then r
     else
       (let hdr = chunk_start p; h = heap r; sc = unat (hdr_size_class h hdr); td = tls r t
        in if hdr_magic h hdr = CHUNK_MAGIC \<and> sc < MAX_CLASSES \<and> sc_block_size r ! sc > 0 then
             (case tl_fl_push h (tl_free_lists td ! sc) p of
                (h', fl) \<Rightarrow> (set_tl t (td\<lparr>tl_free_lists := (tl_free_lists td)[sc := fl]\<rparr>) r)\<lparr>heap := h'\<rparr>)
           else if load_bytes h (p - 16) 4 = LARGE_MAGIC then
             (set_tl t (td\<lparr>large_free_list := p - 16\<rparr>) r)\<lparr>heap := store_bytes h (p - 8) (large_free_list td) 8\<rparr>
           else r))"

definition old_size :: "region \<Rightarrow> u64 \<Rightarrow> u64 \<Rightarrow> u64" where
  "old_size r p new_sz =
    (let hdr = chunk_start p; h = heap r
     in if hdr_magic h hdr = CHUNK_MAGIC \<and> unat (hdr_size_class h hdr) < MAX_CLASSES - 1
        then ucast (sc_block_size r ! unat (hdr_size_class h hdr))
        else if load_bytes h (p - 16) 4 = LARGE_MAGIC then load_bytes h (p - 12) 4
        else new_sz)"

definition tm_region_realloc :: "region \<Rightarrow> nat \<Rightarrow> u64 \<Rightarrow> u64 \<Rightarrow> (region \<times> u64) option" where
  "tm_region_realloc r t p new_sz =
    (if p = 0 then tm_region_malloc r t new_sz
     else if new_sz = 0 then Some (tm_region_free r t p, 0)
     else
       (let old_sz = old_size r p new_sz
        in case tm_region_malloc r t new_sz of
             None \<Rightarrow> None
           | Some (r', np) \<Rightarrow>
               (let r'' = (if np \<noteq> 0 then r'\<lparr>heap := copy_bytes (heap r') np p (if old_sz < new_sz then old_sz else new_sz)\<rparr> else r')
                in Some (tm_region_free r'' t p, np))))"

end
