(* ===== verification/TM_RegionSafety.thy ===== *)
theory TM_RegionSafety
  imports TM_RegionAllocator
begin

text \<open>
  Correctness of the region allocator: the size-class tables, the search for a class and for a free block, the
  addresses of blocks, the per-thread caches, and the disjointness of everything carved from slabs.
\<close>


section \<open>Rounding down to a power of two\<close>

lemma and_not_mask_eq:
  fixes a :: "'a::ring_bit_operations"
  shows "a AND NOT (mask n) = a - take_bit n a"
proof -
  have "a AND NOT (mask n) = push_bit n (drop_bit n a)"
    by (rule bit_eqI) (auto simp: bit_simps)
  then show ?thesis using bits_ident [of n a] by (metis add_diff_cancel_right')
qed

lemma int_and_not_4095: "(x :: int) AND - 4096 = x - x mod 4096"
  using and_not_mask_eq [of x 12] by (simp add: mask_eq_exp_minus_1 take_bit_eq_mod)

lemma unat_and_not_mask: "unat ((w :: u64) AND NOT (mask n)) = unat w - unat w mod 2 ^ n"
proof -
  have "unat (take_bit n w) = take_bit n (unat w)" by (rule unsigned_take_bit_eq)
  then have "unat (take_bit n w) = unat w mod 2 ^ n" by (simp only: take_bit_eq_mod)
  moreover have "take_bit n w \<le> w" by (simp add: word_le_nat_alt calculation)
  ultimately show ?thesis by (simp add: and_not_mask_eq unat_sub)
qed

lemma CHUNK_MASK_mask: "CHUNK_MASK = mask 16"
  by (simp add: CHUNK_MASK_def CHUNK_SIZE_def mask_eq_exp_minus_1)

lemma unat_and_not_chunk: "unat ((w :: u64) AND NOT CHUNK_MASK) = unat w - unat w mod 65536"
  using unat_and_not_mask [of w 16] by (simp add: CHUNK_MASK_mask)

lemma unat_u16_u64: "unat (ucast (w :: u16) :: u64) = unat w"
proof -
  have "unat w < 2 ^ 16" using unsigned_less [of w] by simp
  then show ?thesis by (simp add: unsigned_ucast_eq take_bit_nat_eq_self)
qed

section \<open>The size-class tables\<close>

lemma fit_blocks_eq:
  assumes "0 < k" and "4096 + int k * bs \<le> 65536" and "65536 < 4096 + (int k + 1) * bs" and "0 < bs"
    and "k \<le> n" and "n \<le> 4094"
  shows "fit_blocks bs n = (int k, (int k + 7) div 8, 4096)"
  using assms(5,6)
proof (induction n)
  case 0
  then show ?case using assms(1) by simp
next
  case (Suc n)
  define q where "q = (int (Suc n) + 7) div 8"
  have "0 \<le> q" "q \<le> 512" unfolding q_def using Suc.prems by simp_all
  then have "(31 + q) mod 4096 = 31 + q" by (intro mod_pos_pos_trivial) simp_all
  then have "(4096 + (31 + q)) mod 4096 = 31 + q" by (simp only: mod_add_self1)
  then have "(32 + q + 4095) AND - 4096 = 4096" by (simp add: int_and_not_4095 add.commute)
  then have off: "(32 + drop_bit 3 (int (Suc n) + 7) + 4095) AND NOT 4095 = (4096 :: int)"
    by (simp add: q_def drop_bit_eq_div)
  show ?case
  proof (cases "k = Suc n")
    case True
    then show ?thesis using off assms(2) by (simp add: Let_def drop_bit_eq_div del: of_nat_Suc)
  next
    case False
    then have "int k + 1 \<le> int (Suc n)" using Suc.prems by simp
    then have "(int k + 1) * bs \<le> int (Suc n) * bs" using assms(4) by (intro mult_right_mono) auto
    then have "\<not> 4096 + int (Suc n) * bs \<le> 65536" using assms(3) by linarith
    then show ?thesis using off Suc False by (simp add: Let_def del: of_nat_Suc)
  qed
qed


lemma class_entry_eq:
  assumes "16 \<le> bs" and "bs \<le> 4096"
  shows "class_entry bs = (bs, of_int (61440 div uint bs), if bs \<le> 256 then of_int ((61440 div uint bs + 7) div 8) else 0, 4096)"
proof (cases "bs \<le> 256")
  case True
  let ?b = "uint bs"
  let ?k = "nat (61440 div ?b)"
  have b: "16 \<le> ?b" "?b \<le> 256" using assms(1) True by (simp_all add: word_le_def)
  then have k: "int ?k = 61440 div ?b" by (simp add: pos_imp_zdiv_nonneg_iff)
  have "fit_blocks ?b (nat ((65536 - 32) div ?b)) = (int ?k, (int ?k + 7) div 8, 4096)"
  proof (rule fit_blocks_eq)
    have "61440 div 256 \<le> 61440 div ?b" using b by (intro zdiv_mono2) auto
    then show "0 < ?k" by simp
    have q: "61440 div ?b * ?b + 61440 mod ?b = 61440" "0 \<le> 61440 mod ?b" "61440 mod ?b < ?b"
      using b by (simp_all add: pos_mod_bound)
    show "4096 + int ?k * ?b \<le> 65536" unfolding k using q by linarith
    have "(61440 div ?b + 1) * ?b = 61440 div ?b * ?b + ?b" by (simp add: distrib_right)
    then show "65536 < 4096 + (int ?k + 1) * ?b" unfolding k using q by linarith
    show "0 < ?b" using b by simp
    show "?k \<le> nat ((65536 - 32) div ?b)" using b by (intro nat_mono zdiv_mono1) auto
    have "(65536 - 32) div ?b \<le> (65536 - 32) div 16" using b by (intro zdiv_mono2) auto
    then show "nat ((65536 - 32) div ?b) \<le> 4094" by simp
  qed
  moreover have "bs \<noteq> 0" using assms(1) by auto
  ultimately show ?thesis using True k by (simp add: class_entry_def)
next
  case False
  then have "bs \<noteq> 0" by auto
  then show ?thesis using False by (simp add: class_entry_def)
qed

lemma kSizeTable_entries: "\<forall>bs \<in> set kSizeTable. bs = 0 \<or> 16 \<le> bs \<and> bs \<le> 4096 \<and> 8 dvd uint bs"
  by (simp add: kSizeTable_def)


definition tables_ok :: "region \<Rightarrow> bool" where
  "tables_ok r \<longleftrightarrow> sc_block_size r = kSizeTable \<and>
    sc_block_count r = map (\<lambda>bs. if bs = 0 then 0 else of_int (61440 div uint bs)) kSizeTable \<and>
    sc_bitmap_bytes r = map (\<lambda>bs. if bs \<noteq> 0 \<and> bs \<le> 256 then of_int ((61440 div uint bs + 7) div 8) else 0) kSizeTable \<and>
    sc_data_off r = map (\<lambda>bs. if bs = 0 then 0 else 4096) kSizeTable"

lemma class_entries:
  "bs \<in> set kSizeTable \<Longrightarrow> class_entry bs = (bs, if bs = 0 then 0 else of_int (61440 div uint bs),
     if bs \<noteq> 0 \<and> bs \<le> 256 then of_int ((61440 div uint bs + 7) div 8) else 0, if bs = 0 then 0 else 4096)"
  using kSizeTable_entries class_entry_eq [of bs] by (auto simp: class_entry_def)

lemma registerStatic_keeps: "registerStaticTMSymbols ss r = r\<lparr>tm_globals := tm_globals (registerStaticTMSymbols ss r)\<rparr>"
proof (induction ss arbitrary: r)
  case (Cons a ss)
  obtain x n where a: "a = (x, n)" by (cases a)
  have "registerStaticTMSymbols ss (r\<lparr>tm_globals := g\<rparr>) = r\<lparr>tm_globals := tm_globals (registerStaticTMSymbols ss (r\<lparr>tm_globals := g\<rparr>))\<rparr>" for g
    using Cons.IH [of "r\<lparr>tm_globals := g\<rparr>"] by simp
  then show ?case using Cons.IH [of r] a by simp
qed simp

lemma register_fields [simp]:
  "heap (registerStaticTMSymbols ss r) = heap r" "region_inited (registerStaticTMSymbols ss r) = region_inited r"
  "region_start (registerStaticTMSymbols ss r) = region_start r" "region_end (registerStaticTMSymbols ss r) = region_end r"
  "slab_size (registerStaticTMSymbols ss r) = slab_size r" "slab_size_shift (registerStaticTMSymbols ss r) = slab_size_shift r"
  "sc_block_size (registerStaticTMSymbols ss r) = sc_block_size r" "sc_block_count (registerStaticTMSymbols ss r) = sc_block_count r"
  "sc_bitmap_bytes (registerStaticTMSymbols ss r) = sc_bitmap_bytes r" "sc_data_off (registerStaticTMSymbols ss r) = sc_data_off r"
  "next_slab_idx (registerStaticTMSymbols ss r) = next_slab_idx r" "tls (registerStaticTMSymbols ss r) = tls r"
  "carved (registerStaticTMSymbols ss r) = carved r"
  by (subst registerStatic_keeps, simp)+

lemma init_tables:
  assumes "tm_region_init page (Some a) symbols region_zero = (n, r)"
  shows "tables_ok r"
proof -
  have "map class_entry kSizeTable = map (\<lambda>bs. (bs, if bs = 0 then 0 else of_int (61440 div uint bs),
     if bs \<noteq> 0 \<and> bs \<le> 256 then of_int ((61440 div uint bs + 7) div 8) else 0, if bs = 0 then 0 else 4096)) kSizeTable"
    by (intro map_cong refl class_entries)
  moreover have "map fst (map class_entry kSizeTable) = kSizeTable"
    unfolding map_map comp_def by (rule map_idI) (simp add: class_entries)
  ultimately show ?thesis
    using assms by (auto simp: tm_region_init_def Let_def region_zero_def tables_ok_def comp_def)
qed

section \<open>Searching for a size class\<close>

lemma sc_loop_found:
  "sc_loop i bss sz = n \<Longrightarrow> n \<noteq> MAX_CLASSES \<Longrightarrow>
   \<exists>j < length bss. n = i + j \<and> bss ! j \<noteq> 0 \<and> sz \<le> ucast (bss ! j) \<and> (\<forall>k < j. ucast (bss ! k) < sz)"
proof (induction bss arbitrary: i)
  case (Cons bs bss)
  show ?case
  proof (cases "bs \<noteq> 0 \<and> sz \<le> ucast bs")
    case True
    then show ?thesis using Cons.prems by (intro exI [of _ 0]) simp
  next
    case False
    then have "sc_loop (Suc i) bss sz = n" "ucast bs < sz" using Cons.prems by (auto split: if_splits)
    then obtain j where "j < length bss" "n = Suc i + j" "bss ! j \<noteq> 0" "sz \<le> ucast (bss ! j)" "\<forall>k < j. ucast (bss ! k) < sz"
      using Cons.IH Cons.prems(2) by blast
    then show ?thesis using \<open>ucast bs < sz\<close> by (intro exI [of _ "Suc j"]) (auto simp: nth_Cons split: nat.splits)
  qed
qed simp

lemma sc_loop_none:
  "sc_loop i bss sz = MAX_CLASSES \<Longrightarrow> i + length bss \<le> MAX_CLASSES \<Longrightarrow> j < length bss \<Longrightarrow> \<forall>k \<le> j. bss ! k \<noteq> 0 \<Longrightarrow> ucast (bss ! j) < sz"
proof (induction bss arbitrary: i j)
  case (Cons bs bss)
  have "bs \<noteq> 0" using Cons.prems(4) by auto
  then have r: "ucast bs < sz" "sc_loop (Suc i) bss sz = MAX_CLASSES" using Cons.prems by (auto split: if_splits)
  show ?case
  proof (cases j)
    case (Suc j')
    then have "\<forall>k \<le> j'. bss ! k \<noteq> 0" using Cons.prems(4) by (metis Suc_le_mono nth_Cons_Suc)
    then show ?thesis using Cons.IH [OF r(2), of j'] Cons.prems Suc by simp
  qed (use r in simp)
qed simp

section \<open>Bitmaps\<close>

lemma ctz_spec:
  assumes "w \<noteq> 0"
  shows "ctz w < 64" and "bit w (ctz w)" and "i < ctz w \<Longrightarrow> \<not> bit w i"
proof -
  obtain b where b: "bit w b" "b < 64" using assms by (metis bit_0_eq bot_apply bot_bool_def bit_eqI u64_bit_less)
  let ?t = "takeWhile (\<lambda>i. \<not> bit w i) [0..<64]"
  have "?t \<noteq> [0..<64]" using b by (metis atLeastLessThan_iff le0 set_takeWhileD set_upt)
  then have l: "length ?t < 64"
    by (metis diff_zero length_upt length_takeWhile_le nat_less_le takeWhile_eq_take take_all order_refl)
  then show "ctz w < 64" by (simp add: ctz_def)
  show "bit w (ctz w)" using nth_length_takeWhile [of "\<lambda>i. \<not> bit w i" "[0..<64]"] l by (simp add: ctz_def)
  assume i: "i < ctz w"
  then have "?t ! i = i" using l by (simp add: ctz_def takeWhile_nth)
  moreover have "?t ! i \<in> set ?t" using i by (simp add: ctz_def)
  ultimately show "\<not> bit w i" by (metis set_takeWhileD)
qed

text \<open>Block \<open>idx\<close> is in use.\<close>

definition bm_bit :: "(nat \<Rightarrow> u64) \<Rightarrow> nat \<Rightarrow> bool" where
  "bm_bit bm idx \<longleftrightarrow> bit (bm (idx div 64)) (idx mod 64)"

lemma bm_pass_some:
  "bm_pass bm bc i n = Some idx \<Longrightarrow> int idx < bc \<and> \<not> bm_bit bm idx"
proof (induction n arbitrary: i)
  case (Suc n)
  let ?w = "bm i"
  show ?case
  proof (cases "?w \<noteq> NOT 0 \<and> int (i * 64 + ctz (NOT ?w)) < bc")
    case True
    then have idx: "idx = i * 64 + ctz (NOT ?w)" using Suc.prems by simp
    have "NOT ?w \<noteq> 0" using True by (metis bit.double_compl)
    then have c: "ctz (NOT ?w) < 64" "\<not> bit ?w (ctz (NOT ?w))" using ctz_spec [of "NOT ?w"] by (auto simp: bit_not_iff)
    then show ?thesis using True idx by (simp add: bm_bit_def)
  next
    case False
    then show ?thesis using Suc by (auto simp: Let_def split: if_splits)
  qed
qed simp

lemma bm_pass_none:
  "bm_pass bm bc i n = None \<Longrightarrow> i * 64 \<le> idx \<Longrightarrow> idx < (i + n) * 64 \<Longrightarrow> int idx < bc \<Longrightarrow> bm_bit bm idx"
proof (induction n arbitrary: i)
  case (Suc n)
  let ?w = "bm i"
  have rest: "bm_pass bm bc (Suc i) n = None" and no: "\<not> (?w \<noteq> NOT 0 \<and> int (i * 64 + ctz (NOT ?w)) < bc)"
    using Suc.prems(1) by (auto simp: Let_def split: if_splits)
  show ?case
  proof (cases "idx < Suc i * 64")
    case True
    have d: "idx div 64 = i" using True Suc.prems(2) by (intro div_nat_eqI) simp_all
    then have idx: "idx = i * 64 + idx mod 64" by (metis div_mult_mod_eq)
    show ?thesis
    proof (rule ccontr)
      assume "\<not> bm_bit bm idx"
      then have b: "bit (NOT ?w) (idx mod 64)" by (simp add: bm_bit_def d bit_not_iff)
      then have nz: "NOT ?w \<noteq> 0" by auto
      have "ctz (NOT ?w) \<le> idx mod 64" using ctz_spec(3) [OF nz] b by (meson not_le)
      then have "int (i * 64 + ctz (NOT ?w)) < bc" using idx Suc.prems(4) by linarith
      moreover have "?w \<noteq> NOT 0" using nz by auto
      ultimately show False using no by blast
    qed
  next
    case False
    then show ?thesis using Suc.IH [OF rest] Suc.prems by simp
  qed
qed simp

text \<open>
  C21. \<open>bitmap_find_free\<close> is exact for every hint: a returned index is a free block of the chunk, and a
  failure means that every block of the chunk is in use.
\<close>

theorem bitmap_find_free_exact:
  "case bitmap_find_free bm block_count hint of
     Some idx \<Rightarrow> int idx < block_count \<and> \<not> bm_bit bm idx
   | None \<Rightarrow> (\<forall>idx. int idx < block_count \<longrightarrow> bm_bit bm idx)"
proof (cases "bitmap_find_free bm block_count hint")
  case None
  then have n: "bm_pass bm block_count 0 (nat ((block_count + 63) div 64)) = None"
    by (auto simp: bitmap_find_free_def Let_def drop_bit_eq_div split: option.splits)
  have "bm_bit bm idx" if "int idx < block_count" for idx
  proof (rule bm_pass_none [OF n _ _ that])
    have "int idx < (block_count + 63) div 64 * 64" using that by presburger
    then show "idx < (0 + nat ((block_count + 63) div 64)) * 64" using that by simp
  qed simp
  then show ?thesis using None by simp
next
  case (Some idx)
  then show ?thesis using bm_pass_some by (auto simp: bitmap_find_free_def Let_def split: option.splits)
qed

theorem bitmap_find_free_exact_witness:
  "bitmap_find_free (\<lambda>i. if i = 0 then NOT 0 else 1) 100 3 = Some 65 \<and>
   (case bitmap_find_free (\<lambda>i. NOT 0) 100 3 of Some idx \<Rightarrow> False | None \<Rightarrow> bm_bit (\<lambda>i. NOT 0) 7)"
proof
  show "bitmap_find_free (\<lambda>i. if i = 0 then NOT 0 else 1) 100 3 = Some 65" by code_simp
  have "bitmap_find_free (\<lambda>i. NOT 0) 100 3 = None" by code_simp
  then show "case bitmap_find_free (\<lambda>i. NOT 0) 100 3 of Some idx \<Rightarrow> False | None \<Rightarrow> bm_bit (\<lambda>i. NOT 0) 7"
    using bitmap_find_free_exact [where bm = "\<lambda>i. NOT 0" and block_count = 100 and hint = 3] by simp
qed


section \<open>Carving slabs\<close>

type_synonym range = "u64 \<times> u64"

definition apart_ranges :: "range \<Rightarrow> range \<Rightarrow> bool" where
  "apart_ranges x y \<longleftrightarrow> unat (fst x) + unat (snd x) \<le> unat (fst y) \<or> unat (fst y) + unat (snd y) \<le> unat (fst x)"

text \<open>First address above the slabs handed out so far.\<close>

definition frontier :: "region \<Rightarrow> nat" where
  "frontier r = unat (region_start r) + unat (next_slab_idx r) * unat (slab_size r)"

definition geometry_ok :: "region \<Rightarrow> bool" where
  "geometry_ok r \<longleftrightarrow> unat (slab_size r) = 2 ^ slab_size_shift r \<and> 65536 dvd unat (slab_size r) \<and> unat (slab_size r) \<le> 2 ^ 30 \<and>
    65536 dvd unat (region_start r) \<and> 0 < unat (region_start r) \<and> unat (region_end r) \<le> 2 ^ 48"

text \<open>The unused rest of the slab of a thread lies below the frontier, apart from all carved ranges.\<close>

definition rest_ok :: "region \<Rightarrow> nat \<Rightarrow> bool" where
  "rest_ok r t \<longleftrightarrow> slab_bump (tls r t) \<le> slab_end (tls r t) \<and> unat (slab_end (tls r t)) \<le> frontier r \<and> 16 dvd unat (slab_bump (tls r t)) \<and>
    (slab_bump (tls r t) = 0 \<and> slab_end (tls r t) = 0 \<or> region_start r \<le> slab_bump (tls r t)) \<and>
    (\<forall>c \<in> set (carved r). unat (slab_end (tls r t)) \<le> unat (fst c) \<or> unat (fst c) + unat (snd c) \<le> unat (slab_bump (tls r t)))"

definition carved_ok :: "region \<Rightarrow> bool" where
  "carved_ok r \<longleftrightarrow> sorted_wrt apart_ranges (carved r) \<and>
    (\<forall>c \<in> set (carved r). region_start r \<le> fst c \<and> unat (fst c) + unat (snd c) \<le> frontier r \<and> 16 dvd unat (fst c))"

definition rests_apart :: "region \<Rightarrow> bool" where
  "rests_apart r \<longleftrightarrow> (\<forall>t u. t \<noteq> u \<longrightarrow> slab_end (tls r t) \<le> slab_bump (tls r u) \<or> slab_end (tls r u) \<le> slab_bump (tls r t))"

definition region_inv :: "region \<Rightarrow> bool" where
  "region_inv r \<longleftrightarrow> geometry_ok r \<and> frontier r \<le> unat (region_end r) \<and> carved_ok r \<and> (\<forall>t. rest_ok r t) \<and> rests_apart r"

text \<open>What the invariant depends on.\<close>

definition same_geometry :: "region \<Rightarrow> region \<Rightarrow> bool" where
  "same_geometry r s \<longleftrightarrow> region_start s = region_start r \<and> region_end s = region_end r \<and> slab_size s = slab_size r \<and>
    slab_size_shift s = slab_size_shift r \<and> next_slab_idx s = next_slab_idx r \<and> carved s = carved r \<and>
    (\<forall>t. slab_bump (tls s t) = slab_bump (tls r t) \<and> slab_end (tls s t) = slab_end (tls r t))"

lemma same_geometry_inv: "same_geometry r s \<Longrightarrow> region_inv r \<Longrightarrow> region_inv s"
proof -
  assume s: "same_geometry r s" and inv: "region_inv r"
  have eq: "region_start s = region_start r" "region_end s = region_end r" "slab_size s = slab_size r"
    "slab_size_shift s = slab_size_shift r" "next_slab_idx s = next_slab_idx r" "carved s = carved r"
    "slab_bump (tls s t) = slab_bump (tls r t)" "slab_end (tls s t) = slab_end (tls r t)" for t
    using s by (simp_all add: same_geometry_def)
  have "region_inv s \<longleftrightarrow> region_inv r"
    unfolding region_inv_def geometry_ok_def frontier_def carved_ok_def rest_ok_def rests_apart_def eq by (rule refl)
  then show "region_inv s" using inv by simp
qed

lemma geometry_cong:
  assumes "region_start s = region_start r" "region_end s = region_end r" "slab_size s = slab_size r"
    "slab_size_shift s = slab_size_shift r"
  shows "geometry_ok s \<longleftrightarrow> geometry_ok r"
  unfolding geometry_ok_def assms by (rule refl)

lemma unat_add_small: "unat (a :: u64) + unat b < 2 ^ 64 \<Longrightarrow> unat (a + b) = unat a + unat b"
  using unat_add_lem [of a b] by simp

lemma unat_mult_small: "unat (a :: u64) * unat b < 2 ^ 64 \<Longrightarrow> unat (a * b) = unat a * unat b"
  using unat_mult_lem [of a b] by simp

text \<open>Taking \<open>n\<close> bytes from the rest of the slab.\<close>

lemma carve_rest:
  assumes inv: "region_inv r" and n: "unat n \<le> 2 ^ 63" "0 < unat n" "16 dvd unat n"
    and fits: "\<not> slab_bump (tls r t) + n > slab_end (tls r t)"
  shows "region_inv ((set_tl t ((tls r t)\<lparr>slab_bump := slab_bump (tls r t) + n\<rparr>) r)\<lparr>carved := carved r @ [(slab_bump (tls r t), n)]\<rparr>)"
proof -
  let ?b = "slab_bump (tls r t)" and ?e = "slab_end (tls r t)"
  let ?s = "(set_tl t ((tls r t)\<lparr>slab_bump := ?b + n\<rparr>) r)\<lparr>carved := carved r @ [(?b, n)]\<rparr>"
  have R: "rest_ok r u" for u using inv by (simp add: region_inv_def)
  have G: "geometry_ok r" "frontier r \<le> unat (region_end r)" "carved_ok r" "rests_apart r" using inv by (simp_all add: region_inv_def)
  have be: "unat ?b \<le> unat ?e" "unat ?e \<le> 2 ^ 48"
    using R [of t] G by (auto simp: rest_ok_def geometry_ok_def word_le_nat_alt)
  then have bn: "unat (?b + n) = unat ?b + unat n" using n(1) by (intro unat_add_small) simp
  then have le: "unat ?b + unat n \<le> unat ?e" using fits by (simp add: word_less_nat_alt)
  then have e0: "?e \<noteq> 0" using n(2) by auto
  have fr: "frontier ?s = frontier r" by (simp add: frontier_def set_tl_def)
  have "carved_ok ?s"
    using G(3) R [of t] le e0 n unfolding carved_ok_def fr
    by (auto simp: sorted_wrt_append apart_ranges_def rest_ok_def set_tl_def word_le_nat_alt)
  moreover have "rest_ok ?s u" for u
  proof (cases "u = t")
    case True
    have "region_start r \<le> ?b" using R [of t] e0 by (auto simp: rest_ok_def)
    then have "region_start r \<le> ?b + n" using bn by (simp add: word_le_nat_alt)
    then show ?thesis
      using True R [of t] le bn n(3) unfolding rest_ok_def fr by (auto simp: set_tl_def word_le_nat_alt)
  next
    case False
    have "?e \<le> slab_bump (tls r u) \<or> slab_end (tls r u) \<le> ?b" using G(4) False by (auto simp: rests_apart_def)
    then show ?thesis
      using False R [of u] le unfolding rest_ok_def fr by (auto simp: set_tl_def word_le_nat_alt)
  qed
  moreover have "rests_apart ?s"
    unfolding rests_apart_def
  proof (intro allI impI)
    fix u w :: nat assume uw: "u \<noteq> w"
    then have "slab_end (tls r u) \<le> slab_bump (tls r w) \<or> slab_end (tls r w) \<le> slab_bump (tls r u)"
      using G(4) by (simp add: rests_apart_def)
    moreover have "?b \<le> ?b + n" using bn by (simp add: word_le_nat_alt)
    ultimately show "slab_end (tls ?s u) \<le> slab_bump (tls ?s w) \<or> slab_end (tls ?s w) \<le> slab_bump (tls ?s u)"
      using uw by (auto simp: set_tl_def intro: order_trans)
  qed
  moreover have "geometry_ok ?s" using G(1) by (subst geometry_cong [of _ r]) (simp_all add: set_tl_def)
  moreover have "frontier ?s \<le> unat (region_end ?s)" using G(2) fr by (simp add: set_tl_def)
  ultimately show ?thesis unfolding region_inv_def by blast
qed

text \<open>Taking \<open>n\<close> bytes from \<open>k\<close> new slabs.\<close>

lemma carve_slabs:
  assumes inv: "region_inv r" and n: "unat n \<le> unat k * unat (slab_size r)" "16 dvd unat n"
    and k: "unat k * unat (slab_size r) < 2 ^ 63"
    and slab: "slab = region_start r + next_slab_idx r * slab_size r"
    and fits: "\<not> slab + k * slab_size r > region_end r"
  shows "region_inv ((set_tl t ((tls r t)\<lparr>slab_bump := slab + n, slab_end := slab + k * slab_size r\<rparr>) r)
     \<lparr>next_slab_idx := next_slab_idx r + k, carved := carved r @ [(slab, n)]\<rparr>)"
proof -
  let ?S = "unat (slab_size r)"
  let ?s = "(set_tl t ((tls r t)\<lparr>slab_bump := slab + n, slab_end := slab + k * slab_size r\<rparr>) r)
     \<lparr>next_slab_idx := next_slab_idx r + k, carved := carved r @ [(slab, n)]\<rparr>"
  have R: "rest_ok r u" for u using inv by (simp add: region_inv_def)
  have G: "geometry_ok r" "frontier r \<le> unat (region_end r)" "carved_ok r" "rests_apart r" using inv by (simp_all add: region_inv_def)
  have E: "unat (region_end r) \<le> 2 ^ 48" and S: "65536 dvd ?S" "0 < ?S" and B: "65536 dvd unat (region_start r)"
    using G(1) unfolding geometry_ok_def by auto
  have i: "unat (next_slab_idx r) * ?S \<le> 2 ^ 48" using G(2) E by (simp add: frontier_def)
  have m1: "unat (next_slab_idx r * slab_size r) = unat (next_slab_idx r) * ?S" using i by (intro unat_mult_small) simp
  have b: "unat slab = frontier r"
    using G(2) E by (simp add: slab frontier_def m1 unat_add_small)
  have m2: "unat (k * slab_size r) = unat k * ?S" using k by (intro unat_mult_small) simp
  have e: "unat (slab + k * slab_size r) = frontier r + unat k * ?S"
    using G(2) E k by (subst unat_add_small) (simp_all add: b m2)
  have le: "frontier r + unat k * ?S \<le> unat (region_end r)" using fits e by (simp add: word_less_nat_alt)
  have bn: "unat (slab + n) = frontier r + unat n" using le E n(1) by (subst unat_add_small) (simp_all add: b)
  have "unat (next_slab_idx r) \<le> 2 ^ 48" "unat k \<le> 2 ^ 48"
    using i le E S(2) by (metis (no_types, lifting) le_trans mult_le_mono2 nat_mult_1_right Suc_leI One_nat_def le_add2)+
  then have ik: "unat (next_slab_idx r + k) = unat (next_slab_idx r) + unat k" by (intro unat_add_small) simp
  have fr: "frontier ?s = frontier r + unat k * ?S" by (simp add: frontier_def set_tl_def ik distrib_right)
  have "(16 :: nat) dvd 65536" by simp
  then have al: "16 dvd frontier r"
    using dvd_trans [OF _ S(1)] dvd_trans [OF _ B] unfolding frontier_def by (intro dvd_add dvd_mult)
  have base: "region_start r \<le> slab" using b by (simp add: word_le_nat_alt frontier_def)
  have "carved_ok ?s"
    using G(3) n(1) base al b unfolding carved_ok_def fr
    by (auto simp: sorted_wrt_append apart_ranges_def set_tl_def intro: le_trans)
  moreover have "rest_ok ?s u" for u
  proof (cases "u = t")
    case True
    have "region_start r \<le> slab + n" using bn by (simp add: word_le_nat_alt frontier_def)
    then show ?thesis
      using True al n bn e b G(3) unfolding rest_ok_def fr carved_ok_def
      by (auto simp: set_tl_def word_le_nat_alt dvd_add)
  next
    case False
    then show ?thesis using R [of u] b unfolding rest_ok_def fr by (auto simp: set_tl_def)
  qed
  moreover have "rests_apart ?s"
  proof -
    have "slab_end (tls r u) \<le> slab + n" for u using R [of u] bn by (simp add: rest_ok_def word_le_nat_alt)
    then show ?thesis using G(4) unfolding rests_apart_def by (auto simp: set_tl_def)
  qed
  moreover have "geometry_ok ?s" using G(1) by (subst geometry_cong [of _ r]) (simp_all add: set_tl_def)
  moreover have "frontier ?s \<le> unat (region_end ?s)" using le fr by (simp add: set_tl_def)
  ultimately show ?thesis unfolding region_inv_def by blast
qed


lemma chunk_carve_inv:
  assumes inv: "region_inv r" and c: "chunk_carve r t = Some (r', p)"
  shows "region_inv r'"
proof (cases "slab_bump (tls r t) + CHUNK_SIZE > slab_end (tls r t)")
  case True
  have S: "unat (slab_size r) \<le> 2 ^ 30" "65536 dvd unat (slab_size r)" "0 < unat (slab_size r)"
    using inv unfolding region_inv_def geometry_ok_def by auto
  let ?slab = "region_start r + next_slab_idx r * slab_size r"
  have "region_inv ((set_tl t ((tls r t)\<lparr>slab_bump := ?slab + CHUNK_SIZE, slab_end := ?slab + 1 * slab_size r\<rparr>) r)
      \<lparr>next_slab_idx := next_slab_idx r + 1, carved := carved r @ [(?slab, CHUNK_SIZE)]\<rparr>)"
  proof (rule carve_slabs [OF inv _ _ _ refl])
    show "unat CHUNK_SIZE \<le> unat (1 :: u64) * unat (slab_size r)" using S(2,3) by (simp add: CHUNK_SIZE_def dvd_imp_le)
    show "\<not> ?slab + 1 * slab_size r > region_end r" using c True by (auto simp: chunk_carve_def Let_def split: if_splits)
  qed (use S(1) in \<open>simp_all add: CHUNK_SIZE_def\<close>)
  then show ?thesis using c True by (auto simp: chunk_carve_def Let_def split: if_splits)
next
  case False
  then show ?thesis
    using c carve_rest [OF inv _ _ _ False] by (auto simp: chunk_carve_def Let_def CHUNK_SIZE_def)
qed

lemma round16_bounds:
  assumes "unat sz < 2 ^ 63"
  shows "unat sz \<le> unat (round16 sz)" "unat (round16 sz) < unat sz + 16" "16 dvd unat (round16 sz)"
proof -
  have "unat (sz + 15) = unat sz + 15" using assms by (subst unat_add_small) simp_all
  moreover have "round16 sz = (sz + 15) AND NOT (mask 4)" by (simp add: round16_def mask_eq_exp_minus_1)
  ultimately have r: "unat (round16 sz) = unat sz + 15 - (unat sz + 15) mod 16" by (simp add: unat_and_not_mask)
  have "(unat sz + 15) mod 16 \<le> 15" by simp
  then show "unat sz \<le> unat (round16 sz)" "unat (round16 sz) < unat sz + 16" using r by linarith+
  show "16 dvd unat (round16 sz)" using r by (simp add: minus_mod_eq_mult_div)
qed

lemma large_carve_inv:
  assumes inv: "region_inv r" and n: "unat n \<le> 2 ^ 62" "0 < unat n" "16 dvd unat n" and c: "large_carve r t n = Some (r', p)"
  shows "region_inv r'"
proof (cases "slab_bump (tls r t) + n > slab_end (tls r t)")
  case True
  let ?S = "unat (slab_size r)"
  have S: "?S \<le> 2 ^ 30" "?S = 2 ^ slab_size_shift r" "0 < ?S"
    using inv unfolding region_inv_def geometry_ok_def by auto
  let ?slab = "region_start r + next_slab_idx r * slab_size r" and ?k = "drop_bit (slab_size_shift r) (n + slab_size r - 1)"
  have "unat (n + slab_size r) = unat n + ?S" using n(1) S(1) by (intro unat_add_small) simp
  then have "unat (n + slab_size r - 1) = unat n + ?S - 1" using S(3) by (subst unat_minus_one) auto
  then have k: "unat ?k = (unat n + ?S - 1) div ?S" unfolding unat_drop_bit_eq by (simp only: drop_bit_eq_div S(2))
  have kS: "unat n \<le> unat ?k * ?S" "unat ?k * ?S \<le> unat n + ?S - 1"
  proof -
    have "unat ?k * ?S + (unat n + ?S - 1) mod ?S = unat n + ?S - 1" unfolding k by (rule div_mult_mod_eq)
    moreover have "(unat n + ?S - 1) mod ?S < ?S" using S(3) by (rule mod_less_divisor)
    ultimately show "unat n \<le> unat ?k * ?S" "unat ?k * ?S \<le> unat n + ?S - 1" by linarith+
  qed
  have "region_inv ((set_tl t ((tls r t)\<lparr>slab_bump := ?slab + n, slab_end := ?slab + ?k * slab_size r\<rparr>) r)
      \<lparr>next_slab_idx := next_slab_idx r + ?k, carved := carved r @ [(?slab, n)]\<rparr>)"
  proof (rule carve_slabs [OF inv kS(1) n(3) _ refl])
    show "unat ?k * ?S < 2 ^ 63" using kS(2) n(1) S(1,3) by simp
    show "\<not> ?slab + ?k * slab_size r > region_end r" using c True by (auto simp: large_carve_def Let_def split: if_splits)
  qed
  then show ?thesis using c True by (auto simp: large_carve_def Let_def split: if_splits)
next
  case False
  have "unat n \<le> 2 ^ 63" using n(1) by simp
  from carve_rest [OF inv this n(2,3) False] show ?thesis using c False by (auto simp: large_carve_def Let_def)
qed


section \<open>Every operation keeps the invariant\<close>

lemma heap_same [simp]: "same_geometry r (r\<lparr>heap := h\<rparr>)"
  by (simp add: same_geometry_def)

lemma heap_inv [simp]: "region_inv (r\<lparr>heap := h\<rparr>) \<longleftrightarrow> region_inv r"
  using same_geometry_inv [of r "r\<lparr>heap := h\<rparr>"] same_geometry_inv [of "r\<lparr>heap := h\<rparr>" r] by (auto simp: same_geometry_def)

lemma set_tl_inv:
  assumes "slab_bump td = slab_bump (tls r t)" "slab_end td = slab_end (tls r t)"
  shows "region_inv (set_tl t td r) \<longleftrightarrow> region_inv r"
proof -
  have "same_geometry r (set_tl t td r)" "same_geometry (set_tl t td r) r"
    using assms by (auto simp: same_geometry_def set_tl_def)
  then show ?thesis using same_geometry_inv by blast
qed

lemma new_hot_chunk_inv: "region_inv r \<Longrightarrow> new_hot_chunk r t sc = Some (r', p) \<Longrightarrow> region_inv r'"
  using chunk_carve_inv
  by (fastforce simp: new_hot_chunk_def tm_region_chunk_alloc_def Let_def set_tl_inv split: option.splits)

lemma take_block_inv: "region_inv r \<Longrightarrow> take_block r t sc c = Some (r', p) \<Longrightarrow> region_inv r'"
  using new_hot_chunk_inv [of r t sc]
  by (auto simp: take_block_def Let_def split: if_splits option.splits)

lemma small_malloc_inv:
  assumes inv: "region_inv r" and m: "small_malloc r t sc = Some (r', p)"
  shows "region_inv r'"
proof (cases "tl_fl_pop (heap r) (tl_free_lists (tls r t) ! sc)")
  case None
  let ?c = "hot_chunks (tls r t) ! sc"
  obtain r1 c1 where 1: "(if ?c = 0 then new_hot_chunk r t sc else Some (r, ?c)) = Some (r1, c1)"
    and m1: "(case (if hdr_free_count (heap r1) c1 = 0 then new_hot_chunk r1 t sc else Some (r1, c1)) of
       None \<Rightarrow> None | Some (r'', chunk') \<Rightarrow> take_block r'' t sc chunk') = Some (r', p)"
    using m None unfolding small_malloc_def Let_def
    by (cases "if ?c = 0 then new_hot_chunk r t sc else Some (r, ?c)") auto
  then obtain r2 c2 where 2: "(if hdr_free_count (heap r1) c1 = 0 then new_hot_chunk r1 t sc else Some (r1, c1)) = Some (r2, c2)"
    and 3: "take_block r2 t sc c2 = Some (r', p)"
    by (cases "if hdr_free_count (heap r1) c1 = 0 then new_hot_chunk r1 t sc else Some (r1, c1)") auto
  have "region_inv r1" using 1 new_hot_chunk_inv [OF inv] inv by (auto split: if_splits)
  then have "region_inv r2" using 2 new_hot_chunk_inv by (auto split: if_splits)
  then show ?thesis using 3 take_block_inv by blast
next
  case (Some q)
  then show ?thesis using inv m by (auto simp: small_malloc_def Let_def set_tl_inv split: prod.splits)
qed

lemma large_malloc_inv:
  assumes inv: "region_inv r" and sz: "unat sz \<le> 2 ^ 61" and m: "large_malloc r t sz = Some (r', p)"
  shows "region_inv r'"
proof -
  have "unat (sz + 16) = unat sz + 16" using sz by (subst unat_add_small) simp_all
  then have "unat (round16 (sz + 16)) \<le> 2 ^ 62" "0 < unat (round16 (sz + 16))" "16 dvd unat (round16 (sz + 16))"
    using round16_bounds [of "sz + 16"] sz by auto
  then have "large_carve r t (round16 (sz + 16)) = Some (s, q) \<Longrightarrow> region_inv s" for s q
    using large_carve_inv [OF inv] by blast
  then show ?thesis using inv m by (auto simp: large_malloc_def Let_def set_tl_inv split: if_splits option.splits)
qed

lemma malloc_inv:
  assumes inv: "region_inv r" and sz: "unat sz \<le> 2 ^ 60" and m: "tm_region_malloc r t sz = Some (r', p)"
  shows "region_inv r'"
proof -
  let ?s = "if sz < 16 then 16 else sz"
  have "unat ?s \<le> 2 ^ 60" using sz by simp
  then have "unat (round16 ?s) \<le> 2 ^ 61" using round16_bounds [of ?s] by simp
  then show ?thesis
    using large_malloc_inv [OF inv] small_malloc_inv [OF inv] m unfolding tm_region_malloc_def Let_def by (auto split: if_splits)
qed

lemma free_inv: "region_inv r \<Longrightarrow> region_inv (tm_region_free r t p)"
  by (simp add: tm_region_free_def tl_fl_push_def Let_def set_tl_inv)

datatype region_op = OMalloc u64 | OCalloc u64 u64 | ORealloc u64 u64 | OFree u64

fun region_step :: "region \<Rightarrow> nat \<Rightarrow> region_op \<Rightarrow> region option" where
  "region_step r t (OMalloc sz) = map_option fst (tm_region_malloc r t sz)"
| "region_step r t (OCalloc n sz) = map_option fst (tm_region_calloc r t n sz)"
| "region_step r t (ORealloc p sz) = map_option fst (tm_region_realloc r t p sz)"
| "region_step r t (OFree p) = Some (tm_region_free r t p)"

fun region_run :: "region \<Rightarrow> (nat \<times> region_op) list \<Rightarrow> region option" where
  "region_run r [] = Some r"
| "region_run r ((t, c) # cs) = (case region_step r t c of None \<Rightarrow> None | Some r' \<Rightarrow> region_run r' cs)"

text \<open>The number of bytes asked for.\<close>

fun op_size :: "region_op \<Rightarrow> nat" where
  "op_size (OMalloc sz) = unat sz"
| "op_size (OCalloc n sz) = unat (n * sz)"
| "op_size (ORealloc p sz) = unat sz"
| "op_size (OFree p) = 0"

lemma step_inv:
  assumes "region_inv r" "op_size c \<le> 2 ^ 60" "region_step r t c = Some r'"
  shows "region_inv r'"
  using assms malloc_inv [OF assms(1)] free_inv
  by (cases c) (auto simp: tm_region_calloc_def tm_region_realloc_def Let_def split: option.splits if_splits)

lemma region_run_inv:
  "region_inv r \<Longrightarrow> \<forall>(t, c) \<in> set cs. op_size c \<le> 2 ^ 60 \<Longrightarrow> region_run r cs = Some r' \<Longrightarrow> region_inv r'"
proof (induction cs arbitrary: r)
  case (Cons a cs)
  obtain t c where a: "a = (t, c)" by (cases a)
  then obtain s where "region_step r t c = Some s" "region_run s cs = Some r'" using Cons.prems(3) by (auto split: option.splits)
  then show ?case using Cons step_inv [of r c t s] a by auto
qed simp


text \<open>The page sizes of the supported targets.\<close>

definition page_sizes :: "u64 list" where
  "page_sizes = [4096, 16384, 65536]"

lemma ctz_slab: "ctz 0x100000 = 20" "ctz 0x400000 = 22" "ctz 0x1000000 = 24"
  by code_simp+

lemma init_fields:
  assumes "tm_region_init page (Some a) symbols region_zero = (n, r)"
  shows "slab_size r = 256 * page" "slab_size_shift r = ctz (256 * page)" "next_slab_idx r = 0" "carved r = []"
    "tls r = (\<lambda>_. tl_init)" "region_start r = (a + CHUNK_MASK) AND NOT CHUNK_MASK"
    "region_end r = region_start r + 0x400000000 \<or> region_end r = region_start r + 0x400000000 - 0x10000"
    "heap r = (\<lambda>_. 0)"
  using assms by (auto simp: tm_region_init_def region_zero_def Let_def TM_SLAB_PAGES_def TM_REGION_SIZE_def
      CHUNK_MASK_def CHUNK_SIZE_def algebra_simps)

lemma init_inv:
  assumes i: "tm_region_init page (Some a) symbols region_zero = (n, r)" and page: "page \<in> set page_sizes"
    and a: "0 < unat a" "unat a \<le> 2 ^ 47"
  shows "region_inv r"
proof -
  note F = init_fields [OF i]
  have "slab_size r = 0x100000 \<and> slab_size_shift r = 20 \<or> slab_size r = 0x400000 \<and> slab_size_shift r = 22 \<or>
      slab_size r = 0x1000000 \<and> slab_size_shift r = 24"
    using page F(1,2) ctz_slab by (auto simp: page_sizes_def)
  then have S: "unat (slab_size r) = 2 ^ slab_size_shift r" "65536 dvd unat (slab_size r)" "unat (slab_size r) \<le> 2 ^ 30" by auto
  have "unat (a + CHUNK_MASK) = unat a + 65535" using a by (subst unat_add_small) (simp_all add: CHUNK_MASK_def CHUNK_SIZE_def)
  then have st: "unat (region_start r) = unat a + 65535 - (unat a + 65535) mod 65536" using F(6) by (simp add: unat_and_not_chunk)
  have b: "65536 dvd unat (region_start r)" "unat a \<le> unat (region_start r)" "unat (region_start r) \<le> unat a + 65535"
  proof -
    have "(unat a + 65535) mod 65536 \<le> 65535" by simp
    then show "unat a \<le> unat (region_start r)" "unat (region_start r) \<le> unat a + 65535" using st by linarith+
    show "65536 dvd unat (region_start r)" using st by (simp add: minus_mod_eq_mult_div)
  qed
  have e1: "unat (region_start r + 0x400000000) = unat (region_start r) + 0x400000000"
    using a b by (subst unat_add_small) simp_all
  then have "unat (region_start r + 0x400000000 - 0x10000) = unat (region_start r) + 0x400000000 - 0x10000"
    by (subst unat_sub) (simp_all add: word_le_nat_alt)
  then have e: "unat (region_start r) \<le> unat (region_end r)" "unat (region_end r) \<le> 2 ^ 48"
    using F(7) e1 a b by auto
  have "geometry_ok r" unfolding geometry_ok_def using S b e a by auto
  moreover have "frontier r = unat (region_start r)" by (simp add: frontier_def F)
  ultimately show ?thesis
    using e by (simp add: region_inv_def carved_ok_def rest_ok_def rests_apart_def F(4,5) tl_init_def)
qed

text \<open>
  C19. The allocator never hands out the same memory twice from its slabs: after \<open>tm_region_init\<close> and any sequence of
  \<open>malloc\<close>, \<open>calloc\<close>, \<open>realloc\<close> and \<open>free\<close> calls of any threads, the chunks and large
  blocks carved so far are pairwise disjoint, lie inside the region, and start at multiples of 16.
  (For requests of up to \<open>2^60\<close> bytes and mappings in the lower half of the address space.)
\<close>

theorem region_carves_disjoint:
  assumes "tm_region_init page (Some a) symbols region_zero = (n, r0)" and "page \<in> set page_sizes"
    and "0 < unat a" and "unat a \<le> 2 ^ 47"
    and "region_run r0 cs = Some r" and "\<forall>(t, c) \<in> set cs. op_size c \<le> 2 ^ 60"
  shows "sorted_wrt apart_ranges (carved r) \<and>
    (\<forall>(p, len) \<in> set (carved r). region_start r \<le> p \<and> unat p + unat len \<le> unat (region_end r) \<and> 16 dvd unat p)"
proof -
  have "region_inv r" using region_run_inv [OF init_inv [OF assms(1-4)] assms(6,5)] .
  then show ?thesis by (fastforce simp: region_inv_def carved_ok_def)
qed


section \<open>Blocks of a chunk\<close>

lemma tables_nth:
  assumes "tables_ok r" "sc < 31"
  shows "sc_block_size r ! sc = kSizeTable ! sc" "unat (sc_block_count r ! sc) = 61440 div unat (kSizeTable ! sc)"
    "sc_data_off r ! sc = 4096" "16 \<le> unat (kSizeTable ! sc)" "unat (kSizeTable ! sc) \<le> 4096"
    "unat (sc_bitmap_bytes r ! sc) = (if kSizeTable ! sc \<le> 256 then (61440 div unat (kSizeTable ! sc) + 7) div 8 else 0)"
proof -
  have len: "length kSizeTable = 32" by (simp add: kSizeTable_def)
  have "0 \<notin> set (take 31 kSizeTable)" by code_simp
  moreover have "take 31 kSizeTable ! sc \<in> set (take 31 kSizeTable)" using len assms(2) by (intro nth_mem) simp
  ultimately have nz: "kSizeTable ! sc \<noteq> 0" using assms(2) by auto
  have "kSizeTable ! sc \<in> set kSizeTable" using len assms(2) by simp
  then have bs: "16 \<le> kSizeTable ! sc" "kSizeTable ! sc \<le> 4096" using kSizeTable_entries nz by auto
  then show le: "16 \<le> unat (kSizeTable ! sc)" "unat (kSizeTable ! sc) \<le> 4096" by (simp_all add: word_le_nat_alt)
  have ui: "uint (kSizeTable ! sc) = int (unat (kSizeTable ! sc))" by simp
  have q: "61440 div unat (kSizeTable ! sc) \<le> 3840"
    using div_le_mono2 [of 16 "unat (kSizeTable ! sc)" 61440] le by simp
  have w: "unat (of_nat n :: u16) = n" if "n < 65536" for n using that by (simp add: unat_of_nat take_bit_nat_eq_self)
  have i: "(61440 :: int) div uint (kSizeTable ! sc) = int (61440 div unat (kSizeTable ! sc))"
    unfolding ui by (simp add: zdiv_int)
  show "sc_block_size r ! sc = kSizeTable ! sc" "sc_data_off r ! sc = 4096"
    using assms len nz by (simp_all add: tables_ok_def)
  show "unat (sc_block_count r ! sc) = 61440 div unat (kSizeTable ! sc)"
    using assms len nz q w by (simp add: tables_ok_def i)
  have "(61440 div uint (kSizeTable ! sc) + 7) div 8 = int ((61440 div unat (kSizeTable ! sc) + 7) div 8)"
    unfolding i by (simp add: zdiv_int)
  then show "unat (sc_bitmap_bytes r ! sc) = (if kSizeTable ! sc \<le> 256 then (61440 div unat (kSizeTable ! sc) + 7) div 8 else 0)"
    using assms len nz q w [of "(61440 div unat (kSizeTable ! sc) + 7) div 8"] by (simp add: tables_ok_def)
qed


text \<open>
  The tables of \<open>tm_region_init\<close> fit: in every size class the header and the whole bitmap (in 8-byte words)
  lie below the first block, the blocks end inside the 64 KB chunk, the first block is on a page boundary,
  and the bitmap has a bit for every block.
\<close>

theorem region_tables_fit:
  assumes "tm_region_init page (Some a) symbols region_zero = (n, r)" and "sc < 31"
  shows "unat (sc_data_off r ! sc) + unat (sc_block_count r ! sc) * unat (sc_block_size r ! sc) \<le> 65536 \<and>
    32 + 8 * ((unat (sc_block_count r ! sc) + 63) div 64) \<le> unat (sc_data_off r ! sc) \<and> 4096 dvd unat (sc_data_off r ! sc) \<and>
    0 < unat (sc_block_count r ! sc) \<and>
    (0 < sc_bitmap_bytes r ! sc \<longrightarrow> unat (sc_block_count r ! sc) \<le> 8 * unat (sc_bitmap_bytes r ! sc))"
proof -
  note T = tables_nth [OF init_tables [OF assms(1)] assms(2)]
  let ?b = "unat (kSizeTable ! sc)"
  have "61440 div ?b * ?b \<le> 61440" by simp
  moreover have "61440 div ?b \<le> 3840" using div_le_mono2 [of 16 ?b 61440] T(4) by simp
  moreover have "0 < 61440 div ?b" using T(4,5) by (simp add: div_greater_zero_iff)
  ultimately show ?thesis using T by (auto simp: word_less_nat_alt)
qed

definition region_demo :: region where
  "region_demo = snd (tm_region_init 4096 (Some 0x10000000) [(0x5000, 16), (0, 8), (0x5000, 16)] region_zero)"

lemma region_demo_init: "tm_region_init 4096 (Some 0x10000000) [(0x5000, 16), (0, 8), (0x5000, 16)] region_zero = (0, region_demo)"
  by (simp add: region_demo_def tm_region_init_def region_zero_def Let_def)

theorem region_tables_fit_witness:
  "unat (sc_data_off region_demo ! 0) + unat (sc_block_count region_demo ! 0) * unat (sc_block_size region_demo ! 0) \<le> 65536"
  using region_tables_fit [OF region_demo_init, of 0] by simp

text \<open>
  C22. \<open>size_class_for\<close> picks the best class: up to 4096 bytes it returns the first class whose blocks are large
  enough, every earlier class being too small; beyond that it returns the marker of the large-block path.
\<close>

theorem size_class_for_best:
  assumes "tm_region_init page (Some a) symbols region_zero = (n, r)"
  shows "if sz \<le> 4096
    then size_class_for r sz < 31 \<and> sz \<le> ucast (sc_block_size r ! size_class_for r sz) \<and>
      (\<forall>k < size_class_for r sz. ucast (sc_block_size r ! k) < sz)
    else size_class_for r sz = MAX_CLASSES"
proof -
  have T: "sc_block_size r = kSizeTable" using init_tables [OF assms] by (simp add: tables_ok_def)
  have k: "length kSizeTable = 32" "kSizeTable ! 30 = 4096" "kSizeTable ! 31 = 0" by (simp_all add: kSizeTable_def)
  have small: "ucast (kSizeTable ! j) \<le> (4096 :: u64)" if "j < 32" for j
  proof -
    have "kSizeTable ! j \<in> set kSizeTable" using that k by simp
    then have "kSizeTable ! j \<le> 4096" using kSizeTable_entries by auto
    then show ?thesis by (simp add: word_le_nat_alt unat_u16_u64)
  qed
  let ?n = "size_class_for r sz"
  show ?thesis
  proof (cases "?n = MAX_CLASSES")
    case True
    have "\<forall>j \<le> 30. kSizeTable ! j \<noteq> 0"
    proof (intro allI impI)
      fix j :: nat assume "j \<le> 30"
      then show "kSizeTable ! j \<noteq> 0" using tables_nth(4) [OF init_tables [OF assms], of j] by auto
    qed
    then have "ucast (kSizeTable ! 30) < sz"
      using sc_loop_none [of 0 kSizeTable sz 30] True T k by (simp add: size_class_for_def MAX_CLASSES_def)
    then have "\<not> sz \<le> 4096" using k by simp
    then show ?thesis using True by (simp only: if_False)
  next
    case False
    then obtain j where j: "j < 32" "?n = j" "kSizeTable ! j \<noteq> 0" "sz \<le> ucast (kSizeTable ! j)" "\<forall>i < j. ucast (kSizeTable ! i) < sz"
      using sc_loop_found [of 0 kSizeTable sz ?n] T k by (auto simp: size_class_for_def)
    have "sz \<le> 4096" using j(4) small [OF j(1)] by (rule order_trans)
    moreover have "j \<noteq> 31" using j(3) k by auto
    ultimately show ?thesis using j T by simp
  qed
qed

theorem size_class_for_best_witness:
  "size_class_for region_demo 100 < 31 \<and> size_class_for region_demo 5000 = MAX_CLASSES"
  using size_class_for_best [OF region_demo_init, of 100] size_class_for_best [OF region_demo_init, of 5000] by simp


lemma unat_block_ptr:
  assumes T: "tables_ok r" and sc: "sc < 31" and base: "unat base \<le> 2 ^ 48" and idx: "idx < unat (sc_block_count r ! sc)"
  shows "unat (chunk_block_ptr r base idx sc) = unat base + 4096 + idx * unat (sc_block_size r ! sc)"
    and "4096 + idx * unat (sc_block_size r ! sc) + unat (sc_block_size r ! sc) \<le> 65536"
proof -
  note N = tables_nth [OF T sc]
  let ?b = "unat (sc_block_size r ! sc)"
  have "Suc idx * ?b \<le> 61440 div ?b * ?b" using idx N(1,2) by (intro mult_le_mono1) simp
  also have "\<dots> \<le> 61440" by simp
  finally have le: "idx * ?b + ?b \<le> 61440" by simp
  then show "4096 + idx * ?b + ?b \<le> 65536" by simp
  have "idx \<le> 61440" using idx N(2) le_trans [OF less_imp_le div_le_dividend] by metis
  then have i: "unat (of_nat idx :: u64) = idx" by (intro unat_of_nat_u64) simp
  have m: "unat (of_nat idx * ucast (sc_block_size r ! sc) :: u64) = idx * ?b"
    using le by (subst unat_mult_small) (simp_all add: i unat_u16_u64)
  have "unat (base + 4096) = unat base + 4096" using base by (subst unat_add_small) simp_all
  then show "unat (chunk_block_ptr r base idx sc) = unat base + 4096 + idx * ?b"
    using le base N(3) unfolding chunk_block_ptr_def by (subst unat_add_small) (simp_all add: m)
qed



section \<open>Caches\<close>

text \<open>
  A freed small block is the next one handed out: when thread \<open>t\<close> frees a block of an initialised chunk of class
  \<open>sc\<close>, its next \<open>malloc\<close> of that class returns this block, and its cache is as before the \<open>free\<close>.
\<close>

theorem free_malloc_lifo:
  assumes "isTMAddress r p" and "p \<noteq> 0" and "hdr_magic (heap r) (chunk_start p) = CHUNK_MAGIC"
    and "hdr_size_class (heap r) (chunk_start p) = of_nat sc" and "sc < MAX_CLASSES" and "0 < sc_block_size r ! sc"
    and "size_class_for r (round16 (if sz < 16 then 16 else sz)) = sc" and "length (tl_free_lists (tls r t)) = MAX_CLASSES"
  shows "\<exists>r'. tm_region_malloc (tm_region_free r t p) t sz = Some (r', p) \<and> tls r' = tls r \<and>
    (\<forall>b. unat (b - p) \<ge> 8 \<longrightarrow> heap r' b = heap r b)"
proof -
  let ?fl = "tl_free_lists (tls r t) ! sc"
  let ?h = "store_bytes (heap r) p (fst ?fl) 8"
  let ?r = "(set_tl t ((tls r t)\<lparr>tl_free_lists := (tl_free_lists (tls r t))[sc := (p, snd ?fl + 1)]\<rparr>) r)\<lparr>heap := ?h\<rparr>"
  have "unat (of_nat sc :: u64) = sc" using assms(5) by (intro unat_of_nat_u64) (simp add: MAX_CLASSES_def)
  then have f: "tm_region_free r t p = ?r"
    using assms by (simp add: tm_region_free_def tl_fl_push_def Let_def)
  have sc: "size_class_for ?r x = size_class_for r x" for x by (simp add: size_class_for_def set_tl_def)
  have "load_bytes ?h p 8 = fst ?fl" using load_store_same [of 8 "heap r" p "fst ?fl"] by (simp add: u64_eq_iff bit_and_iff bit_mask_iff del: load_bytes.simps)
  then have pop: "tl_fl_pop ?h (p, snd ?fl + 1) = Some (p, fst ?fl, snd ?fl)" using assms(2) by (simp add: tl_fl_pop_def)
  let ?s = "set_tl t ((tls ?r t)\<lparr>tl_free_lists := (tl_free_lists (tls ?r t))[sc := ?fl]\<rparr>) ?r"
  have "sc_block_size r ! sc \<noteq> 0" using assms(6) by auto
  then have "tm_region_malloc ?r t sz = small_malloc ?r t sc"
    unfolding tm_region_malloc_def Let_def sc assms(7) using assms(5) by (simp add: set_tl_def)
  also have "\<dots> = Some (?s, p)" using assms(5,8) pop by (simp add: small_malloc_def set_tl_def Let_def)
  finally have "tm_region_malloc ?r t sz = Some (?s, p)" .
  moreover have "tls ?s = tls r" by (auto simp: set_tl_def fun_eq_iff)
  moreover have "heap ?s b = heap r b" if "unat (b - p) \<ge> 8" for b
    using that by (simp add: set_tl_def store_bytes_apply)
  ultimately show ?thesis unfolding f by blast
qed



section \<open>Concrete runs\<close>

lemma region_demo_code [code]:
  "region_demo = \<lparr>heap = (\<lambda>_. 0), region_inited = True, region_start = 0x10000000, region_end = 0x410000000, slab_size = 0x100000,
     slab_size_shift = 20, chunks_per_slab = 16, sc_block_size = kSizeTable,
     sc_block_count = map (\<lambda>bs. if bs = 0 then 0 else of_int (61440 div uint bs)) kSizeTable,
     sc_bitmap_bytes = map (\<lambda>bs. if bs \<noteq> 0 \<and> bs \<le> 256 then of_int ((61440 div uint bs + 7) div 8) else 0) kSizeTable,
     sc_data_off = map (\<lambda>bs. if bs = 0 then 0 else 4096) kSizeTable, next_slab_idx = 0, num_slabs = 16384,
     tm_globals = [(0x5000, 0x5010)], tls = (\<lambda>_. tl_init), carved = []\<rparr>"
proof -
  have T: "tables_ok region_demo" using init_tables [OF region_demo_init] .
  note F = init_fields [OF region_demo_init]
  have c: "ctz 65536 = 16" by code_simp
  have x: "region_inited region_demo" "chunks_per_slab region_demo = 16" "num_slabs region_demo = 16384"
    "region_start region_demo = 0x10000000" "region_end region_demo = 0x410000000" "tm_globals region_demo = [(0x5000, 0x5010)]"
    by (simp_all add: region_demo_def tm_region_init_def region_zero_def Let_def TM_SLAB_PAGES_def CHUNK_SIZE_def CHUNK_MASK_def
        TM_REGION_SIZE_def ctz_slab c)
  show ?thesis using T F x ctz_slab by (intro region.equality) (simp_all add: tables_ok_def)
qed

text \<open>Large requests of two threads: two share a slab, one is larger than a slab and takes slabs of its own.\<close>

definition region_trace :: "(nat \<times> region_op) list" where
  "region_trace = [(0, OMalloc 5000), (1, OMalloc 2000000), (0, OMalloc 6000)]"

lemma region_trace_runs:
  "case region_run region_demo region_trace of None \<Rightarrow> False
   | Some r \<Rightarrow> length (carved r) = 3"
  by code_simp

theorem region_carves_disjoint_witness:
  "case region_run region_demo region_trace of None \<Rightarrow> False
   | Some r \<Rightarrow> sorted_wrt apart_ranges (carved r) \<and> length (carved r) = 3"
proof -
  obtain r where r: "region_run region_demo region_trace = Some r" "length (carved r) = 3"
    using region_trace_runs by (auto split: option.splits)
  have "\<forall>(t, c) \<in> set region_trace. op_size c \<le> 2 ^ 60" by (simp add: region_trace_def)
  then have "sorted_wrt apart_ranges (carved r)"
    using region_carves_disjoint [OF region_demo_init _ _ _ r(1)] by (simp add: page_sizes_def)
  then show ?thesis using r by simp
qed


definition freed_demo :: region where
  "freed_demo = region_demo\<lparr>heap := (\<lambda>b. if b = 0x10000000 then 0x48 else if b = 0x10000001 then 0x43 else if b = 0x10000002 then 0x4D
     else if b = 0x10000003 then 0x54 else 0)\<rparr>"

theorem free_malloc_lifo_witness:
  "\<exists>r'. tm_region_malloc (tm_region_free freed_demo 0 0x10001000) 0 16 = Some (r', 0x10001000) \<and> tls r' = tls freed_demo \<and>
    (\<forall>b. unat (b - 0x10001000) \<ge> 8 \<longrightarrow> heap r' b = heap freed_demo b)"
proof (rule free_malloc_lifo [where sc = 0])
  show "isTMAddress freed_demo 0x10001000" by code_simp
  show "hdr_magic (heap freed_demo) (chunk_start 0x10001000) = CHUNK_MAGIC" by code_simp
  show "hdr_size_class (heap freed_demo) (chunk_start 0x10001000) = of_nat 0" by code_simp
  show "0 < sc_block_size freed_demo ! 0" by code_simp
  show "size_class_for freed_demo (round16 (if (16::u64) < 16 then 16 else 16)) = 0" by code_simp
  show "length (tl_free_lists (tls freed_demo 0)) = MAX_CLASSES" by code_simp
qed (simp_all add: MAX_CLASSES_def)


section \<open>Sizes at the end of the range\<close>

lemma round16_wraps:
  assumes "sz \<ge> - 15"
  shows "round16 sz = 0"
proof -
  have u: "unat (- 15 :: u64) = 2 ^ 64 - 15" by simp
  have l: "2 ^ 64 - 15 \<le> unat sz" using assms unfolding word_le_nat_alt u .
  have b: "unat sz < 2 ^ 64" using unsigned_less [of sz] by simp
  have "unat (sz + 15) = (unat sz + 15) mod 2 ^ 64" by (simp add: unat_word_ariths)
  also have "\<dots> = unat sz + 15 - 2 ^ 64" using l b by (simp add: le_mod_geq)
  finally have x: "unat (sz + 15) < 16" using b by simp
  have "unat (take_bit 4 (sz + 15)) = unat (sz + 15)" unfolding unsigned_take_bit_eq using x by (simp add: take_bit_eq_mod)
  then have "sz + 15 = take_bit 4 (sz + 15)" by (simp add: word_unat_eq_iff)
  then have "sz + 15 = (sz + 15) AND 15" by (simp add: take_bit_eq_mask mask_eq_exp_minus_1)
  then have "(sz + 15) AND NOT 15 = ((sz + 15) AND 15) AND NOT 15" by simp
  then show ?thesis by (simp add: round16_def and.assoc)
qed

text \<open>
  C23. Requests within 15 bytes of \<open>SIZE_MAX\<close> are not refused: the rounding wraps to zero and the call returns what
  \<open>malloc(16)\<close> returns, a 16-byte block.
\<close>

theorem malloc_wraps:
  assumes "tm_region_init page (Some a) symbols region_zero = (n, r)" and "sz \<ge> - 15"
  shows "tm_region_malloc r t sz = tm_region_malloc r t 16"
proof -
  have T: "sc_block_size r = kSizeTable" using init_tables [OF assms(1)] by (simp add: tables_ok_def)
  have c: "size_class_for r 0 = 0" "size_class_for r 16 = 0" by (simp_all add: size_class_for_def T kSizeTable_def)
  have "\<not> sz < 16" using order_trans [of "16 :: u64" "- 15" sz] assms(2) by (simp add: not_less)
  moreover have "round16 16 = 16" by (simp add: round16_def)
  moreover have "kSizeTable ! 0 \<noteq> 0" by (simp add: kSizeTable_def)
  ultimately show ?thesis using c round16_wraps [OF assms(2)] by (simp add: tm_region_malloc_def MAX_CLASSES_def T)
qed

theorem malloc_wraps_witness:
  "tm_region_malloc region_demo 0 (- 1) = tm_region_malloc region_demo 0 16"
proof (rule malloc_wraps [OF region_demo_init])
  show "- 15 \<le> (- 1 :: u64)" by simp
qed

end
