(* ===== verification/TM_RBTree.thy ===== *)
theory TM_RBTree
  imports TM_Prelude "HOL-Library.Monad_Syntax"
begin

text \<open>
  \<open>TMRBTreeMap\<close> and \<open>TMRBTreeMultiMap\<close> of \<open>common/tm_rbtree.hpp\<close>: red-black trees with parent
  pointers, as the code has them: a heap of nodes linked by pointers (\<open>0\<close> is \<open>nullptr\<close>), and every operation a
  sequence of loads and stores.  \<open>None\<close> is undefined behaviour, the use of a null pointer or of a deleted
  node, or a loop that does not end.  The two classes have the same node, rotations, insertion fixup, iterator and
  \<open>clear\<close>; the multimap differs in its descent.
\<close>

section \<open>Nodes\<close>

datatype color = RED | BLACK

record ('k, 'v) node =
  n_key :: 'k
  n_val :: 'v
  n_color :: color
  n_left :: nat
  n_right :: nat
  n_parent :: nat

text \<open>\<open>next_node\<close> is the address the next \<open>new\<close> returns; addresses are not reused.\<close>

record ('k, 'v) rbt =
  nodes :: "nat \<rightharpoonup> ('k, 'v) node"
  m_root :: nat
  m_size :: u64
  next_node :: nat

definition rbt_empty :: "('k, 'v) rbt" where
  "rbt_empty = \<lparr>nodes = Map.empty, m_root = 0, m_size = 0, next_node = 1\<rparr>"

definition deref_node :: "('k, 'v) rbt \<Rightarrow> nat \<Rightarrow> ('k, 'v) node option" where
  "deref_node s p = (if p = 0 then None else nodes s p)"

definition left_of :: "('k, 'v) rbt \<Rightarrow> nat \<Rightarrow> nat option" where
  "left_of s p = map_option n_left (deref_node s p)"
definition right_of :: "('k, 'v) rbt \<Rightarrow> nat \<Rightarrow> nat option" where
  "right_of s p = map_option n_right (deref_node s p)"
definition parent_of :: "('k, 'v) rbt \<Rightarrow> nat \<Rightarrow> nat option" where
  "parent_of s p = map_option n_parent (deref_node s p)"
definition color_of :: "('k, 'v) rbt \<Rightarrow> nat \<Rightarrow> color option" where
  "color_of s p = map_option n_color (deref_node s p)"
definition key_of :: "('k, 'v) rbt \<Rightarrow> nat \<Rightarrow> 'k option" where
  "key_of s p = map_option n_key (deref_node s p)"
definition val_of :: "('k, 'v) rbt \<Rightarrow> nat \<Rightarrow> 'v option" where
  "val_of s p = map_option n_val (deref_node s p)"

definition upd_node :: "('k, 'v) rbt \<Rightarrow> nat \<Rightarrow> (('k, 'v) node \<Rightarrow> ('k, 'v) node) \<Rightarrow> ('k, 'v) rbt option" where
  "upd_node s p f = map_option (\<lambda>n. s\<lparr>nodes := (nodes s)(p \<mapsto> f n)\<rparr>) (deref_node s p)"

definition set_left :: "('k, 'v) rbt \<Rightarrow> nat \<Rightarrow> nat \<Rightarrow> ('k, 'v) rbt option" where
  "set_left s p q = upd_node s p (\<lambda>n. n\<lparr>n_left := q\<rparr>)"
definition set_right :: "('k, 'v) rbt \<Rightarrow> nat \<Rightarrow> nat \<Rightarrow> ('k, 'v) rbt option" where
  "set_right s p q = upd_node s p (\<lambda>n. n\<lparr>n_right := q\<rparr>)"
definition set_parent :: "('k, 'v) rbt \<Rightarrow> nat \<Rightarrow> nat \<Rightarrow> ('k, 'v) rbt option" where
  "set_parent s p q = upd_node s p (\<lambda>n. n\<lparr>n_parent := q\<rparr>)"
definition set_color :: "('k, 'v) rbt \<Rightarrow> nat \<Rightarrow> color \<Rightarrow> ('k, 'v) rbt option" where
  "set_color s p c = upd_node s p (\<lambda>n. n\<lparr>n_color := c\<rparr>)"
definition set_val :: "('k, 'v) rbt \<Rightarrow> nat \<Rightarrow> 'v \<Rightarrow> ('k, 'v) rbt option" where
  "set_val s p v = upd_node s p (\<lambda>n. n\<lparr>n_val := v\<rparr>)"

text \<open>The tests \<open>!p || p->color == BLACK\<close> and \<open>p && p->color == RED\<close>.\<close>

definition is_black :: "('k, 'v) rbt \<Rightarrow> nat \<Rightarrow> bool option" where
  "is_black s p = (if p = 0 then Some True else map_option (\<lambda>c. c = BLACK) (color_of s p))"
definition is_red :: "('k, 'v) rbt \<Rightarrow> nat \<Rightarrow> bool option" where
  "is_red s p = (if p = 0 then Some False else map_option (\<lambda>c. c = RED) (color_of s p))"

section \<open>Rotations\<close>

partial_function (option) minimum :: "('k, 'v) rbt \<Rightarrow> nat \<Rightarrow> nat option" where
  "minimum s x =
    (if x = 0 then Some x
     else do { l \<leftarrow> left_of s x; if l \<noteq> 0 then minimum s l else Some x })"

text \<open>The pointer to \<open>x\<close> in its parent \<open>xp\<close>, or the root, becomes \<open>y\<close>; the right rotation tests the right child first.\<close>

definition replace_child :: "('k, 'v) rbt \<Rightarrow> nat \<Rightarrow> nat \<Rightarrow> nat \<Rightarrow> ('k, 'v) rbt option" where
  "replace_child s xp x y =
    (if xp = 0 then Some (s\<lparr>m_root := y\<rparr>)
     else do { pl \<leftarrow> left_of s xp; if x = pl then set_left s xp y else set_right s xp y })"

definition replace_child_r :: "('k, 'v) rbt \<Rightarrow> nat \<Rightarrow> nat \<Rightarrow> nat \<Rightarrow> ('k, 'v) rbt option" where
  "replace_child_r s xp x y =
    (if xp = 0 then Some (s\<lparr>m_root := y\<rparr>)
     else do { pr \<leftarrow> right_of s xp; if x = pr then set_right s xp y else set_left s xp y })"

definition rotate_left :: "('k, 'v) rbt \<Rightarrow> nat \<Rightarrow> ('k, 'v) rbt option" where
  "rotate_left s x = do {
     y \<leftarrow> right_of s x;
     yl \<leftarrow> left_of s y;
     s \<leftarrow> set_right s x yl;
     s \<leftarrow> (if yl \<noteq> 0 then set_parent s yl x else Some s);
     xp \<leftarrow> parent_of s x;
     s \<leftarrow> set_parent s y xp;
     s \<leftarrow> replace_child s xp x y;
     s \<leftarrow> set_left s y x;
     set_parent s x y }"

definition rotate_right :: "('k, 'v) rbt \<Rightarrow> nat \<Rightarrow> ('k, 'v) rbt option" where
  "rotate_right s x = do {
     y \<leftarrow> left_of s x;
     yr \<leftarrow> right_of s y;
     s \<leftarrow> set_left s x yr;
     s \<leftarrow> (if yr \<noteq> 0 then set_parent s yr x else Some s);
     xp \<leftarrow> parent_of s x;
     s \<leftarrow> set_parent s y xp;
     s \<leftarrow> replace_child_r s xp x y;
     s \<leftarrow> set_right s y x;
     set_parent s x y }"

definition transplant :: "('k, 'v) rbt \<Rightarrow> nat \<Rightarrow> nat \<Rightarrow> ('k, 'v) rbt option" where
  "transplant s u v = do {
     up \<leftarrow> parent_of s u;
     s \<leftarrow> replace_child s up u v;
     if v \<noteq> 0 then do { up \<leftarrow> parent_of s u; set_parent s v up } else Some s }"

section \<open>Fixups\<close>

text \<open>One round of the loop for a parent that is a left child, and the mirrored one; both return the new \<open>z\<close>.\<close>

definition insert_round_l :: "('k, 'v) rbt \<Rightarrow> nat \<Rightarrow> nat \<Rightarrow> nat \<Rightarrow> (('k, 'v) rbt \<times> nat) option" where
  "insert_round_l s z p g = do {
     y \<leftarrow> right_of s g;
     yr \<leftarrow> is_red s y;
     if yr then do {
       s \<leftarrow> set_color s p BLACK;
       s \<leftarrow> set_color s y BLACK;
       s \<leftarrow> set_color s g RED;
       Some (s, g) }
     else do {
       pr \<leftarrow> right_of s p;
       (s, z) \<leftarrow> (if z = pr then do { s \<leftarrow> rotate_left s p; Some (s, p) } else Some (s, z));
       p \<leftarrow> parent_of s z;
       s \<leftarrow> set_color s p BLACK;
       g \<leftarrow> parent_of s p;
       s \<leftarrow> set_color s g RED;
       s \<leftarrow> rotate_right s g;
       Some (s, z) } }"

definition insert_round_r :: "('k, 'v) rbt \<Rightarrow> nat \<Rightarrow> nat \<Rightarrow> nat \<Rightarrow> (('k, 'v) rbt \<times> nat) option" where
  "insert_round_r s z p g = do {
     y \<leftarrow> left_of s g;
     yr \<leftarrow> is_red s y;
     if yr then do {
       s \<leftarrow> set_color s p BLACK;
       s \<leftarrow> set_color s y BLACK;
       s \<leftarrow> set_color s g RED;
       Some (s, g) }
     else do {
       pl \<leftarrow> left_of s p;
       (s, z) \<leftarrow> (if z = pl then do { s \<leftarrow> rotate_right s p; Some (s, p) } else Some (s, z));
       p \<leftarrow> parent_of s z;
       s \<leftarrow> set_color s p BLACK;
       g \<leftarrow> parent_of s p;
       s \<leftarrow> set_color s g RED;
       s \<leftarrow> rotate_left s g;
       Some (s, z) } }"

partial_function (option) insert_fixup :: "('k, 'v) rbt \<Rightarrow> nat \<Rightarrow> ('k, 'v) rbt option" where
  "insert_fixup s z = do {
     p \<leftarrow> parent_of s z;
     pr \<leftarrow> is_red s p;
     if pr then do {
       g \<leftarrow> parent_of s p;
       gl \<leftarrow> left_of s g;
       (s, z) \<leftarrow> (if p = gl then insert_round_l s z p g else insert_round_r s z p g);
       insert_fixup s z }
     else set_color s (m_root s) BLACK }"

text \<open>A round of the loop for a position that is a left child: its end with a black sibling \<open>w\<close> whose outer child is red, a black
  sibling, any sibling.\<close>

definition erase_last_l :: "('k, 'v) rbt \<Rightarrow> nat \<Rightarrow> nat \<Rightarrow> (('k, 'v) rbt \<times> nat \<times> nat) option" where
  "erase_last_l s xp w = do {
     xc \<leftarrow> color_of s xp;
     s \<leftarrow> (if w \<noteq> 0 then set_color s w xc else Some s);
     s \<leftarrow> set_color s xp BLACK;
     wrt \<leftarrow> right_of s w;
     s \<leftarrow> (if wrt \<noteq> 0 then set_color s wrt BLACK else Some s);
     s \<leftarrow> rotate_left s xp;
     Some (s, m_root s, 0) }"

definition erase_case_l :: "('k, 'v) rbt \<Rightarrow> nat \<Rightarrow> nat \<Rightarrow> (('k, 'v) rbt \<times> nat \<times> nat) option" where
  "erase_case_l s xp w = do {
     wl \<leftarrow> left_of s w;
     wrt \<leftarrow> right_of s w;
     lb \<leftarrow> is_black s wl;
     rb \<leftarrow> is_black s wrt;
     if lb \<and> rb then do {
       s \<leftarrow> (if w \<noteq> 0 then set_color s w RED else Some s);
       xpp \<leftarrow> parent_of s xp;
       Some (s, xp, xpp) }
     else do {
       (s, w) \<leftarrow> (if rb then do {
           s \<leftarrow> (if wl \<noteq> 0 then set_color s wl BLACK else Some s);
           s \<leftarrow> (if w \<noteq> 0 then set_color s w RED else Some s);
           s \<leftarrow> rotate_right s w;
           w \<leftarrow> right_of s xp;
           Some (s, w) }
         else Some (s, w));
       erase_last_l s xp w } }"

definition erase_round_l :: "('k, 'v) rbt \<Rightarrow> nat \<Rightarrow> (('k, 'v) rbt \<times> nat \<times> nat) option" where
  "erase_round_l s xp = do {
     w \<leftarrow> right_of s xp;
     wr \<leftarrow> is_red s w;
     (s, w) \<leftarrow> (if wr then do {
         s \<leftarrow> set_color s w BLACK;
         s \<leftarrow> set_color s xp RED;
         s \<leftarrow> rotate_left s xp;
         w \<leftarrow> right_of s xp;
         Some (s, w) }
       else Some (s, w));
     erase_case_l s xp w }"

text \<open>The mirrored round.\<close>

definition erase_last_r :: "('k, 'v) rbt \<Rightarrow> nat \<Rightarrow> nat \<Rightarrow> (('k, 'v) rbt \<times> nat \<times> nat) option" where
  "erase_last_r s xp w = do {
     xc \<leftarrow> color_of s xp;
     s \<leftarrow> (if w \<noteq> 0 then set_color s w xc else Some s);
     s \<leftarrow> set_color s xp BLACK;
     wl \<leftarrow> left_of s w;
     s \<leftarrow> (if wl \<noteq> 0 then set_color s wl BLACK else Some s);
     s \<leftarrow> rotate_right s xp;
     Some (s, m_root s, 0) }"

definition erase_case_r :: "('k, 'v) rbt \<Rightarrow> nat \<Rightarrow> nat \<Rightarrow> (('k, 'v) rbt \<times> nat \<times> nat) option" where
  "erase_case_r s xp w = do {
     wrt \<leftarrow> right_of s w;
     wl \<leftarrow> left_of s w;
     rb \<leftarrow> is_black s wrt;
     lb \<leftarrow> is_black s wl;
     if rb \<and> lb then do {
       s \<leftarrow> (if w \<noteq> 0 then set_color s w RED else Some s);
       xpp \<leftarrow> parent_of s xp;
       Some (s, xp, xpp) }
     else do {
       (s, w) \<leftarrow> (if lb then do {
           s \<leftarrow> (if wrt \<noteq> 0 then set_color s wrt BLACK else Some s);
           s \<leftarrow> (if w \<noteq> 0 then set_color s w RED else Some s);
           s \<leftarrow> rotate_left s w;
           w \<leftarrow> left_of s xp;
           Some (s, w) }
         else Some (s, w));
       erase_last_r s xp w } }"

definition erase_round_r :: "('k, 'v) rbt \<Rightarrow> nat \<Rightarrow> (('k, 'v) rbt \<times> nat \<times> nat) option" where
  "erase_round_r s xp = do {
     w \<leftarrow> left_of s xp;
     wr \<leftarrow> is_red s w;
     (s, w) \<leftarrow> (if wr then do {
         s \<leftarrow> set_color s w BLACK;
         s \<leftarrow> set_color s xp RED;
         s \<leftarrow> rotate_right s xp;
         w \<leftarrow> left_of s xp;
         Some (s, w) }
       else Some (s, w));
     erase_case_r s xp w }"

partial_function (option) erase_fixup :: "('k, 'v) rbt \<Rightarrow> nat \<Rightarrow> nat \<Rightarrow> ('k, 'v) rbt option" where
  "erase_fixup s x xp = do {
     xb \<leftarrow> is_black s x;
     if x \<noteq> m_root s \<and> xb then do {
       xl \<leftarrow> left_of s xp;
       (s, x, xp) \<leftarrow> (if x = xl then erase_round_l s xp else erase_round_r s xp);
       erase_fixup s x xp }
     else if x \<noteq> 0 then set_color s x BLACK else Some s }"

section \<open>The map\<close>

definition delete_node :: "('k, 'v) rbt \<Rightarrow> nat \<Rightarrow> ('k, 'v) rbt option" where
  "delete_node s p = map_option (\<lambda>_. s\<lparr>nodes := (nodes s)(p := None)\<rparr>) (deref_node s p)"

partial_function (option) clear_subtree :: "('k, 'v) rbt \<Rightarrow> nat \<Rightarrow> ('k, 'v) rbt option" where
  "clear_subtree s n =
    (if n = 0 then Some s
     else do {
       l \<leftarrow> left_of s n;
       s \<leftarrow> clear_subtree s l;
       r \<leftarrow> right_of s n;
       s \<leftarrow> clear_subtree s r;
       delete_node s n })"

definition rbt_clear :: "('k, 'v) rbt \<Rightarrow> ('k, 'v) rbt option" where
  "rbt_clear s = do { s \<leftarrow> clear_subtree s (m_root s); Some (s\<lparr>m_root := 0, m_size := 0\<rparr>) }"

text \<open>Iterators are pointers to nodes, \<open>end()\<close> is null.\<close>

partial_function (option) climb :: "('k, 'v) rbt \<Rightarrow> nat \<Rightarrow> nat \<Rightarrow> nat option" where
  "climb s m p =
    (if p = 0 then Some p
     else do { r \<leftarrow> right_of s p; if m = r then do { q \<leftarrow> parent_of s p; climb s p q } else Some p })"

definition iter_next :: "('k, 'v) rbt \<Rightarrow> nat \<Rightarrow> nat option" where
  "iter_next s m = do {
     r \<leftarrow> right_of s m;
     if r \<noteq> 0 then minimum s r else do { p \<leftarrow> parent_of s m; climb s m p } }"

definition rbt_begin :: "('k, 'v) rbt \<Rightarrow> nat option" where
  "rbt_begin s = (if m_root s = 0 then Some 0 else minimum s (m_root s))"

partial_function (option) tree_find_loop :: "('k::linorder, 'v) rbt \<Rightarrow> 'k \<Rightarrow> nat \<Rightarrow> nat option" where
  "tree_find_loop s k x =
    (if x = 0 then Some 0
     else do {
       xk \<leftarrow> key_of s x;
       if k < xk then do { l \<leftarrow> left_of s x; tree_find_loop s k l }
       else if xk < k then do { r \<leftarrow> right_of s x; tree_find_loop s k r }
       else Some x })"

definition rbt_find :: "('k::linorder, 'v) rbt \<Rightarrow> 'k \<Rightarrow> nat option" where
  "rbt_find s k = tree_find_loop s k (m_root s)"

text \<open>The descent of \<open>operator[]\<close>: the node of the key and its parent, or null and the last node visited.\<close>

partial_function (option) descend :: "('k::linorder, 'v) rbt \<Rightarrow> 'k \<Rightarrow> nat \<Rightarrow> nat \<Rightarrow> (nat \<times> nat) option" where
  "descend s k x p =
    (if x = 0 then Some (0, p)
     else do {
       xk \<leftarrow> key_of s x;
       if k < xk then do { l \<leftarrow> left_of s x; descend s k l x }
       else if xk < k then do { r \<leftarrow> right_of s x; descend s k r x }
       else Some (x, x) })"

definition new_node :: "('k, 'v) rbt \<Rightarrow> 'k \<Rightarrow> 'v \<Rightarrow> ('k, 'v) rbt \<times> nat" where
  "new_node s k v =
    (s\<lparr>nodes := (nodes s)(next_node s \<mapsto> \<lparr>n_key = k, n_val = v, n_color = RED, n_left = 0, n_right = 0, n_parent = 0\<rparr>),
       next_node := Suc (next_node s)\<rparr>, next_node s)"

text \<open>\<open>operator[]\<close> returns the node whose value the caller may assign; \<open>dflt\<close> is \<open>V{}\<close>.\<close>

definition rbt_index :: "'v \<Rightarrow> ('k::linorder, 'v) rbt \<Rightarrow> 'k \<Rightarrow> (('k, 'v) rbt \<times> nat) option" where
  "rbt_index dflt s k = do {
     (x, p) \<leftarrow> descend s k (m_root s) 0;
     if x \<noteq> 0 then Some (s, x)
     else (case new_node s k dflt of (s, z) \<Rightarrow> do {
       s \<leftarrow> set_parent s z p;
       s \<leftarrow> (if p = 0 then Some (s\<lparr>m_root := z\<rparr>)
             else do {
               zk \<leftarrow> key_of s z;
               pk \<leftarrow> key_of s p;
               if zk < pk then set_left s p z else set_right s p z });
       s \<leftarrow> insert_fixup s z;
       Some (s\<lparr>m_size := m_size s + 1\<rparr>, z) }) }"

definition rbt_assign :: "'v \<Rightarrow> ('k::linorder, 'v) rbt \<Rightarrow> 'k \<Rightarrow> 'v \<Rightarrow> ('k, 'v) rbt option" where
  "rbt_assign dflt s k v = do { (s, z) \<leftarrow> rbt_index dflt s k; set_val s z v }"

text \<open>The end of the case of two children: \<open>y\<close> takes the place of \<open>z\<close>.\<close>

definition splice :: "('k, 'v) rbt \<Rightarrow> nat \<Rightarrow> nat \<Rightarrow> ('k, 'v) rbt option" where
  "splice s z y = do {
     s \<leftarrow> transplant s z y;
     zl \<leftarrow> left_of s z;
     s \<leftarrow> set_left s y zl;
     s \<leftarrow> (if zl \<noteq> 0 then set_parent s zl y else Some s);
     zc \<leftarrow> color_of s z;
     set_color s y zc }"

text \<open>\<open>erase\<close> from the point where \<open>z\<close> has been found: unlinking, then the fixup.\<close>

definition unlink :: "('k, 'v) rbt \<Rightarrow> nat \<Rightarrow> (('k, 'v) rbt \<times> nat \<times> nat \<times> color) option" where
  "unlink s z = do {
     y_orig \<leftarrow> color_of s z;
     zl \<leftarrow> left_of s z;
     zr \<leftarrow> right_of s z;
     zp \<leftarrow> parent_of s z;
     if zl = 0 then do { s \<leftarrow> transplant s z zr; Some (s, zr, zp, y_orig) }
     else if zr = 0 then do { s \<leftarrow> transplant s z zl; Some (s, zl, zp, y_orig) }
     else do {
       y \<leftarrow> minimum s zr;
       y_orig \<leftarrow> color_of s y;
       x \<leftarrow> right_of s y;
       yp \<leftarrow> parent_of s y;
       (s, x_parent) \<leftarrow> (if yp = z then do {
           s \<leftarrow> (if x \<noteq> 0 then set_parent s x y else Some s);
           Some (s, y) }
         else do {
           s \<leftarrow> transplant s y x;
           zr \<leftarrow> right_of s z;
           s \<leftarrow> set_right s y zr;
           s \<leftarrow> (if zr \<noteq> 0 then set_parent s zr y else Some s);
           Some (s, yp) });
       s \<leftarrow> splice s z y;
       Some (s, x, x_parent, y_orig) } }"

definition rbt_erase :: "('k::linorder, 'v) rbt \<Rightarrow> 'k \<Rightarrow> (('k, 'v) rbt \<times> nat) option" where
  "rbt_erase s k = do {
     z \<leftarrow> tree_find_loop s k (m_root s);
     if z = 0 then Some (s, 0)
     else do {
       (s, x, x_parent, y_orig) \<leftarrow> unlink s z;
       s \<leftarrow> (if y_orig = BLACK then erase_fixup s x x_parent else Some s);
       s \<leftarrow> delete_node s z;
       Some (s\<lparr>m_size := m_size s - 1\<rparr>, 1) } }"

section \<open>The multimap\<close>

partial_function (option) mm_descend :: "('k::linorder, 'v) rbt \<Rightarrow> 'k \<Rightarrow> nat \<Rightarrow> nat \<Rightarrow> nat option" where
  "mm_descend s k x p =
    (if x = 0 then Some p
     else do {
       xk \<leftarrow> key_of s x;
       if \<not> xk < k then do { l \<leftarrow> left_of s x; mm_descend s k l x }
       else do { r \<leftarrow> right_of s x; mm_descend s k r x } })"

definition mmt_insert :: "('k::linorder, 'v) rbt \<Rightarrow> 'k \<times> 'v \<Rightarrow> ('k, 'v) rbt option" where
  "mmt_insert s kv = do {
     p \<leftarrow> mm_descend s (fst kv) (m_root s) 0;
     (case new_node s (fst kv) (snd kv) of (s, z) \<Rightarrow> do {
       s \<leftarrow> set_parent s z p;
       s \<leftarrow> (if p = 0 then Some (s\<lparr>m_root := z\<rparr>)
             else do {
               pk \<leftarrow> key_of s p;
               zk \<leftarrow> key_of s z;
               if \<not> pk < zk then set_left s p z else set_right s p z });
       s \<leftarrow> insert_fixup s z;
       Some (s\<lparr>m_size := m_size s + 1\<rparr>) }) }"

partial_function (option) lower_loop :: "('k::linorder, 'v) rbt \<Rightarrow> 'k \<Rightarrow> nat \<Rightarrow> nat \<Rightarrow> nat option" where
  "lower_loop s k x ans =
    (if x = 0 then Some ans
     else do {
       xk \<leftarrow> key_of s x;
       if \<not> xk < k then do { l \<leftarrow> left_of s x; lower_loop s k l x }
       else do { r \<leftarrow> right_of s x; lower_loop s k r ans } })"

definition mmt_lower_bound :: "('k::linorder, 'v) rbt \<Rightarrow> 'k \<Rightarrow> nat option" where
  "mmt_lower_bound s k = lower_loop s k (m_root s) 0"

end
