(* ===== verification/TM_RBTree_Heap.thy ===== *)
theory TM_RBTree_Heap
  imports TM_RBTree "HOL-Library.Multiset"
begin

text \<open>
  The heap of the red-black trees.  A heap of nodes represents a tree when the pointers of every node, parent
  pointers included, are those of the tree; a position in it is a subtree with its context, a list of frames from the
  position to the root.  The lemmas follow every pointer operation of the code on such positions: rotations,
  \<open>transplant\<close>, the linking of a new node and the unlinking of an erased one.
\<close>

section \<open>Trees and contexts\<close>

datatype ('k, 'v) tree = Lf | Nd color "('k, 'v) tree" nat 'k 'v "('k, 'v) tree"

fun root_of :: "('k, 'v) tree \<Rightarrow> nat" where
  "root_of Lf = 0"
| "root_of (Nd c l a k v r) = a"

fun addrs :: "('k, 'v) tree \<Rightarrow> nat list" where
  "addrs Lf = []"
| "addrs (Nd c l a k v r) = addrs l @ a # addrs r"

fun inord :: "('k, 'v) tree \<Rightarrow> ('k \<times> 'v) list" where
  "inord Lf = []"
| "inord (Nd c l a k v r) = inord l @ (k, v) # inord r"

fun shape :: "(nat \<rightharpoonup> ('k, 'v) node) \<Rightarrow> nat \<Rightarrow> ('k, 'v) tree \<Rightarrow> bool" where
  "shape h p Lf \<longleftrightarrow> True"
| "shape h p (Nd c l a k v r) \<longleftrightarrow> a \<noteq> 0 \<and>
     h a = Some \<lparr>n_key = k, n_val = v, n_color = c, n_left = root_of l, n_right = root_of r, n_parent = p\<rparr> \<and>
     shape h a l \<and> shape h a r"

text \<open>Frames: the position is the left or the right child of a node, whose other subtree is given.\<close>

datatype ('k, 'v) frame = FL color nat 'k 'v "('k, 'v) tree" | FR color nat 'k 'v "('k, 'v) tree"

fun plug :: "('k, 'v) tree \<Rightarrow> ('k, 'v) frame list \<Rightarrow> ('k, 'v) tree" where
  "plug t [] = t"
| "plug t (FL c a k v r # cs) = plug (Nd c t a k v r) cs"
| "plug t (FR c a k v l # cs) = plug (Nd c l a k v t) cs"

fun par_of :: "('k, 'v) frame list \<Rightarrow> nat" where
  "par_of [] = 0"
| "par_of (FL c a k v r # cs) = a"
| "par_of (FR c a k v l # cs) = a"

fun caddrs :: "('k, 'v) frame list \<Rightarrow> nat list" where
  "caddrs [] = []"
| "caddrs (FL c a k v r # cs) = a # addrs r @ caddrs cs"
| "caddrs (FR c a k v l # cs) = a # addrs l @ caddrs cs"

fun top_of :: "nat \<Rightarrow> ('k, 'v) frame list \<Rightarrow> nat" where
  "top_of p [] = p"
| "top_of p (FL c a k v r # cs) = top_of a cs"
| "top_of p (FR c a k v l # cs) = top_of a cs"

fun cshape :: "(nat \<rightharpoonup> ('k, 'v) node) \<Rightarrow> nat \<Rightarrow> ('k, 'v) frame list \<Rightarrow> bool" where
  "cshape h p [] \<longleftrightarrow> True"
| "cshape h p (FL c a k v r # cs) \<longleftrightarrow> a \<noteq> 0 \<and>
     h a = Some \<lparr>n_key = k, n_val = v, n_color = c, n_left = p, n_right = root_of r, n_parent = par_of cs\<rparr> \<and>
     shape h a r \<and> cshape h a cs"
| "cshape h p (FR c a k v l # cs) \<longleftrightarrow> a \<noteq> 0 \<and>
     h a = Some \<lparr>n_key = k, n_val = v, n_color = c, n_left = root_of l, n_right = p, n_parent = par_of cs\<rparr> \<and>
     shape h a l \<and> cshape h a cs"

definition REP :: "('k, 'v) rbt \<Rightarrow> ('k, 'v) tree \<Rightarrow> bool" where
  "REP s t \<longleftrightarrow> shape (nodes s) 0 t \<and> m_root s = root_of t \<and> distinct (addrs t)"

lemma addrs_plug: "mset (addrs (plug t cs)) = mset (addrs t @ caddrs cs)"
  by (induction t cs rule: plug.induct) (auto simp: ac_simps)

lemma distinct_plug: "distinct (addrs (plug t cs)) \<longleftrightarrow> distinct (addrs t @ caddrs cs)"
  by (rule mset_eq_imp_distinct_iff [OF addrs_plug])

lemma root_plug: "root_of (plug t cs) = top_of (root_of t) cs"
  by (induction t cs rule: plug.induct) auto

lemma shape_plug: "shape h 0 (plug t cs) \<longleftrightarrow> shape h (par_of cs) t \<and> cshape h (root_of t) cs"
  by (induction t cs rule: plug.induct) auto

lemma REP_plug:
  "REP s (plug t cs) \<longleftrightarrow> shape (nodes s) (par_of cs) t \<and> cshape (nodes s) (root_of t) cs \<and>
    m_root s = top_of (root_of t) cs \<and> distinct (addrs t @ caddrs cs)"
  by (auto simp: REP_def shape_plug root_plug distinct_plug)

lemma shape_upd [simp]: "p \<notin> set (addrs t) \<Longrightarrow> shape (h(p := n)) q t = shape h q t"
  by (induction t arbitrary: q) auto

lemma cshape_upd [simp]: "p \<notin> set (caddrs cs) \<Longrightarrow> cshape (h(p := n)) q cs = cshape h q cs"
  by (induction h q cs rule: cshape.induct) auto

lemma shape_reparent:
  "shape h p (Nd c l a k v r) \<Longrightarrow> distinct (addrs (Nd c l a k v r)) \<Longrightarrow>
   shape (h(a \<mapsto> \<lparr>n_key = k, n_val = v, n_color = c, n_left = root_of l, n_right = root_of r, n_parent = q\<rparr>)) q (Nd c l a k v r)"
  by auto

section \<open>Single accesses\<close>

definition keeps :: "('k, 'v) rbt \<Rightarrow> ('k, 'v) rbt \<Rightarrow> bool" where
  "keeps s s' \<longleftrightarrow> dom (nodes s') = dom (nodes s) \<and> m_size s' = m_size s \<and> next_node s' = next_node s"

lemma keeps_refl [simp]: "keeps s s"
  by (simp add: keeps_def)

lemma keeps_root [simp]: "keeps s (s\<lparr>m_root := y\<rparr>)"
  by (simp add: keeps_def)

lemma keeps_trans [trans]: "keeps s s' \<Longrightarrow> keeps s' s'' \<Longrightarrow> keeps s s''"
  by (simp add: keeps_def)

lemmas node_ops = left_of_def right_of_def parent_of_def color_of_def key_of_def val_of_def deref_node_def
  set_left_def set_right_def set_parent_def set_color_def set_val_def upd_node_def

lemma REP_node:
  assumes "REP s (plug (Nd c l a k v r) cs)"
  shows "a \<noteq> 0" and "nodes s a = Some \<lparr>n_key = k, n_val = v, n_color = c, n_left = root_of l, n_right = root_of r, n_parent = par_of cs\<rparr>"
  using assms by (auto simp: REP_plug)

lemma REP_gets:
  assumes "REP s (plug (Nd c l a k v r) cs)"
  shows "left_of s a = Some (root_of l)" "right_of s a = Some (root_of r)" "parent_of s a = Some (par_of cs)"
    "color_of s a = Some c" "key_of s a = Some k" "val_of s a = Some v"
  using REP_node [OF assms] by (simp_all add: node_ops)

fun col :: "('k, 'v) tree \<Rightarrow> color" where
  "col Lf = BLACK"
| "col (Nd c l a k v r) = c"

lemma REP_color:
  assumes "REP s (plug t cs)"
  shows "is_black s (root_of t) = Some (col t = BLACK)" and "is_red s (root_of t) = Some (col t = RED)"
  using assms by (cases t; auto simp: is_black_def is_red_def dest: REP_gets REP_node)+

lemma REP_set_color:
  assumes "REP s (plug (Nd c l a k v r) cs)"
  shows "\<exists>s'. set_color s a c' = Some s' \<and> REP s' (plug (Nd c' l a k v r) cs)"
  using REP_node [OF assms] assms by (auto simp: node_ops REP_plug)

lemma REP_set_val:
  assumes "REP s (plug (Nd c l a k v r) cs)"
  shows "\<exists>s'. set_val s a v' = Some s' \<and> REP s' (plug (Nd c l a k v' r) cs)"
  using REP_node [OF assms] assms by (auto simp: node_ops REP_plug)

lemma upd_keeps: "upd_node s p f = Some s' \<Longrightarrow> keeps s s'"
  by (auto simp: upd_node_def deref_node_def keeps_def split: if_splits)

lemma set_keeps:
  "set_left s p q = Some s' \<Longrightarrow> keeps s s'" "set_right s p q = Some s' \<Longrightarrow> keeps s s'"
  "set_parent s p q = Some s' \<Longrightarrow> keeps s s'" "set_color s p c = Some s' \<Longrightarrow> keeps s s'" "set_val s p v = Some s' \<Longrightarrow> keeps s s'"
  by (simp_all add: set_left_def set_right_def set_parent_def set_color_def set_val_def upd_keeps)

lemma bind_keeps:
  "Option.bind m f = Some s' \<Longrightarrow> (\<And>s1. m = Some s1 \<Longrightarrow> keeps s s1) \<Longrightarrow> (\<And>s1. f s1 = Some s' \<Longrightarrow> keeps s1 s') \<Longrightarrow> keeps s s'"
  by (auto simp: bind_eq_Some_conv intro: keeps_trans)

lemma replace_child_keeps: "replace_child s p x y = Some s' \<Longrightarrow> keeps s s'" "replace_child_r s p x y = Some s' \<Longrightarrow> keeps s s'"
  by (auto simp: replace_child_def replace_child_r_def bind_eq_Some_conv split: if_splits dest: set_keeps)

lemma rotate_keeps: "rotate_left s x = Some s' \<Longrightarrow> keeps s s'" "rotate_right s x = Some s' \<Longrightarrow> keeps s s'"
  unfolding rotate_left_def rotate_right_def bind_eq_Some_conv
  by (auto split: if_splits dest!: set_keeps replace_child_keeps intro: keeps_trans) (meson keeps_trans)+

section \<open>Rotations\<close>

lemma root_in_addrs [simp]: "root_of t \<in> set (addrs t) \<longleftrightarrow> t \<noteq> Lf"
  by (cases t) auto

lemma rotate_left_REP:
  assumes "REP s (plug (Nd c a x kx vx (Nd d b y ky vy e)) cs)"
  shows "\<exists>s'. rotate_left s x = Some s' \<and> REP s' (plug (Nd d (Nd c a x kx vx b) y ky vy e) cs)"
  using assms unfolding REP_plug
  by (cases cs rule: par_of.cases; cases b)
    (auto simp: rotate_left_def replace_child_def node_ops)

lemma rotate_right_REP:
  assumes "REP s (plug (Nd d (Nd c a x kx vx b) y ky vy e) cs)"
  shows "\<exists>s'. rotate_right s y = Some s' \<and> REP s' (plug (Nd c a x kx vx (Nd d b y ky vy e)) cs)"
  using assms unfolding REP_plug
  by (cases cs rule: par_of.cases; cases b)
    (auto simp: rotate_right_def replace_child_r_def node_ops)


lemma plug_append: "plug t (xs @ ys) = plug (plug t xs) ys"
  by (induction t xs rule: plug.induct) auto

lemma plug_not_Lf [simp]: "plug (Nd c l a k v r) cs \<noteq> Lf" "Lf \<noteq> plug (Nd c l a k v r) cs"
  by (induction "Nd c l a k v r" cs arbitrary: c l a k v r rule: plug.induct) auto

lemma set_addrs_plug: "set (addrs (plug t cs)) = set (addrs t) \<union> set (caddrs cs)"
  using mset_eq_setD [OF addrs_plug, of t cs] by simp

lemma plug_Nd: "cs \<noteq> [] \<Longrightarrow> \<exists>c l a k v r. plug t cs = Nd c l a k v r"
  by (cases "plug t cs"; cases cs rule: par_of.cases) auto

section \<open>Linking and unlinking\<close>

text \<open>A new node is hung into the empty position the descent ended at.\<close>

lemma link_REP:
  assumes "REP s (plug Lf cs)" and "z \<noteq> 0" and "z \<notin> set (caddrs cs)"
    and "s1 = s\<lparr>nodes := (nodes s)(z \<mapsto> \<lparr>n_key = k, n_val = v, n_color = RED, n_left = 0, n_right = 0, n_parent = 0\<rparr>), next_node := m\<rparr>"
  shows "\<exists>s2. set_parent s1 z (par_of cs) = Some s2 \<and>
    (case cs of [] \<Rightarrow> REP (s2\<lparr>m_root := z\<rparr>) (plug (Nd RED Lf z k v Lf) cs)
     | FL c a ka va r # cs' \<Rightarrow> key_of s2 z = Some k \<and> key_of s2 a = Some ka \<and>
         (\<exists>s3. set_left s2 a z = Some s3 \<and> REP s3 (plug (Nd RED Lf z k v Lf) cs))
     | FR c a ka va l # cs' \<Rightarrow> key_of s2 z = Some k \<and> key_of s2 a = Some ka \<and>
         (\<exists>s3. set_right s2 a z = Some s3 \<and> REP s3 (plug (Nd RED Lf z k v Lf) cs)))"
  using assms unfolding REP_plug
  by (cases cs rule: par_of.cases) (auto simp: node_ops)

lemma transplant_right:
  assumes "REP s (plug (Nd c Lf z k v r) cs)"
  shows "\<exists>s'. transplant s z (root_of r) = Some s' \<and> REP s' (plug r cs) \<and> nodes s' z = nodes s z"
  using assms unfolding REP_plug
  by (cases cs rule: par_of.cases; cases r) (auto simp: transplant_def replace_child_def node_ops)

lemma transplant_left:
  assumes "REP s (plug (Nd c l z k v Lf) cs)"
  shows "\<exists>s'. transplant s z (root_of l) = Some s' \<and> REP s' (plug l cs) \<and> nodes s' z = nodes s z"
  using assms unfolding REP_plug
  by (cases cs rule: par_of.cases; cases l) (auto simp: transplant_def replace_child_def node_ops)

lemma splice_REP:
  assumes "z \<noteq> 0" "y \<noteq> 0" and "nodes s z = Some zn" and "n_left zn = root_of l" and "n_parent zn = par_of cs" and "n_color zn = c"
    and "nodes s y = Some yn" and "n_key yn = k" and "n_val yn = v" and "n_right yn = root_of r"
    and "shape (nodes s) z l" and "shape (nodes s) y r" and "cshape (nodes s) z cs" and "m_root s = top_of z cs"
    and "distinct (y # z # addrs l @ addrs r @ caddrs cs)"
  shows "\<exists>s'. splice s z y = Some s' \<and> REP s' (plug (Nd c l y k v r) cs)"
  using assms unfolding REP_plug
  by (cases cs rule: par_of.cases; cases l) (auto simp: splice_def transplant_def replace_child_def node_ops)

lemma transplant_keeps: "transplant s u v = Some s' \<Longrightarrow> keeps s s'"
  unfolding transplant_def bind_eq_Some_conv
  by (auto split: if_splits simp: bind_eq_Some_conv dest!: set_keeps replace_child_keeps intro: keeps_trans)

lemma splice_keeps: "splice s z y = Some s' \<Longrightarrow> keeps s s'"
  unfolding splice_def bind_eq_Some_conv
  by (auto split: if_splits simp: bind_eq_Some_conv dest!: set_keeps transplant_keeps intro: keeps_trans)

lemma unlink_keeps: "unlink s z = Some (s', r) \<Longrightarrow> keeps s s'"
  unfolding unlink_def bind_eq_Some_conv
  by (auto split: if_splits simp: bind_eq_Some_conv dest!: set_keeps transplant_keeps splice_keeps intro: keeps_trans)

text \<open>The leftmost node of a subtree.\<close>

fun is_FL :: "('k, 'v) frame \<Rightarrow> bool" where
  "is_FL (FL c a k v r) \<longleftrightarrow> True"
| "is_FL (FR c a k v l) \<longleftrightarrow> False"

lemma minimum_REP:
  "t \<noteq> Lf \<Longrightarrow> REP s (plug t cs) \<Longrightarrow>
   \<exists>c a k v r ics. t = plug (Nd c Lf a k v r) ics \<and> list_all is_FL ics \<and> minimum s (root_of t) = Some a"
proof (induction t arbitrary: cs)
  case (Nd c l a k v r)
  note G = REP_gets [OF Nd.prems(2)] REP_node [OF Nd.prems(2)]
  show ?case
  proof (cases "l = Lf")
    case True
    have "minimum s a = Some a" using G True by (subst minimum.simps) simp
    then show ?thesis using True by (intro exI [of _ c] exI [of _ a] exI [of _ k] exI [of _ v] exI [of _ r] exI [of _ "[]"]) simp
  next
    case False
    have "REP s (plug l (FL c a k v r # cs))" using Nd.prems(2) by simp
    then obtain c' a' k' v' r' ics where m: "l = plug (Nd c' Lf a' k' v' r') ics" "list_all is_FL ics" "minimum s (root_of l) = Some a'"
      using Nd.IH(1) [OF False] by blast
    have "root_of l \<noteq> 0" using False Nd.prems(2) by (cases l) (auto simp: REP_plug)
    then have "minimum s a = Some a'" using G m(3) by (subst minimum.simps) simp
    moreover have "Nd c l a k v r = plug (Nd c' Lf a' k' v' r') (ics @ [FL c a k v r])" by (simp add: plug_append m(1) [symmetric])
    moreover have "list_all is_FL (ics @ [FL c a k v r])" using m(2) by simp
    ultimately show ?thesis unfolding root_of.simps by blast
  qed
qed simp


lemma caddrs_append: "caddrs (xs @ ys) = caddrs xs @ caddrs ys"
  by (induction xs rule: caddrs.induct) auto

lemma par_append: "xs \<noteq> [] \<Longrightarrow> par_of (xs @ ys) = par_of xs"
  by (cases xs rule: par_of.cases) auto

lemma par_in: "xs \<noteq> [] \<Longrightarrow> par_of xs \<in> set (caddrs xs)"
  by (cases xs rule: par_of.cases) auto

lemma unlink_REP_left: 
  assumes "REP s (plug (Nd c Lf z k v r) cs)"
  shows "\<exists>s'. unlink s z = Some (s', root_of r, par_of cs, c) \<and> REP s' (plug r cs)"
  using transplant_right [OF assms] REP_gets [OF assms] by (auto simp: unlink_def)

lemma unlink_REP_right: 
  assumes "REP s (plug (Nd c l z k v Lf) cs)" and "l \<noteq> Lf"
  shows "\<exists>s'. unlink s z = Some (s', root_of l, par_of cs, c) \<and> REP s' (plug l cs)"
proof -
  have "root_of l \<noteq> 0" using assms by (cases l) (auto simp: REP_plug)
  then show ?thesis using transplant_left [OF assms(1)] REP_gets [OF assms(1)] by (auto simp: unlink_def)
qed

lemma unlink_REP_two:
  assumes R: "REP s (plug (Nd c l z k v (plug (Nd cy Lf y ky vy x) ics)) cs)" and "l \<noteq> Lf"
    and m: "minimum s (root_of (plug (Nd cy Lf y ky vy x) ics)) = Some y"
  shows "\<exists>s'. unlink s z = Some (s', root_of x, par_of (ics @ FR c y ky vy l # cs), cy) \<and>
    REP s' (plug x (ics @ FR c y ky vy l # cs))"
proof -
  let ?r = "plug (Nd cy Lf y ky vy x) ics"
  have l0: "root_of l \<noteq> 0" using R assms(2) by (cases l) (auto simp: REP_plug)
  have r0: "root_of ?r \<noteq> 0" using m R by (cases ?r) (auto simp: REP_plug)
  note Z = REP_gets [OF R] REP_node [OF R]
  have Ry: "REP s (plug (Nd cy Lf y ky vy x) (ics @ FR c z k v l # cs))" using R by (simp add: plug_append)
  note Y = REP_gets [OF Ry] REP_node [OF Ry]
  show ?thesis
  proof (cases "ics = []")
    case True
    have "(if root_of x \<noteq> 0 then set_parent s (root_of x) y else Some s) = Some s"
    proof (cases x)
      case (Nd c' l' a' k' v' r')
      then have "nodes s a' = Some \<lparr>n_key = k', n_val = v', n_color = c', n_left = root_of l', n_right = root_of r', n_parent = y\<rparr>" "a' \<noteq> 0"
        using Ry unfolding REP_plug by auto
      then show ?thesis using Nd by (auto simp: node_ops fun_upd_idem)
    qed simp
    moreover have "\<exists>s'. splice s z y = Some s' \<and> REP s' (plug (Nd c l y ky vy x) cs)"
      by (rule splice_REP) (use R Z(8) Y(8) True in \<open>auto simp: REP_plug\<close>)
    ultimately show ?thesis using l0 r0 m Z Y True by (auto simp: unlink_def)
  next
    case False
    have d: "par_of ics \<noteq> z" "z \<noteq> y"
      using False Ry par_in [OF False] unfolding REP_plug by (auto simp: caddrs_append distinct_plug)
    obtain s1 where s1: "transplant s y (root_of x) = Some s1" "REP s1 (plug x (ics @ FR c z k v l # cs))" "nodes s1 y = nodes s y"
      using transplant_right [OF Ry] by blast
    have R1: "REP s1 (plug (Nd c l z k v (plug x ics)) cs)" using s1(2) by (simp add: plug_append)
    note Z1 = REP_gets [OF R1] REP_node [OF R1]
    have y1: "y \<notin> set (addrs (plug (Nd c l z k v (plug x ics)) cs))"
      using Ry unfolding REP_plug by (auto simp: set_addrs_plug caddrs_append)
    obtain c' l' a' k' v' r' where t1: "plug x ics = Nd c' l' a' k' v' r'" using plug_Nd [OF False] by blast
    obtain s2 where s2: "set_right s1 y a' = Some s2" "nodes s2 = (nodes s1)(y \<mapsto> \<lparr>n_key = ky, n_val = vy, n_color = cy,
        n_left = 0, n_right = a', n_parent = par_of (ics @ FR c z k v l # cs)\<rparr>)" "m_root s2 = m_root s1"
      using Y s1(3) by (auto simp: node_ops)
    have R1': "REP s1 (plug (Nd c l z k v (Nd c' l' a' k' v' r')) cs)" using R1 t1 by simp
    have a1: "a' \<noteq> 0" "a' \<noteq> y" "a' \<noteq> z" using R1' y1 t1 unfolding REP_plug by (auto simp: set_addrs_plug)
    obtain s3 where s3: "set_parent s2 a' y = Some s3" "nodes s3 = (nodes s2)(a' \<mapsto> \<lparr>n_key = k', n_val = v', n_color = c',
        n_left = root_of l', n_right = root_of r', n_parent = y\<rparr>)" "m_root s3 = m_root s2"
      using R1' a1 s2(2) unfolding REP_plug by (auto simp: node_ops)
    have "\<exists>s'. splice s3 z y = Some s' \<and> REP s' (plug (Nd c l y ky vy (Nd c' l' a' k' v' r')) cs)"
      by (rule splice_REP) (use R1' y1 a1 d Y(7) s2 s3 t1 in \<open>auto simp: REP_plug set_addrs_plug\<close>)
    moreover have "parent_of s y = Some (par_of ics)" using Y(3) par_append [OF False] by simp
    ultimately show ?thesis
      using False l0 r0 m Z Y d s1(1) s2(1) s3(1) Z1(2) t1 a1(1) par_append [OF False] by (auto simp: unlink_def plug_append)
  qed
qed

end
