(* ===== verification/TM_RBTree_Balance.thy ===== *)
theory TM_RBTree_Balance
  imports TM_RBTree_Heap
begin

text \<open>
  Red-black invariants.  The contents of a tree are its nodes in order; a tree is balanced when no red node has a red
  child and all paths have the same number of black nodes.  The two fixup loops of the code end, restore the balance
  that an inserted red node or a missing black node has broken, and keep the contents.
\<close>

section \<open>Contents and balance\<close>

fun flat :: "('k, 'v) tree \<Rightarrow> (nat \<times> 'k \<times> 'v) list" where
  "flat Lf = []"
| "flat (Nd c l a k v r) = flat l @ (a, k, v) # flat r"

lemma addrs_flat: "addrs t = map fst (flat t)"
  by (induction t) auto

lemma inord_flat: "inord t = map snd (flat t)"
  by (induction t) auto

fun cleft :: "('k, 'v) frame list \<Rightarrow> (nat \<times> 'k \<times> 'v) list" where
  "cleft [] = []"
| "cleft (FL c a k v r # cs) = cleft cs"
| "cleft (FR c a k v l # cs) = cleft cs @ flat l @ [(a, k, v)]"

fun cright :: "('k, 'v) frame list \<Rightarrow> (nat \<times> 'k \<times> 'v) list" where
  "cright [] = []"
| "cright (FL c a k v r # cs) = (a, k, v) # flat r @ cright cs"
| "cright (FR c a k v l # cs) = cright cs"

lemma flat_plug: "flat (plug t cs) = cleft cs @ flat t @ cright cs"
  by (induction t cs rule: plug.induct) auto

fun bh :: "('k, 'v) tree \<Rightarrow> nat" where
  "bh Lf = 0"
| "bh (Nd c l a k v r) = (if c = BLACK then Suc (bh l) else bh l)"

fun rb :: "('k, 'v) tree \<Rightarrow> bool" where
  "rb Lf \<longleftrightarrow> True"
| "rb (Nd c l a k v r) \<longleftrightarrow> rb l \<and> rb r \<and> bh l = bh r \<and> (c = RED \<longrightarrow> col l = BLACK \<and> col r = BLACK)"

definition rbt_ok :: "('k, 'v) tree \<Rightarrow> bool" where
  "rbt_ok t \<longleftrightarrow> rb t \<and> col t = BLACK"

text \<open>The colour above a position; nothing red may hang from the place above the root.\<close>

fun ccol :: "('k, 'v) frame list \<Rightarrow> color" where
  "ccol [] = RED"
| "ccol (FL c a k v r # cs) = c"
| "ccol (FR c a k v l # cs) = c"

text \<open>A context that makes a red-black tree of a subtree of black height \<open>n\<close>.\<close>

fun cok :: "('k, 'v) frame list \<Rightarrow> nat \<Rightarrow> bool" where
  "cok [] n \<longleftrightarrow> True"
| "cok (FL c a k v r # cs) n \<longleftrightarrow> rb r \<and> bh r = n \<and> (c = RED \<longrightarrow> col r = BLACK \<and> ccol cs = BLACK) \<and> cok cs (if c = BLACK then Suc n else n)"
| "cok (FR c a k v l # cs) n \<longleftrightarrow> rb l \<and> bh l = n \<and> (c = RED \<longrightarrow> col l = BLACK \<and> ccol cs = BLACK) \<and> cok cs (if c = BLACK then Suc n else n)"

lemma color_cases: "c \<noteq> RED \<longleftrightarrow> c = BLACK" "c \<noteq> BLACK \<longleftrightarrow> c = RED"
  by (cases c; simp)+

lemma rbt_ok_plug: "rbt_ok (plug t cs) \<longleftrightarrow> rb t \<and> cok cs (bh t) \<and> (col t = RED \<longrightarrow> ccol cs = BLACK)"
  by (induction t cs rule: plug.induct) (auto simp: rbt_ok_def color_cases)

section \<open>Insertion fixup\<close>

lemma root_plug_top: "REP s T \<Longrightarrow> m_root s = root_of T"
  by (simp add: REP_def)

lemma REP_paint_root:
  assumes "REP s T" and "T \<noteq> Lf"
  shows "\<exists>s' T'. set_color s (m_root s) BLACK = Some s' \<and> REP s' T' \<and> flat T' = flat T \<and> (rb T \<longrightarrow> rbt_ok T')"
proof -
  obtain c l a k v r where T: "T = Nd c l a k v r" using assms(2) by (cases T) auto
  then obtain s' where "set_color s a BLACK = Some s'" "REP s' (Nd BLACK l a k v r)"
    using REP_set_color [of s c l a k v r "[]" BLACK] assms(1) by auto
  then show ?thesis using T root_plug_top [OF assms(1)]
    by (intro exI [of _ s'] exI [of _ "Nd BLACK l a k v r"]) (auto simp: rbt_ok_def)
qed

lemma insert_round_l_red:
  assumes R: "REP s (plug (Nd BLACK (Nd RED l1 p kp vp r1) g kg vg (Nd RED ul u ku vu ur)) cs)"
  shows "\<exists>s'. insert_round_l s z p g = Some (s', g) \<and>
    REP s' (plug (Nd RED (Nd BLACK l1 p kp vp r1) g kg vg (Nd BLACK ul u ku vu ur)) cs)"
proof -
  have u: "u \<noteq> 0" "is_red s u = Some True" "right_of s g = Some u"
    using R REP_color(2) [of s "Nd RED ul u ku vu ur" "FR BLACK g kg vg (Nd RED l1 p kp vp r1) # cs"]
      REP_gets(2) [OF R] unfolding REP_plug by auto
  obtain s1 where s1: "set_color s p BLACK = Some s1" "REP s1 (plug (Nd BLACK (Nd BLACK l1 p kp vp r1) g kg vg (Nd RED ul u ku vu ur)) cs)"
    using REP_set_color [of s RED l1 p kp vp r1 "FL BLACK g kg vg (Nd RED ul u ku vu ur) # cs" BLACK] R by auto
  obtain s2 where s2: "set_color s1 u BLACK = Some s2" "REP s2 (plug (Nd BLACK (Nd BLACK l1 p kp vp r1) g kg vg (Nd BLACK ul u ku vu ur)) cs)"
    using REP_set_color [of s1 RED ul u ku vu ur "FR BLACK g kg vg (Nd BLACK l1 p kp vp r1) # cs" BLACK] s1(2) by auto
  obtain s3 where "set_color s2 g RED = Some s3" "REP s3 (plug (Nd RED (Nd BLACK l1 p kp vp r1) g kg vg (Nd BLACK ul u ku vu ur)) cs)"
    using REP_set_color [OF s2(2), of RED] by auto
  then show ?thesis using u s1(1) s2(1) by (simp add: insert_round_l_def)
qed

lemma insert_round_l_outer:
  assumes R: "REP s (plug (Nd BLACK (Nd RED z p kp vp r1) g kg vg u) cs)" and u: "col u = BLACK" and z: "z \<noteq> Lf"
  shows "\<exists>s'. insert_round_l s (root_of z) p g = Some (s', root_of z) \<and> REP s' (plug (Nd BLACK z p kp vp (Nd RED r1 g kg vg u)) cs)"
proof -
  have 1: "is_red s (root_of u) = Some False"
    using R REP_color(2) [of s u "FR BLACK g kg vg (Nd RED z p kp vp r1) # cs"] u by auto
  have Rp: "REP s (plug (Nd RED z p kp vp r1) (FL BLACK g kg vg u # cs))" using R by simp
  have ne: "root_of z \<noteq> root_of r1" using R z unfolding REP_plug by (cases z; cases r1) auto
  obtain zc zl za zk zv zr where zz: "z = Nd zc zl za zk zv zr" using z by (cases z) auto
  have Rz: "REP s (plug (Nd zc zl za zk zv zr) (FL RED p kp vp r1 # FL BLACK g kg vg u # cs))" using R zz by simp
  obtain s1 where s1: "set_color s p BLACK = Some s1" "REP s1 (plug (Nd BLACK (Nd BLACK z p kp vp r1) g kg vg u) cs)"
    using REP_set_color [OF Rp, of BLACK] by auto
  have pg: "parent_of s1 p = Some g" using REP_gets(3) [of s1 BLACK z p kp vp r1 "FL BLACK g kg vg u # cs"] s1(2) by simp
  obtain s2 where s2: "set_color s1 g RED = Some s2" "REP s2 (plug (Nd RED (Nd BLACK z p kp vp r1) g kg vg u) cs)"
    using REP_set_color [OF s1(2), of RED] by auto
  obtain s3 where "rotate_right s2 g = Some s3" "REP s3 (plug (Nd BLACK z p kp vp (Nd RED r1 g kg vg u)) cs)"
    using rotate_right_REP [OF s2(2)] by auto
  then show ?thesis
    using 1 REP_gets(2) [OF R] REP_gets(2) [OF Rp] ne REP_gets(3) [OF Rz] pg s1(1) s2(1) zz by (simp add: insert_round_l_def)
qed

lemma insert_round_l_inner:
  assumes R: "REP s (plug (Nd BLACK (Nd RED l1 p kp vp (Nd RED a z kz vz b)) g kg vg u) cs)" and u: "col u = BLACK"
  shows "\<exists>s'. insert_round_l s z p g = Some (s', p) \<and> REP s' (plug (Nd BLACK (Nd RED l1 p kp vp a) z kz vz (Nd RED b g kg vg u)) cs)"
proof -
  have 1: "is_red s (root_of u) = Some False"
    using R REP_color(2) [of s u "FR BLACK g kg vg (Nd RED l1 p kp vp (Nd RED a z kz vz b)) # cs"] u by auto
  have Rp: "REP s (plug (Nd RED l1 p kp vp (Nd RED a z kz vz b)) (FL BLACK g kg vg u # cs))" using R by simp
  obtain s0 where s0: "rotate_left s p = Some s0" "REP s0 (plug (Nd BLACK (Nd RED (Nd RED l1 p kp vp a) z kz vz b) g kg vg u) cs)"
    using rotate_left_REP [OF Rp] by auto
  have pz: "parent_of s0 p = Some z"
    using REP_gets(3) [of s0 RED l1 p kp vp a "FL RED z kz vz b # FL BLACK g kg vg u # cs"] s0(2) by simp
  obtain s1 where s1: "set_color s0 z BLACK = Some s1" "REP s1 (plug (Nd BLACK (Nd BLACK (Nd RED l1 p kp vp a) z kz vz b) g kg vg u) cs)"
    using REP_set_color [of s0 RED "Nd RED l1 p kp vp a" z kz vz b "FL BLACK g kg vg u # cs" BLACK] s0(2) by auto
  have pg: "parent_of s1 z = Some g"
    using REP_gets(3) [of s1 BLACK "Nd RED l1 p kp vp a" z kz vz b "FL BLACK g kg vg u # cs"] s1(2) by simp
  obtain s2 where s2: "set_color s1 g RED = Some s2" "REP s2 (plug (Nd RED (Nd BLACK (Nd RED l1 p kp vp a) z kz vz b) g kg vg u) cs)"
    using REP_set_color [OF s1(2), of RED] by auto
  obtain s3 where "rotate_right s2 g = Some s3" "REP s3 (plug (Nd BLACK (Nd RED l1 p kp vp a) z kz vz (Nd RED b g kg vg u)) cs)"
    using rotate_right_REP [OF s2(2)] by auto
  then show ?thesis
    using 1 REP_gets(2) [OF R] REP_gets(2) [OF Rp] s0(1) pz pg s1(1) s2(1) by (simp add: insert_round_l_def)
qed

lemma insert_round_r_red:
  assumes R: "REP s (plug (Nd BLACK (Nd RED ur u ku vu ul) g kg vg (Nd RED r1 p kp vp l1)) cs)"
  shows "\<exists>s'. insert_round_r s z p g = Some (s', g) \<and>
    REP s' (plug (Nd RED (Nd BLACK ur u ku vu ul) g kg vg (Nd BLACK r1 p kp vp l1)) cs)"
proof -
  have u: "u \<noteq> 0" "is_red s u = Some True" "left_of s g = Some u"
    using R REP_color(2) [of s "Nd RED ur u ku vu ul" "FL BLACK g kg vg (Nd RED r1 p kp vp l1) # cs"]
      REP_gets(1) [OF R] unfolding REP_plug by auto
  obtain s1 where s1: "set_color s p BLACK = Some s1" "REP s1 (plug (Nd BLACK (Nd RED ur u ku vu ul) g kg vg (Nd BLACK r1 p kp vp l1)) cs)"
    using REP_set_color [of s RED r1 p kp vp l1 "FR BLACK g kg vg (Nd RED ur u ku vu ul) # cs" BLACK] R by auto
  obtain s2 where s2: "set_color s1 u BLACK = Some s2" "REP s2 (plug (Nd BLACK (Nd BLACK ur u ku vu ul) g kg vg (Nd BLACK r1 p kp vp l1)) cs)"
    using REP_set_color [of s1 RED ur u ku vu ul "FL BLACK g kg vg (Nd BLACK r1 p kp vp l1) # cs" BLACK] s1(2) by auto
  obtain s3 where "set_color s2 g RED = Some s3" "REP s3 (plug (Nd RED (Nd BLACK ur u ku vu ul) g kg vg (Nd BLACK r1 p kp vp l1)) cs)"
    using REP_set_color [OF s2(2), of RED] by auto
  then show ?thesis using u s1(1) s2(1) by (simp add: insert_round_r_def)
qed

lemma insert_round_r_outer:
  assumes R: "REP s (plug (Nd BLACK u g kg vg (Nd RED r1 p kp vp z)) cs)" and u: "col u = BLACK" and z: "z \<noteq> Lf"
  shows "\<exists>s'. insert_round_r s (root_of z) p g = Some (s', root_of z) \<and> REP s' (plug (Nd BLACK (Nd RED u g kg vg r1) p kp vp z) cs)"
proof -
  have 1: "is_red s (root_of u) = Some False"
    using R REP_color(2) [of s u "FL BLACK g kg vg (Nd RED r1 p kp vp z) # cs"] u by auto
  have Rp: "REP s (plug (Nd RED r1 p kp vp z) (FR BLACK g kg vg u # cs))" using R by simp
  have ne: "root_of z \<noteq> root_of r1" using R z unfolding REP_plug by (cases z; cases r1) auto
  obtain zc zl za zk zv zr where zz: "z = Nd zc zr za zk zv zl" using z by (cases z) auto
  have Rz: "REP s (plug (Nd zc zr za zk zv zl) (FR RED p kp vp r1 # FR BLACK g kg vg u # cs))" using R zz by simp
  obtain s1 where s1: "set_color s p BLACK = Some s1" "REP s1 (plug (Nd BLACK u g kg vg (Nd BLACK r1 p kp vp z)) cs)"
    using REP_set_color [OF Rp, of BLACK] by auto
  have pg: "parent_of s1 p = Some g" using REP_gets(3) [of s1 BLACK r1 p kp vp z "FR BLACK g kg vg u # cs"] s1(2) by simp
  obtain s2 where s2: "set_color s1 g RED = Some s2" "REP s2 (plug (Nd RED u g kg vg (Nd BLACK r1 p kp vp z)) cs)"
    using REP_set_color [OF s1(2), of RED] by auto
  obtain s3 where "rotate_left s2 g = Some s3" "REP s3 (plug (Nd BLACK (Nd RED u g kg vg r1) p kp vp z) cs)"
    using rotate_left_REP [OF s2(2)] by auto
  then show ?thesis
    using 1 REP_gets(1) [OF R] REP_gets(1) [OF Rp] ne REP_gets(3) [OF Rz] pg s1(1) s2(1) zz by (simp add: insert_round_r_def)
qed

lemma insert_round_r_inner:
  assumes R: "REP s (plug (Nd BLACK u g kg vg (Nd RED (Nd RED b z kz vz a) p kp vp l1)) cs)" and u: "col u = BLACK"
  shows "\<exists>s'. insert_round_r s z p g = Some (s', p) \<and> REP s' (plug (Nd BLACK (Nd RED u g kg vg b) z kz vz (Nd RED a p kp vp l1)) cs)"
proof -
  have 1: "is_red s (root_of u) = Some False"
    using R REP_color(2) [of s u "FL BLACK g kg vg (Nd RED (Nd RED b z kz vz a) p kp vp l1) # cs"] u by auto
  have Rp: "REP s (plug (Nd RED (Nd RED b z kz vz a) p kp vp l1) (FR BLACK g kg vg u # cs))" using R by simp
  obtain s0 where s0: "rotate_right s p = Some s0" "REP s0 (plug (Nd BLACK u g kg vg (Nd RED b z kz vz (Nd RED a p kp vp l1))) cs)"
    using rotate_right_REP [OF Rp] by auto
  have pz: "parent_of s0 p = Some z"
    using REP_gets(3) [of s0 RED a p kp vp l1 "FR RED z kz vz b # FR BLACK g kg vg u # cs"] s0(2) by simp
  obtain s1 where s1: "set_color s0 z BLACK = Some s1" "REP s1 (plug (Nd BLACK u g kg vg (Nd BLACK b z kz vz (Nd RED a p kp vp l1))) cs)"
    using REP_set_color [of s0 RED b z kz vz "Nd RED a p kp vp l1" "FR BLACK g kg vg u # cs" BLACK] s0(2) by auto
  have pg: "parent_of s1 z = Some g"
    using REP_gets(3) [of s1 BLACK b z kz vz "Nd RED a p kp vp l1" "FR BLACK g kg vg u # cs"] s1(2) by simp
  obtain s2 where s2: "set_color s1 g RED = Some s2" "REP s2 (plug (Nd RED u g kg vg (Nd BLACK b z kz vz (Nd RED a p kp vp l1))) cs)"
    using REP_set_color [OF s1(2), of RED] by auto
  obtain s3 where "rotate_left s2 g = Some s3" "REP s3 (plug (Nd BLACK (Nd RED u g kg vg b) z kz vz (Nd RED a p kp vp l1)) cs)"
    using rotate_left_REP [OF s2(2)] by auto
  then show ?thesis
    using 1 REP_gets(1) [OF R] REP_gets(1) [OF Rp] s0(1) pz pg s1(1) s2(1) by (simp add: insert_round_r_def)
qed



lemma REP_parent_red:
  assumes "REP s (plug t cs)"
  shows "is_red s (par_of cs) = Some (cs \<noteq> [] \<and> ccol cs = RED)"
  using assms unfolding REP_plug by (cases cs rule: par_of.cases) (auto simp: is_red_def node_ops)

lemma insert_exit:
  assumes R: "REP s (plug (Nd c l a k v r) cs)" and "cs = [] \<or> ccol cs = BLACK" and "rb (plug (Nd c l a k v r) cs)"
  shows "\<exists>s' T. insert_fixup s a = Some s' \<and> REP s' T \<and> rbt_ok T \<and> flat T = flat (plug (Nd c l a k v r) cs)"
proof -
  obtain s' T where "set_color s (m_root s) BLACK = Some s'" "REP s' T" "flat T = flat (plug (Nd c l a k v r) cs)" "rbt_ok T"
    using REP_paint_root [OF R] assms(3) by auto
  moreover have "is_red s (par_of cs) = Some False" using REP_parent_red [OF R] assms(2) by auto
  ultimately show ?thesis using REP_gets(3) [OF R] by (subst insert_fixup.simps) auto
qed

text \<open>One round of the loop: it goes up two levels, or what it leaves is a red-black tree.\<close>

definition round_done :: "('k, 'v) tree \<Rightarrow> (('k, 'v) rbt \<times> nat) option \<Rightarrow> ('k, 'v) frame list \<Rightarrow> bool" where
  "round_done T res cs \<longleftrightarrow> (\<exists>s' t cs'. res = Some (s', root_of t) \<and> t \<noteq> Lf \<and> REP s' (plug t cs') \<and> flat (plug t cs') = flat T \<and>
     (cs' = cs \<and> col t = RED \<and> rb t \<and> cok cs (bh t) \<or> ccol cs' = BLACK \<and> rb (plug t cs')))"

lemma insert_round_l_done:
  assumes R: "REP s (plug (Nd BLACK (Nd RED l1 p kp vp r1) g kg vg u) cs)"
    and P: "rb l1" "rb r1" "bh l1 = bh r1" "rb u" "bh u = bh l1" "cok cs (Suc (bh u))"
    and z: "z = root_of l1 \<and> col l1 = RED \<and> col r1 = BLACK \<or> z = root_of r1 \<and> col r1 = RED \<and> col l1 = BLACK"
  shows "round_done (plug (Nd BLACK (Nd RED l1 p kp vp r1) g kg vg u) cs) (insert_round_l s z p g) cs"
proof (cases "col u = RED")
  case True
  then obtain ul ua ku vu ur where u: "u = Nd RED ul ua ku vu ur" by (cases u) auto
  obtain s' where s': "insert_round_l s z p g = Some (s', g)" "REP s' (plug (Nd RED (Nd BLACK l1 p kp vp r1) g kg vg (Nd BLACK ul ua ku vu ur)) cs)"
    using insert_round_l_red [of s l1 p kp vp r1 g kg vg ul ua ku vu ur cs z] R u by auto
  then show ?thesis unfolding round_done_def using P u
    by (intro exI [of _ s'] exI [of _ "Nd RED (Nd BLACK l1 p kp vp r1) g kg vg (Nd BLACK ul ua ku vu ur)"] exI [of _ cs]) (auto simp: flat_plug)
next
  case False
  then have u: "col u = BLACK" by (simp add: color_cases)
  from z show ?thesis
  proof
    assume z: "z = root_of l1 \<and> col l1 = RED \<and> col r1 = BLACK"
    then obtain zl za kz vz zr where l1: "l1 = Nd RED zl za kz vz zr" by (cases l1) auto
    obtain s' where s': "insert_round_l s za p g = Some (s', za)" "REP s' (plug (Nd BLACK l1 p kp vp (Nd RED r1 g kg vg u)) cs)"
      using insert_round_l_outer [OF R u] l1 by auto
    have "rb (plug (Nd BLACK l1 p kp vp (Nd RED r1 g kg vg u)) cs)" 
      using rbt_ok_plug [of "Nd BLACK l1 p kp vp (Nd RED r1 g kg vg u)" cs] P u z by (auto simp: rbt_ok_def)
    then show ?thesis unfolding round_done_def using s' l1 z
      by (intro exI [of _ s'] exI [of _ l1] exI [of _ "FL BLACK p kp vp (Nd RED r1 g kg vg u) # cs"]) (auto simp: flat_plug)
  next
    assume z: "z = root_of r1 \<and> col r1 = RED \<and> col l1 = BLACK"
    then obtain zl za kz vz zr where r1: "r1 = Nd RED zl za kz vz zr" by (cases r1) auto
    let ?T = "plug (Nd BLACK (Nd RED l1 p kp vp zl) za kz vz (Nd RED zr g kg vg u)) cs"
    obtain s' where s': "insert_round_l s za p g = Some (s', p)" "REP s' ?T"
      using insert_round_l_inner [of s l1 p kp vp zl za kz vz zr g kg vg u cs] R u r1 by auto
    have "rb ?T"
      using rbt_ok_plug [of "Nd BLACK (Nd RED l1 p kp vp zl) za kz vz (Nd RED zr g kg vg u)" cs] P u z r1 by (auto simp: rbt_ok_def)
    then show ?thesis unfolding round_done_def using s' r1 z
      by (intro exI [of _ s'] exI [of _ "Nd RED l1 p kp vp zl"] exI [of _ "FL BLACK za kz vz (Nd RED zr g kg vg u) # cs"]) (auto simp: flat_plug)
  qed
qed

lemma insert_round_r_done:
  assumes R: "REP s (plug (Nd BLACK u g kg vg (Nd RED r1 p kp vp l1)) cs)"
    and P: "rb l1" "rb r1" "bh l1 = bh r1" "rb u" "bh u = bh l1" "cok cs (Suc (bh u))"
    and z: "z = root_of l1 \<and> col l1 = RED \<and> col r1 = BLACK \<or> z = root_of r1 \<and> col r1 = RED \<and> col l1 = BLACK"
  shows "round_done (plug (Nd BLACK u g kg vg (Nd RED r1 p kp vp l1)) cs) (insert_round_r s z p g) cs"
proof (cases "col u = RED")
  case True
  then obtain ul ua ku vu ur where u: "u = Nd RED ur ua ku vu ul" by (cases u) auto
  obtain s' where s': "insert_round_r s z p g = Some (s', g)" "REP s' (plug (Nd RED (Nd BLACK ur ua ku vu ul) g kg vg (Nd BLACK r1 p kp vp l1)) cs)"
    using insert_round_r_red [of s ur ua ku vu ul g kg vg r1 p kp vp l1 cs z] R u by auto
  then show ?thesis unfolding round_done_def using P u
    by (intro exI [of _ s'] exI [of _ "Nd RED (Nd BLACK ur ua ku vu ul) g kg vg (Nd BLACK r1 p kp vp l1)"] exI [of _ cs]) (auto simp: flat_plug)
next
  case False
  then have u: "col u = BLACK" by (simp add: color_cases)
  from z show ?thesis
  proof
    assume z: "z = root_of l1 \<and> col l1 = RED \<and> col r1 = BLACK"
    then obtain zl za kz vz zr where l1: "l1 = Nd RED zr za kz vz zl" by (cases l1) auto
    obtain s' where s': "insert_round_r s za p g = Some (s', za)" "REP s' (plug (Nd BLACK (Nd RED u g kg vg r1) p kp vp l1) cs)"
      using insert_round_r_outer [OF R u] l1 by auto
    have "rb (plug (Nd BLACK (Nd RED u g kg vg r1) p kp vp l1) cs)" 
      using rbt_ok_plug [of "Nd BLACK (Nd RED u g kg vg r1) p kp vp l1" cs] P u z by (auto simp: rbt_ok_def)
    then show ?thesis unfolding round_done_def using s' l1 z
      by (intro exI [of _ s'] exI [of _ l1] exI [of _ "FR BLACK p kp vp (Nd RED u g kg vg r1) # cs"]) (auto simp: flat_plug)
  next
    assume z: "z = root_of r1 \<and> col r1 = RED \<and> col l1 = BLACK"
    then obtain zl za kz vz zr where r1: "r1 = Nd RED zr za kz vz zl" by (cases r1) auto
    let ?T = "plug (Nd BLACK (Nd RED u g kg vg zr) za kz vz (Nd RED zl p kp vp l1)) cs"
    obtain s' where s': "insert_round_r s za p g = Some (s', p)" "REP s' ?T"
      using insert_round_r_inner [of s u g kg vg zr za kz vz zl p kp vp l1 cs] R u r1 by auto
    have "rb ?T"
      using rbt_ok_plug [of "Nd BLACK (Nd RED u g kg vg zr) za kz vz (Nd RED zl p kp vp l1)" cs] P u z r1 by (auto simp: rbt_ok_def)
    then show ?thesis unfolding round_done_def using s' r1 z
      by (intro exI [of _ s'] exI [of _ "Nd RED zl p kp vp l1"] exI [of _ "FR BLACK za kz vz (Nd RED u g kg vg zr) # cs"]) (auto simp: flat_plug)
  qed
qed


lemma insert_fixup_REP:
  assumes "REP s (plug t cs)" and "t \<noteq> Lf" and "col t = RED" and "rb t" and "cok cs (bh t)"
  shows "\<exists>s' T. insert_fixup s (root_of t) = Some s' \<and> REP s' T \<and> rbt_ok T \<and> flat T = flat (plug t cs)"
  using assms
proof (induction "length cs" arbitrary: s t cs rule: less_induct)
  case less
  obtain l a k v r where t: "t = Nd RED l a k v r" using less.prems(2,3) by (cases t) auto
  note R = less.prems(1)
  show ?case
  proof (cases "cs = [] \<or> ccol cs = BLACK")
    case True
    then have "rb (plug t cs)" using less.prems rbt_ok_plug [of t cs] by (auto simp: rbt_ok_def)
    then show ?thesis using insert_exit [of s RED l a k v r cs] True R t by auto
  next
    case False
    then obtain f1 cs1 where f1: "cs = f1 # cs1" by (cases cs) auto
    have "ccol cs1 = BLACK" using False less.prems(5) f1 by (cases f1) (auto simp: color_cases)
    then obtain f2 cs2 where f2: "cs = f1 # f2 # cs2" "ccol (f2 # cs2) = BLACK" using f1 by (cases cs1) auto
    have c1: "ccol (f1 # f2 # cs2) = RED" using False f2 by (simp add: color_cases)
    have red: "is_red s (par_of cs) = Some True" using REP_parent_red [OF R] False by (simp add: color_cases)
    let ?p = "par_of cs" and ?g = "par_of (f2 # cs2)"
    let ?rd = "if \<exists>c a k v u. f2 = FL c a k v u then insert_round_l s a ?p ?g else insert_round_r s a ?p ?g"
    have step: "parent_of s ?p = Some ?g \<and> (\<exists>gl. left_of s ?g = Some gl \<and> (?p = gl \<longleftrightarrow> (\<exists>c a k v u. f2 = FL c a k v u)))"
      using R f2(1) t unfolding REP_plug by (cases f1; cases f2) (auto simp: node_ops)
    have rd: "round_done (plug t cs) ?rd cs2"
    proof (cases f2)
      case (FL c g kg vg u)
      then show ?thesis using less.prems t f2 c1
        by (cases f1) (auto intro!: insert_round_l_done simp: color_cases)
    next
      case (FR c g kg vg u)
      then show ?thesis using less.prems t f2 c1
        by (cases f1) (auto intro!: insert_round_r_done simp: color_cases)
    qed
    have unf: "insert_fixup s a = Option.bind ?rd (\<lambda>(s, z). insert_fixup s z)"
      using step red REP_gets(3) [of s RED l a k v r cs] R t by (subst insert_fixup.simps) auto
    obtain s1 t1 cs' where r: "?rd = Some (s1, root_of t1)" "t1 \<noteq> Lf" "REP s1 (plug t1 cs')" "flat (plug t1 cs') = flat (plug t cs)"
      "cs' = cs2 \<and> col t1 = RED \<and> rb t1 \<and> cok cs2 (bh t1) \<or> ccol cs' = BLACK \<and> rb (plug t1 cs')"
      using rd unfolding round_done_def by blast
    from r(5) have "\<exists>s' T. insert_fixup s1 (root_of t1) = Some s' \<and> REP s' T \<and> rbt_ok T \<and> flat T = flat (plug t1 cs')"
    proof
      assume "cs' = cs2 \<and> col t1 = RED \<and> rb t1 \<and> cok cs2 (bh t1)"
      then show ?thesis using less.hyps [of cs2 s1 t1] r f2 by auto
    next
      assume "ccol cs' = BLACK \<and> rb (plug t1 cs')"
      then show ?thesis using insert_exit [of s1] r(2,3) by (cases t1) auto
    qed
    then show ?thesis using unf r(1,4) t by auto
  qed
qed

section \<open>What the fixups keep\<close>

definition frame_of :: "('k, 'v) rbt \<Rightarrow> nat set \<times> u64 \<times> nat" where
  "frame_of s = (dom (nodes s), m_size s, next_node s)"

lemma keeps_frame: "keeps s s' \<longleftrightarrow> frame_of s' = frame_of s"
  by (auto simp: keeps_def frame_of_def)

lemmas op_frames = set_keeps [unfolded keeps_frame] rotate_keeps [unfolded keeps_frame]

lemma insert_round_keeps: "insert_round_l s z p g = Some (s', z') \<Longrightarrow> keeps s s'" "insert_round_r s z p g = Some (s', z') \<Longrightarrow> keeps s s'"
  unfolding insert_round_l_def insert_round_r_def bind_eq_Some_conv keeps_frame
  by (auto split: if_splits simp: bind_eq_Some_conv dest!: op_frames)

lemma insert_fixup_keeps: "insert_fixup s z = Some s' \<Longrightarrow> keeps s s'"
proof (induction rule: insert_fixup.raw_induct [rotated 1, consumes 1])
  case (1 f s z s')
  then show ?case
    by (auto simp: bind_eq_Some_conv split: if_splits dest!: insert_round_keeps set_keeps intro: keeps_trans)
qed

lemma erase_last_keeps: "erase_last_l s xp w = Some (s', x, q) \<Longrightarrow> keeps s s'" "erase_last_r s xp w = Some (s', x, q) \<Longrightarrow> keeps s s'"
  unfolding erase_last_l_def erase_last_r_def bind_eq_Some_conv keeps_frame
  by (auto split: if_splits dest!: op_frames)

lemma erase_case_keeps: "erase_case_l s xp w = Some (s', x, q) \<Longrightarrow> keeps s s'" "erase_case_r s xp w = Some (s', x, q) \<Longrightarrow> keeps s s'"
  unfolding erase_case_l_def erase_case_r_def bind_eq_Some_conv keeps_frame
  by (auto split: if_splits simp: bind_eq_Some_conv dest!: op_frames erase_last_keeps [unfolded keeps_frame])

lemma erase_round_keeps: "erase_round_l s xp = Some (s', x, q) \<Longrightarrow> keeps s s'" "erase_round_r s xp = Some (s', x, q) \<Longrightarrow> keeps s s'"
  unfolding erase_round_l_def erase_round_r_def bind_eq_Some_conv keeps_frame
  by (auto split: if_splits simp: bind_eq_Some_conv dest!: op_frames erase_case_keeps [unfolded keeps_frame])

section \<open>Erase fixup\<close>

fun paintB :: "('k, 'v) tree \<Rightarrow> ('k, 'v) tree" where
  "paintB Lf = Lf"
| "paintB (Nd c l a k v r) = Nd BLACK l a k v r"

lemma paintB_simps [simp]: "flat (paintB t) = flat t" "root_of (paintB t) = root_of t" "col (paintB t) = BLACK" "paintB t = Lf \<longleftrightarrow> t = Lf"
  by (cases t; simp)+

lemma rb_paintB: "rb t \<Longrightarrow> rb (paintB t)"
  by (cases t) auto

lemma bh_paintB: "t \<noteq> Lf \<Longrightarrow> bh (paintB t) = (if col t = RED then Suc (bh t) else bh t)"
  by (cases t) (auto simp: color_cases)

lemma REP_root_nz: "REP s (plug t cs) \<Longrightarrow> root_of t = 0 \<longleftrightarrow> t = Lf"
  by (cases t) (auto simp: REP_plug)

lemma REP_paint:
  assumes "REP s (plug t cs)"
  shows "\<exists>s'. (if root_of t \<noteq> 0 then set_color s (root_of t) BLACK else Some s) = Some s' \<and> REP s' (plug (paintB t) cs)"
proof (cases t)
  case (Nd c l a k v r)
  then have R: "REP s (plug (Nd c l a k v r) cs)" using assms by simp
  then show ?thesis using REP_set_color [OF R, of BLACK] REP_node(1) [OF R] Nd by auto
qed (use assms in simp)

text \<open>
  A round has moved the missing black node to \<open>t\<close>, in the context \<open>cs\<close> or at the root.
\<close>

definition edone :: "('k, 'v) tree \<Rightarrow> (('k, 'v) rbt \<times> nat \<times> nat) option \<Rightarrow> color \<Rightarrow> ('k, 'v) frame list \<Rightarrow> bool" where
  "edone T res c cs \<longleftrightarrow> (\<exists>s' t cs'. res = Some (s', root_of t, par_of cs') \<and> t \<noteq> Lf \<and> REP s' (plug t cs') \<and> flat (plug t cs') = flat T \<and>
     rb (paintB t) \<and> cok cs' (Suc (bh t)) \<and> (cs' = cs \<and> col t = c \<or> cs' = []))"

lemma erase_last_l_done:
  assumes R: "REP s (plug (Nd c x p kp vp (Nd d wl w kw vw wr)) cs)" and "col wr = RED"
    and P: "rb x" "rb wl" "rb wr" "bh wl = bh x" "bh wr = bh x" "cok cs (if c = BLACK then Suc (Suc (bh x)) else Suc (bh x))" "c = RED \<longrightarrow> ccol cs = BLACK"
  shows "edone (plug (Nd c x p kp vp (Nd d wl w kw vw wr)) cs) (erase_last_l s p w) c cs"
proof -
  have Rw: "REP s (plug (Nd d wl w kw vw wr) (FR c p kp vp x # cs))" using R by simp
  have w0: "w \<noteq> 0" using REP_node(1) [OF Rw] .
  obtain s1 where s1: "set_color s w c = Some s1" "REP s1 (plug (Nd c x p kp vp (Nd c wl w kw vw wr)) cs)"
    using REP_set_color [OF Rw, of c] by auto
  obtain s2 where s2: "set_color s1 p BLACK = Some s2" "REP s2 (plug (Nd BLACK x p kp vp (Nd c wl w kw vw wr)) cs)"
    using REP_set_color [OF s1(2), of BLACK] by auto
  have wr: "right_of s2 w = Some (root_of wr)" using REP_gets(2) [of s2 c wl w kw vw wr "FR BLACK p kp vp x # cs"] s2(2) by simp
  obtain s3 where s3: "(if root_of wr \<noteq> 0 then set_color s2 (root_of wr) BLACK else Some s2) = Some s3"
      "REP s3 (plug (Nd BLACK x p kp vp (Nd c wl w kw vw (paintB wr))) cs)"
    using REP_paint [of s2 wr "FR c w kw vw wl # FR BLACK p kp vp x # cs"] s2(2) by auto
  let ?t = "Nd c (Nd BLACK x p kp vp wl) w kw vw (paintB wr)"
  obtain s4 where s4: "rotate_left s3 p = Some s4" "REP s4 (plug ?t cs)"
    using rotate_left_REP [OF s3(2)] by auto
  have "wr \<noteq> Lf" using assms(2) by auto
  then have "rbt_ok (plug ?t cs)" unfolding rbt_ok_plug using P assms(2) by (auto simp: bh_paintB rb_paintB)
  then have ok: "rb (paintB (plug ?t cs))" by (simp add: rbt_ok_def rb_paintB)
  have root: "m_root s4 = root_of (plug ?t cs)" using s4(2) by (simp add: REP_def)
  have fl: "flat (plug ?t cs) = flat (plug (Nd c x p kp vp (Nd d wl w kw vw wr)) cs)" by (simp add: flat_plug)
  show ?thesis
    unfolding edone_def erase_last_l_def using w0 REP_gets(4) [OF R] s1(1) s2(1) wr s3(1) s4 ok root fl
    by (intro exI [of _ s4] exI [of _ "plug ?t cs"] exI [of _ "[]"]) simp
qed

lemma erase_case_l_done:
  assumes R: "REP s (plug (Nd c x p kp vp (Nd BLACK wl w kw vw wr)) cs)" and x: "col x = BLACK"
    and P: "rb x" "rb wl" "rb wr" "bh wl = bh x" "bh wr = bh x" "cok cs (if c = BLACK then Suc (Suc (bh x)) else Suc (bh x))" "c = RED \<longrightarrow> ccol cs = BLACK"
  shows "edone (plug (Nd c x p kp vp (Nd BLACK wl w kw vw wr)) cs) (erase_case_l s p w) c cs"
proof -
  have Rw: "REP s (plug (Nd BLACK wl w kw vw wr) (FR c p kp vp x # cs))" using R by simp
  have w0: "w \<noteq> 0" using REP_node(1) [OF Rw] .
  have lb: "is_black s (root_of wl) = Some (col wl = BLACK)" using REP_color(1) [of s wl "FL BLACK w kw vw wr # FR c p kp vp x # cs"] R by simp
  have rb: "is_black s (root_of wr) = Some (col wr = BLACK)" using REP_color(1) [of s wr "FR BLACK w kw vw wl # FR c p kp vp x # cs"] R by simp
  note G = REP_gets(1,2) [OF Rw] lb rb
  consider "col wl = BLACK" "col wr = BLACK" | "col wr = RED" | "col wl = RED" "col wr = BLACK" by (cases "col wl"; cases "col wr") auto
  then show ?thesis
  proof cases
    case 1
    let ?t = "Nd c x p kp vp (Nd RED wl w kw vw wr)"
    obtain s1 where s1: "set_color s w RED = Some s1" "REP s1 (plug ?t cs)" using REP_set_color [OF Rw, of RED] by auto
    then have "parent_of s1 p = Some (par_of cs)" using REP_gets(3) [OF s1(2)] by simp
    then have "erase_case_l s p w = Some (s1, root_of ?t, par_of cs)" using G 1 w0 s1(1) by (simp add: erase_case_l_def)
    moreover have "rb (paintB ?t)" "cok cs (Suc (bh ?t))" using P 1 x by (auto simp: color_cases)
    ultimately show ?thesis unfolding edone_def using s1(2)
      by (intro exI [of _ s1] exI [of _ ?t] exI [of _ cs]) (simp add: flat_plug)
  next
    case 2
    then show ?thesis using erase_last_l_done [OF R 2 P] G w0 by (simp add: erase_case_l_def)
  next
    case 3
    then obtain a l kl vl b where wl: "wl = Nd RED a l kl vl b" by (cases wl) auto
    obtain s1 where s1: "(if root_of wl \<noteq> 0 then set_color s (root_of wl) BLACK else Some s) = Some s1"
        "REP s1 (plug (Nd c x p kp vp (Nd BLACK (Nd BLACK a l kl vl b) w kw vw wr)) cs)"
      using REP_paint [of s wl "FL BLACK w kw vw wr # FR c p kp vp x # cs"] R wl by auto
    obtain s2 where s2: "set_color s1 w RED = Some s2" "REP s2 (plug (Nd c x p kp vp (Nd RED (Nd BLACK a l kl vl b) w kw vw wr)) cs)"
      using REP_set_color [of s1 BLACK "Nd BLACK a l kl vl b" w kw vw wr "FR c p kp vp x # cs" RED] s1(2) by auto
    let ?T = "plug (Nd c x p kp vp (Nd BLACK a l kl vl (Nd RED b w kw vw wr))) cs"
    obtain s3 where s3: "rotate_right s2 w = Some s3" "REP s3 ?T"
      using rotate_right_REP [of s2 RED BLACK a l kl vl b w kw vw wr "FR c p kp vp x # cs"] s2(2) by auto
    have r3: "right_of s3 p = Some l" using REP_gets(2) [OF s3(2)] by simp
    have "edone ?T (erase_last_l s3 p l) c cs"
      by (rule erase_last_l_done [OF s3(2)]) (use P wl 3 in \<open>auto\<close>)
    moreover have "flat ?T = flat (plug (Nd c x p kp vp (Nd BLACK wl w kw vw wr)) cs)" by (simp add: flat_plug wl)
    ultimately show ?thesis using G 3 w0 s1(1) s2(1) s3(1) r3 by (simp add: erase_case_l_def edone_def)
  qed
qed


definition eround :: "('k, 'v) tree \<Rightarrow> (('k, 'v) rbt \<times> nat \<times> nat) option \<Rightarrow> ('k, 'v) frame list \<Rightarrow> bool" where
  "eround T res cs \<longleftrightarrow> (\<exists>s' t cs'. res = Some (s', root_of t, par_of cs') \<and> t \<noteq> Lf \<and> REP s' (plug t cs') \<and> flat (plug t cs') = flat T \<and>
     rb (paintB t) \<and> cok cs' (Suc (bh t)) \<and> (length cs' \<le> length cs \<or> col t = RED))"

lemma edone_eround: "edone T res c cs' \<Longrightarrow> c = RED \<or> length cs' \<le> length cs \<Longrightarrow> eround T res cs"
  unfolding edone_def eround_def by (metis le0 list.size(3))

lemma erase_round_l_done:
  assumes R: "REP s (plug (Nd c x p kp vp w) cs)" and x: "col x = BLACK" and P: "rb x"
    and W: "rb w" "bh w = Suc (bh x)" "c = RED \<longrightarrow> col w = BLACK \<and> ccol cs = BLACK" "cok cs (if c = BLACK then Suc (Suc (bh x)) else Suc (bh x))"
  shows "eround (plug (Nd c x p kp vp w) cs) (erase_round_l s p) cs"
proof -
  have wr: "is_red s (root_of w) = Some (col w = RED)" using REP_color(2) [of s w "FR c p kp vp x # cs"] R by simp
  show ?thesis
  proof (cases "col w = RED")
    case True
    then obtain wl wa kw vw wr' where w: "w = Nd RED wl wa kw vw wr'" by (cases w) auto
    have c: "c = BLACK" using W(3) True by (cases c) auto
    obtain s1 where s1: "set_color s wa BLACK = Some s1" "REP s1 (plug (Nd c x p kp vp (Nd BLACK wl wa kw vw wr')) cs)"
      using REP_set_color [of s RED wl wa kw vw wr' "FR c p kp vp x # cs" BLACK] R w by auto
    obtain s2 where s2: "set_color s1 p RED = Some s2" "REP s2 (plug (Nd RED x p kp vp (Nd BLACK wl wa kw vw wr')) cs)"
      using REP_set_color [OF s1(2), of RED] by auto
    let ?cs = "FL BLACK wa kw vw wr' # cs"
    obtain s3 where s3: "rotate_left s2 p = Some s3" "REP s3 (plug (Nd RED x p kp vp wl) ?cs)"
      using rotate_left_REP [OF s2(2)] by auto
    obtain a l kl vl b where wl: "wl = Nd BLACK a l kl vl b" using W(1,2) w by (cases wl) (auto simp: color_cases)
    have r3: "right_of s3 p = Some l" using REP_gets(2) [OF s3(2)] wl by simp
    have "edone (plug (Nd RED x p kp vp (Nd BLACK a l kl vl b)) ?cs) (erase_case_l s3 p l) RED ?cs"
      by (rule erase_case_l_done) (use s3(2) x P W w wl c in auto)
    then have "eround (plug (Nd RED x p kp vp (Nd BLACK a l kl vl b)) ?cs) (erase_case_l s3 p l) cs" by (rule edone_eround) simp
    moreover have "flat (plug (Nd RED x p kp vp (Nd BLACK a l kl vl b)) ?cs) = flat (plug (Nd c x p kp vp w) cs)"
      by (simp add: flat_plug w wl)
    ultimately show ?thesis using REP_gets(2) [OF R] wr True s1(1) s2(1) s3(1) r3 w
      by (simp add: erase_round_l_def eround_def)
  next
    case False
    then obtain wl wa kw vw wr' where w: "w = Nd BLACK wl wa kw vw wr'" using W(2) by (cases w) (auto simp: color_cases)
    have "edone (plug (Nd c x p kp vp (Nd BLACK wl wa kw vw wr')) cs) (erase_case_l s p wa) c cs"
      by (rule erase_case_l_done) (use R x P W w in auto)
    then have "eround (plug (Nd c x p kp vp w) cs) (erase_case_l s p wa) cs" unfolding w by (rule edone_eround) simp
    then show ?thesis using REP_gets(2) [OF R] wr False w by (simp add: erase_round_l_def)
  qed
qed


lemma erase_last_r_done:
  assumes R: "REP s (plug (Nd c (Nd d wr w kw vw wl) p kp vp x) cs)" and "col wr = RED"
    and P: "rb x" "rb wl" "rb wr" "bh wl = bh x" "bh wr = bh x" "cok cs (if c = BLACK then Suc (Suc (bh x)) else Suc (bh x))" "c = RED \<longrightarrow> ccol cs = BLACK"
  shows "edone (plug (Nd c (Nd d wr w kw vw wl) p kp vp x) cs) (erase_last_r s p w) c cs"
proof -
  have Rw: "REP s (plug (Nd d wr w kw vw wl) (FL c p kp vp x # cs))" using R by simp
  have w0: "w \<noteq> 0" using REP_node(1) [OF Rw] .
  obtain s1 where s1: "set_color s w c = Some s1" "REP s1 (plug (Nd c (Nd c wr w kw vw wl) p kp vp x) cs)"
    using REP_set_color [OF Rw, of c] by auto
  obtain s2 where s2: "set_color s1 p BLACK = Some s2" "REP s2 (plug (Nd BLACK (Nd c wr w kw vw wl) p kp vp x) cs)"
    using REP_set_color [OF s1(2), of BLACK] by auto
  have wr: "left_of s2 w = Some (root_of wr)" using REP_gets(1) [of s2 c wr w kw vw wl "FL BLACK p kp vp x # cs"] s2(2) by simp
  obtain s3 where s3: "(if root_of wr \<noteq> 0 then set_color s2 (root_of wr) BLACK else Some s2) = Some s3"
      "REP s3 (plug (Nd BLACK (Nd c (paintB wr) w kw vw wl) p kp vp x) cs)"
    using REP_paint [of s2 wr "FL c w kw vw wl # FL BLACK p kp vp x # cs"] s2(2) by auto
  let ?t = "Nd c (paintB wr) w kw vw (Nd BLACK wl p kp vp x)"
  obtain s4 where s4: "rotate_right s3 p = Some s4" "REP s4 (plug ?t cs)"
    using rotate_right_REP [OF s3(2)] by auto
  have "wr \<noteq> Lf" using assms(2) by auto
  then have "rbt_ok (plug ?t cs)" unfolding rbt_ok_plug using P assms(2) by (auto simp: bh_paintB rb_paintB)
  then have ok: "rb (paintB (plug ?t cs))" by (simp add: rbt_ok_def rb_paintB)
  have root: "m_root s4 = root_of (plug ?t cs)" using s4(2) by (simp add: REP_def)
  have fl: "flat (plug ?t cs) = flat (plug (Nd c (Nd d wr w kw vw wl) p kp vp x) cs)" by (simp add: flat_plug)
  show ?thesis
    unfolding edone_def erase_last_r_def using w0 REP_gets(4) [OF R] s1(1) s2(1) wr s3(1) s4 ok root fl
    by (intro exI [of _ s4] exI [of _ "plug ?t cs"] exI [of _ "[]"]) simp
qed

lemma erase_case_r_done:
  assumes R: "REP s (plug (Nd c (Nd BLACK wr w kw vw wl) p kp vp x) cs)" and x: "col x = BLACK"
    and P: "rb x" "rb wl" "rb wr" "bh wl = bh x" "bh wr = bh x" "cok cs (if c = BLACK then Suc (Suc (bh x)) else Suc (bh x))" "c = RED \<longrightarrow> ccol cs = BLACK"
  shows "edone (plug (Nd c (Nd BLACK wr w kw vw wl) p kp vp x) cs) (erase_case_r s p w) c cs"
proof -
  have Rw: "REP s (plug (Nd BLACK wr w kw vw wl) (FL c p kp vp x # cs))" using R by simp
  have w0: "w \<noteq> 0" using REP_node(1) [OF Rw] .
  have lb: "is_black s (root_of wl) = Some (col wl = BLACK)" using REP_color(1) [of s wl "FR BLACK w kw vw wr # FL c p kp vp x # cs"] R by simp
  have rb: "is_black s (root_of wr) = Some (col wr = BLACK)" using REP_color(1) [of s wr "FL BLACK w kw vw wl # FL c p kp vp x # cs"] R by simp
  note G = REP_gets(1,2) [OF Rw] lb rb
  consider "col wl = BLACK" "col wr = BLACK" | "col wr = RED" | "col wl = RED" "col wr = BLACK" by (cases "col wl"; cases "col wr") auto
  then show ?thesis
  proof cases
    case 1
    let ?t = "Nd c (Nd RED wr w kw vw wl) p kp vp x"
    obtain s1 where s1: "set_color s w RED = Some s1" "REP s1 (plug ?t cs)" using REP_set_color [OF Rw, of RED] by auto
    then have "parent_of s1 p = Some (par_of cs)" using REP_gets(3) [OF s1(2)] by simp
    then have "erase_case_r s p w = Some (s1, root_of ?t, par_of cs)" using G 1 w0 s1(1) by (simp add: erase_case_r_def)
    moreover have "rb (paintB ?t)" "cok cs (Suc (bh ?t))" using P 1 x by (auto simp: color_cases)
    ultimately show ?thesis unfolding edone_def using s1(2)
      by (intro exI [of _ s1] exI [of _ ?t] exI [of _ cs]) (simp add: flat_plug)
  next
    case 2
    then show ?thesis using erase_last_r_done [OF R 2 P] G w0 by (simp add: erase_case_r_def)
  next
    case 3
    then obtain a l kl vl b where wl: "wl = Nd RED b l kl vl a" by (cases wl) auto
    obtain s1 where s1: "(if root_of wl \<noteq> 0 then set_color s (root_of wl) BLACK else Some s) = Some s1"
        "REP s1 (plug (Nd c (Nd BLACK wr w kw vw (Nd BLACK b l kl vl a)) p kp vp x) cs)"
      using REP_paint [of s wl "FR BLACK w kw vw wr # FL c p kp vp x # cs"] R wl by auto
    obtain s2 where s2: "set_color s1 w RED = Some s2" "REP s2 (plug (Nd c (Nd RED wr w kw vw (Nd BLACK b l kl vl a)) p kp vp x) cs)"
      using REP_set_color [of s1 BLACK wr w kw vw "Nd BLACK b l kl vl a" "FL c p kp vp x # cs" RED] s1(2) by auto
    let ?T = "plug (Nd c (Nd BLACK (Nd RED wr w kw vw b) l kl vl a) p kp vp x) cs"
    obtain s3 where s3: "rotate_left s2 w = Some s3" "REP s3 ?T"
      using rotate_left_REP [of s2 RED wr w kw vw BLACK b l kl vl a "FL c p kp vp x # cs"] s2(2) by auto
    have r3: "left_of s3 p = Some l" using REP_gets(1) [OF s3(2)] by simp
    have "edone ?T (erase_last_r s3 p l) c cs"
      by (rule erase_last_r_done [OF s3(2)]) (use P wl 3 in \<open>auto\<close>)
    moreover have "flat ?T = flat (plug (Nd c (Nd BLACK wr w kw vw wl) p kp vp x) cs)" by (simp add: flat_plug wl)
    ultimately show ?thesis using G 3 w0 s1(1) s2(1) s3(1) r3 by (simp add: erase_case_r_def edone_def)
  qed
qed

lemma erase_round_r_done:
  assumes R: "REP s (plug (Nd c w p kp vp x) cs)" and x: "col x = BLACK" and P: "rb x"
    and W: "rb w" "bh w = Suc (bh x)" "c = RED \<longrightarrow> col w = BLACK \<and> ccol cs = BLACK" "cok cs (if c = BLACK then Suc (Suc (bh x)) else Suc (bh x))"
  shows "eround (plug (Nd c w p kp vp x) cs) (erase_round_r s p) cs"
proof -
  have wr: "is_red s (root_of w) = Some (col w = RED)" using REP_color(2) [of s w "FL c p kp vp x # cs"] R by simp
  show ?thesis
  proof (cases "col w = RED")
    case True
    then obtain wl wa kw vw wr' where w: "w = Nd RED wr' wa kw vw wl" by (cases w) auto
    have c: "c = BLACK" using W(3) True by (cases c) auto
    obtain s1 where s1: "set_color s wa BLACK = Some s1" "REP s1 (plug (Nd c (Nd BLACK wr' wa kw vw wl) p kp vp x) cs)"
      using REP_set_color [of s RED wr' wa kw vw wl "FL c p kp vp x # cs" BLACK] R w by auto
    obtain s2 where s2: "set_color s1 p RED = Some s2" "REP s2 (plug (Nd RED (Nd BLACK wr' wa kw vw wl) p kp vp x) cs)"
      using REP_set_color [OF s1(2), of RED] by auto
    let ?cs = "FR BLACK wa kw vw wr' # cs"
    obtain s3 where s3: "rotate_right s2 p = Some s3" "REP s3 (plug (Nd RED wl p kp vp x) ?cs)"
      using rotate_right_REP [OF s2(2)] by auto
    obtain a l kl vl b where wl: "wl = Nd BLACK b l kl vl a" using W(1,2) w by (cases wl) (auto simp: color_cases)
    have r3: "left_of s3 p = Some l" using REP_gets(1) [OF s3(2)] wl by simp
    have "edone (plug (Nd RED (Nd BLACK b l kl vl a) p kp vp x) ?cs) (erase_case_r s3 p l) RED ?cs"
      by (rule erase_case_r_done) (use s3(2) x P W w wl c in auto)
    then have "eround (plug (Nd RED (Nd BLACK b l kl vl a) p kp vp x) ?cs) (erase_case_r s3 p l) cs" by (rule edone_eround) simp
    moreover have "flat (plug (Nd RED (Nd BLACK b l kl vl a) p kp vp x) ?cs) = flat (plug (Nd c w p kp vp x) cs)"
      by (simp add: flat_plug w wl)
    ultimately show ?thesis using REP_gets(1) [OF R] wr True s1(1) s2(1) s3(1) r3 w
      by (simp add: erase_round_r_def eround_def)
  next
    case False
    then obtain wl wa kw vw wr' where w: "w = Nd BLACK wr' wa kw vw wl" using W(2) by (cases w) (auto simp: color_cases)
    have "edone (plug (Nd c (Nd BLACK wr' wa kw vw wl) p kp vp x) cs) (erase_case_r s p wa) c cs"
      by (rule erase_case_r_done) (use R x P W w in auto)
    then have "eround (plug (Nd c w p kp vp x) cs) (erase_case_r s p wa) cs" unfolding w by (rule edone_eround) simp
    then show ?thesis using REP_gets(1) [OF R] wr False w by (simp add: erase_round_r_def)
  qed
qed

lemma top_or: "top_of p cs \<in> insert p (set (caddrs cs))"
  by (induction p cs rule: top_of.induct) auto

lemma top_in: "cs \<noteq> [] \<Longrightarrow> top_of p cs \<in> set (caddrs cs)"
  using top_or by (cases cs rule: par_of.cases) (force, auto)

lemma caddrs_nz: "cshape h p cs \<Longrightarrow> 0 \<notin> set (caddrs cs)"
proof (induction h p cs rule: cshape.induct)
  case (2 h p c a k v r cs)
  have "shape h q t \<Longrightarrow> 0 \<notin> set (addrs t)" for q and t :: "('a, 'b) tree" by (induction t arbitrary: q) auto
  then show ?case using 2 by auto
next
  case (3 h p c a k v l cs)
  have "shape h q t \<Longrightarrow> 0 \<notin> set (addrs t)" for q and t :: "('a, 'b) tree" by (induction t arbitrary: q) auto
  then show ?case using 3 by auto
qed simp

lemma REP_not_root:
  assumes "REP s (plug t cs)" and "cs \<noteq> []"
  shows "root_of t \<noteq> m_root s"
proof -
  have "m_root s \<in> set (caddrs cs)" "m_root s \<noteq> 0" using assms top_in [OF assms(2)] caddrs_nz unfolding REP_plug by metis+
  then show ?thesis using assms unfolding REP_plug by (cases t) auto
qed

lemma erase_exit:
  assumes R: "REP s (plug x cs)" and "rb (paintB x)" and "cok cs (Suc (bh x))" and e: "cs = [] \<or> col x = RED"
  shows "\<exists>s' T. erase_fixup s (root_of x) (par_of cs) = Some s' \<and> REP s' T \<and> rbt_ok T \<and> flat T = flat (plug x cs) \<and> keeps s s'"
proof -
  obtain s' where s': "(if root_of x \<noteq> 0 then set_color s (root_of x) BLACK else Some s) = Some s'" "REP s' (plug (paintB x) cs)"
    using REP_paint [OF R] by blast
  have "rbt_ok (plug (paintB x) cs)"
    using e assms(2,3) unfolding rbt_ok_plug by (cases x) (auto simp: color_cases)
  moreover have "\<not> (root_of x \<noteq> m_root s \<and> col x = BLACK)" using e R by (auto simp: REP_def)
  moreover have "keeps s s'" using s'(1) by (auto split: if_splits dest: set_keeps)
  ultimately show ?thesis using s' REP_color(1) [OF R]
    by (subst erase_fixup.simps) (auto simp: flat_plug intro!: exI [of _ "plug (paintB x) cs"])
qed

lemma erase_fixup_REP:
  assumes "REP s (plug x cs)" and "rb (paintB x)" and "cok cs (Suc (bh x))"
  shows "\<exists>s' T. erase_fixup s (root_of x) (par_of cs) = Some s' \<and> REP s' T \<and> rbt_ok T \<and> flat T = flat (plug x cs) \<and> keeps s s'"
  using assms
proof (induction "length cs" arbitrary: s x cs rule: less_induct)
  case less
  note R = less.prems(1)
  show ?case
  proof (cases "cs = [] \<or> col x = RED")
    case True
    then show ?thesis using erase_exit [OF less.prems] by blast
  next
    case False
    then obtain f cs1 where f: "cs = f # cs1" and x: "col x = BLACK" by (cases cs) (auto simp: color_cases)
    have rx: "rb x" using less.prems(2) x by (cases x) auto
    let ?rd = "if \<exists>c a k v u. f = FL c a k v u then erase_round_l s (par_of cs) else erase_round_r s (par_of cs)"
    have rd: "eround (plug x cs) ?rd cs1"
      using less.prems x rx f
      by (cases f) (auto intro!: erase_round_l_done erase_round_r_done simp: color_cases split: if_splits)
    have step: "\<exists>xl. left_of s (par_of cs) = Some xl \<and> (root_of x = xl \<longleftrightarrow> (\<exists>c a k v u. f = FL c a k v u))"
    proof (cases f)
      case (FR c p kp vp w)
      then have "w \<noteq> Lf" using less.prems(3) f by auto
      then show ?thesis using R f FR unfolding REP_plug by (cases x; cases w) (auto simp: node_ops)
    qed (use R f in \<open>auto simp: REP_plug node_ops\<close>)
    have unf: "erase_fixup s (root_of x) (par_of cs) = Option.bind ?rd (\<lambda>(s, x, xp). erase_fixup s x xp)"
      using step REP_color(1) [OF R] x REP_not_root [OF R] f by (subst erase_fixup.simps) auto
    obtain s1 t cs' where r: "?rd = Some (s1, root_of t, par_of cs')" "t \<noteq> Lf" "REP s1 (plug t cs')" "flat (plug t cs') = flat (plug x cs)"
      "rb (paintB t)" "cok cs' (Suc (bh t))" "length cs' \<le> length cs1 \<or> col t = RED"
      using rd unfolding eround_def by blast
    have "keeps s s1" using r(1) by (auto split: if_splits dest: erase_round_keeps)
    moreover from r(7) have "\<exists>s' T. erase_fixup s1 (root_of t) (par_of cs') = Some s' \<and> REP s' T \<and> rbt_ok T \<and> flat T = flat (plug t cs') \<and> keeps s1 s'"
    proof
      assume "length cs' \<le> length cs1"
      then show ?thesis using less.hyps [of cs' s1 t] r f by auto
    next
      assume "col t = RED"
      then show ?thesis using erase_exit [OF r(3,5,6)] by blast
    qed
    ultimately show ?thesis using unf r(1,4) by (auto intro: keeps_trans)
  qed
qed

end
