(* ===== verification/TM_RBTree_Map.thy ===== *)
theory TM_RBTree_Map
  imports TM_RBTree_Balance TM_Interfaces
begin

text \<open>
  The operations of the tree map and of the tree multimap: search, insertion, erasing, clearing and iteration, each
  shown to return and to act on the contents as the operation on finite maps or sorted lists; sequences of calls
  follow.  The map is an instance of the interface \<open>map_store\<close>.
\<close>

section \<open>The state between calls\<close>

definition keys :: "(nat \<times> 'k \<times> 'v) list \<Rightarrow> 'k list" where
  "keys fl = map (fst \<circ> snd) fl"

lemma keys_simps [simp]: "keys [] = []" "keys ((a, k, v) # fl) = k # keys fl" "keys (fl @ fl') = keys fl @ keys fl'"
  by (simp_all add: keys_def)

text \<open>
  A heap holds exactly the nodes of a balanced tree, and the size field counts them.
\<close>

definition holds :: "('k, 'v) rbt \<Rightarrow> ('k, 'v) tree \<Rightarrow> bool" where
  "holds s T \<longleftrightarrow> REP s T \<and> rbt_ok T \<and> dom (nodes s) = set (addrs T) \<and> (\<forall>a \<in> set (addrs T). a < next_node s) \<and>
    0 < next_node s \<and> m_size s = of_nat (length (flat T))"

lemma holds_empty: "holds rbt_empty Lf"
  by (simp add: holds_def rbt_empty_def REP_def rbt_ok_def)

lemma shape_unique: "shape h p t \<Longrightarrow> shape h p' t' \<Longrightarrow> root_of t = root_of t' \<Longrightarrow> t = t'"
proof (induction t arbitrary: p p' t')
  case Lf
  then show ?case by (cases t') auto
next
  case (Nd c l a k v r)
  then obtain c' l' k' v' r' where t': "t' = Nd c' l' a k' v' r'" by (cases t') auto
  have "l = l'" "r = r'" using Nd.IH(1) [of a a l'] Nd.IH(2) [of a a r'] Nd.prems t' by auto
  then show ?case using Nd.prems t' by auto
qed

lemma holds_unique: "holds s T \<Longrightarrow> holds s T' \<Longrightarrow> T = T'"
  by (auto simp: holds_def REP_def intro: shape_unique)

lemma focus_flat: "(a, k, v) \<in> set (flat T) \<Longrightarrow> \<exists>c l r cs. T = plug (Nd c l a k v r) cs"
proof (induction T)
  case (Nd c l b k' v' r)
  then consider "(a, k, v) = (b, k', v')" | "(a, k, v) \<in> set (flat l)" | "(a, k, v) \<in> set (flat r)" by auto
  then show ?case
  proof cases
    case 1
    then have "Nd c l b k' v' r = plug (Nd c l a k v r) []" by simp
    then show ?thesis by blast
  next
    case 2
    then obtain c1 l1 r1 cs where "l = plug (Nd c1 l1 a k v r1) cs" using Nd.IH(1) by blast
    then have "Nd c l b k' v' r = plug (Nd c1 l1 a k v r1) (cs @ [FL c b k' v' r])" by (simp add: plug_append)
    then show ?thesis by blast
  next
    case 3
    then obtain c1 l1 r1 cs where "r = plug (Nd c1 l1 a k v r1) cs" using Nd.IH(2) by blast
    then have "Nd c l b k' v' r = plug (Nd c1 l1 a k v r1) (cs @ [FR c b k' v' l])" by (simp add: plug_append)
    then show ?thesis by blast
  qed
qed simp

section \<open>Search\<close>

lemma cleft_append: "cleft (xs @ ys) = cleft ys @ cleft xs"
  by (induction xs rule: cleft.induct) auto

lemma cright_append: "cright (xs @ ys) = cright xs @ cright ys"
  by (induction xs rule: cright.induct) auto

lemma tree_find_REP:
  fixes k :: "'k::linorder"
  assumes "REP s (plug t cs)" and "sorted_wrt (<) (keys (flat t))"
  shows "\<exists>a. tree_find_loop s k (root_of t) = Some a \<and> (a = 0 \<and> k \<notin> set (keys (flat t)) \<or> a \<noteq> 0 \<and> (\<exists>v. (a, k, v) \<in> set (flat t)))"
  using assms
proof (induction t arbitrary: cs)
  case Lf
  show ?case by (subst tree_find_loop.simps) simp
next
  case (Nd c l b kb v r)
  note G = REP_gets [OF Nd.prems(1)] REP_node(1) [OF Nd.prems(1)]
  have S: "sorted_wrt (<) (keys (flat l))" "sorted_wrt (<) (keys (flat r))" "\<forall>x \<in> set (keys (flat l)). x < kb" "\<forall>x \<in> set (keys (flat r)). kb < x"
    using Nd.prems(2) by (auto simp: sorted_wrt_append)
  consider "k < kb" | "kb < k" | "k = kb" by (meson linorder_neqE)
  then show ?case
  proof cases
    case 1
    obtain a where a: "tree_find_loop s k (root_of l) = Some a" "a = 0 \<and> k \<notin> set (keys (flat l)) \<or> a \<noteq> 0 \<and> (\<exists>v. (a, k, v) \<in> set (flat l))"
      using Nd.IH(1) [of "FL c b kb v r # cs"] Nd.prems(1) S(1) by auto
    have "tree_find_loop s k b = Some a" using 1 G a(1) by (subst tree_find_loop.simps) simp
    then show ?thesis using a(2) 1 S by fastforce
  next
    case 2
    obtain a where a: "tree_find_loop s k (root_of r) = Some a" "a = 0 \<and> k \<notin> set (keys (flat r)) \<or> a \<noteq> 0 \<and> (\<exists>v. (a, k, v) \<in> set (flat r))"
      using Nd.IH(2) [of "FR c b kb v l # cs"] Nd.prems(1) S(2) by auto
    have "tree_find_loop s k b = Some a" using 2 less_not_sym [OF 2] G a(1) by (subst tree_find_loop.simps) simp
    then show ?thesis using a(2) 2 S by fastforce
  next
    case 3
    then have "tree_find_loop s k b = Some b" using G by (subst tree_find_loop.simps) simp
    then show ?thesis using 3 G by auto
  qed
qed

lemma descend_REP:
  fixes k :: "'k::linorder"
  assumes "REP s (plug t cs)" and "sorted_wrt (<) (keys (flat t))"
  shows "(\<exists>a v. descend s k (root_of t) (par_of cs) = Some (a, a) \<and> a \<noteq> 0 \<and> (a, k, v) \<in> set (flat t)) \<or>
    (\<exists>ics. descend s k (root_of t) (par_of cs) = Some (0, par_of (ics @ cs)) \<and> t = plug Lf ics \<and>
       (\<forall>x \<in> set (keys (cleft ics)). x < k) \<and> (\<forall>x \<in> set (keys (cright ics)). k < x))"
  using assms
proof (induction t arbitrary: cs)
  case Lf
  have "descend s k 0 (par_of cs) = Some (0, par_of cs)" by (subst descend.simps) simp
  then have "descend s k (root_of (Lf :: ('k, 'a) tree)) (par_of cs) = Some (0, par_of ([] @ cs)) \<and> Lf = plug Lf []" by simp
  then show ?case by (metis cleft.simps(1) cright.simps(1) empty_iff keys_simps(1) list.set(1))
next
  case (Nd c l b kb v r)
  note G = REP_gets [OF Nd.prems(1)] REP_node(1) [OF Nd.prems(1)]
  have S: "sorted_wrt (<) (keys (flat l))" "sorted_wrt (<) (keys (flat r))" "\<forall>x \<in> set (keys (flat l)). x < kb" "\<forall>x \<in> set (keys (flat r)). kb < x"
    using Nd.prems(2) by (auto simp: sorted_wrt_append)
  consider "k < kb" | "kb < k" | "k = kb" by (meson linorder_neqE)
  then show ?case
  proof cases
    case 1
    have e: "descend s k (root_of (Nd c l b kb v r)) (par_of cs) = descend s k (root_of l) (par_of (FL c b kb v r # cs))"
      using 1 G by (subst descend.simps) simp
    have "REP s (plug l (FL c b kb v r # cs))" using Nd.prems(1) by simp
    from Nd.IH(1) [OF this S(1)] show ?thesis
    proof
      assume "\<exists>ics. descend s k (root_of l) (par_of (FL c b kb v r # cs)) = Some (0, par_of (ics @ FL c b kb v r # cs)) \<and> l = plug Lf ics \<and>
       (\<forall>x \<in> set (keys (cleft ics)). x < k) \<and> (\<forall>x \<in> set (keys (cright ics)). k < x)"
      then obtain ics where i: "descend s k (root_of l) (par_of (FL c b kb v r # cs)) = Some (0, par_of (ics @ FL c b kb v r # cs))" "l = plug Lf ics"
        "\<forall>x \<in> set (keys (cleft ics)). x < k" "\<forall>x \<in> set (keys (cright ics)). k < x" by blast
      show ?thesis using i e 1 S(4)
        by (intro disjI2 exI [of _ "ics @ [FL c b kb v r]"]) (auto simp: plug_append cleft_append cright_append)
    qed (use e in auto)
  next
    case 2
    have e: "descend s k (root_of (Nd c l b kb v r)) (par_of cs) = descend s k (root_of r) (par_of (FR c b kb v l # cs))"
      using 2 less_not_sym [OF 2] G by (subst descend.simps) simp
    have "REP s (plug r (FR c b kb v l # cs))" using Nd.prems(1) by simp
    from Nd.IH(2) [OF this S(2)] show ?thesis
    proof
      assume "\<exists>ics. descend s k (root_of r) (par_of (FR c b kb v l # cs)) = Some (0, par_of (ics @ FR c b kb v l # cs)) \<and> r = plug Lf ics \<and>
       (\<forall>x \<in> set (keys (cleft ics)). x < k) \<and> (\<forall>x \<in> set (keys (cright ics)). k < x)"
      then obtain ics where i: "descend s k (root_of r) (par_of (FR c b kb v l # cs)) = Some (0, par_of (ics @ FR c b kb v l # cs))" "r = plug Lf ics"
        "\<forall>x \<in> set (keys (cleft ics)). x < k" "\<forall>x \<in> set (keys (cright ics)). k < x" by blast
      show ?thesis using i e 2 S(3)
        by (intro disjI2 exI [of _ "ics @ [FR c b kb v l]"]) (auto simp: plug_append cleft_append cright_append)
    qed (use e in auto)
  next
    case 3
    then have "descend s k b (par_of cs) = Some (b, b)" using G by (subst descend.simps) simp
    then show ?thesis using 3 G by auto
  qed
qed


section \<open>Insertion\<close>

lemma map_option_bind: "map_option f (Option.bind m g) = Option.bind m (\<lambda>x. map_option f (g x))"
  by (cases m) auto

text \<open>A fresh node is linked into an empty position and the tree repaired.\<close>

definition attach :: "('k, 'v) rbt \<Rightarrow> 'k \<Rightarrow> 'v \<Rightarrow> nat \<Rightarrow> bool \<Rightarrow> ('k, 'v) rbt option" where
  "attach s k v p left =
    (case new_node s k v of (s, z) \<Rightarrow> do {
       s \<leftarrow> set_parent s z p;
       s \<leftarrow> (if p = 0 then Some (s\<lparr>m_root := z\<rparr>) else if left then set_left s p z else set_right s p z);
       s \<leftarrow> insert_fixup s z;
       Some (s\<lparr>m_size := m_size s + 1\<rparr>) })"

fun is_left :: "('k, 'v) frame list \<Rightarrow> bool" where
  "is_left (FL c a k v r # cs) \<longleftrightarrow> True"
| "is_left _ \<longleftrightarrow> False"

lemma keeps_set_root [simp]: "keeps s (s'\<lparr>m_root := x\<rparr>) \<longleftrightarrow> keeps s s'"
  by (simp add: keeps_def)

lemma par_nz: "REP s (plug t cs) \<Longrightarrow> par_of cs = 0 \<longleftrightarrow> cs = []"
  by (cases cs rule: par_of.cases) (auto simp: REP_plug)

lemma attach_holds:
  assumes H: "holds s (plug Lf cs)"
  shows "\<exists>s' T. attach s k v (par_of cs) (is_left cs) = Some s' \<and> holds s' T \<and> flat T = cleft cs @ (next_node s, k, v) # cright cs \<and>
    next_node s' = Suc (next_node s)"
proof -
  let ?z = "next_node s" and ?N = "Nd RED Lf (next_node s) k v Lf"
  let ?s1 = "s\<lparr>nodes := (nodes s)(?z \<mapsto> \<lparr>n_key = k, n_val = v, n_color = RED, n_left = 0, n_right = 0, n_parent = 0\<rparr>), next_node := Suc ?z\<rparr>"
  have R: "REP s (plug Lf cs)" and ok: "rbt_ok (plug Lf cs)" and d: "dom (nodes s) = set (caddrs cs)" and z: "?z \<noteq> 0" "?z \<notin> set (caddrs cs)"
    and sz: "m_size s = of_nat (length (cleft cs @ cright cs))" and lt: "\<forall>a \<in> set (caddrs cs). a < ?z"
    using H by (auto simp: holds_def set_addrs_plug flat_plug)
  obtain s2 where s2: "set_parent ?s1 ?z (par_of cs) = Some s2" and
      L: "case cs of [] \<Rightarrow> REP (s2\<lparr>m_root := ?z\<rparr>) (plug ?N cs)
     | FL c a ka va r # cs' \<Rightarrow> key_of s2 ?z = Some k \<and> key_of s2 a = Some ka \<and>
         (\<exists>s3. set_left s2 a ?z = Some s3 \<and> REP s3 (plug ?N cs))
     | FR c a ka va l # cs' \<Rightarrow> key_of s2 ?z = Some k \<and> key_of s2 a = Some ka \<and>
         (\<exists>s3. set_right s2 a ?z = Some s3 \<and> REP s3 (plug ?N cs))"
    using link_REP [OF R z refl, where k = k and v = v and m = "Suc ?z"] by blast
  have k2: "keeps ?s1 s2" using set_keeps(3) [OF s2] .
  obtain s3 where s3: "(if par_of cs = 0 then Some (s2\<lparr>m_root := ?z\<rparr>) else if is_left cs then set_left s2 (par_of cs) ?z else set_right s2 (par_of cs) ?z) = Some s3"
      "REP s3 (plug ?N cs)" "keeps ?s1 s3"
    using L k2 par_nz [OF R] by (cases cs rule: par_of.cases) (auto dest: set_keeps intro: keeps_trans)
  have "cok cs (bh ?N)" using ok by (simp add: rbt_ok_plug)
  then obtain s4 T where s4: "insert_fixup s3 ?z = Some s4" "REP s4 T" "rbt_ok T" "flat T = flat (plug ?N cs)"
    using insert_fixup_REP [OF s3(2)] by auto
  have k4: "keeps ?s1 s4" using s3(3) insert_fixup_keeps [OF s4(1)] by (rule keeps_trans)
  have fl: "flat T = cleft cs @ (?z, k, v) # cright cs" using s4(4) by (simp add: flat_plug)
  have ad: "set (addrs T) = insert ?z (set (caddrs cs))"
    using arg_cong [OF s4(4), of "\<lambda>fl. set (map fst fl)"] by (simp only: addrs_flat [symmetric] set_addrs_plug) simp
  have "holds (s4\<lparr>m_size := m_size s4 + 1\<rparr>) T"
    using s4(2,3) k4 d sz lt fl ad by (auto simp: holds_def keeps_def REP_def less_Suc_eq)
  moreover have "attach s k v (par_of cs) (is_left cs) = Some (s4\<lparr>m_size := m_size s4 + 1\<rparr>)"
    using s2 s3(1) s4(1) by (simp add: attach_def new_node_def)
  moreover have "next_node s4 = Suc ?z" using k4 by (simp add: keeps_def)
  ultimately show ?thesis using fl by auto
qed


fun ckey :: "('k, 'v) frame list \<Rightarrow> 'k" where
  "ckey (FL c a k v r # cs) = k"
| "ckey (FR c a k v l # cs) = k"

text \<open>The stores of \<open>operator[]\<close> and of the multimap's \<open>insert\<close> for a direction chosen by comparing keys.\<close>

lemma attach_parent:
  assumes H: "holds s (plug Lf cs)"
  shows "\<exists>s2. set_parent (fst (new_node s k v)) (next_node s) (par_of cs) = Some s2 \<and>
    (par_of cs \<noteq> 0 \<longrightarrow> cs \<noteq> [] \<and> key_of s2 (next_node s) = Some k \<and> key_of s2 (par_of cs) = Some (ckey cs))"
proof -
  have R: "REP s (plug Lf cs)" and z: "next_node s \<noteq> 0" "next_node s \<notin> set (caddrs cs)" using H by (auto simp: holds_def set_addrs_plug)
  show ?thesis using link_REP [OF R z refl, where k = k and v = v and m = "Suc (next_node s)"]
    by (cases cs rule: par_of.cases) (auto simp: new_node_def)
qed

lemma attach_alt:
  assumes H: "holds s (plug Lf cs)" and D: "cs \<noteq> [] \<Longrightarrow> before k (ckey cs) = is_left cs"
  shows "(case new_node s k v of (s, z) \<Rightarrow> do {
       s \<leftarrow> set_parent s z (par_of cs);
       s \<leftarrow> (if par_of cs = 0 then Some (s\<lparr>m_root := z\<rparr>)
             else do { zk \<leftarrow> key_of s z; pk \<leftarrow> key_of s (par_of cs); if before zk pk then set_left s (par_of cs) z else set_right s (par_of cs) z });
       s \<leftarrow> insert_fixup s z;
       Some (s\<lparr>m_size := m_size s + 1\<rparr>) }) = attach s k v (par_of cs) (is_left cs)"
    and "(case new_node s k v of (s, z) \<Rightarrow> do {
       s \<leftarrow> set_parent s z (par_of cs);
       s \<leftarrow> (if par_of cs = 0 then Some (s\<lparr>m_root := z\<rparr>)
             else do { pk \<leftarrow> key_of s (par_of cs); zk \<leftarrow> key_of s z; if before zk pk then set_left s (par_of cs) z else set_right s (par_of cs) z });
       s \<leftarrow> insert_fixup s z;
       Some (s\<lparr>m_size := m_size s + 1\<rparr>) }) = attach s k v (par_of cs) (is_left cs)"
  using attach_parent [OF H, of k v] D by (auto simp: attach_def new_node_def)

lemma map_of_inord: "map_of (map snd fl) k = Some v \<Longrightarrow> \<exists>a. (a, k, v) \<in> set fl"
  by (force dest: map_of_SomeD)

lemma sorted_upd: "sorted_wrt (<) (keys (xs @ (a, k, v) # ys)) \<Longrightarrow> sorted_wrt (<) (keys (xs @ (a, k, v') # ys))"
  by simp

lemma map_of_upd:
  assumes "sorted_wrt (<) (keys (xs @ (a, k :: 'k::linorder, v) # ys))"
  shows "map_of (map snd (xs @ (a, k, v') # ys)) = (map_of (map snd (xs @ ys)))(k \<mapsto> v')"
    and "map_of (map snd (xs @ ys)) k = None"
proof -
  have k: "k \<notin> set (keys xs)" "k \<notin> set (keys ys)" using assms by (auto simp: sorted_wrt_append)
  then have n: "map_of (map snd xs) k = None" "map_of (map snd ys) k = None" by (simp_all add: map_of_eq_None_iff keys_def image_image comp_def)
  then show "map_of (map snd (xs @ ys)) k = None" by (simp add: map_add_None)
  show "map_of (map snd (xs @ (a, k, v') # ys)) = (map_of (map snd (xs @ ys)))(k \<mapsto> v')"
    using n by (auto simp: map_add_def fun_eq_iff split: option.splits)
qed

lemma set_val_holds:
  assumes H: "holds s T" and "(a, k, v) \<in> set (flat T)"
  shows "\<exists>s' T' xs ys. set_val s a v' = Some s' \<and> holds s' T' \<and> flat T = xs @ (a, k, v) # ys \<and> flat T' = xs @ (a, k, v') # ys"
proof -
  obtain c l r cs where T: "T = plug (Nd c l a k v r) cs" using focus_flat [OF assms(2)] by blast
  let ?T = "plug (Nd c l a k v' r) cs"
  obtain s' where s': "set_val s a v' = Some s'" "REP s' ?T" using REP_set_val [of s c l a k v r cs v'] H T by (auto simp: holds_def)
  have "rbt_ok ?T" using H T by (auto simp: holds_def rbt_ok_plug)
  moreover have "set (addrs ?T) = set (addrs T)" by (simp add: T set_addrs_plug)
  moreover have "length (flat ?T) = length (flat T)" by (simp add: T flat_plug)
  ultimately have "holds s' ?T" using H s' set_keeps(5) [OF s'(1)] by (simp add: holds_def keeps_def)
  then show ?thesis using s'(1) T
    by (intro exI [of _ s'] exI [of _ ?T] exI [of _ "cleft cs @ flat l"] exI [of _ "flat r @ cright cs"]) (simp add: flat_plug)
qed

lemma rbt_index_holds:
  fixes k :: "'k::linorder"
  assumes H: "holds s T" and S: "sorted_wrt (<) (keys (flat T))"
  shows "\<exists>s' a T' v xs ys. rbt_index dflt s k = Some (s', a) \<and> holds s' T' \<and> sorted_wrt (<) (keys (flat T')) \<and>
    flat T' = xs @ (a, k, v) # ys \<and> (flat T = flat T' \<or> flat T = xs @ ys)"
proof -
  have R: "REP s (plug T [])" using H by (simp add: holds_def)
  have root: "m_root s = root_of T" using R by (simp add: REP_def)
  from descend_REP [OF R S, of k] show ?thesis
  proof
    assume "\<exists>a v. descend s k (root_of T) (par_of []) = Some (a, a) \<and> a \<noteq> 0 \<and> (a, k, v) \<in> set (flat T)"
    then obtain a v where a: "descend s k (root_of T) 0 = Some (a, a)" "a \<noteq> 0" "(a, k, v) \<in> set (flat T)" by auto
    then obtain xs ys where "flat T = xs @ (a, k, v) # ys" by (auto dest: split_list)
    then show ?thesis using a H S root by (intro exI [of _ s] exI [of _ a] exI [of _ T]) (auto simp: rbt_index_def)
  next
    assume "\<exists>ics. descend s k (root_of T) (par_of []) = Some (0, par_of (ics @ [])) \<and> T = plug Lf ics \<and>
       (\<forall>x \<in> set (keys (cleft ics)). x < k) \<and> (\<forall>x \<in> set (keys (cright ics)). k < x)"
    then obtain cs where cs: "descend s k (root_of T) 0 = Some (0, par_of cs)" "T = plug Lf cs"
       "\<forall>x \<in> set (keys (cleft cs)). x < k" "\<forall>x \<in> set (keys (cright cs)). k < x" by auto
    have D: "k < ckey cs \<longleftrightarrow> is_left cs" if "cs \<noteq> []"
      using that cs(3,4) by (cases cs rule: par_of.cases) auto
    obtain s' T' where A: "attach s k dflt (par_of cs) (is_left cs) = Some s'" "holds s' T'" "flat T' = cleft cs @ (next_node s, k, dflt) # cright cs"
      using attach_holds [of s cs k dflt] H cs(2) by auto
    have "holds s (plug Lf cs)" using H cs(2) by simp
    then have "rbt_index dflt s k = map_option (\<lambda>s'. (s', next_node s)) (attach s k dflt (par_of cs) (is_left cs))"
      using cs(1) root by (subst attach_alt(1) [of s cs "(<)", symmetric])
        (auto simp: D rbt_index_def new_node_def map_option_bind comp_def)
    then have "rbt_index dflt s k = Some (s', next_node s)" using A(1) by simp
    moreover have "sorted_wrt (<) (keys (flat T'))" "flat T = cleft cs @ cright cs"
      using S cs A(3) by (auto simp: flat_plug sorted_wrt_append)
    ultimately show ?thesis using A by blast
  qed
qed

text \<open>\<open>m[k] = v\<close>.\<close>

lemma rbt_assign_holds:
  fixes k :: "'k::linorder"
  assumes "holds s T" and "sorted_wrt (<) (keys (flat T))"
  shows "\<exists>s' T'. rbt_assign dflt s k v = Some s' \<and> holds s' T' \<and> sorted_wrt (<) (keys (flat T')) \<and> map_of (inord T') = (map_of (inord T))(k \<mapsto> v)"
proof -
  obtain s1 a T1 v1 xs ys where 1: "rbt_index dflt s k = Some (s1, a)" "holds s1 T1" "sorted_wrt (<) (keys (flat T1))"
    "flat T1 = xs @ (a, k, v1) # ys" "flat T = flat T1 \<or> flat T = xs @ ys"
    using rbt_index_holds [OF assms] by blast
  obtain s2 T2 xs' ys' where 2: "set_val s1 a v = Some s2" "holds s2 T2" "flat T1 = xs' @ (a, k, v1) # ys'" "flat T2 = xs' @ (a, k, v) # ys'"
    using set_val_holds [OF 1(2), of a k v1 v] 1(4) by auto
  have s: "sorted_wrt (<) (keys (flat T2))" using 1(3) 2(3,4) sorted_upd by metis
  have "map_of (inord T2) = (map_of (map snd (xs' @ ys')))(k \<mapsto> v)"
    unfolding inord_flat 2(4) using map_of_upd(1) 1(3) 2(3) by metis
  moreover have "(map_of (inord T))(k \<mapsto> v) = (map_of (map snd (xs' @ ys')))(k \<mapsto> v)"
  proof -
    have u: "map_of (map snd (flat T1)) = (map_of (map snd (xs @ ys)))(k \<mapsto> v1)" "map_of (map snd (flat T1)) = (map_of (map snd (xs' @ ys')))(k \<mapsto> v1)"
      using map_of_upd(1) [of xs a k v1 ys v1] map_of_upd(1) [of xs' a k v1 ys' v1] 1(3,4) 2(3) by metis+
    from 1(5) show ?thesis
    proof
      assume "flat T = flat T1"
      then show ?thesis using u(2) by (simp add: inord_flat)
    next
      assume "flat T = xs @ ys"
      then show ?thesis using u by (simp add: inord_flat) (metis fun_upd_upd)
    qed
  qed
  ultimately show ?thesis using 1(1) 2(1,2) s by (auto simp: rbt_assign_def)
qed

section \<open>Erasing\<close>

lemma cok_relabel: "cok (ics @ FR c y ky vy l # cs) n = cok (ics @ FR c z kz vz l # cs) n"
proof (induction ics arbitrary: n)
  case (Cons f ics)
  have "ccol (ics @ FR c y ky vy l # cs) = ccol (ics @ FR c z kz vz l # cs)" by (cases ics rule: par_of.cases) auto
  then show ?case using Cons.IH by (cases f) auto
qed simp

lemma ccol_relabel: "ccol (ics @ FR c y ky vy l # cs) = ccol (ics @ FR c z kz vz l # cs)"
  by (cases ics rule: par_of.cases) auto

lemma FL_cleft: "list_all is_FL ics \<Longrightarrow> cleft ics = []"
proof (induction ics)
  case (Cons f ics)
  then show ?case by (cases f) auto
qed simp

lemma unlink_holds:
  assumes R: "REP s (plug (Nd c l z k v r) cs)" and ok: "rbt_ok (plug (Nd c l z k v r) cs)"
  shows "\<exists>s1 x cs1 yc. unlink s z = Some (s1, root_of x, par_of cs1, yc) \<and> REP s1 (plug x cs1) \<and>
    flat (plug x cs1) = cleft cs @ flat l @ flat r @ cright cs \<and>
    (if yc = BLACK then rb (paintB x) \<and> cok cs1 (Suc (bh x)) else rbt_ok (plug x cs1))"
proof -
  have P: "rb l" "rb r" "bh l = bh r" "c = RED \<longrightarrow> col l = BLACK \<and> col r = BLACK" "cok cs (if c = BLACK then Suc (bh l) else bh l)" "c = RED \<longrightarrow> ccol cs = BLACK"
    using ok unfolding rbt_ok_plug by auto
  consider "l = Lf" | "l \<noteq> Lf" "r = Lf" | "l \<noteq> Lf" "r \<noteq> Lf" by blast
  then show ?thesis
  proof cases
    case 1
    then obtain s' where s': "unlink s z = Some (s', root_of r, par_of cs, c)" "REP s' (plug r cs)" using unlink_REP_left [of s c z k v r cs] R by auto
    have "if c = BLACK then rb (paintB r) \<and> cok cs (Suc (bh r)) else rbt_ok (plug r cs)"
      using P 1 by (auto simp: rbt_ok_plug rb_paintB color_cases)
    then show ?thesis using s' 1 by (intro exI [of _ s'] exI [of _ r] exI [of _ cs] exI [of _ c]) (simp add: flat_plug)
  next
    case 2
    then obtain s' where s': "unlink s z = Some (s', root_of l, par_of cs, c)" "REP s' (plug l cs)" using unlink_REP_right [of s c l z k v cs] R by auto
    have "if c = BLACK then rb (paintB l) \<and> cok cs (Suc (bh l)) else rbt_ok (plug l cs)"
      using P 2 by (auto simp: rbt_ok_plug rb_paintB color_cases)
    then show ?thesis using s' 2 by (intro exI [of _ s'] exI [of _ l] exI [of _ cs] exI [of _ c]) (simp add: flat_plug)
  next
    case 3
    have "REP s (plug r (FR c z k v l # cs))" using R by simp
    from minimum_REP [OF 3(2) this] obtain cy y ky vy x ics where
      m: "r = plug (Nd cy Lf y ky vy x) ics" "list_all is_FL ics" "minimum s (root_of r) = Some y" by blast
    let ?cs = "ics @ FR c y ky vy l # cs"
    obtain s' where s': "unlink s z = Some (s', root_of x, par_of ?cs, cy)" "REP s' (plug x ?cs)"
      using unlink_REP_two [of s c l z k v cy y ky vy x ics cs] R 3 m by auto
    have "rbt_ok (plug (Nd cy Lf y ky vy x) (ics @ FR c z k v l # cs))" using ok m(1) by (simp add: plug_append)
    then have "rb (Nd cy Lf y ky vy x)" "cok ?cs (bh (Nd cy Lf y ky vy x))" "cy = RED \<longrightarrow> ccol ?cs = BLACK"
      unfolding rbt_ok_plug by (simp_all add: cok_relabel [of ics c y ky vy l cs _ z k v] ccol_relabel [of ics c y ky vy l cs z k v])
    then have "if cy = BLACK then rb (paintB x) \<and> cok ?cs (Suc (bh x)) else rbt_ok (plug x ?cs)"
      by (auto simp: rbt_ok_plug rb_paintB color_cases)
    moreover have "flat (plug x ?cs) = cleft cs @ flat l @ flat r @ cright cs"
      using FL_cleft [OF m(2)] by (simp add: flat_plug m(1) cleft_append cright_append)
    ultimately show ?thesis using s' by blast
  qed
qed

lemma REP_outside: "REP s T \<Longrightarrow> z \<notin> set (addrs T) \<Longrightarrow> REP (s\<lparr>nodes := (nodes s)(z := n), m_size := m\<rparr>) T"
  by (simp add: REP_def)

lemma rbt_erase_found:
  fixes k :: "'k::linorder"
  assumes H: "holds s T" and S: "sorted_wrt (<) (keys (flat T))" and f: "tree_find_loop s k (m_root s) = Some z" "z \<noteq> 0" "(z, k, v) \<in> set (flat T)"
  shows "\<exists>s' T' xs ys. rbt_erase s k = Some (s', 1) \<and> holds s' T' \<and> flat T = xs @ (z, k, v) # ys \<and> flat T' = xs @ ys"
proof -
  obtain c l r cs where T: "T = plug (Nd c l z k v r) cs" using focus_flat [OF f(3)] by blast
  have RT: "REP s (plug (Nd c l z k v r) cs)" "rbt_ok (plug (Nd c l z k v r) cs)" using H T by (auto simp: holds_def)
  obtain s1 x cs1 yc where u: "unlink s z = Some (s1, root_of x, par_of cs1, yc)" "REP s1 (plug x cs1)"
    "flat (plug x cs1) = cleft cs @ flat l @ flat r @ cright cs"
    "if yc = BLACK then rb (paintB x) \<and> cok cs1 (Suc (bh x)) else rbt_ok (plug x cs1)"
    using unlink_holds [OF RT] by blast
  obtain s2 T2 where x: "(if yc = BLACK then erase_fixup s1 (root_of x) (par_of cs1) else Some s1) = Some s2" "REP s2 T2" "rbt_ok T2"
      "flat T2 = cleft cs @ flat l @ flat r @ cright cs" "keeps s1 s2"
    using erase_fixup_REP [OF u(2)] u by (cases "yc = BLACK") auto
  have k2: "keeps s s2" using unlink_keeps [OF u(1)] x(5) by (rule keeps_trans)
  have fT: "flat T = (cleft cs @ flat l) @ (z, k, v) # flat r @ cright cs" by (simp add: T flat_plug)
  have dT: "distinct (map fst (flat T))" using H by (simp add: holds_def REP_def addrs_flat)
  have a2: "set (addrs T2) = set (addrs T) - {z}" "z \<in> set (addrs T)" "z \<notin> set (addrs T2)"
    using dT unfolding addrs_flat fT x(4) by auto
  let ?s = "s2\<lparr>nodes := (nodes s2)(z := None), m_size := m_size s2 - 1\<rparr>"
  have dn: "delete_node s2 z = Some (s2\<lparr>nodes := (nodes s2)(z := None)\<rparr>)"
    using k2 a2 H f(2) by (auto simp: delete_node_def deref_node_def keeps_def holds_def)
  have "holds ?s T2"
    using REP_outside [OF x(2) a2(3)] x(3,4) k2 H a2 fT by (auto simp: holds_def keeps_def)
  moreover have "rbt_erase s k = Some (?s, 1)" using f(1,2) u(1) x(1) dn by (simp add: rbt_erase_def)
  ultimately show ?thesis using fT x(4)
    by (intro exI [of _ ?s] exI [of _ T2] exI [of _ "cleft cs @ flat l"] exI [of _ "flat r @ cright cs"]) simp
qed

lemma rbt_erase_holds:
  fixes k :: "'k::linorder"
  assumes H: "holds s T" and S: "sorted_wrt (<) (keys (flat T))"
  shows "\<exists>s' T' n. rbt_erase s k = Some (s', n) \<and> holds s' T' \<and> sorted_wrt (<) (keys (flat T')) \<and>
    map_of (inord T') = (map_of (inord T))(k := None) \<and> n = (if map_of (inord T) k = None then 0 else 1)"
proof -
  have R: "REP s (plug T [])" and root: "m_root s = root_of T" using H by (auto simp: holds_def REP_def)
  obtain z where z: "tree_find_loop s k (m_root s) = Some z" "z = 0 \<and> k \<notin> set (keys (flat T)) \<or> z \<noteq> 0 \<and> (\<exists>v. (z, k, v) \<in> set (flat T))"
    using tree_find_REP [OF R S, of k] unfolding root by blast
  from z(2) show ?thesis
  proof
    assume a: "z = 0 \<and> k \<notin> set (keys (flat T))"
    then have "map_of (inord T) k = None" by (simp add: inord_flat map_of_eq_None_iff keys_def image_image comp_def)
    moreover from this have "(map_of (inord T))(k := None) = map_of (inord T)" by (simp add: fun_upd_idem)
    ultimately show ?thesis using a z(1) H S by (intro exI [of _ s] exI [of _ T] exI [of _ 0]) (simp add: rbt_erase_def)
  next
    assume "z \<noteq> 0 \<and> (\<exists>v. (z, k, v) \<in> set (flat T))"
    then obtain v where "z \<noteq> 0" "(z, k, v) \<in> set (flat T)" by blast
    then obtain s' T' xs ys where e: "rbt_erase s k = Some (s', 1)" "holds s' T'" "flat T = xs @ (z, k, v) # ys" "flat T' = xs @ ys"
      using rbt_erase_found [OF H S z(1)] by blast
    have m: "map_of (map snd (flat T)) = (map_of (map snd (xs @ ys)))(k \<mapsto> v)" "map_of (map snd (xs @ ys)) k = None"
      using map_of_upd(1) [of xs z k v ys v] map_of_upd(2) [of xs z k v ys] S e(3) by metis+
    have "map_of (inord T') = (map_of (inord T))(k := None)"
      unfolding inord_flat e(4) m(1) using m(2) by (metis fun_upd_idem fun_upd_upd)
    moreover have "map_of (inord T) k \<noteq> None" unfolding inord_flat m(1) by simp
    moreover have "sorted_wrt (<) (keys (flat T'))" using S e(3,4) by (auto simp: sorted_wrt_append)
    ultimately show ?thesis using e(1,2) by auto
  qed
qed

section \<open>Clearing\<close>

lemma clear_subtree_shape:
  "shape (nodes s) p t \<Longrightarrow> distinct (addrs t) \<Longrightarrow>
   clear_subtree s (root_of t) = Some (s\<lparr>nodes := (\<lambda>a. if a \<in> set (addrs t) then None else nodes s a)\<rparr>)"
proof (induction t arbitrary: s p)
  case Lf
  show ?case by (subst clear_subtree.simps) simp
next
  case (Nd c l a k v r)
  let ?s1 = "s\<lparr>nodes := (\<lambda>b. if b \<in> set (addrs l) then None else nodes s b)\<rparr>"
  have frame: "shape h' q t = shape h q t" if "\<forall>b \<in> set (addrs t). h' b = h b" for h h' q and t :: "('a, 'b) tree"
    using that by (induction t arbitrary: q) auto
  have 1: "clear_subtree s (root_of l) = Some ?s1" using Nd.IH(1) [of s a] Nd.prems by auto
  have "shape (nodes ?s1) a r = shape (nodes s) a r" by (rule frame) (use Nd.prems in auto)
  then have 2: "clear_subtree ?s1 (root_of r) = Some (?s1\<lparr>nodes := (\<lambda>b. if b \<in> set (addrs r) then None else nodes ?s1 b)\<rparr>)"
    using Nd.IH(2) [of ?s1 a] Nd.prems by auto
  show ?case using 1 2 Nd.prems
    by (subst clear_subtree.simps) (auto simp: node_ops delete_node_def fun_eq_iff intro!: arg_cong [where f = "\<lambda>h. s\<lparr>nodes := h\<rparr>"])
qed

lemma rbt_clear_holds:
  assumes "holds s T"
  shows "\<exists>s'. rbt_clear s = Some s' \<and> holds s' Lf \<and> nodes s' = Map.empty"
proof -
  have "clear_subtree s (m_root s) = Some (s\<lparr>nodes := (\<lambda>a. if a \<in> set (addrs T) then None else nodes s a)\<rparr>)"
    using clear_subtree_shape [of s 0 T] assms by (auto simp: holds_def REP_def)
  moreover have "(\<lambda>a. if a \<in> set (addrs T) then None else nodes s a) = Map.empty" using assms by (auto simp: holds_def fun_eq_iff)
  ultimately show ?thesis using assms by (simp add: rbt_clear_def holds_def REP_def rbt_ok_def)
qed

section \<open>Iteration\<close>

definition hd_addr :: "(nat \<times> 'k \<times> 'v) list \<Rightarrow> nat" where
  "hd_addr fl = (case fl of [] \<Rightarrow> 0 | (a, k, v) # fl' \<Rightarrow> a)"

lemma hd_addr_simps [simp]: "hd_addr [] = 0" "hd_addr ((a, k, v) # fl) = a"
  by (simp_all add: hd_addr_def)

lemma climb_REP:
  "REP s (plug t cs) \<Longrightarrow> t \<noteq> Lf \<Longrightarrow> climb s (root_of t) (par_of cs) = Some (hd_addr (cright cs))"
proof (induction cs arbitrary: t)
  case Nil
  show ?case by (subst climb.simps) simp
next
  case (Cons f cs)
  show ?case
  proof (cases f)
    case (FL c a k v r)
    then have "right_of s a = Some (root_of r)" "a \<noteq> 0" using REP_gets(2) [of s c t a k v r cs] REP_node(1) [of s c t a k v r cs] Cons.prems by auto
    moreover have "root_of t \<noteq> root_of r" using Cons.prems FL unfolding REP_plug by (cases t; cases r) auto
    ultimately show ?thesis using FL by (subst climb.simps) simp
  next
    case (FR c a k v l)
    then have R: "REP s (plug (Nd c l a k v t) cs)" using Cons.prems by simp
    have "climb s a (par_of cs) = Some (hd_addr (cright cs))" using Cons.IH [OF R] by simp
    then show ?thesis using FR REP_gets(2,3) [OF R] REP_node(1) [OF R] by (subst climb.simps) simp
  qed
qed

lemma minimum_flat: "REP s (plug t cs) \<Longrightarrow> minimum s (root_of t) = Some (hd_addr (flat t))"
proof (cases "t = Lf")
  case True
  then show ?thesis by (subst minimum.simps) simp
next
  case False
  assume "REP s (plug t cs)"
  from minimum_REP [OF False this] obtain c a k v r ics where "t = plug (Nd c Lf a k v r) ics" "list_all is_FL ics" "minimum s (root_of t) = Some a"
    by blast
  then show ?thesis using FL_cleft [of ics] by (simp add: flat_plug)
qed

lemma iter_next_REP:
  assumes R: "REP s (plug (Nd c l a k v r) cs)"
  shows "iter_next s a = Some (hd_addr (flat r @ cright cs))"
proof (cases r)
  case Lf
  then show ?thesis using REP_gets(2,3) [OF R] climb_REP [OF R] by (simp add: iter_next_def)
next
  case (Nd c' l' a' k' v' r')
  have Rr: "REP s (plug r (FR c a k v l # cs))" using R by simp
  have "root_of r \<noteq> 0" using Rr Nd by (auto simp: REP_plug)
  moreover have "hd_addr (flat r @ cright cs) = hd_addr (flat r)" using Nd by (cases "flat r") (auto simp: hd_addr_def)
  ultimately show ?thesis using REP_gets(2) [OF R] minimum_flat [OF Rr] by (simp add: iter_next_def)
qed

text \<open>\<open>for (auto &kv : m)\<close>, collecting the pairs.\<close>

partial_function (option) collect :: "('k, 'v) rbt \<Rightarrow> nat \<Rightarrow> ('k \<times> 'v) list option" where
  "collect s p =
    (if p = 0 then Some []
     else do { k \<leftarrow> key_of s p; v \<leftarrow> val_of s p; q \<leftarrow> iter_next s p; kvs \<leftarrow> collect s q; Some ((k, v) # kvs) })"

lemma collect_suffix: "REP s T \<Longrightarrow> flat T = xs @ ys \<Longrightarrow> collect s (hd_addr ys) = Some (map snd ys)"
proof (induction ys arbitrary: xs)
  case Nil
  show ?case by (subst collect.simps) simp
next
  case (Cons y ys)
  obtain a k v where y: "y = (a, k, v)" by (cases y)
  have "(a, k, v) \<in> set (flat T)" using Cons.prems(2) y by simp
  then obtain c l r cs where T: "T = plug (Nd c l a k v r) cs" using focus_flat by metis
  then have R: "REP s (plug (Nd c l a k v r) cs)" using Cons.prems(1) by simp
  have d: "distinct (map fst (flat T))" using Cons.prems(1) by (simp add: REP_def addrs_flat)
  have e: "(cleft cs @ flat l) @ (a, k, v) # (flat r @ cright cs) = xs @ (a, k, v) # ys" using Cons.prems(2) y T by (simp add: flat_plug)
  have "a \<notin> set (map fst (cleft cs @ flat l))" "a \<notin> set (map fst (flat r @ cright cs))" using d T by (auto simp: flat_plug)
  then have "(a, k, v) \<notin> set (cleft cs @ flat l)" "(a, k, v) \<notin> set (flat r @ cright cs)" by force+
  from append_Cons_eq_iff [OF this] e have "flat r @ cright cs = ys" by blast
  then have "iter_next s a = Some (hd_addr ys)" using iter_next_REP [OF R] by simp
  moreover have "collect s (hd_addr ys) = Some (map snd ys)" using Cons.IH [of "xs @ [y]"] Cons.prems by simp
  ultimately show ?case using REP_gets(5,6) [OF R] REP_node(1) [OF R] y by (subst collect.simps) simp
qed

lemma rbt_iterates:
  assumes "holds s T"
  shows "Option.bind (rbt_begin s) (collect s) = Some (inord T)"
proof -
  have R: "REP s (plug T [])" "m_root s = root_of T" using assms by (auto simp: holds_def REP_def)
  have "root_of T = 0 \<longleftrightarrow> T = Lf" using REP_root_nz [OF R(1)] .
  then have "rbt_begin s = Some (hd_addr (flat T))" using minimum_flat [OF R(1)] R(2) by (auto simp: rbt_begin_def)
  then show ?thesis using collect_suffix [of s T "[]" "flat T"] R(1) by (simp add: inord_flat)
qed

section \<open>Height\<close>

fun height :: "('k, 'v) tree \<Rightarrow> nat" where
  "height Lf = 0"
| "height (Nd c l a k v r) = Suc (max (height l) (height r))"

lemma height_bh: "rb t \<Longrightarrow> height t \<le> 2 * bh t + (if col t = RED then 1 else 0)"
  by (induction t) (auto simp: color_cases split: if_splits)

lemma size_bh: "rb t \<Longrightarrow> 2 ^ bh t \<le> length (flat t) + 1"
  by (induction t) auto

lemma rbt_height: "rbt_ok t \<Longrightarrow> 2 ^ (height t div 2) \<le> length (flat t) + 1"
proof -
  assume "rbt_ok t"
  then have "height t div 2 \<le> bh t" "rb t" using height_bh [of t] by (auto simp: rbt_ok_def)
  then have "(2 :: nat) ^ (height t div 2) \<le> 2 ^ bh t" by (intro power_increasing) auto
  from order_trans [OF this size_bh [OF \<open>rb t\<close>]] show ?thesis .
qed

section \<open>The map\<close>

text \<open>\<open>find\<close> followed by a look at the value of the node.\<close>

definition rbt_lookup :: "('k::linorder, 'v) rbt \<Rightarrow> 'k \<Rightarrow> 'v option option" where
  "rbt_lookup s k = do { a \<leftarrow> rbt_find s k; if a = 0 then Some None else map_option Some (val_of s a) }"

definition rbt_invar :: "('k::linorder, 'v) rbt \<Rightarrow> bool" where
  "rbt_invar s \<longleftrightarrow> (\<exists>T. holds s T \<and> sorted_wrt (<) (keys (flat T)))"

definition rbt_abs :: "('k::linorder, 'v) rbt \<Rightarrow> 'k \<rightharpoonup> 'v" where
  "rbt_abs s = map_of (inord (THE T. holds s T))"

lemma rbt_abs_eq: "holds s T \<Longrightarrow> rbt_abs s = map_of (inord T)"
  unfolding rbt_abs_def using holds_unique [of s] by (metis the_equality)

lemma rbt_lookup_ok:
  assumes "rbt_invar s"
  shows "rbt_lookup s k = Some (rbt_abs s k)"
proof -
  obtain T where T: "holds s T" "sorted_wrt (<) (keys (flat T))" using assms by (auto simp: rbt_invar_def)
  have R: "REP s (plug T [])" "m_root s = root_of T" using T(1) by (auto simp: holds_def REP_def)
  obtain a where a: "tree_find_loop s k (m_root s) = Some a" "a = 0 \<and> k \<notin> set (keys (flat T)) \<or> a \<noteq> 0 \<and> (\<exists>v. (a, k, v) \<in> set (flat T))"
    using tree_find_REP [OF R(1) T(2), of k] unfolding R(2) by blast
  from a(2) show ?thesis
  proof
    assume "a = 0 \<and> k \<notin> set (keys (flat T))"
    moreover from this have "map_of (inord T) k = None" by (simp add: inord_flat map_of_eq_None_iff keys_def image_image comp_def)
    ultimately show ?thesis using a(1) by (simp add: rbt_lookup_def rbt_find_def rbt_abs_eq [OF T(1)])
  next
    assume "a \<noteq> 0 \<and> (\<exists>v. (a, k, v) \<in> set (flat T))"
    then obtain v where v: "a \<noteq> 0" "(a, k, v) \<in> set (flat T)" by blast
    obtain c l r cs where "T = plug (Nd c l a k v r) cs" using focus_flat [OF v(2)] by blast
    then have "val_of s a = Some v" using REP_gets(6) [of s c l a k v r cs] R(1) by simp
    moreover obtain xs ys where xy: "flat T = xs @ (a, k, v) # ys" using split_list [OF v(2)] by blast
    have "map_of (inord T) k = Some v" unfolding inord_flat xy using map_of_upd(1) [of xs a k v ys v] T(2) xy by (metis fun_upd_same)
    ultimately show ?thesis using a(1) v(1) by (simp add: rbt_lookup_def rbt_find_def rbt_abs_eq [OF T(1)])
  qed
qed

lemma rbt_invarI: "holds s T \<Longrightarrow> sorted_wrt (<) (keys (flat T)) \<Longrightarrow> rbt_invar s \<and> rbt_abs s = map_of (inord T)"
  by (auto simp: rbt_invar_def rbt_abs_eq)

lemma rbt_assign_ok: "rbt_invar s \<Longrightarrow> \<exists>s'. rbt_assign dflt s k v = Some s' \<and> rbt_invar s' \<and> rbt_abs s' = (rbt_abs s)(k \<mapsto> v)"
proof -
  assume "rbt_invar s"
  then obtain T where T: "holds s T" "sorted_wrt (<) (keys (flat T))" by (auto simp: rbt_invar_def)
  then obtain s' T' where "rbt_assign dflt s k v = Some s'" "holds s' T'" "sorted_wrt (<) (keys (flat T'))"
      "map_of (inord T') = (map_of (inord T))(k \<mapsto> v)"
    using rbt_assign_holds [OF T] by blast
  then show ?thesis using rbt_invarI [of s' T'] rbt_abs_eq [OF T(1)] by simp
qed

interpretation rbm: map_store rbt_empty "rbt_assign dflt" rbt_lookup rbt_invar rbt_abs for dflt
proof
  show "rbt_invar rbt_empty" "rbt_abs rbt_empty = Map.empty" using rbt_invarI [OF holds_empty] by auto
qed (rule rbt_assign_ok rbt_lookup_ok, assumption)+

datatype ('k, 'v) rbt_call = RAssign 'k 'v | RErase 'k | RClear

definition rbt_call :: "'v \<Rightarrow> ('k::linorder, 'v) rbt \<Rightarrow> ('k, 'v) rbt_call \<Rightarrow> ('k, 'v) rbt option" where
  "rbt_call dflt s c = (case c of RAssign k v \<Rightarrow> rbt_assign dflt s k v | RErase k \<Rightarrow> map_option fst (rbt_erase s k) | RClear \<Rightarrow> rbt_clear s)"

fun map_call :: "('k \<rightharpoonup> 'v) \<Rightarrow> ('k, 'v) rbt_call \<Rightarrow> 'k \<rightharpoonup> 'v" where
  "map_call m (RAssign k v) = m(k \<mapsto> v)"
| "map_call m (RErase k) = m(k := None)"
| "map_call m RClear = Map.empty"

lemma rbt_call_holds:
  assumes "holds s T" and "sorted_wrt (<) (keys (flat T))"
  shows "\<exists>s' T'. rbt_call dflt s c = Some s' \<and> holds s' T' \<and> sorted_wrt (<) (keys (flat T')) \<and> map_of (inord T') = map_call (map_of (inord T)) c"
proof (cases c)
  case (RAssign k v)
  then show ?thesis using rbt_assign_holds [OF assms] by (simp add: rbt_call_def)
next
  case (RErase k)
  then show ?thesis using rbt_erase_holds [OF assms, of k] by (auto simp: rbt_call_def)
next
  case RClear
  obtain s' where "rbt_clear s = Some s'" "holds s' Lf" using rbt_clear_holds [OF assms(1)] by blast
  then show ?thesis using RClear by (intro exI [of _ s'] exI [of _ Lf]) (simp add: rbt_call_def)
qed

lemma rbt_calls_hold:
  assumes "holds s T" and "sorted_wrt (<) (keys (flat T))"
  shows "\<exists>s' T'. run_calls (rbt_call dflt) s cs = Some s' \<and> holds s' T' \<and> sorted_wrt (<) (keys (flat T')) \<and> map_of (inord T') = foldl map_call (map_of (inord T)) cs"
  using assms
proof (induction cs arbitrary: s T)
  case (Cons c cs)
  then obtain s1 T1 where "rbt_call dflt s c = Some s1" "holds s1 T1" "sorted_wrt (<) (keys (flat T1))" "map_of (inord T1) = map_call (map_of (inord T)) c"
    using rbt_call_holds [of s T dflt c] by blast
  then show ?case using Cons.IH [of s1 T1] by auto
qed auto

section \<open>The multimap\<close>

lemma mm_descend_REP:
  fixes k :: "'k::linorder"
  assumes "REP s (plug t cs)" and "sorted (keys (flat t))"
  shows "\<exists>ics. mm_descend s k (root_of t) (par_of cs) = Some (par_of (ics @ cs)) \<and> t = plug Lf ics \<and>
       (\<forall>x \<in> set (keys (cleft ics)). x < k) \<and> (\<forall>x \<in> set (keys (cright ics)). k \<le> x)"
  using assms
proof (induction t arbitrary: cs)
  case Lf
  have "mm_descend s k 0 (par_of cs) = Some (par_of cs)" by (subst mm_descend.simps) simp
  then show ?case by (intro exI [of _ "[]"]) simp
next
  case (Nd c l b kb v r)
  note G = REP_gets [OF Nd.prems(1)] REP_node(1) [OF Nd.prems(1)]
  have S: "sorted (keys (flat l))" "sorted (keys (flat r))" "\<forall>x \<in> set (keys (flat l)). x \<le> kb" "\<forall>x \<in> set (keys (flat r)). kb \<le> x"
    using Nd.prems(2) by (auto simp: sorted_append)
  show ?case
  proof (cases "kb < k")
    case False
    have e: "mm_descend s k (root_of (Nd c l b kb v r)) (par_of cs) = mm_descend s k (root_of l) (par_of (FL c b kb v r # cs))"
      using False G by (subst mm_descend.simps) simp
    have "REP s (plug l (FL c b kb v r # cs))" using Nd.prems(1) by simp
    from Nd.IH(1) [OF this S(1)] obtain ics where
      i: "mm_descend s k (root_of l) (par_of (FL c b kb v r # cs)) = Some (par_of (ics @ FL c b kb v r # cs))" "l = plug Lf ics"
        "\<forall>x \<in> set (keys (cleft ics)). x < k" "\<forall>x \<in> set (keys (cright ics)). k \<le> x" by blast
    show ?thesis using i e False S(4)
      by (intro exI [of _ "ics @ [FL c b kb v r]"]) (fastforce simp: plug_append cleft_append cright_append not_less)
  next
    case True
    have e: "mm_descend s k (root_of (Nd c l b kb v r)) (par_of cs) = mm_descend s k (root_of r) (par_of (FR c b kb v l # cs))"
      using True G by (subst mm_descend.simps) simp
    have "REP s (plug r (FR c b kb v l # cs))" using Nd.prems(1) by simp
    from Nd.IH(2) [OF this S(2)] obtain ics where
      i: "mm_descend s k (root_of r) (par_of (FR c b kb v l # cs)) = Some (par_of (ics @ FR c b kb v l # cs))" "r = plug Lf ics"
        "\<forall>x \<in> set (keys (cleft ics)). x < k" "\<forall>x \<in> set (keys (cright ics)). k \<le> x" by blast
    show ?thesis using i e True S(3)
      by (intro exI [of _ "ics @ [FR c b kb v l]"]) (fastforce simp: plug_append cleft_append cright_append)
  qed
qed

lemma insort_split:
  "\<forall>x \<in> set xs. fst x < fst p \<Longrightarrow> \<forall>x \<in> set ys. fst p \<le> fst x \<Longrightarrow> insort_key fst p (xs @ ys) = xs @ p # ys"
proof (induction xs)
  case Nil
  then show ?case by (cases ys) auto
qed (auto simp: not_le)

lemma keys_inord: "keys (flat T) = map fst (inord T)"
  by (simp add: keys_def inord_flat)

lemma set_keys: "x \<in> set fl \<Longrightarrow> fst (snd x) \<in> set (keys fl)"
  by (auto simp: keys_def)

lemma mmt_insert_holds:
  fixes p :: "'k::linorder \<times> 'v"
  assumes H: "holds s T" and S: "sorted (map fst (inord T))"
  shows "\<exists>s' T'. mmt_insert s p = Some s' \<and> holds s' T' \<and> inord T' = insort_key fst p (inord T)"
proof -
  obtain k v where p: "p = (k, v)" by (cases p)
  have R: "REP s (plug T [])" and root: "m_root s = root_of T" using H by (auto simp: holds_def REP_def)
  obtain cs where cs: "mm_descend s k (root_of T) 0 = Some (par_of cs)" "T = plug Lf cs"
     "\<forall>x \<in> set (keys (cleft cs)). x < k" "\<forall>x \<in> set (keys (cright cs)). k \<le> x"
    using mm_descend_REP [OF R, of k] S by (auto simp: keys_inord)
  have D: "\<not> ckey cs < k \<longleftrightarrow> is_left cs" if "cs \<noteq> []"
    using that cs(3,4) by (cases cs rule: par_of.cases) (auto simp: not_less)
  have Hc: "holds s (plug Lf cs)" using H cs(2) by simp
  obtain s' T' where A: "attach s k v (par_of cs) (is_left cs) = Some s'" "holds s' T'" "flat T' = cleft cs @ (next_node s, k, v) # cright cs"
    using attach_holds [OF Hc, of k v] by auto
  have "mmt_insert s p = attach s k v (par_of cs) (is_left cs)"
    using cs(1) root Hc by (subst attach_alt(2) [of s cs "\<lambda>zk pk. \<not> pk < zk", symmetric]) (auto simp: D p mmt_insert_def new_node_def)
  moreover have "inord T' = insort_key fst p (inord T)"
  proof -
    have "\<forall>x \<in> set (map snd (cleft cs)). fst x < fst p" "\<forall>x \<in> set (map snd (cright cs)). fst p \<le> fst x"
      using cs(3,4) p by (auto simp: keys_def)
    from insort_split [OF this] show ?thesis using cs(2) A(3) p by (simp add: inord_flat flat_plug)
  qed
  ultimately show ?thesis using A(1,2) by auto
qed

lemma mmt_inserts_hold:
  "holds s T \<Longrightarrow> sorted (map fst (inord T)) \<Longrightarrow>
   \<exists>s' T'. run_calls mmt_insert s ps = Some s' \<and> holds s' T' \<and> inord T' = foldl (\<lambda>xs p. insort_key fst p xs) (inord T) ps"
proof (induction ps arbitrary: s T)
  case (Cons p ps)
  obtain s1 T1 where 1: "mmt_insert s p = Some s1" "holds s1 T1" "inord T1 = insort_key fst p (inord T)"
    using mmt_insert_holds [OF Cons.prems] by blast
  have "sorted (map fst (inord T1))" using 1(3) Cons.prems(2) by (simp add: sorted_insort_key)
  then show ?case using Cons.IH [OF 1(2)] 1 by auto
qed auto

lemma lower_loop_REP:
  fixes k :: "'k::linorder"
  assumes "REP s (plug t cs)" and "sorted (keys (flat t))"
  shows "lower_loop s k (root_of t) ans = Some (case filter (\<lambda>x. k \<le> fst (snd x)) (flat t) of [] \<Rightarrow> ans | x # xs \<Rightarrow> fst x)"
  using assms
proof (induction t arbitrary: cs ans)
  case Lf
  show ?case by (subst lower_loop.simps) simp
next
  case (Nd c l b kb v r)
  note G = REP_gets [OF Nd.prems(1)] REP_node(1) [OF Nd.prems(1)]
  have S: "sorted (keys (flat l))" "sorted (keys (flat r))" "\<forall>x \<in> set (keys (flat l)). x \<le> kb" "\<forall>x \<in> set (keys (flat r)). kb \<le> x"
    using Nd.prems(2) by (auto simp: sorted_append)
  show ?case
  proof (cases "kb < k")
    case False
    have "REP s (plug l (FL c b kb v r # cs))" using Nd.prems(1) by simp
    from Nd.IH(1) [OF this S(1), of b] show ?thesis
      using False G by (subst lower_loop.simps) (auto simp: not_less split: list.splits)
  next
    case True
    have "REP s (plug r (FR c b kb v l # cs))" using Nd.prems(1) by simp
    note IH = Nd.IH(2) [OF this S(2), of ans]
    have "filter (\<lambda>x. k \<le> fst (snd x)) (flat l) = []" using True S(3) by (auto simp: filter_empty_conv dest!: set_keys)
    then show ?thesis using IH True G by (subst lower_loop.simps) (auto simp: not_le)
  qed
qed

section \<open>The properties\<close>

lemma length_card: "sorted_wrt (<) (keys (flat (T :: ('k::linorder, 'v) tree))) \<Longrightarrow> card (dom (map_of (inord T))) = length (flat T)"
proof -
  assume "sorted_wrt (<) (keys (flat T))"
  then have "distinct (map fst (inord T))" using strict_sorted_iff [of "map fst (inord T)"] by (simp add: keys_inord)
  then show ?thesis using distinct_card [of "map fst (inord T)"] by (simp add: dom_map_of_conv_image_fst inord_flat image_image)
qed

lemma rbt_reach:
  "\<exists>s T. run_calls (rbt_call dflt) rbt_empty cs = Some s \<and> holds s T \<and> sorted_wrt (<) (keys (flat T)) \<and> map_of (inord T) = foldl map_call Map.empty cs"
  using rbt_calls_hold [OF holds_empty, of dflt cs] by simp

text \<open>
  C24. The red-black tree is a map: any sequence of assignments \<open>m[k] = v\<close>, erasures and clears returns, without
  touching null or a deleted node; afterwards \<open>find\<close> gives for every key the value of the same operations on maps,
  \<open>size()\<close> is the number of keys, and exactly that many nodes are allocated.
\<close>

theorem rbt_refines_map:
  fixes cs :: "('k::linorder, 'v) rbt_call list"
  shows "\<exists>s. run_calls (rbt_call dflt) rbt_empty cs = Some s \<and>
    (\<forall>k. rbt_lookup s k = Some (foldl map_call Map.empty cs k)) \<and>
    m_size s = of_nat (card (dom (foldl map_call Map.empty cs))) \<and>
    card (dom (nodes s)) = card (dom (foldl map_call Map.empty cs))"
proof -
  obtain s T where s: "run_calls (rbt_call dflt) rbt_empty cs = Some s" "holds s T" "sorted_wrt (<) (keys (flat T))" "map_of (inord T) = foldl map_call Map.empty cs"
    using rbt_reach [of dflt cs] by blast
  have "rbt_lookup s k = Some (foldl map_call Map.empty cs k)" for k
    using rbt_lookup_ok [of s k] rbt_invarI [OF s(2,3)] s(4) by simp
  moreover have "card (dom (foldl map_call Map.empty cs)) = length (flat T)" using length_card [OF s(3)] s(4) by simp
  moreover have "card (dom (nodes s)) = length (flat T)"
    using s(2) distinct_card [of "addrs T"] by (simp add: holds_def REP_def addrs_flat)
  ultimately show ?thesis using s(1,2) by (auto simp: holds_def)
qed

text \<open>
  C26. Iterating from \<open>begin()\<close> with \<open>++\<close> to \<open>end()\<close> visits every key once, in increasing order, with its value.
\<close>

theorem rbt_iterates_in_order:
  fixes cs :: "('k::linorder, 'v) rbt_call list"
  shows "\<exists>s kvs. run_calls (rbt_call dflt) rbt_empty cs = Some s \<and> Option.bind (rbt_begin s) (collect s) = Some kvs \<and>
    sorted_wrt (<) (map fst kvs) \<and> map_of kvs = foldl map_call Map.empty cs"
proof -
  obtain s T where "run_calls (rbt_call dflt) rbt_empty cs = Some s" "holds s T" "sorted_wrt (<) (keys (flat T))" "map_of (inord T) = foldl map_call Map.empty cs"
    using rbt_reach [of dflt cs] by blast
  then show ?thesis using rbt_iterates [of s T] by (auto simp: keys_inord)
qed


text \<open>
  C27. A tree multimap filled by \<open>insert\<close> iterates over the inserted pairs in key order, pairs with equal keys in the
  \<^emph>\<open>reverse\<close> of their insertion order, and \<open>lower_bound(k)\<close> is the first pair whose key is not below \<open>k\<close>.
\<close>

theorem mmt_inserts_sorted:
  fixes ps :: "('k::linorder \<times> 'v) list"
  shows "\<exists>s. run_calls mmt_insert rbt_empty ps = Some s \<and>
    Option.bind (rbt_begin s) (collect s) = Some (sort_key fst (rev ps)) \<and>
    Option.bind (mmt_lower_bound s k) (collect s) = Some (filter (\<lambda>x. k \<le> fst x) (sort_key fst (rev ps)))"
proof -
  obtain s T where s: "run_calls mmt_insert rbt_empty ps = Some s" "holds s T" "inord T = sort_key fst (rev ps)"
    using mmt_inserts_hold [OF holds_empty, of ps] by (auto simp: sort_key_def foldl_conv_foldr)
  have R: "REP s (plug T [])" and root: "m_root s = root_of T" using s(2) by (auto simp: holds_def REP_def)
  have S: "sorted (keys (flat T))" using s(3) by (simp add: keys_inord)
  let ?P = "\<lambda>x. k \<le> fst (snd x)"
  have lb: "mmt_lower_bound s k = Some (hd_addr (filter ?P (flat T)))"
    using lower_loop_REP [OF R S, of k 0] root by (simp add: mmt_lower_bound_def hd_addr_def split: list.splits)
  have "\<exists>xs. fl = xs @ filter ?P fl" if "sorted (keys fl)" for fl :: "(nat \<times> 'k \<times> 'v) list"
    using that
  proof (induction fl)
    case (Cons x fl)
    show ?case
    proof (cases "?P x")
      case True
      then have "filter ?P (x # fl) = x # fl" using Cons.prems by (cases x) (auto simp: filter_id_conv dest: set_keys intro: order_trans)
      then show ?thesis by (intro exI [of _ "[]"]) simp
    next
      case False
      obtain xs where "fl = xs @ filter ?P fl" using Cons by (cases x) auto
      then show ?thesis using False by (intro exI [of _ "x # xs"]) simp
    qed
  qed simp
  then obtain xs where "flat T = xs @ filter ?P (flat T)" using S by blast
  then have "collect s (hd_addr (filter ?P (flat T))) = Some (map snd (filter ?P (flat T)))"
    using collect_suffix [of s T xs "filter ?P (flat T)"] R by simp
  moreover have "map snd (filter ?P (flat T)) = filter (\<lambda>x. k \<le> fst x) (inord T)" by (simp add: inord_flat filter_map comp_def)
  ultimately show ?thesis using s lb rbt_iterates [OF s(2)] by simp
qed

end
