(* ===== verification/TM_Vector.thy ===== *)
theory TM_Vector
  imports TM_Prelude
begin

text \<open>
  \<open>TMSafeVector\<close> of \<open>common/tm_vector.hpp\<close>: the growable array the transactional
  containers use in place of \<open>std::vector\<close>.  The buffer is a list of slots, \<open>Some\<close> a live object and
  \<open>None\<close> raw storage; sizes are 64-bit.  A call ends in a value or in an error: \<open>operator new\<close> threw,
  an object was used that is not alive, or the call never returns.  The theorems relate every operation to
  lists and show where the code leaves that contract.
\<close>

section \<open>Calls that can fail\<close>

datatype vec_err = Bad_alloc | Bad_access | No_return

definition bindE :: "'e + 'a \<Rightarrow> ('a \<Rightarrow> 'e + 'b) \<Rightarrow> 'e + 'b" where
  "bindE m f = (case m of Inl e \<Rightarrow> Inl e | Inr x \<Rightarrow> f x)"

text \<open>A \<open>for\<close> loop over the given indices.\<close>

fun foldE :: "('s \<Rightarrow> nat \<Rightarrow> 'e + 's) \<Rightarrow> nat list \<Rightarrow> 's \<Rightarrow> 'e + 's" where
  "foldE f [] s = Inr s"
| "foldE f (i # is) s = bindE (f s i) (foldE f is)"

lemma bindE_simps [simp]: "bindE (Inr x) f = f x" "bindE (Inl e) f = Inl e"
  by (simp_all add: bindE_def)

section \<open>Slots\<close>

definition slot_read :: "'a option list \<Rightarrow> nat \<Rightarrow> vec_err + 'a" where
  "slot_read d i = (if i < length d then (case d ! i of None \<Rightarrow> Inl Bad_access | Some x \<Rightarrow> Inr x) else Inl Bad_access)"

definition slot_put :: "'a option list \<Rightarrow> nat \<Rightarrow> 'a \<Rightarrow> vec_err + 'a option list" where
  "slot_put d i x = (if i < length d then Inr (d[i := Some x]) else Inl Bad_access)"

definition slot_destroy :: "'a option list \<Rightarrow> nat \<Rightarrow> vec_err + 'a option list" where
  "slot_destroy d i = bindE (slot_read d i) (\<lambda>_. Inr (d[i := None]))"

text \<open>Move-construct slot \<open>j\<close> from slot \<open>i\<close> and destroy slot \<open>i\<close>.\<close>

definition slot_move :: "'a option list \<Rightarrow> nat \<Rightarrow> nat \<Rightarrow> vec_err + 'a option list" where
  "slot_move d j i = bindE (slot_read d i) (\<lambda>x. bindE (slot_put d j x) (\<lambda>d'. slot_destroy d' i))"

section \<open>The vector\<close>

record 'a vec =
  v_data :: "'a option list"
  v_size :: u64
  v_cap :: u64

definition vec_empty :: "'a vec" where
  "vec_empty = \<lparr>v_data = [], v_size = 0, v_cap = 0\<rparr>"

text \<open>
  \<open>operator new(n * sizeof(T))\<close> with the product in 64 bits; \<open>ok\<close> tells for which byte counts the
  allocator delivers, \<open>esz\<close> is \<open>sizeof(T)\<close>.
\<close>

definition operator_new :: "(u64 \<Rightarrow> bool) \<Rightarrow> u64 \<Rightarrow> u64 \<Rightarrow> vec_err + 'a option list" where
  "operator_new ok esz n = (if ok (n * esz) then Inr (replicate (unat (n * esz) div unat esz) None) else Inl Bad_alloc)"

partial_function (option) double_until :: "u64 \<Rightarrow> u64 \<Rightarrow> u64 option" where
  "double_until nc min_cap = (if nc < min_cap then double_until (nc * 2) min_cap else Some nc)"

definition vec_grow :: "(u64 \<Rightarrow> bool) \<Rightarrow> u64 \<Rightarrow> 'a vec \<Rightarrow> u64 \<Rightarrow> vec_err + 'a vec" where
  "vec_grow ok esz v min_cap =
    (case double_until (if v_cap v \<noteq> 0 then v_cap v else 4) min_cap of
       None \<Rightarrow> Inl No_return
     | Some nc \<Rightarrow>
         bindE (operator_new ok esz nc) (\<lambda>nd0.
         bindE (foldE (\<lambda>(nd, d) i. bindE (slot_read d i) (\<lambda>x. bindE (slot_put nd i x) (\<lambda>nd'.
                   bindE (slot_destroy d i) (\<lambda>d'. Inr (nd', d')))))
                 [0..<unat (v_size v)] (nd0, v_data v)) (\<lambda>(nd, d).
         Inr (v\<lparr>v_data := nd, v_cap := nc\<rparr>))))"

definition vec_reserve :: "(u64 \<Rightarrow> bool) \<Rightarrow> u64 \<Rightarrow> 'a vec \<Rightarrow> u64 \<Rightarrow> vec_err + 'a vec" where
  "vec_reserve ok esz v n = (if n > v_cap v then vec_grow ok esz v n else Inr v)"

text \<open>
  An argument \<open>const T &\<close>: an object outside the vector, or the element with this index of the buffer the vector
  has when it is called.  A reference into a buffer that has been given back is not alive.
\<close>

datatype 'a vref = Ext 'a | Own nat

definition deref :: "'a vec \<Rightarrow> 'a vec \<Rightarrow> 'a vref \<Rightarrow> vec_err + 'a" where
  "deref v v' r = (case r of Ext x \<Rightarrow> Inr x | Own i \<Rightarrow> if v_cap v' = v_cap v then slot_read (v_data v') i else Inl Bad_access)"

definition vec_resize :: "(u64 \<Rightarrow> bool) \<Rightarrow> u64 \<Rightarrow> 'a vec \<Rightarrow> u64 \<Rightarrow> 'a vref \<Rightarrow> vec_err + 'a vec" where
  "vec_resize ok esz v n val =
    (if n < v_size v then
       bindE (foldE slot_destroy [unat n..<unat (v_size v)] (v_data v)) (\<lambda>d. Inr (v\<lparr>v_data := d, v_size := n\<rparr>))
     else if n > v_size v then
       bindE (vec_reserve ok esz v n) (\<lambda>v'.
       bindE (foldE (\<lambda>d i. bindE (deref v (v'\<lparr>v_data := d\<rparr>) val) (slot_put d i)) [unat (v_size v)..<unat n] (v_data v')) (\<lambda>d.
       Inr (v'\<lparr>v_data := d, v_size := n\<rparr>)))
     else Inr v)"

definition vec_clear :: "'a vec \<Rightarrow> vec_err + 'a vec" where
  "vec_clear v = bindE (foldE slot_destroy [0..<unat (v_size v)] (v_data v)) (\<lambda>d. Inr (v\<lparr>v_data := d, v_size := 0\<rparr>))"

definition vec_push_back :: "(u64 \<Rightarrow> bool) \<Rightarrow> u64 \<Rightarrow> 'a vec \<Rightarrow> 'a vref \<Rightarrow> vec_err + 'a vec" where
  "vec_push_back ok esz v r =
    bindE (if v_size v \<ge> v_cap v then vec_grow ok esz v (v_size v + 1) else Inr v) (\<lambda>v'.
    bindE (deref v v' r) (\<lambda>x. bindE (slot_put (v_data v') (unat (v_size v')) x) (\<lambda>d.
    Inr (v'\<lparr>v_data := d, v_size := v_size v' + 1\<rparr>))))"

definition vec_pop_back :: "'a vec \<Rightarrow> vec_err + 'a vec" where
  "vec_pop_back v =
    (if v_size v \<noteq> 0 then
       bindE (slot_destroy (v_data v) (unat (v_size v - 1))) (\<lambda>d. Inr (v\<lparr>v_data := d, v_size := v_size v - 1\<rparr>))
     else Inr v)"

text \<open>Iterators are offsets from \<open>m_data\<close>; \<open>erase\<close> also returns one.\<close>

definition vec_erase :: "'a vec \<Rightarrow> int \<Rightarrow> vec_err + 'a vec \<times> int" where
  "vec_erase v pos =
    (if pos < 0 \<or> pos \<ge> uint (v_size v) then Inr (v, uint (v_size v))
     else
       (let idx = nat pos in
        bindE (slot_destroy (v_data v) idx) (\<lambda>d.
        bindE (foldE (\<lambda>d i. slot_move d (i - 1) i) [idx + 1..<unat (v_size v)] d) (\<lambda>d'.
        Inr (v\<lparr>v_data := d', v_size := v_size v - 1\<rparr>, int idx)))))"

definition vec_erase_range :: "'a vec \<Rightarrow> int \<Rightarrow> int \<Rightarrow> vec_err + 'a vec \<times> int" where
  "vec_erase_range v first lst =
    (if first \<ge> lst \<or> first < 0 \<or> first > uint (v_size v) then Inr (v, uint (v_size v))
     else
       (let lst' = (if lst > uint (v_size v) then uint (v_size v) else lst); cnt = nat (lst' - first); idx = nat first in
        bindE (foldE slot_destroy [idx..<idx + cnt] (v_data v)) (\<lambda>d.
        bindE (foldE (\<lambda>d i. slot_move d (i - cnt) i) [idx + cnt..<unat (v_size v)] d) (\<lambda>d'.
        Inr (v\<lparr>v_data := d', v_size := v_size v - of_nat cnt\<rparr>, int idx)))))"

definition vec_at :: "'a vec \<Rightarrow> u64 \<Rightarrow> vec_err + 'a" where
  "vec_at v i = slot_read (v_data v) (unat i)"

definition vec_back :: "'a vec \<Rightarrow> vec_err + 'a" where
  "vec_back v = slot_read (v_data v) (unat (v_size v - 1))"

text \<open>The copy loop of the copy constructor, the copy assignment and the initializer list.\<close>

definition copy_from :: "(u64 \<Rightarrow> bool) \<Rightarrow> u64 \<Rightarrow> 'a vec \<Rightarrow> 'a option list \<Rightarrow> u64 \<Rightarrow> vec_err + 'a vec" where
  "copy_from ok esz v od n =
    bindE (vec_reserve ok esz v n) (\<lambda>v'.
    bindE (foldE (\<lambda>d i. bindE (slot_read od i) (slot_put d i)) [0..<unat n] (v_data v')) (\<lambda>d.
    Inr (v'\<lparr>v_data := d, v_size := n\<rparr>)))"

definition vec_copy :: "(u64 \<Rightarrow> bool) \<Rightarrow> u64 \<Rightarrow> 'a vec \<Rightarrow> vec_err + 'a vec" where
  "vec_copy ok esz u = copy_from ok esz vec_empty (v_data u) (v_size u)"

definition vec_copy_assign :: "(u64 \<Rightarrow> bool) \<Rightarrow> u64 \<Rightarrow> 'a vec \<Rightarrow> 'a vec \<Rightarrow> vec_err + 'a vec" where
  "vec_copy_assign ok esz v u = bindE (vec_clear v) (\<lambda>v'. copy_from ok esz v' (v_data u) (v_size u))"

definition vec_of_list :: "(u64 \<Rightarrow> bool) \<Rightarrow> u64 \<Rightarrow> 'a list \<Rightarrow> vec_err + 'a vec" where
  "vec_of_list ok esz xs = copy_from ok esz vec_empty (map Some xs) (of_nat (length xs))"

definition vec_of_size :: "(u64 \<Rightarrow> bool) \<Rightarrow> u64 \<Rightarrow> u64 \<Rightarrow> 'a \<Rightarrow> vec_err + 'a vec" where
  "vec_of_size ok esz n x = vec_resize ok esz vec_empty n (Ext x)"

text \<open>Moves return the new vector and what is left of the old one.\<close>

definition vec_move :: "'a vec \<Rightarrow> 'a vec \<times> 'a vec" where
  "vec_move u = (u, vec_empty)"

definition vec_move_assign :: "'a vec \<Rightarrow> 'a vec \<Rightarrow> vec_err + 'a vec \<times> 'a vec" where
  "vec_move_assign v u = bindE (vec_clear v) (\<lambda>_. Inr (u, vec_empty))"


section \<open>The doubling loop\<close>

lemma double_until_step [code]: "double_until nc m = (if nc < m then double_until (nc * 2) m else Some nc)"
  by (rule double_until.simps)

lemma unat_double: "unat (x :: u64) < 2 ^ 63 \<Longrightarrow> unat (x * 2) = 2 * unat x"
  by (simp add: unat_word_ariths)

lemma double_until_small:
  assumes "0 < unat nc" and "unat m \<le> 2 ^ 63"
  shows "\<exists>x. double_until nc m = Some x \<and> m \<le> x \<and> nc \<le> x \<and> (x = nc \<or> unat x < 2 * unat m)"
  using assms(1)
proof (induction "unat m - unat nc" arbitrary: nc rule: less_induct)
  case less
  show ?case
  proof (cases "nc < m")
    case True
    then have l: "unat nc < unat m" by (simp add: word_less_nat_alt)
    then have d: "unat (nc * 2) = 2 * unat nc" using assms(2) by (intro unat_double) simp
    then obtain x where x: "double_until (nc * 2) m = Some x" "m \<le> x" "nc * 2 \<le> x" "x = nc * 2 \<or> unat x < 2 * unat m"
      using less.hyps [of "nc * 2"] less.prems l diff_less_mono2 [of "unat nc" "unat (nc * 2)" "unat m"] by auto
    then have "nc \<le> x" "unat x < 2 * unat m" using d l by (auto simp: word_le_nat_alt)
    then show ?thesis using x True by (subst double_until_step) simp
  next
    case False
    then show ?thesis by (subst double_until_step) auto
  qed
qed

lemma double_until_power:
  "double_until nc m = Some x \<Longrightarrow> (\<exists>k. x = nc * 2 ^ k) \<and> m \<le> x"
proof (induction rule: double_until.raw_induct [rotated 1, consumes 1])
  case (1 f nc m x)
  show ?case
  proof (cases "nc < m")
    case True
    then have "(\<exists>k. x = nc * 2 * 2 ^ k) \<and> m \<le> x" using 1 by simp
    then obtain k where "x = nc * 2 ^ Suc k" "m \<le> x" by (auto simp: ac_simps)
    then show ?thesis by blast
  next
    case False
    then have "x = nc * 2 ^ 0 \<and> m \<le> x" using 1(2) by auto
    then show ?thesis by blast
  qed
qed

text \<open>Beyond \<open>2^63\<close> the capacity, a power of two, wraps to zero and the loop never ends.\<close>

lemma double_until_diverges:
  assumes "unat m > 2 ^ 63"
  shows "double_until (2 ^ j) m = None"
proof (rule ccontr)
  assume "double_until (2 ^ j) m \<noteq> None"
  then obtain x where "double_until (2 ^ j) m = Some x" by auto
  then obtain k where x: "x = 2 ^ (j + k)" "m \<le> x" using double_until_power by (metis power_add)
  have "unat (2 ^ (j + k) :: u64) \<le> 2 ^ 63"
  proof (cases "j + k < 64")
    case True
    then have "unat (2 ^ (j + k) :: u64) = 2 ^ (j + k)" using unat_of_nat_u64 [of "2 ^ (j + k)"] power_strict_increasing [of "j + k" 64 "2 :: nat"] by simp
    also have "\<dots> \<le> 2 ^ 63" using True by (intro power_increasing) auto
    finally show ?thesis .
  next
    case False
    then have "(2 ^ (j + k) :: u64) = 0" by (simp add: exp_eq_zero_iff not_less)
    then show ?thesis by (simp only: unsigned_0)
  qed
  then show False using x assms by (simp add: word_le_nat_alt)
qed

section \<open>Loops over the slots\<close>

lemma foldE_append: "foldE f (is @ js) s = bindE (foldE f is s) (foldE f js)"
  by (induction "is" arbitrary: s) (auto simp: bindE_def split: sum.splits)

lemma slot_simps:
  "slot_read (ys @ Some x # zs) (length ys) = Inr x"
  "slot_put (ys @ c # zs) (length ys) y = Inr (ys @ Some y # zs)"
  "slot_destroy (ys @ Some x # zs) (length ys) = Inr (ys @ None # zs)"
  by (simp_all add: slot_read_def slot_put_def slot_destroy_def)

lemma destroy_loop:
  "n = length ys \<Longrightarrow> foldE slot_destroy [n..<n + length zs] (ys @ map Some zs @ rs) = Inr (ys @ replicate (length zs) None @ rs)"
proof (induction zs arbitrary: ys n)
  case (Cons z zs)
  have "[n..<n + length (z # zs)] = n # [Suc n..<Suc n + length zs]" by (simp del: upt_Suc add: upt_conv_Cons)
  then show ?case
    using Cons.IH [of "Suc n" "ys @ [None]"] Cons.prems slot_simps(3) [of ys z "map Some zs @ rs"] by simp
qed simp

lemma put_loop:
  assumes "\<And>d i. f d i = slot_put d i (g i)"
  shows "n = length ys \<Longrightarrow> length cs = k \<Longrightarrow>
    foldE f [n..<n + k] (ys @ cs @ rs) = Inr (ys @ map (\<lambda>i. Some (g i)) [n..<n + k] @ rs)"
proof (induction k arbitrary: ys n cs)
  case (Suc k)
  then obtain c cs' where cs: "cs = c # cs'" "length cs' = k" by (cases cs) auto
  have "[n..<n + Suc k] = n # [Suc n..<Suc n + k]" by (simp del: upt_Suc add: upt_conv_Cons)
  then show ?case
    using Suc.IH [of "Suc n" "ys @ [Some (g n)]" cs'] Suc.prems cs slot_simps(2) [of ys c "cs' @ rs" "g n"] by (simp add: assms)
qed simp

lemma copy_loop:
  assumes "od = map Some ys @ rs" and "k = length xs" and "ys = xs @ zs" and "length cs = length zs"
  shows "foldE (\<lambda>d i. bindE (slot_read od i) (slot_put d i)) [k..<k + length zs] (map Some xs @ cs @ ss) = Inr (map Some ys @ ss)"
  using assms(2-4)
proof (induction zs arbitrary: xs k cs)
  case (Cons z zs)
  obtain c cs' where cs: "cs = c # cs'" using Cons.prems by (cases cs) auto
  have "[k..<k + length (z # zs)] = k # [Suc k..<Suc k + length zs]" by (simp del: upt_Suc add: upt_conv_Cons)
  moreover have "slot_read od k = Inr z" using slot_simps(1) [of "map Some xs" z "map Some zs @ rs"] Cons.prems assms(1) by simp
  ultimately show ?case
    using Cons.IH [of "Suc k" "xs @ [z]" cs'] Cons.prems cs slot_simps(2) [of "map Some xs" c "cs' @ ss" z] by simp
qed simp

lemma move_over_loop:
  assumes "n = length ys"
  shows "foldE (\<lambda>(nd, d) i. bindE (slot_read d i) (\<lambda>x. bindE (slot_put nd i x) (\<lambda>nd'. bindE (slot_destroy d i) (\<lambda>d'. Inr (nd', d')))))
     [n..<n + length zs] (map Some ys @ replicate (length zs + k) None, replicate n None @ map Some zs @ rs) =
    Inr (map Some (ys @ zs) @ replicate k None, replicate (n + length zs) None @ rs)"
  using assms
proof (induction zs arbitrary: ys n)
  case (Cons z zs)
  have "[n..<n + length (z # zs)] = n # [Suc n..<Suc n + length zs]" by (simp del: upt_Suc add: upt_conv_Cons)
  moreover have "replicate (Suc n) None @ cs = replicate n None @ None # cs" for cs :: "'a option list"
    by (induction n) auto
  ultimately show ?case
    using Cons.IH [of "Suc n" "ys @ [z]"] Cons.prems slot_simps(1,3) [of "replicate n None" z "map Some zs @ rs"]
      slot_simps(2) [of "map Some ys" None "replicate (length zs + k) None" z] by simp
qed simp

lemma shift_loop:
  assumes "n = length ys + cnt" and "0 < cnt"
  shows "foldE (\<lambda>d i. slot_move d (i - cnt) i) [n..<n + length zs] (map Some ys @ replicate cnt None @ map Some zs @ rs) =
    Inr (map Some (ys @ zs) @ replicate cnt None @ rs)"
  using assms(1)
proof (induction zs arbitrary: ys n)
  case (Cons z zs)
  obtain c where c: "cnt = Suc c" using assms(2) by (cases cnt) auto
  have u: "[n..<n + length (z # zs)] = n # [Suc n..<Suc n + length zs]" by (simp del: upt_Suc add: upt_conv_Cons)
  have r: "replicate c None @ None # cs = None # replicate c None @ cs" for cs :: "'a option list" by (induction c) auto
  let ?A = "map Some ys" and ?B = "map Some zs @ rs"
  have "slot_read (?A @ replicate cnt None @ Some z # ?B) n = Inr z"
    using slot_simps(1) [of "?A @ replicate cnt None" z ?B] Cons.prems by simp
  moreover have "slot_put (?A @ replicate cnt None @ Some z # ?B) (n - cnt) z = Inr (?A @ Some z # replicate c None @ Some z # ?B)"
    using slot_simps(2) [of ?A None "replicate c None @ Some z # ?B" z] Cons.prems by (simp add: c)
  moreover have "slot_destroy (?A @ Some z # replicate c None @ Some z # ?B) n = Inr (?A @ Some z # replicate cnt None @ ?B)"
    using slot_simps(3) [of "?A @ Some z # replicate c None" z ?B] Cons.prems by (simp add: c r)
  ultimately show ?case using u Cons.IH [of "Suc n" "ys @ [z]"] Cons.prems by (simp add: slot_move_def)
qed simp

section \<open>Vectors and lists\<close>

definition vec_rep :: "u64 \<Rightarrow> 'a vec \<Rightarrow> 'a list \<Rightarrow> bool" where
  "vec_rep esz v xs \<longleftrightarrow> unat (v_size v) = length xs \<and> length xs \<le> unat (v_cap v) \<and> unat (v_cap v) * unat esz < 2 ^ 64 \<and>
    v_data v = map Some xs @ replicate (unat (v_cap v) - length xs) None"

definition vec_out :: "u64 \<Rightarrow> vec_err + 'a vec \<Rightarrow> 'a list \<Rightarrow> bool" where
  "vec_out esz r xs \<longleftrightarrow> (case r of Inl e \<Rightarrow> e = Bad_alloc | Inr v \<Rightarrow> vec_rep esz v xs)"

text \<open>A request the byte count of whose buffer does not wrap.\<close>

definition fits :: "u64 \<Rightarrow> nat \<Rightarrow> bool" where
  "fits esz n \<longleftrightarrow> esz \<noteq> 0 \<and> (2 * n + 8) * unat esz < 2 ^ 64"

lemma fits_mult: "fits esz n \<Longrightarrow> k \<le> 2 * n + 8 \<Longrightarrow> k * unat esz < 2 ^ 64"
  unfolding fits_def using order.strict_trans1 [OF mult_le_mono1] by blast

lemma fits_le: "fits esz n \<Longrightarrow> m \<le> n \<Longrightarrow> fits esz m"
  using fits_mult [of esz n "2 * m + 8"] by (simp add: fits_def)

lemma fits_bound: "fits esz n \<Longrightarrow> n + 4 < 2 ^ 63"
proof -
  assume f: "fits esz n"
  then have "1 \<le> unat esz" by (simp add: fits_def Suc_le_eq unat_gt_0)
  then have "(2 * n + 8) * 1 \<le> (2 * n + 8) * unat esz" by (intro mult_le_mono) auto
  also have "\<dots> < 2 ^ 64" using f unfolding fits_def by blast
  finally show ?thesis by simp
qed

lemma vec_empty_rep: "vec_rep esz vec_empty []"
  by (simp add: vec_rep_def vec_empty_def)

lemma operator_new_cases:
  assumes "esz \<noteq> 0" and "unat n * unat esz < 2 ^ 64"
  shows "(operator_new ok esz n :: vec_err + 'a option list) = Inl Bad_alloc \<and> (\<exists>n. \<not> ok n) \<or> (operator_new ok esz n :: vec_err + 'a option list) = Inr (replicate (unat n) None)"
proof -
  have "unat (n * esz) = unat n * unat esz" using assms(2) by (simp add: unat_word_ariths)
  then show ?thesis using assms(1) by (auto simp: operator_new_def unat_gt_0)
qed

lemma grown_cap:
  assumes f: "fits esz (unat m)" and c: "unat c0 * unat esz < 2 ^ 64"
  shows "\<exists>nc. double_until (if c0 \<noteq> 0 then c0 else 4) m = Some nc \<and> m \<le> nc \<and> (if c0 \<noteq> 0 then c0 else 4) \<le> nc \<and> unat nc * unat esz < 2 ^ 64"
proof -
  let ?c = "if c0 \<noteq> 0 then c0 else 4"
  have m: "unat m \<le> 2 ^ 63" using fits_bound [OF f] by simp
  have "0 < unat ?c" by (simp add: unat_gt_0)
  then obtain nc where nc: "double_until ?c m = Some nc" "m \<le> nc" "?c \<le> nc" "nc = ?c \<or> unat nc < 2 * unat m"
    using double_until_small [OF _ m, of ?c] by blast
  have "unat nc * unat esz < 2 ^ 64"
    using nc(4)
  proof
    assume "nc = ?c"
    then show ?thesis using c fits_mult [OF f, of 4] by (auto split: if_splits)
  next
    assume "unat nc < 2 * unat m"
    then show ?thesis using fits_mult [OF f, of "unat nc"] by simp
  qed
  then show ?thesis using nc by blast
qed

lemma vec_grow_out:
  fixes v :: "'a vec"
  assumes R: "vec_rep esz v xs" and f: "fits esz (unat m)"
  shows "vec_grow ok esz v m = Inl Bad_alloc \<and> (\<exists>n. \<not> ok n) \<or>
    (\<exists>v'. vec_grow ok esz v m = Inr v' \<and> vec_rep esz v' xs \<and> m \<le> v_cap v' \<and> v_size v' = v_size v)"
proof -
  let ?c = "if v_cap v \<noteq> 0 then v_cap v else 4"
  have esz: "esz \<noteq> 0" using f by (simp add: fits_def)
  obtain nc where nc: "double_until ?c m = Some nc" "m \<le> nc" "?c \<le> nc" and b: "unat nc * unat esz < 2 ^ 64"
    using grown_cap [OF f, of "v_cap v"] R by (auto simp: vec_rep_def)
  have le: "length xs \<le> unat nc"
    using R nc(3) by (auto simp: vec_rep_def word_le_nat_alt split: if_splits)
  show ?thesis
  proof (cases "(operator_new ok esz nc :: vec_err + 'a option list) = Inl Bad_alloc")
    case False
    then have n: "operator_new ok esz nc = Inr (replicate (length xs + (unat nc - length xs)) (None :: 'a option))"
      using operator_new_cases [OF esz b, of ok, where 'a = 'a] le by simp
    have "vec_rep esz (v\<lparr>v_data := map Some xs @ replicate (unat nc - length xs) None, v_cap := nc\<rparr>) xs"
      using R le b by (simp add: vec_rep_def)
    then show ?thesis
      using n nc(1,2) R move_over_loop [of 0 "[]" xs "unat nc - length xs" "replicate (unat (v_cap v) - length xs) None"]
      by (simp add: vec_grow_def vec_rep_def)
  qed (use nc(1) operator_new_cases [OF esz b, of ok, where 'a = 'a] in \<open>auto simp: vec_grow_def\<close>)
qed


lemma vec_reserve_out:
  assumes "vec_rep esz v xs" and "fits esz (unat m)"
  shows "vec_reserve ok esz v m = Inl Bad_alloc \<or>
    (\<exists>v'. vec_reserve ok esz v m = Inr v' \<and> vec_rep esz v' xs \<and> m \<le> v_cap v' \<and> v_size v' = v_size v)"
  using vec_grow_out [OF assms, of ok] assms(1) by (auto simp: vec_reserve_def)

lemma vec_rep_drop:
  assumes "vec_rep esz v xs" and "n \<le> length xs"
  shows "vec_rep esz (v\<lparr>v_data := map Some (take n xs) @ replicate (length xs - n) None @ replicate (unat (v_cap v) - length xs) None,
    v_size := of_nat n\<rparr>) (take n xs)"
proof -
  have "n < 2 ^ 64" using assms unat_u64_less [of "v_cap v"] by (simp add: vec_rep_def)
  then show ?thesis using assms by (simp add: vec_rep_def unat_of_nat_u64 replicate_add [symmetric])
qed

lemma vec_data_split:
  "vec_rep esz v xs \<Longrightarrow> n \<le> length xs \<Longrightarrow>
   v_data v = map Some (take n xs) @ map Some (drop n xs) @ replicate (unat (v_cap v) - length xs) None"
  unfolding vec_rep_def by (metis append.assoc append_take_drop_id map_append)

lemma vec_shrink_out:
  assumes "vec_rep esz v xs" and "n \<le> length xs"
  shows "\<exists>d. foldE slot_destroy [n..<unat (v_size v)] (v_data v) = Inr d \<and> vec_rep esz (v\<lparr>v_data := d, v_size := of_nat n\<rparr>) (take n xs)"
  using destroy_loop [of n "map Some (take n xs)" "drop n xs" "replicate (unat (v_cap v) - length xs) None"]
    vec_data_split [OF assms] vec_rep_drop [OF assms] assms by (simp add: vec_rep_def min_def)

lemma vec_clear_ok: "vec_rep esz v xs \<Longrightarrow> \<exists>v'. vec_clear v = Inr v' \<and> vec_rep esz v' []"
  using vec_shrink_out [of esz v xs 0] by (auto simp: vec_clear_def)

lemma vec_rep_extend:
  assumes "vec_rep esz v xs" and "length xs + length ys \<le> unat (v_cap v)"
  shows "vec_rep esz (v\<lparr>v_data := map Some (xs @ ys) @ replicate (unat (v_cap v) - length xs - length ys) None,
    v_size := of_nat (length xs + length ys)\<rparr>) (xs @ ys)"
proof -
  have "length xs + length ys < 2 ^ 64" using assms(2) unat_u64_less [of "v_cap v"] by simp
  then have "unat (of_nat (length xs + length ys) :: u64) = length xs + length ys" by (rule unat_of_nat_u64)
  then show ?thesis using assms by (simp add: vec_rep_def del: of_nat_add)
qed

lemma vec_resize_out:
  assumes R: "vec_rep esz v xs" and f: "fits esz (unat n)"
  shows "vec_out esz (vec_resize ok esz v n (Ext x)) (if unat n \<le> length xs then take (unat n) xs else xs @ replicate (unat n - length xs) x)"
proof -
  have s: "unat (v_size v) = length xs" using R by (simp add: vec_rep_def)
  consider "n < v_size v" | "v_size v < n" | "n = v_size v" by (meson linorder_neqE)
  then show ?thesis
  proof cases
    case 1
    then have l: "unat n \<le> length xs" using s by (simp add: word_less_nat_alt)
    from vec_shrink_out [OF R l] show ?thesis using 1 l by (auto simp: vec_resize_def vec_out_def)
  next
    case 2
    then have l: "length xs < unat n" using s by (simp add: word_less_nat_alt)
    show ?thesis
    proof (cases "vec_reserve ok esz v n = Inl Bad_alloc")
      case False
      then obtain v' where v': "vec_reserve ok esz v n = Inr v'" "vec_rep esz v' xs" "n \<le> v_cap v'" "v_size v' = v_size v"
        using vec_reserve_out [OF R f, of ok] by blast
      have c: "unat n \<le> unat (v_cap v')" using v'(3) by (simp add: word_le_nat_alt)
      let ?k = "unat n - length xs"
      have d: "v_data v' = map Some xs @ replicate ?k None @ replicate (unat (v_cap v') - unat n) None"
        using v'(2) c l by (simp add: vec_rep_def replicate_add [symmetric])
      have "foldE (\<lambda>d i. bindE (deref v (v'\<lparr>v_data := d\<rparr>) (Ext x)) (slot_put d i)) [length xs..<length xs + ?k] (v_data v')
          = Inr (map Some xs @ map (\<lambda>i. Some x) [length xs..<length xs + ?k] @ replicate (unat (v_cap v') - unat n) None)"
        unfolding d by (rule put_loop) (simp_all add: deref_def)
      then have "foldE (\<lambda>d i. bindE (deref v (v'\<lparr>v_data := d\<rparr>) (Ext x)) (slot_put d i)) [unat (v_size v)..<unat n] (v_data v')
          = Inr (map Some (xs @ replicate ?k x) @ replicate (unat (v_cap v') - unat n) None)"
        using s l by (simp add: map_replicate_const)
      moreover have "vec_rep esz (v'\<lparr>v_data := map Some (xs @ replicate ?k x) @ replicate (unat (v_cap v') - unat n) None, v_size := n\<rparr>)
          (xs @ replicate ?k x)"
        using vec_rep_extend [OF v'(2), of "replicate ?k x"] c l by simp
      ultimately show ?thesis using 2 less_not_sym [OF 2] v'(1) l by (simp add: vec_resize_def vec_out_def)
    qed (use 2 less_not_sym [OF 2] in \<open>simp add: vec_resize_def vec_out_def\<close>)
  next
    case 3
    then show ?thesis using R s by (simp add: vec_resize_def vec_out_def)
  qed
qed

lemma vec_push_out:
  assumes R: "vec_rep esz v xs" and f: "fits esz (Suc (length xs))"
  shows "vec_out esz (vec_push_back ok esz v (Ext x)) (xs @ [x])"
proof -
  have s: "unat (v_size v) = length xs" using R by (simp add: vec_rep_def)
  have b: "length xs + 5 < 2 ^ 63" using fits_bound [OF f] by simp
  have s1: "unat (v_size v + 1) = Suc (length xs)" using s b by (simp add: unat_word_ariths)
  have n1: "v_size v + 1 = of_nat (length xs + 1)" using s by (metis of_nat_add of_nat_1 of_nat_unat ucast_id)
  let ?g = "if v_size v \<ge> v_cap v then vec_grow ok esz v (v_size v + 1) else Inr v"
  show ?thesis
  proof (cases "?g = Inl Bad_alloc")
    case False
    then obtain v' where v': "?g = Inr v'" "vec_rep esz v' xs" "Suc (length xs) \<le> unat (v_cap v')" "v_size v' = v_size v"
    proof (cases "v_size v \<ge> v_cap v")
      case True
      then show ?thesis using that False vec_grow_out [OF R, of "v_size v + 1" ok] f s1 by (auto simp: word_le_nat_alt)
    next
      case False
      then show ?thesis using that [of v] R s by (auto simp: word_le_nat_alt)
    qed
    have d: "v_data v' = map Some xs @ None # replicate (unat (v_cap v') - length xs - 1) None"
      using v'(2,3) by (cases "unat (v_cap v') - length xs") (simp_all add: vec_rep_def)
    have p: "slot_put (v_data v') (unat (v_size v')) x = Inr (map Some (xs @ [x]) @ replicate (unat (v_cap v') - length xs - 1) None)"
      using slot_simps(2) [of "map Some xs" None "replicate (unat (v_cap v') - length xs - 1) None" x] d s v'(4) by simp
    have "vec_rep esz (v'\<lparr>v_data := map Some (xs @ [x]) @ replicate (unat (v_cap v') - length xs - 1) None, v_size := v_size v' + 1\<rparr>) (xs @ [x])"
      using vec_rep_extend [OF v'(2), of "[x]"] v'(3,4) n1 by (simp add: add.commute)
    then show ?thesis using v'(1) p unfolding vec_push_back_def by (simp add: deref_def vec_out_def)
  qed (simp add: vec_push_back_def vec_out_def)
qed


lemma vec_rep_gap:
  assumes R: "vec_rep esz v xs" and l: "length zs + cnt = length xs"
  shows "vec_rep esz (v\<lparr>v_data := map Some zs @ replicate cnt None @ replicate (unat (v_cap v) - length xs) None,
    v_size := v_size v - of_nat cnt\<rparr>) zs"
proof -
  have s: "unat (v_size v) = length xs" using R by (simp add: vec_rep_def)
  have "cnt < 2 ^ 64" using s l unat_u64_less [of "v_size v"] by simp
  then have c: "unat (of_nat cnt :: u64) = cnt" by (rule unat_of_nat_u64)
  then have "unat (v_size v - of_nat cnt) = length zs" using s l by (subst unat_sub) (simp_all add: word_le_nat_alt)
  then show ?thesis using R l by (simp add: vec_rep_def replicate_add [symmetric])
qed

lemma vec_pop_ok: "vec_rep esz v xs \<Longrightarrow> \<exists>v'. vec_pop_back v = Inr v' \<and> vec_rep esz v' (butlast xs)"
proof (cases xs rule: rev_cases)
  case Nil
  then show "vec_rep esz v xs \<Longrightarrow> ?thesis" by (auto simp: vec_pop_back_def vec_rep_def unat_eq_0)
next
  case (snoc ys y)
  assume R: "vec_rep esz v xs"
  let ?R = "replicate (unat (v_cap v) - length xs) (None :: 'a option)"
  have s: "unat (v_size v) = Suc (length ys)" using R snoc by (simp add: vec_rep_def)
  then have nz: "v_size v \<noteq> 0" by auto
  have "unat (v_size v - 1) = length ys" using unat_minus_one [OF nz] s by simp
  moreover have "v_data v = map Some ys @ Some y # ?R" using R snoc by (simp add: vec_rep_def)
  ultimately have "slot_destroy (v_data v) (unat (v_size v - 1)) = Inr (map Some ys @ None # ?R)"
    using slot_simps(3) [of "map Some ys" y ?R] by simp
  then show ?thesis using vec_rep_gap [OF R, of ys 1] snoc nz by (simp add: vec_pop_back_def)
qed

text \<open>What the two \<open>erase\<close> overloads mean on lists.\<close>

definition list_erase :: "'a list \<Rightarrow> int \<Rightarrow> 'a list" where
  "list_erase xs pos = (if pos < 0 \<or> pos \<ge> int (length xs) then xs else take (nat pos) xs @ drop (Suc (nat pos)) xs)"

definition list_erase_range :: "'a list \<Rightarrow> int \<Rightarrow> int \<Rightarrow> 'a list" where
  "list_erase_range xs i j = (if i \<ge> j \<or> i < 0 \<or> i > int (length xs) then xs else take (nat i) xs @ drop (nat j) xs)"

lemma vec_erase_ok:
  assumes R: "vec_rep esz v xs"
  shows "\<exists>v' i. vec_erase v pos = Inr (v', i) \<and> vec_rep esz v' (list_erase xs pos)"
proof (cases "pos < 0 \<or> pos \<ge> int (length xs)")
  case True
  then show ?thesis using R by (auto simp: vec_erase_def list_erase_def vec_rep_def uint_nat)
next
  case False
  let ?i = "nat pos" and ?R = "replicate (unat (v_cap v) - length xs) (None :: 'a option)"
  let ?ys = "take (nat pos) xs" and ?zs = "drop (Suc (nat pos)) xs"
  have i: "?i < length xs" "pos < uint (v_size v)" using False R by (auto simp: vec_rep_def uint_nat)
  have s: "unat (v_size v) = length xs" using R by (simp add: vec_rep_def)
  have "v_data v = map Some ?ys @ Some (xs ! ?i) # map Some ?zs @ ?R"
    using vec_data_split [OF R less_imp_le [OF i(1)]] i by (simp add: Cons_nth_drop_Suc [symmetric])
  then have 1: "slot_destroy (v_data v) ?i = Inr (map Some ?ys @ None # map Some ?zs @ ?R)"
    using slot_simps(3) [of "map Some ?ys" "xs ! ?i" "map Some ?zs @ ?R"] i by simp
  have 2: "foldE (\<lambda>d i. slot_move d (i - 1) i) [?i + 1..<unat (v_size v)] (map Some ?ys @ None # map Some ?zs @ ?R) =
      Inr (map Some (?ys @ ?zs) @ replicate 1 None @ ?R)"
  proof -
    have e: "?i + 1 + length ?zs = unat (v_size v)" using i s by simp
    show ?thesis using shift_loop [of "?i + 1" ?ys 1 ?zs ?R] i unfolding e by simp
  qed
  have 3: "vec_rep esz (v\<lparr>v_data := map Some (?ys @ ?zs) @ replicate 1 None @ ?R, v_size := v_size v - 1\<rparr>) (?ys @ ?zs)"
    using vec_rep_gap [OF R, of "?ys @ ?zs" 1] i by simp
  show ?thesis using False i 1 2 3 by (simp add: vec_erase_def list_erase_def Let_def)
qed

lemma vec_erase_range_ok:
  assumes R: "vec_rep esz v xs"
  shows "\<exists>v' i. vec_erase_range v a b = Inr (v', i) \<and> vec_rep esz v' (list_erase_range xs a b)"
proof (cases "a \<ge> b \<or> a < 0 \<or> a > int (length xs)")
  case True
  then show ?thesis using R by (auto simp: vec_erase_range_def list_erase_range_def vec_rep_def uint_nat)
next
  case False
  have s: "unat (v_size v) = length xs" using R by (simp add: vec_rep_def)
  then have u: "uint (v_size v) = int (length xs)" by (simp add: uint_nat)
  let ?b = "if b > int (length xs) then int (length xs) else b"
  let ?i = "nat a" and ?c = "nat (?b - a)" and ?R = "replicate (unat (v_cap v) - length xs) (None :: 'a option)"
  let ?ys = "take (nat a) xs" and ?ms = "take ?c (drop (nat a) xs)" and ?zs = "drop (nat ?b) xs"
  have i: "?i \<le> length xs" "?i + ?c = nat ?b" "nat ?b \<le> length xs" using False by auto
  have ms: "?ms @ ?zs = drop ?i xs" using i append_take_drop_id [of ?c "drop ?i xs"] by (simp add: add.commute)
  have "v_data v = map Some ?ys @ map Some (?ms @ ?zs) @ ?R" unfolding ms by (rule vec_data_split [OF R i(1)])
  then have d: "v_data v = map Some ?ys @ map Some ?ms @ map Some ?zs @ ?R" by (simp only: map_append append.assoc)
  have lm: "length ?ms = ?c" "length ?ys = ?i" using i by auto
  have 1: "foldE slot_destroy [?i..<?i + ?c] (v_data v) = Inr (map Some ?ys @ replicate ?c None @ map Some ?zs @ ?R)"
    using destroy_loop [of ?i "map Some ?ys" ?ms "map Some ?zs @ ?R"] lm d by simp
  have 2: "foldE (\<lambda>d i. slot_move d (i - ?c) i) [?i + ?c..<unat (v_size v)] (map Some ?ys @ replicate ?c None @ map Some ?zs @ ?R) =
      Inr (map Some (?ys @ ?zs) @ replicate ?c None @ ?R)"
  proof (cases "?c = 0")
    case True
    then have "?zs = []" using False i by (auto split: if_splits)
    then show ?thesis using True i s by (auto split: if_splits)
  next
    case c: False
    show ?thesis using shift_loop [of "?i + ?c" ?ys ?c ?zs ?R] c i lm s by simp
  qed
  have 3: "vec_rep esz (v\<lparr>v_data := map Some (?ys @ ?zs) @ replicate ?c None @ ?R, v_size := v_size v - of_nat ?c\<rparr>) (?ys @ ?zs)"
    using vec_rep_gap [OF R, of "?ys @ ?zs" ?c] i by simp
  have 4: "drop (nat ?b) xs = drop (nat b) xs" using False by auto
  have n: "\<not> (a \<ge> b \<or> a < 0 \<or> a > uint (v_size v))" using False u by simp
  show ?thesis
    unfolding vec_erase_range_def Let_def list_erase_range_def u using n False 1 2 3 unfolding u 4 [symmetric] by auto
qed


lemma copy_from_out:
  assumes R: "vec_rep esz v []" and f: "fits esz (length ys)" and n: "unat n = length ys" and d: "od = map Some ys @ rs"
  shows "vec_out esz (copy_from ok esz v od n) ys"
proof (cases "vec_reserve ok esz v n = Inl Bad_alloc")
  case False
  then obtain v' where v': "vec_reserve ok esz v n = Inr v'" "vec_rep esz v' []" "n \<le> v_cap v'"
    using vec_reserve_out [OF R, of n ok] f n by auto
  have c: "length ys \<le> unat (v_cap v')" using v'(3) n by (simp add: word_le_nat_alt)
  have dv: "v_data v' = replicate (length ys) None @ replicate (unat (v_cap v') - length ys) None"
    using v'(2) c by (simp add: vec_rep_def replicate_add [symmetric])
  have "vec_rep esz (v'\<lparr>v_data := map Some ys @ replicate (unat (v_cap v') - length ys) None, v_size := n\<rparr>) ys"
    using v'(2) c n by (simp add: vec_rep_def)
  then show ?thesis
    using v'(1) copy_loop [OF d, of 0 "[]" ys "replicate (length ys) None"] dv n by (simp add: copy_from_def vec_out_def)
qed (simp add: copy_from_def vec_out_def)

section \<open>Sequences of calls\<close>

datatype 'a vec_call = VPush 'a | VPop | VErase int | VEraseRange int int | VResize u64 'a | VReserve u64 | VClear

definition vec_step :: "(u64 \<Rightarrow> bool) \<Rightarrow> u64 \<Rightarrow> 'a vec \<Rightarrow> 'a vec_call \<Rightarrow> vec_err + 'a vec" where
  "vec_step ok esz v c =
    (case c of VPush x \<Rightarrow> vec_push_back ok esz v (Ext x) | VPop \<Rightarrow> vec_pop_back v
     | VErase p \<Rightarrow> bindE (vec_erase v p) (\<lambda>(v', _). Inr v') | VEraseRange p q \<Rightarrow> bindE (vec_erase_range v p q) (\<lambda>(v', _). Inr v')
     | VResize n x \<Rightarrow> vec_resize ok esz v n (Ext x) | VReserve n \<Rightarrow> vec_reserve ok esz v n | VClear \<Rightarrow> vec_clear v)"

fun vec_run :: "(u64 \<Rightarrow> bool) \<Rightarrow> u64 \<Rightarrow> 'a vec \<Rightarrow> 'a vec_call list \<Rightarrow> vec_err + 'a vec" where
  "vec_run ok esz v [] = Inr v"
| "vec_run ok esz v (c # cs) = bindE (vec_step ok esz v c) (\<lambda>v'. vec_run ok esz v' cs)"

fun list_call :: "'a list \<Rightarrow> 'a vec_call \<Rightarrow> 'a list" where
  "list_call xs (VPush x) = xs @ [x]"
| "list_call xs VPop = butlast xs"
| "list_call xs (VErase p) = list_erase xs p"
| "list_call xs (VEraseRange p q) = list_erase_range xs p q"
| "list_call xs (VResize n x) = (if unat n \<le> length xs then take (unat n) xs else xs @ replicate (unat n - length xs) x)"
| "list_call xs (VReserve n) = xs"
| "list_call xs VClear = []"

fun calls_fit :: "u64 \<Rightarrow> 'a list \<Rightarrow> 'a vec_call list \<Rightarrow> bool" where
  "calls_fit esz xs [] \<longleftrightarrow> True"
| "calls_fit esz xs (c # cs) \<longleftrightarrow>
     fits esz (case c of VPush x \<Rightarrow> Suc (length xs) | VResize n x \<Rightarrow> unat n | VReserve n \<Rightarrow> unat n | _ \<Rightarrow> 0) \<and>
     calls_fit esz (list_call xs c) cs"

lemma vec_step_out:
  assumes "vec_rep esz v xs" and "calls_fit esz xs [c]"
  shows "vec_out esz (vec_step ok esz v c) (list_call xs c)"
proof (cases c)
  case (VErase p)
  then show ?thesis using vec_erase_ok [OF assms(1), of p] by (auto simp: vec_step_def vec_out_def)
next
  case (VEraseRange p q)
  then show ?thesis using vec_erase_range_ok [OF assms(1), of p q] by (auto simp: vec_step_def vec_out_def)
next
  case (VReserve n)
  then show ?thesis using vec_reserve_out [OF assms(1), of n ok] assms(2) by (auto simp: vec_step_def vec_out_def)
qed (use assms vec_push_out [OF assms(1)] vec_resize_out [OF assms(1)] vec_pop_ok [OF assms(1)] vec_clear_ok [OF assms(1)]
    in \<open>auto simp: vec_step_def vec_out_def\<close>)

lemma vec_run_out:
  "vec_rep esz v xs \<Longrightarrow> calls_fit esz xs cs \<Longrightarrow> vec_out esz (vec_run ok esz v cs) (foldl list_call xs cs)"
proof (induction cs arbitrary: v xs)
  case (Cons c cs)
  have "vec_out esz (vec_step ok esz v c) (list_call xs c)" using Cons.prems by (intro vec_step_out) simp_all
  then show ?case using Cons.IH [of _ "list_call xs c"] Cons.prems
    by (cases "vec_step ok esz v c") (simp_all add: vec_out_def)
qed (simp add: vec_out_def)

text \<open>
  C29. A vector is a list: after any sequence of \<open>push_back\<close>, \<open>pop_back\<close>, \<open>erase\<close> of an element or a range,
  \<open>resize\<close>, \<open>reserve\<close> and \<open>clear\<close> calls whose buffers do not exceed the address space, either
  \<open>operator new\<close> has thrown or the vector holds exactly the elements of the same operations on lists: its first
  \<open>m_size\<close> slots are live, the others up to \<open>m_cap\<close> raw, and no dead object has been touched.
\<close>

theorem vec_refines_list:
  assumes "calls_fit esz [] cs"
  shows "case vec_run ok esz vec_empty cs of
      Inl e \<Rightarrow> e = Bad_alloc
    | Inr v \<Rightarrow> vec_rep esz v (foldl list_call [] cs)"
  using vec_run_out [OF vec_empty_rep assms, of ok] by (simp add: vec_out_def)

theorem vec_refines_list_witness:
  "case vec_run (\<lambda>_. True) 8 vec_empty [VPush (1 :: nat), VPush 2, VPush 3, VErase 1, VPush 4, VEraseRange 1 9] of
      Inl e \<Rightarrow> e = Bad_alloc
    | Inr v \<Rightarrow> vec_rep 8 v [1]"
proof -
  let ?cs = "[VPush (1 :: nat), VPush 2, VPush 3, VErase 1, VPush 4, VEraseRange 1 9]"
  have e: "foldl list_call [] ?cs = [1]" by (simp add: list_erase_def list_erase_range_def)
  have f: "calls_fit 8 [] ?cs" by (simp add: fits_def list_erase_def)
  show ?thesis using vec_refines_list [OF f, of "\<lambda>_. True"] by (simp only: e)
qed

text \<open>
  Copying a vector, by construction or by assignment over any other vector, gives a vector with the same
  elements, or \<open>operator new\<close> throws.
\<close>

theorem vec_copy_same:
  assumes "vec_rep esz u ys" and "vec_rep esz v xs" and "fits esz (length ys)"
  shows "vec_out esz (vec_copy ok esz u) ys \<and> vec_out esz (vec_copy_assign ok esz v u) ys"
proof -
  have u: "unat (v_size u) = length ys" "\<exists>rs. v_data u = map Some ys @ rs" using assms(1) by (auto simp: vec_rep_def)
  obtain v' where v': "vec_clear v = Inr v'" "vec_rep esz v' []" using vec_clear_ok [OF assms(2)] by blast
  show ?thesis
    using copy_from_out [OF vec_empty_rep assms(3) u(1)] copy_from_out [OF v'(2) assms(3) u(1)] u(2) v'(1)
    by (auto simp: vec_copy_def vec_copy_assign_def)
qed

theorem vec_copy_same_witness:
  "vec_out 8 (vec_copy (\<lambda>_. True) 8 \<lparr>v_data = [Some (7 :: nat), None], v_size = 1, v_cap = 2\<rparr>) [7]"
proof -
  have "vec_rep 8 \<lparr>v_data = [Some (7 :: nat), None], v_size = 1, v_cap = 2\<rparr> [7]" by (simp add: vec_rep_def)
  from vec_copy_same [OF this vec_empty_rep, of "\<lambda>_. True"] show ?thesis by (simp add: fits_def)
qed

text \<open>
  C30. Appending an element of the vector itself to a full vector, \<open>v.push_back(v[i])\<close>, reads freed memory: the
  buffer the reference points into is given back before the element is copied.
\<close>

theorem vec_push_own_element:
  assumes "vec_rep esz v xs" and "v_cap v = v_size v" and "fits esz (Suc (length xs))" and "\<forall>n. ok n"
  shows "vec_push_back ok esz v (Own i) = Inl Bad_access"
proof -
  have b: "length xs + 5 < 2 ^ 63" using fits_bound [OF assms(3)] by simp
  then have s1: "unat (v_size v + 1) = Suc (length xs)" using assms(1) by (simp add: vec_rep_def unat_word_ariths)
  obtain v' where v': "vec_grow ok esz v (v_size v + 1) = Inr v'" "v_size v + 1 \<le> v_cap v'"
    using vec_grow_out [OF assms(1), of "v_size v + 1" ok] assms(3,4) s1 by auto
  have "v_cap v' \<noteq> v_cap v" using v'(2) s1 assms(1,2) by (auto simp: word_le_nat_alt vec_rep_def)
  then show ?thesis using v'(1) assms(2) by (simp add: vec_push_back_def deref_def)
qed

theorem vec_push_own_element_witness:
  "vec_push_back (\<lambda>_. True) 8 \<lparr>v_data = map Some [1, 2, 3, 4 :: nat], v_size = 4, v_cap = 4\<rparr> (Own 0) = Inl Bad_access"
  by (rule vec_push_own_element [where xs = "[1, 2, 3, 4]"]) (simp_all add: vec_rep_def fits_def)

text \<open>
  Requests beyond the address space are not refused: \<open>reserve\<close> of more than \<open>2^63\<close> elements never
  returns, and \<open>reserve(2^61)\<close> of 8-byte elements asks \<open>operator new\<close> for zero bytes, succeeds, and the next
  \<open>push_back\<close> writes outside the buffer.
\<close>

theorem vec_huge_reserve:
  "(unat n > 2 ^ 63 \<longrightarrow> vec_reserve ok esz (vec_empty :: 'a vec) n = Inl No_return) \<and>
   bindE (vec_reserve (\<lambda>_. True) 8 (vec_empty :: 'a vec) (2 ^ 61)) (\<lambda>v. vec_push_back (\<lambda>_. True) 8 v (Ext x)) = Inl Bad_access"
proof
  show "unat n > 2 ^ 63 \<longrightarrow> vec_reserve ok esz (vec_empty :: 'a vec) n = Inl No_return"
  proof
    assume n: "unat n > 2 ^ 63"
    have "double_until 4 n = None" using double_until_diverges [OF n, of 2] by simp
    moreover have "0 < n" using n by (auto simp: word_less_nat_alt)
    ultimately show "vec_reserve ok esz (vec_empty :: 'a vec) n = Inl No_return" by (simp add: vec_reserve_def vec_grow_def vec_empty_def)
  qed
  have "double_until 4 (2 ^ 61) = Some (2 ^ 61)" by code_simp
  then show "bindE (vec_reserve (\<lambda>_. True) 8 (vec_empty :: 'a vec) (2 ^ 61)) (\<lambda>v. vec_push_back (\<lambda>_. True) 8 v (Ext x)) = Inl Bad_access"
    by (simp add: vec_reserve_def vec_grow_def vec_empty_def operator_new_def vec_push_back_def deref_def slot_put_def)
qed

theorem vec_huge_reserve_witness:
  "vec_reserve (\<lambda>_. True) 8 (vec_empty :: nat vec) (- 1) = Inl No_return"
  using vec_huge_reserve [of "- 1" "\<lambda>_. True" 8 "0 :: nat"] by (simp add: unat_minus_one_u64)

end
