(* ===== verification/TM_MultiMap.thy ===== *)
theory TM_MultiMap
  imports TM_Vector "HOL-Library.Multiset"
begin

text \<open>
  \<open>TMSafeMultiMap\<close> of \<open>common/tm_safe_map.hpp\<close>: the multimap as an array sorted by key, with
  binary search and insertion behind the last equal key.  Buffers, capacities and failures are those of the vector.
  The theorems: any sequence of insertions leaves the stable sort of the inserted pairs, and \<open>lower_bound\<close>
  returns the first position whose key is not smaller.
\<close>

section \<open>Operations\<close>

record ('k, 'v) mmap =
  mm_data :: "('k \<times> 'v) option list"
  mm_size :: u64
  mm_cap :: u64

definition mm_empty :: "('k, 'v) mmap" where
  "mm_empty = \<lparr>mm_data = [], mm_size = 0, mm_cap = 0\<rparr>"

definition mm_grow :: "(u64 \<Rightarrow> bool) \<Rightarrow> u64 \<Rightarrow> ('k, 'v) mmap \<Rightarrow> u64 \<Rightarrow> vec_err + ('k, 'v) mmap" where
  "mm_grow ok esz m min_cap =
    (case double_until (if mm_cap m \<noteq> 0 then mm_cap m else 4) min_cap of
       None \<Rightarrow> Inl No_return
     | Some nc \<Rightarrow>
         bindE (operator_new ok esz nc) (\<lambda>nd0.
         bindE (foldE (\<lambda>nd i. bindE (slot_read (mm_data m) i) (slot_put nd i)) [0..<unat (mm_size m)] nd0) (\<lambda>nd.
         Inr (m\<lparr>mm_data := nd, mm_cap := nc\<rparr>))))"

definition mm_reserve :: "(u64 \<Rightarrow> bool) \<Rightarrow> u64 \<Rightarrow> ('k, 'v) mmap \<Rightarrow> u64 \<Rightarrow> vec_err + ('k, 'v) mmap" where
  "mm_reserve ok esz m n = (if n > mm_cap m then mm_grow ok esz m n else Inr m)"

text \<open>
  The binary search of \<open>lower_pos\<close> and \<open>upper_pos\<close>: \<open>before\<close> is their test of a key; \<open>i\<close> is
  the offset \<open>first - m_data\<close>.
\<close>

fun pos_loop :: "('k \<times> 'v) option list \<Rightarrow> ('k \<Rightarrow> bool) \<Rightarrow> nat \<Rightarrow> nat \<Rightarrow> vec_err + nat" where
  "pos_loop d before i cnt =
    (if cnt = 0 then Inr i
     else
       (let step = cnt div 2 in
        bindE (slot_read d (i + step)) (\<lambda>kv.
        if before (fst kv) then pos_loop d before (i + step + 1) (cnt - (step + 1)) else pos_loop d before i step)))"

declare pos_loop.simps [simp del]

definition lower_pos :: "('k::linorder, 'v) mmap \<Rightarrow> 'k \<Rightarrow> vec_err + nat" where
  "lower_pos m k = pos_loop (mm_data m) (\<lambda>x. x < k) 0 (unat (mm_size m))"

definition upper_pos :: "('k::linorder, 'v) mmap \<Rightarrow> 'k \<Rightarrow> vec_err + nat" where
  "upper_pos m k = pos_loop (mm_data m) (\<lambda>x. \<not> k < x) 0 (unat (mm_size m))"

text \<open>The argument of \<open>insert\<close>, after the buffer \<open>m\<close> had may have been replaced by that of \<open>m'\<close>.\<close>

definition mm_deref :: "('k, 'v) mmap \<Rightarrow> ('k, 'v) mmap \<Rightarrow> ('k \<times> 'v) vref \<Rightarrow> vec_err + 'k \<times> 'v" where
  "mm_deref m m' r = (case r of Ext x \<Rightarrow> Inr x | Own i \<Rightarrow> if mm_cap m' = mm_cap m then slot_read (mm_data m') i else Inl Bad_access)"

definition mm_insert :: "(u64 \<Rightarrow> bool) \<Rightarrow> u64 \<Rightarrow> ('k::linorder, 'v) mmap \<Rightarrow> ('k \<times> 'v) vref \<Rightarrow> vec_err + ('k, 'v) mmap" where
  "mm_insert ok esz m r =
    bindE (mm_deref m m r) (\<lambda>p0.
    bindE (upper_pos m (fst p0)) (\<lambda>pos.
    bindE (if mm_size m \<ge> mm_cap m then mm_grow ok esz m (mm_size m + 1) else Inr m) (\<lambda>m'.
    bindE (foldE (\<lambda>d i. bindE (slot_read d (i - 1)) (slot_put d i)) (rev [pos + 1..<unat (mm_size m) + 1]) (mm_data m')) (\<lambda>d.
    bindE (mm_deref m (m'\<lparr>mm_data := d\<rparr>) r) (\<lambda>p.
    bindE (slot_put d pos p) (\<lambda>d'.
    Inr (m'\<lparr>mm_data := d', mm_size := mm_size m' + 1\<rparr>)))))))"

definition mm_clear :: "('k, 'v) mmap \<Rightarrow> ('k, 'v) mmap" where
  "mm_clear m = m\<lparr>mm_size := 0\<rparr>"

text \<open>\<open>lower_bound\<close> returns an iterator, as an offset; \<open>end()\<close> is \<open>mm_size\<close>.\<close>

definition mm_lower_bound :: "('k::linorder, 'v) mmap \<Rightarrow> 'k \<Rightarrow> vec_err + nat" where
  "mm_lower_bound m k = lower_pos m k"

definition mm_copy_from :: "(u64 \<Rightarrow> bool) \<Rightarrow> u64 \<Rightarrow> ('k, 'v) mmap \<Rightarrow> ('k, 'v) mmap \<Rightarrow> vec_err + ('k, 'v) mmap" where
  "mm_copy_from ok esz m src =
    bindE (mm_reserve ok esz m (mm_size src)) (\<lambda>m'.
    bindE (foldE (\<lambda>d i. bindE (slot_read (mm_data src) i) (slot_put d i)) [0..<unat (mm_size src)] (mm_data m')) (\<lambda>d.
    Inr (m'\<lparr>mm_data := d, mm_size := mm_size src\<rparr>)))"

definition mm_copy :: "(u64 \<Rightarrow> bool) \<Rightarrow> u64 \<Rightarrow> ('k, 'v) mmap \<Rightarrow> vec_err + ('k, 'v) mmap" where
  "mm_copy ok esz src = mm_copy_from ok esz mm_empty src"

definition mm_copy_assign :: "(u64 \<Rightarrow> bool) \<Rightarrow> u64 \<Rightarrow> ('k, 'v) mmap \<Rightarrow> ('k, 'v) mmap \<Rightarrow> vec_err + ('k, 'v) mmap" where
  "mm_copy_assign ok esz m src = mm_copy_from ok esz (mm_clear m) src"

section \<open>Binary search\<close>

lemma pos_loop_split:
  assumes read: "\<And>j. j < length xs \<Longrightarrow> slot_read d j = Inr (xs ! j)"
    and mono: "\<And>j j'. j \<le> j' \<Longrightarrow> j' < length xs \<Longrightarrow> P (fst (xs ! j')) \<Longrightarrow> P (fst (xs ! j))"
    and "i + cnt \<le> length xs" and "\<forall>j < i. P (fst (xs ! j))" and "\<forall>j. i + cnt \<le> j \<longrightarrow> j < length xs \<longrightarrow> \<not> P (fst (xs ! j))"
  shows "\<exists>p \<le> length xs. pos_loop d P i cnt = Inr p \<and> (\<forall>j < p. P (fst (xs ! j))) \<and> (\<forall>j. p \<le> j \<longrightarrow> j < length xs \<longrightarrow> \<not> P (fst (xs ! j)))"
  using assms(3-5)
proof (induction cnt arbitrary: i rule: less_induct)
  case (less cnt)
  show ?case
  proof (cases "cnt = 0")
    case True
    then show ?thesis using less.prems by (subst pos_loop.simps) auto
  next
    case False
    let ?s = "cnt div 2"
    have s: "?s < cnt" "i + ?s < length xs" using False less.prems(1) by auto
    show ?thesis
    proof (cases "P (fst (xs ! (i + ?s)))")
      case True
      have "\<forall>j < i + ?s + 1. P (fst (xs ! j))" using True mono [of _ "i + ?s"] s by auto
      then show ?thesis
        using less.IH [of "cnt - (?s + 1)" "i + ?s + 1"] less.prems False True s
        by (subst pos_loop.simps) (simp add: Let_def read)
    next
      case F: False
      have "\<forall>j. i + ?s \<le> j \<longrightarrow> j < length xs \<longrightarrow> \<not> P (fst (xs ! j))" using F mono [of "i + ?s"] by blast
      then show ?thesis
        using less.IH [of ?s i] less.prems False F s by (subst pos_loop.simps) (simp add: Let_def read)
    qed
  qed
qed

lemma split_takeWhile:
  assumes "p \<le> length xs" and "\<forall>j < p. P (xs ! j)" and "\<forall>j. p \<le> j \<longrightarrow> j < length xs \<longrightarrow> \<not> P (xs ! j)"
  shows "p = length (takeWhile P xs)"
proof -
  have "takeWhile P (take p xs @ drop p xs) = take p xs"
  proof (cases "p < length xs")
    case True
    then have "drop p xs = xs ! p # drop (Suc p) xs" by (simp add: Cons_nth_drop_Suc)
    moreover have "\<forall>x \<in> set (take p xs). P x" using assms(2) True by (auto simp: in_set_conv_nth)
    ultimately show ?thesis using assms(3) True by (simp add: takeWhile_append2)
  next
    case False
    then have "\<forall>x \<in> set xs. P x" using assms(1,2) by (auto simp: in_set_conv_nth)
    then show ?thesis using False by (simp add: takeWhile_eq_all_conv)
  qed
  then show ?thesis using assms(1) by simp
qed

section \<open>Sorted lists\<close>

definition mm_rep :: "u64 \<Rightarrow> ('k::linorder, 'v) mmap \<Rightarrow> ('k \<times> 'v) list \<Rightarrow> bool" where
  "mm_rep esz m xs \<longleftrightarrow> unat (mm_size m) = length xs \<and> length (mm_data m) = unat (mm_cap m) \<and> unat (mm_cap m) * unat esz < 2 ^ 64 \<and>
    (\<exists>rs. mm_data m = map Some xs @ rs) \<and> sorted (map fst xs)"

definition mm_out :: "u64 \<Rightarrow> vec_err + ('k::linorder, 'v) mmap \<Rightarrow> ('k \<times> 'v) list \<Rightarrow> bool" where
  "mm_out esz r xs \<longleftrightarrow> (case r of Inl e \<Rightarrow> e = Bad_alloc | Inr m \<Rightarrow> mm_rep esz m xs)"

lemma mm_read: "mm_rep esz m xs \<Longrightarrow> j < length xs \<Longrightarrow> slot_read (mm_data m) j = Inr (xs ! j)"
  by (auto simp: mm_rep_def slot_read_def nth_append)

lemma mm_pos:
  assumes R: "mm_rep esz m xs" and mono: "\<And>x y. x \<le> y \<Longrightarrow> P y \<Longrightarrow> P x"
  shows "pos_loop (mm_data m) P 0 (unat (mm_size m)) = Inr (length (takeWhile (P \<circ> fst) xs))"
proof -
  have s: "unat (mm_size m) = length xs" "sorted (map fst xs)" using R by (simp_all add: mm_rep_def)
  have m: "P (fst (xs ! j'))  \<Longrightarrow> P (fst (xs ! j))" if "j \<le> j'" "j' < length xs" for j j'
    using mono sorted_nth_mono [OF s(2), of j j'] that by simp
  have "\<exists>p \<le> length xs. pos_loop (mm_data m) P 0 (length xs) = Inr p \<and>
      (\<forall>j < p. P (fst (xs ! j))) \<and> (\<forall>j. p \<le> j \<longrightarrow> j < length xs \<longrightarrow> \<not> P (fst (xs ! j)))"
    by (rule pos_loop_split) (use mm_read [OF R] m in auto)
  then show ?thesis using split_takeWhile [of _ xs "P \<circ> fst"] s(1) by auto
qed

lemma lower_pos_eq: "mm_rep esz m xs \<Longrightarrow> lower_pos m k = Inr (length (takeWhile (\<lambda>x. fst x < k) xs))"
  using mm_pos [of esz m xs "\<lambda>x. x < k"] by (auto simp: lower_pos_def comp_def)

lemma upper_pos_eq: "mm_rep esz m xs \<Longrightarrow> upper_pos m k = Inr (length (takeWhile (\<lambda>x. fst x \<le> k) xs))"
  using mm_pos [of esz m xs "\<lambda>x. \<not> k < x"] by (auto simp: upper_pos_def comp_def not_less)

lemma mm_grow_out:
  fixes m :: "('k::linorder, 'v) mmap"
  assumes R: "mm_rep esz m xs" and f: "fits esz (unat n)"
  shows "mm_grow ok esz m n = Inl Bad_alloc \<and> (\<exists>n. \<not> ok n) \<or>
    (\<exists>m'. mm_grow ok esz m n = Inr m' \<and> mm_rep esz m' xs \<and> n \<le> mm_cap m' \<and> mm_size m' = mm_size m)"
proof -
  let ?c = "if mm_cap m \<noteq> 0 then mm_cap m else 4"
  obtain rs where d: "mm_data m = map Some xs @ rs" and s: "unat (mm_size m) = length xs" and c: "unat (mm_cap m) * unat esz < 2 ^ 64"
    and l: "length (mm_data m) = unat (mm_cap m)"
    using R by (auto simp: mm_rep_def)
  obtain nc where nc: "double_until ?c n = Some nc" "n \<le> nc" "?c \<le> nc" and b: "unat nc * unat esz < 2 ^ 64"
    using grown_cap [OF f c] by blast
  have esz: "esz \<noteq> 0" using f by (simp add: fits_def)
  have le: "length xs \<le> unat nc"
    using l d nc(3) by (auto simp: word_le_nat_alt split: if_splits)
  show ?thesis
  proof (cases "(operator_new ok esz nc :: vec_err + ('k \<times> 'v) option list) = Inl Bad_alloc")
    case False
    then have n: "operator_new ok esz nc = Inr (replicate (length xs) (None :: ('k \<times> 'v) option) @ replicate (unat nc - length xs) None)"
      using operator_new_cases [OF esz b, of ok, where 'a = "'k \<times> 'v"] le by (auto simp: replicate_add [symmetric])
    have "mm_rep esz (m\<lparr>mm_data := map Some xs @ replicate (unat nc - length xs) None, mm_cap := nc\<rparr>) xs"
      using R le b by (auto simp: mm_rep_def)
    then show ?thesis
      using n nc(1,2) s copy_loop [OF d, of 0 "[]" xs "replicate (length xs) None"] by (simp add: mm_grow_def)
  qed (use nc(1) operator_new_cases [OF esz b, of ok, where 'a = "'k \<times> 'v"] in \<open>auto simp: mm_grow_def\<close>)
qed


lemma mm_empty_rep: "mm_rep esz mm_empty []"
  by (simp add: mm_rep_def mm_empty_def)

lemma mm_reserve_out:
  assumes "mm_rep esz m xs" and "fits esz (unat n)"
  shows "mm_reserve ok esz m n = Inl Bad_alloc \<or>
    (\<exists>m'. mm_reserve ok esz m n = Inr m' \<and> mm_rep esz m' xs \<and> n \<le> mm_cap m')"
  using mm_grow_out [OF assms, of ok] assms(1) by (auto simp: mm_reserve_def)

section \<open>Insertion\<close>

lemma shift_down_loop:
  "p = length ys \<Longrightarrow>
   foldE (\<lambda>d i. bindE (slot_read d (i - 1)) (slot_put d i)) (rev [p + 1..<p + 1 + length zs]) (ys @ map Some zs @ c # ss) =
   Inr (ys @ hd (map Some zs @ [c]) # map Some zs @ ss)"
proof (induction zs arbitrary: c ss rule: rev_induct)
  case (snoc z zs)
  have u: "rev [p + 1..<p + 1 + length (zs @ [z])] = (p + 1 + length zs) # rev [p + 1..<p + 1 + length zs]" by simp
  have r: "slot_read (ys @ map Some zs @ Some z # c # ss) (p + length zs) = Inr z"
    using slot_simps(1) [of "ys @ map Some zs" z "c # ss"] snoc.prems by simp
  have w: "slot_put (ys @ map Some zs @ Some z # c # ss) (p + 1 + length zs) z = Inr (ys @ map Some zs @ Some z # Some z # ss)"
    using slot_simps(2) [of "ys @ map Some zs @ [Some z]" c ss z] snoc.prems by simp
  have "hd (map Some zs @ [Some z]) = hd (map Some zs @ Some z # cs)" for cs by (cases zs) auto
  then show ?case using u r w snoc.IH [of "Some z" "Some z # ss"] snoc.prems by simp
qed simp

definition insert_behind :: "('k::linorder \<times> 'v) list \<Rightarrow> 'k \<times> 'v \<Rightarrow> ('k \<times> 'v) list" where
  "insert_behind xs p = takeWhile (\<lambda>x. fst x \<le> fst p) xs @ p # dropWhile (\<lambda>x. fst x \<le> fst p) xs"

lemma insert_behind_sorted: "sorted (map fst xs) \<Longrightarrow> sorted (map fst (insert_behind xs p))"
  by (induction xs) (auto simp: insert_behind_def dest: set_takeWhileD set_dropWhileD)

lemma insert_behind_length [simp]: "length (insert_behind xs p) = Suc (length xs)"
  unfolding insert_behind_def using length_append [of "takeWhile (\<lambda>x. fst x \<le> fst p) xs" "dropWhile (\<lambda>x. fst x \<le> fst p) xs"] by simp

lemma mm_insert_out:
  assumes R: "mm_rep esz m xs" and f: "fits esz (Suc (length xs))"
  shows "mm_out esz (mm_insert ok esz m (Ext p)) (insert_behind xs p)"
proof -
  let ?ys = "takeWhile (\<lambda>x. fst x \<le> fst p) xs" and ?zs = "dropWhile (\<lambda>x. fst x \<le> fst p) xs"
  let ?g = "if mm_size m \<ge> mm_cap m then mm_grow ok esz m (mm_size m + 1) else Inr m"
  have s: "unat (mm_size m) = length xs" using R by (simp add: mm_rep_def)
  have b: "length xs + 5 < 2 ^ 63" using fits_bound [OF f] by simp
  have s1: "unat (mm_size m + 1) = Suc (length xs)" using s b by (simp add: unat_word_ariths)
  have l: "length ?ys + length ?zs = length xs" by (metis length_append takeWhile_dropWhile_id)
  have x: "xs = ?ys @ ?zs" by simp
  have U: "upper_pos m (fst p) = Inr (length ?ys)" by (rule upper_pos_eq [OF R])
  show ?thesis
  proof (cases "?g = Inl Bad_alloc")
    case True
    then show ?thesis using U by (simp add: mm_insert_def mm_deref_def mm_out_def)
  next
    case False
    then obtain m' where m': "?g = Inr m'" "mm_rep esz m' xs" "Suc (length xs) \<le> unat (mm_cap m')" "mm_size m' = mm_size m"
    proof (cases "mm_size m \<ge> mm_cap m")
      case True
      then show ?thesis using that False mm_grow_out [OF R, of "mm_size m + 1" ok] f s1 by (auto simp: word_le_nat_alt)
    next
      case False
      then show ?thesis using that [of m] R s by (auto simp: word_le_nat_alt)
    qed
    obtain rs where rs: "mm_data m' = map Some xs @ rs" "length xs + length rs = unat (mm_cap m')"
      using m'(2) by (auto simp: mm_rep_def)
    then obtain c ss where c: "rs = c # ss" using m'(3) by (cases rs) auto
    have d: "mm_data m' = map Some ?ys @ map Some ?zs @ c # ss"
      unfolding rs(1) c by (subst x) (simp only: map_append append.assoc)
    have e: "length ?ys + 1 + length ?zs = unat (mm_size m) + 1" using l s by simp
    have 1: "foldE (\<lambda>d i. bindE (slot_read d (i - 1)) (slot_put d i)) (rev [length ?ys + 1..<unat (mm_size m) + 1]) (mm_data m') =
        Inr (map Some ?ys @ hd (map Some ?zs @ [c]) # map Some ?zs @ ss)"
      using shift_down_loop [of "length ?ys" "map Some ?ys" ?zs c ss] unfolding e d by simp
    have 2: "slot_put (map Some ?ys @ hd (map Some ?zs @ [c]) # map Some ?zs @ ss) (length ?ys) p = Inr (map Some (insert_behind xs p) @ ss)"
      using slot_simps(2) [of "map Some ?ys" "hd (map Some ?zs @ [c])" "map Some ?zs @ ss" p] by (simp add: insert_behind_def)
    have "mm_rep esz (m'\<lparr>mm_data := map Some (insert_behind xs p) @ ss, mm_size := mm_size m' + 1\<rparr>) (insert_behind xs p)"
      using m'(2,3,4) rs c s1 insert_behind_sorted [of xs p] by (simp add: mm_rep_def)
    then show ?thesis using U m'(1) 1 2 unfolding mm_insert_def by (simp add: mm_deref_def mm_out_def)
  qed
qed

fun mm_inserts :: "(u64 \<Rightarrow> bool) \<Rightarrow> u64 \<Rightarrow> ('k::linorder, 'v) mmap \<Rightarrow> ('k \<times> 'v) list \<Rightarrow> vec_err + ('k, 'v) mmap" where
  "mm_inserts ok esz m [] = Inr m"
| "mm_inserts ok esz m (p # ps) = bindE (mm_insert ok esz m (Ext p)) (\<lambda>m'. mm_inserts ok esz m' ps)"

lemma mm_inserts_out:
  "mm_rep esz m xs \<Longrightarrow> fits esz (length xs + length ps) \<Longrightarrow> mm_out esz (mm_inserts ok esz m ps) (foldl insert_behind xs ps)"
proof (induction ps arbitrary: m xs)
  case (Cons p ps)
  have "mm_out esz (mm_insert ok esz m (Ext p)) (insert_behind xs p)"
    using Cons.prems fits_le [of esz "length xs + length (p # ps)" "Suc (length xs)"] by (intro mm_insert_out) simp_all
  then show ?case using Cons.IH [of _ "insert_behind xs p"] Cons.prems
    by (cases "mm_insert ok esz m (Ext p)") (simp_all add: mm_out_def)
qed (simp add: mm_out_def)

text \<open>The insertions sort, and keep equal keys in their order.\<close>

lemma insert_behind_mset [simp]: "mset (insert_behind xs p) = add_mset p (mset xs)"
  unfolding insert_behind_def by (simp add: takeWhile_dropWhile_id [symmetric] del: takeWhile_dropWhile_id) (metis mset_append takeWhile_dropWhile_id)

lemma insert_behind_filter:
  "sorted (map fst xs) \<Longrightarrow> filter (\<lambda>x. k = fst x) (insert_behind xs p) = filter (\<lambda>x. k = fst x) (xs @ [p])"
proof (induction xs)
  case (Cons x xs)
  show ?case
  proof (cases "fst x \<le> fst p")
    case True
    then have "insert_behind (x # xs) p = x # insert_behind xs p" by (simp add: insert_behind_def)
    then show ?thesis using Cons.IH Cons.prems by (cases "k = fst x") simp_all
  next
    case False
    then have "\<forall>y \<in> set (x # xs). fst p < fst y" using Cons.prems by auto
    then have "filter (\<lambda>y. k = fst y) (x # xs) = [] \<or> k \<noteq> fst p" by (auto simp: filter_empty_conv)
    then show ?thesis using False by (auto simp: insert_behind_def split: if_splits)
  qed
qed (simp add: insert_behind_def)

lemma foldl_insert_behind:
  "sorted (map fst xs) \<Longrightarrow> sorted (map fst (foldl insert_behind xs ps)) \<and> mset (foldl insert_behind xs ps) = mset (xs @ ps) \<and>
    filter (\<lambda>x. k = fst x) (foldl insert_behind xs ps) = filter (\<lambda>x. k = fst x) (xs @ ps)"
proof (induction ps arbitrary: xs)
  case (Cons p ps)
  then show ?case using insert_behind_filter [of xs k p] insert_behind_sorted [of xs p] by auto
qed simp

lemma inserts_sort: "foldl insert_behind [] ps = sort_key fst ps"
  using foldl_insert_behind [of "[]" ps] by (intro properties_for_sort_key [symmetric]) auto

text \<open>
  C31. A multimap filled by \<open>insert\<close> is the stable sort of the inserted pairs by key: either \<open>operator new\<close> has
  thrown, or iterating over it gives the pairs in key order with equal keys in insertion order, and
  \<open>lower_bound(k)\<close> is the position of the first pair whose key is not below \<open>k\<close>.
\<close>

theorem mm_inserts_sorted:
  assumes "fits esz (length ps)"
  shows "case mm_inserts ok esz mm_empty ps of
      Inl e \<Rightarrow> e = Bad_alloc
    | Inr m \<Rightarrow> mm_rep esz m (sort_key fst ps) \<and>
        mm_lower_bound m k = Inr (length (filter (\<lambda>x. fst x < k) ps))"
proof -
  have o: "mm_out esz (mm_inserts ok esz mm_empty ps) (sort_key fst ps)"
    using mm_inserts_out [OF mm_empty_rep, of esz ps ok] assms by (simp add: inserts_sort)
  have "takeWhile (\<lambda>x. fst x < k) xs = filter (\<lambda>x. fst x < k) xs" if "sorted (map fst xs)" for xs :: "('a \<times> 'b) list"
    using that by (induction xs) (auto simp: empty_filter_conv)
  moreover have "length (filter (\<lambda>x. fst x < k) (sort_key fst ps)) = length (filter (\<lambda>x. fst x < k) ps)"
    by (metis mset_filter mset_sort size_mset)
  ultimately have "length (takeWhile (\<lambda>x. fst x < k) (sort_key fst ps)) = length (filter (\<lambda>x. fst x < k) ps)" by simp
  then show ?thesis using o by (auto simp: mm_out_def mm_lower_bound_def lower_pos_eq split: sum.splits)
qed

theorem mm_inserts_sorted_witness:
  "case mm_inserts (\<lambda>_. True) 16 mm_empty [(3, 1), (1, 2), (3, 0), (2, 7 :: nat)] of
      Inl e \<Rightarrow> e = Bad_alloc
    | Inr m \<Rightarrow> mm_rep 16 m [(1, 2), (2, 7), (3, 1), (3, 0)] \<and> mm_lower_bound m (3 :: nat) = Inr 2"
proof -
  let ?ps = "[(3, 1), (1, 2), (3, 0), (2, 7 :: nat)] :: (nat \<times> nat) list"
  have "sort_key fst ?ps = [(1, 2), (2, 7), (3, 1), (3, 0)]" "length (filter (\<lambda>x. fst x < 3) ?ps) = 2" by simp_all
  then show ?thesis using mm_inserts_sorted [where esz = 16 and ps = ?ps and ok = "\<lambda>_. True" and k = 3] by (simp only:) (simp add: fits_def)
qed

end
