(* ===== verification/TM_RelPtr.thy ===== *)
theory TM_RelPtr
  imports TM_Prelude
begin

text \<open>
  \<open>RelPtr\<close> of \<open>common/rel_ptr.hpp\<close>: pointers stored as offsets from a base address, for data that is
  mapped elsewhere after a restart.  The base is a static variable of each instance \<open>RelPtr<T>\<close> of the
  template, so the bases are a function of the type; a null base aborts the process (\<open>None\<close>).
\<close>

section \<open>Operations\<close>

type_synonym rel_ptr = u64
type_synonym 't bases = "'t \<Rightarrow> u64"

definition set_base :: "'t \<Rightarrow> u64 \<Rightarrow> 't bases \<Rightarrow> 't bases" where
  "set_base ty b bs = bs(ty := b)"

definition get_base :: "'t bases \<Rightarrow> 't \<Rightarrow> u64 option" where
  "get_base bs ty = (if bs ty = 0 then None else Some (bs ty))"

definition rel_null :: rel_ptr where
  "rel_null = 0"

definition rel_of_ptr :: "'t bases \<Rightarrow> 't \<Rightarrow> u64 \<Rightarrow> rel_ptr option" where
  "rel_of_ptr bs ty p = (if p \<noteq> 0 then map_option (\<lambda>b. p - b) (get_base bs ty) else Some 0)"

text \<open>Copies and conversions between pointer types keep the offset.\<close>

definition rel_convert :: "rel_ptr \<Rightarrow> rel_ptr" where
  "rel_convert off = off"

definition rel_get :: "'t bases \<Rightarrow> 't \<Rightarrow> rel_ptr \<Rightarrow> u64 option" where
  "rel_get bs ty off = (if off = 0 then Some 0 else map_option (\<lambda>b. b + off) (get_base bs ty))"

definition rel_bool :: "rel_ptr \<Rightarrow> bool" where
  "rel_bool off \<longleftrightarrow> off \<noteq> 0"

definition rel_eq :: "rel_ptr \<Rightarrow> rel_ptr \<Rightarrow> bool" where
  "rel_eq off off' \<longleftrightarrow> off = off'"

section \<open>Round trips\<close>

text \<open>
  A stored pointer survives a move of the region: written under one base and read under another it gives the
  address at the same offset from the new base; null stays null, and under one base two stored pointers are equal
  exactly when the addresses are.
\<close>

theorem rel_ptr_relocates:
  assumes "bs ty \<noteq> 0" and "bs' ty' \<noteq> 0" and "p \<noteq> bs ty" and "q \<noteq> bs ty"
  shows "\<exists>off off'. rel_of_ptr bs ty p = Some off \<and> rel_of_ptr bs ty q = Some off' \<and>
    rel_get bs' ty' (rel_convert off) = Some (if p = 0 then 0 else bs' ty' + (p - bs ty)) \<and>
    (rel_bool off \<longleftrightarrow> p \<noteq> 0) \<and> (rel_eq off off' \<longleftrightarrow> p = q)"
  using assms by (auto simp: rel_of_ptr_def rel_get_def rel_convert_def rel_bool_def rel_eq_def get_base_def)

theorem rel_ptr_relocates_witness:
  "rel_of_ptr (\<lambda>_ :: nat. 0x1000) 0 0x1040 = Some 0x40 \<and> rel_get (\<lambda>_ :: nat. 0x9000) 0 0x40 = Some 0x9040"
proof -
  obtain off where "rel_of_ptr (\<lambda>_ :: nat. 0x1000) 0 0x1040 = Some off" "rel_get (\<lambda>_ :: nat. 0x9000) 0 (rel_convert off) = Some 0x9040"
    using rel_ptr_relocates [of "\<lambda>_ :: nat. 0x1000" 0 "\<lambda>_ :: nat. 0x9000" 0 "0x1040" 0] by auto
  then show ?thesis by (auto simp: rel_of_ptr_def get_base_def rel_convert_def)
qed

text \<open>
  A pointer to the first byte of the region is stored as null and reads back as null.
\<close>

theorem rel_ptr_base_is_null:
  assumes "bs ty \<noteq> 0"
  shows "rel_of_ptr bs ty (bs ty) = Some rel_null \<and> rel_get bs ty rel_null = Some 0"
  using assms by (simp add: rel_of_ptr_def rel_get_def rel_null_def get_base_def)

theorem rel_ptr_base_is_null_witness:
  "rel_of_ptr (\<lambda>_ :: nat. 0x1000) 0 0x1000 = Some rel_null"
  using rel_ptr_base_is_null [of "\<lambda>_ :: nat. 0x1000" 0] by simp

end
