(* ===== verification/Spec2Isabelle.thy ===== *)
theory Spec2Isabelle
  imports TM_LogMerge TM_BloomFilter TM_HashTable TM_NOrec_Safety TM_TL2_Safety TM_TinySTM_Progress TM_Romulus_Safety
    TM_TscTM_Safety TM_RegionSafety TM_RBTree_Map TM_Vector TM_MultiMap TM_RelPtr TM_SpinToken
begin

text \<open>
  A verification library for the transactional-memory runtime of the repository: the backends under
  \<open>src/backends/tm_impl\<close> and the data structures under \<open>src/backends/tm_impl/common\<close> that they and
  the instrumented programs use.

  \<^bold>\<open>The program and its parts.\<close>  Instrumented code calls a backend for every access to shared memory:
  \<open>begin\<close>, typed reads and writes, \<open>commit\<close>, and a jump back to the start on \<open>abort_tx\<close>.  A backend keeps a write set
  (redo log) per transaction, detects conflicts with other threads through a clock and locks, and writes back at commit.
  Five backends are modelled: NOrec (\<open>norec/NOrec.hpp\<close>, one sequence lock, value-based validation),
  TL2 (\<open>tl2/tl2.hpp\<close>, a version clock and a table of versioned guards), TSC-TM (\<open>tsc_tm/tsc_tm.hpp\<close>, TL2 with the
  cycle counter in place of the clock), Romulus (\<open>romulus/romulus.hpp\<close>, a version table and one commit lock) and TinySTM with commit-time locking
  (\<open>tiny_stm/tinystm_common.hpp\<close>, \<open>tiny_stm/tinystm_wbctl.hpp\<close>, lock words with owner and version, snapshot
  extension, and the spin token of \<open>common/tm_spin_token.hpp\<close>).  Shared memory comes from the region allocator
  (\<open>common/tm_region_allocator.hpp\<close>, \<open>tm_region_allocator/tm_region_allocator.cpp\<close>).  The containers of \<open>common\<close>
  serve the runtime and the programs: hash set and map, vector, multimap, red-black tree, Bloom filter, bitmap logs,
  relative pointers.

  \<^bold>\<open>Theories.\<close>
  \<^item> \<open>TM_Prelude\<close>, \<open>TM_Common\<close>: machine words, the byte memory, \<open>ValueType\<close> and \<open>any_type_t\<close> with typed loads
    and stores (\<open>tm_common.hpp\<close>).
  \<^item> \<open>TM_Interfaces\<close>: the locales \<open>set_store\<close> and \<open>map_store\<close>, the contracts of fallible sets and maps, with what follows
    for sequences of calls.  The hash set, the hash map, the tree map and the write set of TinySTM are interpretations.
  \<^item> \<open>TM_RedoLog\<close>: the meaning of a transaction as a sequence of reads and writes (\<open>seq_run\<close>), the layout discipline of cells
    (\<open>layout_ok\<close>) and the locale \<open>redo_log\<close>, the contract of a write set; the write sets of NOrec, TL2, TinySTM and
    Romulus are interpretations of it, each in the theory of its backend; TSC-TM has the write set of TL2.
  \<^item> \<open>TM_LogMerge\<close> (\<open>tm_log_entries.hpp\<close>, \<open>tm_log_merge.hpp\<close>), \<open>TM_BloomFilter\<close> (\<open>tm_bloom_filter.hpp\<close>, locale
    \<open>approx_set\<close>), \<open>TM_HashTable\<close> (\<open>tm_hash_set.hpp\<close>, \<open>tm_safe_map.hpp\<close>), \<open>TM_Vector\<close> (\<open>tm_vector.hpp\<close>),
    \<open>TM_MultiMap\<close> (\<open>TMSafeMultiMap\<close> of \<open>tm_safe_map.hpp\<close>), \<open>TM_RelPtr\<close> (\<open>rel_ptr.hpp\<close>), \<open>TM_SpinToken\<close>
    (\<open>tm_spin_token.hpp\<close>): one theory per container or primitive, with its operations and their properties.
  \<^item> \<open>TM_RBTree\<close> (the code of \<open>tm_rbtree.hpp\<close> on a heap of nodes with parent pointers), \<open>TM_RBTree_Heap\<close> (which trees a heap
    holds, and what rotations, linking and unlinking do to it), \<open>TM_RBTree_Balance\<close> (the two fix-up loops end and restore
    the balance), \<open>TM_RBTree_Map\<close> (the operations as operations on finite maps and sorted lists).
  \<^item> \<open>TM_RegionAllocator\<close> and \<open>TM_RegionSafety\<close>: the allocator and its invariants.
  \<^item> \<open>TM_NOrec\<close> (write set and local work), \<open>TM_NOrec_Steps\<close> (threads as a state machine), \<open>TM_NOrec_Safety\<close>.
  \<^item> \<open>TM_VersionedLocks\<close>: an abstract protocol of versioned locks (\<open>vstep\<close>) with its invariant (\<open>vinv\<close>), serializability and
    snapshots, proved once.  \<open>TM_TL2\<close>, \<open>TM_TL2_Steps\<close>, \<open>TM_TL2_Safety\<close> show that TL2 refines it;
    \<open>TM_TinySTM\<close> (lock words, table, write set), \<open>TM_TinySTM_Log\<close> (their laws), \<open>TM_TinySTM_Steps\<close> (threads),
    \<open>TM_TinySTM_Relation\<close>, \<open>TM_TinySTM_Access\<close>, \<open>TM_TinySTM_Commit\<close> (the simulation), \<open>TM_TinySTM_Safety\<close> and
    \<open>TM_TinySTM_Progress\<close> do the same for TinySTM and add opacity and progress.
    \<open>TM_Romulus\<close> (version-table entries, write set), \<open>TM_Romulus_Steps\<close> (threads) and \<open>TM_Romulus_Safety\<close> do it for
    Romulus, where one step of a thread can be several of the protocol.  \<open>TM_TscTM\<close> and \<open>TM_TscTM_Safety\<close> tie every step of
    TSC-TM to a step of TL2.

  \<^bold>\<open>How code becomes definitions.\<close>  A class is a record of its fields and a function per method; loops are recursive
  functions; a call that can throw, fail an assertion or never return gives a sum or option type.  A backend is a state
  machine: the record of the global and thread-local variables, a program counter per thread (\<open>norec_pc\<close>, \<open>tl2_pc\<close>,
  \<open>tsc_pc\<close>, \<open>romulus_pc\<close>, \<open>ts_pc\<close>) whose constructors carry the local variables, and a function that performs one atomic access to shared state
  and the local work up to the next one.  Data is read and written byte by byte.  An execution is a list of events,
  each a call or a step of some thread, so that the theorems quantify over all interleavings.  Ghost fields record
  the operations of the program and the commits; no step reads them.

  \<^bold>\<open>What is shown.\<close>
  \<^item> NOrec: committed transactions are serializable, live and read-only ones have read one committed memory, the sequence
    lock excludes writers from each other.
  \<^item> TL2: update transactions are serializable in the order of their commit versions, every execution is one of the
    abstract protocol, guards are mutual-exclusion locks; read-only transactions are not serializable, by a concrete run.
  \<^item> TSC-TM: update transactions are serializable whatever the cycle counters return, as long as no transaction aborts
    explicitly; a concrete run shows that \<open>abort_tx\<close> releases guards of other threads and loses an update.
  \<^item> Romulus: update transactions are serializable in the order of their clock increments, the commit lock excludes;
    read-only transactions are not serializable, by a concrete run.
  \<^item> TinySTM: update transactions are serializable, running and read-only transactions are consistent with the commits
    up to their \<open>end_version\<close>, assertions inside the operations hold, lock words stay well formed, a commit
    that runs alone succeeds, the indexed write set is a map.
  \<^item> Allocator: what is carved from the slabs is disjoint and inside the region for all sequences of calls, the layout of
    chunks, bitmap search, size classes, reuse.
  \<^item> Containers: refinement of maps, sets, lists and sorted lists; balance and iteration order of the tree;
    no false negatives of the filter; round trips of logs and pointers.
  \<^item> Where the code does not do what it means to, a theorem shows it on a concrete or symbolic input: lost entries of the
    hash containers, dropped narrow writes, missed own writes, wrapped sizes, the stolen token, the stolen guard.

  \<^bold>\<open>Bounds and assumptions.\<close>  Memory is sequentially consistent; the code uses acquire and release orderings that are
  at least as strong for the accesses in question on the clock and the locks, and weaker behaviours are not modelled.
  Programs keep the layout discipline: the cells they access transactionally do not overlap partially and lie above
  \<open>0x100000\<close>; for TinySTM an address has one type up to \<open>UINT64\<close>/\<open>POINTER\<close> (\<open>word_cells\<close>), and the write-back does not
  skip it as a stack address.  NOrec, TL2 and Romulus executions have fewer than \<open>2^62\<close> steps, TSC-TM executions fewer
  than \<open>2^61\<close> steps with time stamps below \<open>2^62\<close>, TinySTM executions
  fewer than \<open>2^44\<close> steps and 8192 threads, so that the clocks do not overflow and owners fit their field; the
  overflow code of TinySTM is modelled but outside these theorems.  The probe loops of the hash tables have
  the fuel \<open>Suc m_cap\<close>, which an execution never exhausts because a table is never full.  The theorem on carved
  memory is for requests up to \<open>2^60\<close> bytes, those on vectors for sizes that fit the address space.  In the tree heap
  addresses are not reused.  Elements of containers are values: copy constructors that throw or have side effects
  are not modelled.

  \<^bold>\<open>Not modelled.\<close>  The other backends: TinySTM's write-through and encounter-time designs, SwissTM, NOrec with
  Bloom filters, MVLog, XTM (page ownership with private copies), Left-Right (value-based validation under a commit lock), the hardware and persistent-memory backends, the lock-based,
  distributed, queue and batch backends.  The hooks (\<open>tm_hooks.cpp\<close>) and the runtime files are function-pointer, signal and
  \<open>setjmp\<close> glue around the modelled operations.  The plugin under \<open>src/plugin\<close> transforms LLVM IR, whose semantics
  is not part of the sources.  The Rust runtimes are ports of the C++ backends; the simulator, the gem5
  and GPU code, tools and benchmarks are not part of the runtime.  Statistics, tracing and random back-off change no
  modelled state.
\<close>

end
